(* ===== verification/Prelude.thy ===== *)
theory Prelude
  imports Main "HOL-Library.Word"
begin

unbundle bit_operations_syntax

text \<open>
  What every component shares: the machine integers of \<^verbatim>\<open>include/types.h\<close>, the flat
  byte-addressed memory the kernel runs in, the result type whose left side is a machine
  fault (an access C leaves undefined), the error numbers of \<^verbatim>\<open>include/entry.h\<close>, and the
  lemmas on words, byte copies and list updates that the component proofs are built from.

  C's \<open>int\<close> and \<open>long\<close> values are \<open>int\<close> here; the unsigned fields \<open>u8\<close>, \<open>u32\<close> and
  \<open>u64\<close> are words, so their arithmetic wraps. A conversion of the code between the two is
  written out: \<open>sint\<close> where an unsigned field is read as an \<open>int\<close>, \<open>word_of_int\<close> where
  an \<open>int\<close> is stored into one.
\<close>

section \<open>Machine types\<close>

type_synonym u8 = "8 word"
type_synonym u32 = "32 word"
type_synonym u64 = "64 word"

type_synonym memory = "u64 \<Rightarrow> u8"

section \<open>Faults and results\<close>

text \<open>
  A fault is an access the code makes that C does not define: a NULL pointer followed, an
  object used after it was freed, an array or a page overrun, a copy loop whose bound is a
  negative \<open>int\<close> converted to \<open>u64\<close>, which runs past the end of memory, or a signed sum or
  negation that does not fit.
\<close>

datatype fault = NullDeref | UseAfterFree | OutOfBounds | RunawayLoop | SignedOverflow

type_synonym 'a res = "fault + 'a"

definition bind_res :: "'a res \<Rightarrow> ('a \<Rightarrow> 'b res) \<Rightarrow> 'b res" where
  "bind_res r f = (case r of Inl e \<Rightarrow> Inl e | Inr x \<Rightarrow> f x)"

lemma bind_res_simps [simp]:
  "bind_res (Inr x) f = f x"
  "bind_res (Inl e) f = Inl e"
  by (simp_all add: bind_res_def)

lemma bind_res_Inr: "bind_res r f = Inr y \<longleftrightarrow> (\<exists>x. r = Inr x \<and> f x = Inr y)"
  by (cases r) auto

lemma bind_resE:
  assumes "bind_res r f = Inr y"
  obtains x where "r = Inr x" "f x = Inr y"
  using assms by (auto simp: bind_res_Inr)

lemma bind_res_split:
  "P (bind_res r f) \<longleftrightarrow> (\<forall>e. r = Inl e \<longrightarrow> P (Inl e)) \<and> (\<forall>x. r = Inr x \<longrightarrow> P (f x))"
  by (cases r) auto

section \<open>Error numbers\<close>

text \<open>\<^verbatim>\<open>include/entry.h\<close>: returned with a unary minus.\<close>

definition EINVAL :: int where "EINVAL = 1"
definition EACCES :: int where "EACCES = 4"
definition ENOMEM :: int where "ENOMEM = 5"

named_theorems errno "the error numbers as numerals"

declare EINVAL_def [errno] EACCES_def [errno] ENOMEM_def [errno]

section \<open>Words\<close>

lemma sint_u32_small: "uint (w :: u32) < 2 ^ 31 \<Longrightarrow> sint w = uint w"
  by (simp add: sint_uint signed_take_bit_eq_if_positive bit_iff_odd take_bit_int_eq_self)

lemma uint_u32_of_int: "0 \<le> k \<Longrightarrow> k < 2 ^ 32 \<Longrightarrow> uint (word_of_int k :: u32) = k"
  by (simp add: uint_word_of_int)

lemma uint_u64_of_int: "0 \<le> k \<Longrightarrow> k < 2 ^ 64 \<Longrightarrow> uint (word_of_int k :: u64) = k"
  by (simp add: uint_word_of_int)

lemma uint_u32_add_int:
  "0 \<le> uint (w :: u32) + k \<Longrightarrow> uint w + k < 2 ^ 32 \<Longrightarrow> uint (w + word_of_int k) = uint w + k"
  by (simp add: uint_word_ariths uint_word_of_int mod_add_right_eq)

lemma uint_u32_sub:
  "uint (v :: u32) \<le> uint w \<Longrightarrow> uint (w - v) = uint w - uint v"
  by (simp add: uint_sub_lem [symmetric])

lemma uint_u32_bounds [simp]: "0 \<le> uint (w :: u32)" "uint (w :: u32) < 4294967296"
  using uint_bounded [of w] by simp_all

lemma uint_ucast_u64 [simp]: "uint (ucast (w :: u32) :: u64) = uint w"
  by (simp add: uint_up_ucast is_up_def source_size_def target_size_def word_size)

lemma uint_u32_minus_1 [simp]: "uint (- 1 :: u32) = 4294967295"
  by (simp add: unsigned_minus_1_eq_mask mask_eq_exp_minus_1)

text \<open>A word's value as a natural number, for goals that mix \<open>unat\<close> and \<open>uint\<close>.\<close>

lemma word_value_nat:
  obtains k where "unat w = k" and "uint w = int k"
  by (rule that [OF refl]) simp

lemma unat_succ: "unat (w :: u32) < 4294967295 \<Longrightarrow> unat (w + 1) = Suc (unat w)"
  by (simp add: unat_word_ariths)

lemma unat_pred: "0 < unat (w :: u32) \<Longrightarrow> unat (w - 1) = unat w - 1"
  by (rule unat_minus_one) auto

section \<open>Byte copies\<close>

text \<open>
  The loop \<^verbatim>\<open>for(i=0; i<n; i++) dst[i] = src[i]\<close>: byte \<open>i\<close> is read from the memory the
  first \<open>i\<close> copies left, so overlapping ranges behave as they do in C.
\<close>

primrec copy_bytes :: "memory \<Rightarrow> u64 \<Rightarrow> u64 \<Rightarrow> nat \<Rightarrow> memory" where
  "copy_bytes m dst src 0 = m"
| "copy_bytes m dst src (Suc n) =
     (let m' = copy_bytes m dst src n
      in m'(dst + of_nat n := m' (src + of_nat n)))"

definition mem_range :: "u64 \<Rightarrow> nat \<Rightarrow> u64 set" where
  "mem_range a n = (\<lambda>i. a + of_nat i) ` {..<n}"

definition read_bytes :: "memory \<Rightarrow> u64 \<Rightarrow> nat \<Rightarrow> u8 list" where
  "read_bytes m a n = map (\<lambda>i. m (a + of_nat i)) [0..<n]"

lemma length_read_bytes [simp]: "length (read_bytes m a n) = n"
  by (simp add: read_bytes_def)

lemma read_bytes_cong:
  "(\<And>i. i < n \<Longrightarrow> m (a + of_nat i) = m' (b + of_nat i)) \<Longrightarrow> read_bytes m a n = read_bytes m' b n"
  by (simp add: read_bytes_def)

lemma nth_read_bytes [simp]: "i < n \<Longrightarrow> read_bytes m a n ! i = m (a + of_nat i)"
  by (simp add: read_bytes_def)

lemma read_bytes_0 [simp]: "read_bytes m a 0 = []"
  by (simp add: read_bytes_def)

lemma of_nat_u64_inj: "i < 2 ^ 64 \<Longrightarrow> j < 2 ^ 64 \<Longrightarrow> (of_nat i :: u64) = of_nat j \<longleftrightarrow> i = j"
proof
  assume b: "i < 2 ^ 64" "j < 2 ^ 64" and eq: "(of_nat i :: u64) = of_nat j"
  from eq have "unat (of_nat i :: u64) = unat (of_nat j :: u64)" by simp
  with b show "i = j" by (simp add: unat_of_nat)
qed simp

lemma mem_range_mono: "n \<le> k \<Longrightarrow> mem_range a n \<subseteq> mem_range a k"
  by (auto simp: mem_range_def)

lemma mem_range_off: "i < n \<Longrightarrow> a + of_nat i \<in> mem_range a n"
  by (auto simp: mem_range_def)

text \<open>A range that does not wrap around is an interval of addresses.\<close>

lemma uint_u64_add_nat:
  "uint (a :: u64) + int i < 2 ^ 64 \<Longrightarrow> uint (a + of_nat i) = uint a + int i"
proof -
  assume b: "uint a + int i < 2 ^ 64"
  have "int i < 2 ^ 64"
    using b uint_ge_0 [of a] by linarith
  then have "uint (word_of_int (int i) :: u64) = int i"
    by (intro uint_u64_of_int) simp_all
  then have "uint (of_nat i :: u64) = int i" by simp
  with b show ?thesis by (simp add: uint_word_ariths)
qed

lemma mem_range_interval:
  assumes "uint a + int n \<le> 2 ^ 64"
  shows "x \<in> mem_range a n \<longleftrightarrow> uint a \<le> uint x \<and> uint x < uint a + int n"
proof
  assume "x \<in> mem_range a n"
  then obtain i where "i < n" "x = a + of_nat i" by (auto simp: mem_range_def)
  with assms show "uint a \<le> uint x \<and> uint x < uint a + int n"
    by (simp add: uint_u64_add_nat)
next
  assume b: "uint a \<le> uint x \<and> uint x < uint a + int n"
  define i where "i = nat (uint x - uint a)"
  with b assms have "uint (a + of_nat i) = uint x"
    by (simp add: uint_u64_add_nat)
  then have "x = a + of_nat i" by (metis word_uint_eqI)
  moreover from b i_def have "i < n" by arith
  ultimately show "x \<in> mem_range a n" by (simp add: mem_range_off)
qed

text \<open>Outside the destination range a copy changes nothing.\<close>

lemma copy_bytes_frame: "x \<notin> mem_range dst n \<Longrightarrow> copy_bytes m dst src n x = m x"
proof (induction n)
  case 0
  then show ?case by simp
next
  case (Suc n)
  then have "x \<notin> mem_range dst n" "x \<noteq> dst + of_nat n"
    by (auto simp: mem_range_def)
  with Suc.IH show ?case by (simp add: Let_def)
qed

text \<open>Where the ranges do not overlap, the destination ends with the source's bytes.\<close>

lemma copy_bytes_dst:
  assumes "mem_range dst n \<inter> mem_range src n = {}" and "n \<le> 2 ^ 64" and "i < n"
  shows "copy_bytes m dst src n (dst + of_nat i) = m (src + of_nat i)"
  using assms
proof (induction n)
  case 0
  then show ?case by simp
next
  case (Suc n)
  have disj: "mem_range dst n \<inter> mem_range src n = {}"
    using Suc.prems(1) Int_mono [OF mem_range_mono mem_range_mono, of n "Suc n" n "Suc n" dst src]
    by simp
  have src: "copy_bytes m dst src n (src + of_nat n) = m (src + of_nat n)"
  proof (rule copy_bytes_frame)
    have "src + of_nat n \<in> mem_range src (Suc n)" by (rule mem_range_off) simp
    with Suc.prems(1) have "src + of_nat n \<notin> mem_range dst (Suc n)" by (auto simp only: disjoint_iff)
    then show "src + of_nat n \<notin> mem_range dst n"
      using mem_range_mono [of n "Suc n" dst] by (auto simp only: subset_iff)
  qed
  show ?case
  proof (cases "i = n")
    case True
    with src show ?thesis by (simp add: Let_def)
  next
    case False
    with Suc.prems have "i < n" by simp
    with False Suc.prems have "dst + of_nat i \<noteq> dst + (of_nat n :: u64)"
      by (simp add: of_nat_u64_inj)
    with Suc.IH [OF disj] \<open>i < n\<close> Suc.prems show ?thesis by (simp add: Let_def)
  qed
qed

lemma read_copy_bytes:
  assumes "mem_range dst n \<inter> mem_range src n = {}" and "n \<le> 2 ^ 64"
  shows "read_bytes (copy_bytes m dst src n) dst n = read_bytes m src n"
  by (rule read_bytes_cong) (rule copy_bytes_dst [OF assms])

lemma read_bytes_frame:
  assumes "mem_range dst n \<inter> mem_range a k = {}"
  shows "read_bytes (copy_bytes m dst src n) a k = read_bytes m a k"
proof (rule read_bytes_cong)
  fix i assume "i < k"
  with assms have "a + of_nat i \<notin> mem_range dst n" by (auto dest: mem_range_off)
  then show "copy_bytes m dst src n (a + of_nat i) = m (a + of_nat i)"
    by (rule copy_bytes_frame)
qed

section \<open>Lists\<close>

lemma find_filter: "find P xs = (case filter P xs of [] \<Rightarrow> None | x # _ \<Rightarrow> Some x)"
  by (induction xs) simp_all

lemma image_set_update:
  assumes "s < length xs" "b \<noteq> f (xs ! s)"
  shows "b \<in> f ` set (xs[s := x]) \<longleftrightarrow> b \<in> f ` set xs \<or> b = f x"
proof -
  have "set (xs[s := x]) = insert x (set (take s xs) \<union> set (drop (Suc s) xs))"
    using assms(1) by (simp add: upd_conv_take_nth_drop)
  moreover have "set xs = insert (xs ! s) (set (take s xs) \<union> set (drop (Suc s) xs))"
    using assms(1) id_take_nth_drop [OF assms(1)]
    by (metis Un_insert_right list.simps(15) set_append)
  ultimately show ?thesis using assms(2) by auto
qed

text \<open>Overwriting a byte list from a position on, which extends it when the bytes run past its end.\<close>

definition overwrite :: "'a list \<Rightarrow> nat \<Rightarrow> 'a list \<Rightarrow> 'a list" where
  "overwrite xs off ys = take off xs @ ys @ drop (off + length ys) xs"

lemma length_overwrite: "off \<le> length xs \<Longrightarrow> length (overwrite xs off ys) = max (length xs) (off + length ys)"
  by (simp add: overwrite_def)

lemma overwrite_nil [simp]: "overwrite xs off [] = xs"
  by (simp add: overwrite_def)

lemma nth_overwrite:
  "off \<le> length xs \<Longrightarrow> i < max (length xs) (off + length ys) \<Longrightarrow>
   overwrite xs off ys ! i = (if off \<le> i \<and> i < off + length ys then ys ! (i - off) else xs ! i)"
  by (auto simp: overwrite_def nth_append min_def)

lemma take_drop_overwrite:
  "off \<le> length xs \<Longrightarrow> take (length ys) (drop off (overwrite xs off ys)) = ys"
  by (simp add: overwrite_def)

lemma find_upt_None: "find P [0..<n] = None \<longleftrightarrow> (\<forall>i<n. \<not> P i)"
  by (auto simp: find_None_iff)

lemma find_upt_SomeD: "find P [0..<n] = Some i \<Longrightarrow> i < n \<and> P i \<and> (\<forall>j<i. \<not> P j)"
  by (auto simp: find_Some_iff)

lemma find_upt_SomeI: "i < n \<Longrightarrow> P i \<Longrightarrow> (\<And>j. j < i \<Longrightarrow> \<not> P j) \<Longrightarrow> find P [0..<n] = Some i"
  by (auto simp: find_Some_iff)

lemma length_filter_upd:
  assumes "i < length xs"
  shows "int (length (filter P (xs[i := x]))) =
         int (length (filter P xs)) - of_bool (P (xs ! i)) + of_bool (P x)"
proof -
  have split: "xs = take i xs @ xs ! i # drop (Suc i) xs"
    using assms by (simp add: id_take_nth_drop)
  have "xs[i := x] = take i xs @ x # drop (Suc i) xs"
    using assms by (simp add: upd_conv_take_nth_drop)
  moreover have "length (filter P xs) =
      length (filter P (take i xs)) + of_bool (P (xs ! i)) + length (filter P (drop (Suc i) xs))"
    by (subst split) simp
  ultimately show ?thesis by simp
qed

end
