(* ===== verification/FlatFs.thy ===== *)
theory FlatFs
  imports Prelude
begin

text \<open>
  The flat file system, \<^verbatim>\<open>Assignment2/fs.c\<close> and \<^verbatim>\<open>include/fs.h\<close>: the inode table in the
  super block, its initialisation from the page allocator, the lookup, creation and removal of
  an inode, and reading and writing the bytes of a file.

  An inode owns the bytes \<open>[s_pos, e_pos)\<close> of the kernel's memory; \<open>max_pos\<close> is one past the
  last byte written. A \<open>struct inode *\<close> is an index into the super block's table. A file name
  is the characters of the C string before its terminator. The page allocator
  (\<open>os_pfn_alloc\<close>, not under \<^verbatim>\<open>src/\<close>) is a parameter: the sequence of page frames it
  returns for the region, with the index of the next one in the state.
\<close>

section \<open>Constants and structures\<close>

definition NUM_FILES :: nat where "NUM_FILES = 32"
definition FILE_SIZE :: nat where "FILE_SIZE = 4096"
definition PAGE_SIZE :: nat where "PAGE_SIZE = 4096"
definition PAGE_SHIFT :: nat where "PAGE_SHIFT = 12"
definition NAME_BYTES :: nat where "NAME_BYTES = 256"

named_theorems fs_const "the constants of fs.h and memory.h as numerals"

declare NUM_FILES_def [fs_const] FILE_SIZE_def [fs_const] PAGE_SIZE_def [fs_const]
  PAGE_SHIFT_def [fs_const] NAME_BYTES_def [fs_const]

datatype file_type = STDIN | STDOUT | STDERR | REGULAR | PIPE | MSG_QUEUE

record inode =
  is_valid :: bool
  filename :: string
  imode :: u32
  itype :: file_type
  inode_no :: u32
  iref_count :: u32
  s_pos :: u32
  e_pos :: u32
  max_pos :: u32
  file_size :: u32

record super_block =
  num_files :: int
  fs_name :: string
  inodes :: "inode list"

section \<open>Initialisation\<close>

definition bzero :: "memory \<Rightarrow> u64 \<Rightarrow> nat \<Rightarrow> memory" where
  "bzero m a n = (\<lambda>x. if unat (x - a) < n then 0 else m x)"

text \<open>
  The loop allocates the remaining pages and compares each with the one before; the flag
  records whether the message about a gap in the region would be printed.
\<close>

primrec contiguous_loop :: "(nat \<Rightarrow> u32) \<Rightarrow> nat \<Rightarrow> u32 \<Rightarrow> nat \<Rightarrow> bool \<Rightarrow> nat \<times> bool" where
  "contiguous_loop pfn k prevpfn 0 gap = (k, gap)"
| "contiguous_loop pfn k prevpfn (Suc n) gap =
     contiguous_loop pfn (Suc k) (pfn k) n (gap \<or> pfn k \<noteq> prevpfn + 1)"

definition get_contigous_pages ::
    "(nat \<Rightarrow> u32) \<Rightarrow> nat \<Rightarrow> nat \<Rightarrow> memory \<Rightarrow> u64 \<times> nat \<times> bool \<times> memory" where
  "get_contigous_pages pfn k number_of_pages m =
     (let first_page = pfn k;
          (k', gap) = contiguous_loop pfn (Suc k) first_page (number_of_pages - 1) False;
          addr = push_bit PAGE_SHIFT (ucast first_page :: u64)
      in (addr, k', gap, bzero m addr (PAGE_SIZE * number_of_pages)))"

definition fresh_inode :: "nat \<Rightarrow> u64 \<Rightarrow> u64 \<Rightarrow> inode" where
  "fresh_inode i start end_pos =
     \<lparr>is_valid = False, filename = '''', imode = 0, itype = REGULAR, inode_no = of_nat i,
      iref_count = 0, s_pos = ucast start, e_pos = ucast end_pos, max_pos = ucast start,
      file_size = 0\<rparr>"

text \<open>
  One turn of the loop of \<open>alloc_inodes\<close>. For the first inode the page at \<open>start_reg\<close> is
  already allocated and \<open>get_contigous_pages\<close> is asked for \<open>num_pages - 1\<close> more, which are
  none; it still takes one page from the region.
\<close>

definition alloc_inode_step ::
    "(nat \<Rightarrow> u32) \<Rightarrow> u64 \<Rightarrow> nat \<Rightarrow> inode list \<times> nat \<times> memory \<Rightarrow> inode list \<times> nat \<times> memory" where
  "alloc_inode_step pfn start_reg i st =
     (let (acc, k, m) = st;
          num_pages = FILE_SIZE div PAGE_SIZE;
          fsize = of_nat (num_pages * PAGE_SIZE)
      in if i = 0
         then let (_, k', _, m') = get_contigous_pages pfn k (num_pages - 1) m
              in (acc @ [fresh_inode i start_reg (start_reg + fsize)], k', m')
         else let (file_pfn, k', _, m') = get_contigous_pages pfn k num_pages m
              in (acc @ [fresh_inode i file_pfn (file_pfn + fsize)], k', m'))"

definition alloc_inodes :: "(nat \<Rightarrow> u32) \<Rightarrow> memory \<Rightarrow> inode list \<times> nat \<times> memory" where
  "alloc_inodes pfn m =
     (let (start_reg, k, _, m') = get_contigous_pages pfn 0 1 m
      in fold (alloc_inode_step pfn start_reg) [0..<NUM_FILES] ([], k, m'))"

text \<open>
  The addresses of the inodes in pages of another region, \<open>ds_pfn\<close>: the first frame holds the super
  block, the frame after the inodes the table of operations. A \<open>struct inode\<close> takes 336 bytes.
\<close>

definition INODE_SIZE :: nat where "INODE_SIZE = 336"

definition init_file_inode :: "(nat \<Rightarrow> u32) \<Rightarrow> nat \<Rightarrow> memory \<Rightarrow> u64 list \<times> nat \<times> memory" where
  "init_file_inode ds_pfn k m =
     (let total_inode_page = INODE_SIZE * NUM_FILES div PAGE_SIZE + 3;
          (inode_pfn, k', _, m') = get_contigous_pages ds_pfn k total_inode_page m
      in (map (\<lambda>index. inode_pfn + of_nat (index * INODE_SIZE)) [0..<NUM_FILES], Suc k', m'))"

definition init_file_system :: "(nat \<Rightarrow> u32) \<Rightarrow> (nat \<Rightarrow> u32) \<Rightarrow> memory \<Rightarrow> super_block \<times> memory" where
  "init_file_system ds_pfn pfn m =
     (let (_, _, m0) = init_file_inode ds_pfn 1 m;
          (is, k, m') = alloc_inodes pfn m0
      in (\<lparr>num_files = 0, fs_name = ''flat'', inodes = is\<rparr>, m'))"

section \<open>The inode table\<close>

definition is_valid_inode :: "super_block \<Rightarrow> nat \<Rightarrow> bool" where
  "is_valid_inode sb i = is_valid (inodes sb ! i)"

definition flat_lookup_inode :: "super_block \<Rightarrow> string \<Rightarrow> nat option" where
  "flat_lookup_inode sb name =
     find (\<lambda>i. is_valid_inode sb i \<and> filename (inodes sb ! i) = name) [0..<NUM_FILES]"

definition flat_get_inode_no :: "super_block \<Rightarrow> string \<Rightarrow> int" where
  "flat_get_inode_no sb name =
     (case find (\<lambda>i. is_valid_inode sb i \<and> filename (inodes sb ! i) = name) [0..<NUM_FILES] of
        Some i \<Rightarrow> int i
      | None \<Rightarrow> -1)"

definition get_free_inode :: "super_block \<Rightarrow> int" where
  "get_free_inode sb =
     (case find (\<lambda>i. \<not> is_valid_inode sb i) [0..<NUM_FILES] of
        Some i \<Rightarrow> int i
      | None \<Rightarrow> -1)"

text \<open>
  \<open>inode_no\<close> is a \<open>u32\<close>: the \<open>-1\<close> of a full table becomes \<open>0xffffffff\<close> and fails the
  upper bound. The copy of the name has no bound of its own: a name of 256 characters or more
  runs past \<open>filename\<close>.
\<close>

definition flat_create_inode :: "super_block \<Rightarrow> string \<Rightarrow> u32 \<Rightarrow> (int \<times> super_block) res" where
  "flat_create_inode sb file_name mode =
     (let no = (word_of_int (get_free_inode sb) :: u32)
      in if flat_lookup_inode sb file_name \<noteq> None then Inr (-1, sb)
         else if 0 \<le> uint no \<and> uint no < int NUM_FILES then
           if length file_name < NAME_BYTES then
             let i = unat no;
                 ino = inodes sb ! i;
                 ino' = ino\<lparr>is_valid := True, imode := mode, filename := file_name,
                            max_pos := s_pos ino, file_size := 0, iref_count := 0\<rparr>
             in Inr (sint no, sb\<lparr>inodes := (inodes sb)[i := ino'], num_files := num_files sb + 1\<rparr>)
           else Inl OutOfBounds
         else Inr (-1, sb))"

text \<open>
  The guard of \<open>flat_remove_inode\<close> is \<^verbatim>\<open>!inode && inode->ref_count != 0\<close>: it follows the
  pointer only when it is NULL, and lets every other inode through.
\<close>

definition flat_remove_inode :: "super_block \<Rightarrow> nat option \<Rightarrow> (int \<times> super_block) res" where
  "flat_remove_inode sb p =
     (case p of
        None \<Rightarrow> Inl NullDeref
      | Some i \<Rightarrow>
          let ino = inodes sb ! i;
              ino' = ino\<lparr>is_valid := False, filename := '''', max_pos := s_pos ino,
                         file_size := 0, imode := 0\<rparr>
          in Inr (0, sb\<lparr>inodes := (inodes sb)[i := ino'], num_files := num_files sb - 1\<rparr>))"

definition flat_get_num_files :: "super_block \<Rightarrow> int" where
  "flat_get_num_files sb = num_files sb"

definition get_inode :: "super_block \<Rightarrow> nat \<Rightarrow> int \<times> super_block" where
  "get_inode sb i =
     (let n = iref_count (inodes sb ! i) + 1
      in (sint n, sb\<lparr>inodes := (inodes sb)[i := (inodes sb ! i)\<lparr>iref_count := n\<rparr>]\<rparr>))"

definition put_inode :: "super_block \<Rightarrow> nat \<Rightarrow> int \<times> super_block" where
  "put_inode sb i =
     (let n = iref_count (inodes sb ! i) - 1
      in (sint n, sb\<lparr>inodes := (inodes sb)[i := (inodes sb ! i)\<lparr>iref_count := n\<rparr>]\<rparr>))"

definition flat_open :: "super_block \<Rightarrow> nat \<Rightarrow> int \<times> super_block" where
  "flat_open sb i = (0, snd (get_inode sb i))"

definition flat_close :: "super_block \<Rightarrow> nat \<Rightarrow> int \<times> super_block" where
  "flat_close sb i = (0, snd (put_inode sb i))"

definition lookup_inode :: "super_block \<Rightarrow> string \<Rightarrow> nat option" where
  "lookup_inode sb name = flat_lookup_inode sb name"

definition create_inode :: "super_block \<Rightarrow> string \<Rightarrow> u64 \<Rightarrow> (nat option \<times> super_block) res" where
  "create_inode sb name mode =
     bind_res (flat_create_inode sb name (ucast mode)) (\<lambda>(inode_num, sb').
       if inode_num < 0 then Inr (None, sb') else Inr (Some (nat inode_num), sb'))"

section \<open>Reading and writing\<close>

text \<open>
  The address \<^verbatim>\<open>s_pos + *offp + i\<close>: the \<open>u64\<close> start plus the sign-extended \<open>int\<close> offset.
\<close>

definition file_addr :: "inode \<Rightarrow> int \<Rightarrow> u64" where
  "file_addr ino off = ucast (s_pos ino) + word_of_int off"

text \<open>
  \<open>count\<close> and \<open>*offp\<close> are C \<open>int\<close>s. A negative \<open>count\<close> passes the tests of both functions
  and turns into a loop bound of almost \<open>2 ^ 64\<close>.
\<close>

definition flat_read :: "inode \<Rightarrow> memory \<Rightarrow> u64 \<Rightarrow> int \<Rightarrow> int \<Rightarrow> (int \<times> memory) res" where
  "flat_read ino m buf count offp =
     (let remain_len = uint (file_size ino) - offp
      in if remain_len \<le> 0 then Inr (0, m)
         else let size = (if count > remain_len then remain_len else count)
              in if size < 0 then Inl RunawayLoop
                 else Inr (size, copy_bytes m buf (file_addr ino offp) (nat size)))"

definition flat_write :: "inode \<Rightarrow> memory \<Rightarrow> u64 \<Rightarrow> int \<Rightarrow> int \<Rightarrow> (int \<times> inode \<times> memory) res" where
  "flat_write ino m buf count offp =
     (let max_len = uint (e_pos ino) - offp - uint (s_pos ino)
      in if count > max_len then Inr (-1, ino, m)
         else if count < 0 then Inl RunawayLoop
         else let m' = copy_bytes m (file_addr ino offp) buf (nat count);
                  last = s_pos ino + word_of_int offp + word_of_int count;
                  mp = (if last > max_pos ino then last else max_pos ino)
              in Inr (count, ino\<lparr>max_pos := mp, file_size := mp - s_pos ino\<rparr>, m'))"

section \<open>Well-formed file systems\<close>

text \<open>
  An inode's region holds 4 KB below \<open>END = 0x80000000\<close>, its data ends inside the region, and
  its size is the length of the data. In a well-formed super block the regions are disjoint,
  valid inodes have different names and \<open>num_files\<close> counts the valid ones.
\<close>

definition region_ok :: "inode \<Rightarrow> bool" where
  "region_ok ino \<longleftrightarrow>
     uint (e_pos ino) = uint (s_pos ino) + int FILE_SIZE \<and> uint (e_pos ino) \<le> 2 ^ 31 \<and>
     uint (s_pos ino) \<le> uint (max_pos ino) \<and> uint (max_pos ino) \<le> uint (e_pos ino) \<and>
     file_size ino = max_pos ino - s_pos ino"

definition regions_apart :: "inode \<Rightarrow> inode \<Rightarrow> bool" where
  "regions_apart a b \<longleftrightarrow> uint (e_pos a) \<le> uint (s_pos b) \<or> uint (e_pos b) \<le> uint (s_pos a)"

definition fs_wf :: "super_block \<Rightarrow> bool" where
  "fs_wf sb \<longleftrightarrow>
     length (inodes sb) = NUM_FILES \<and>
     (\<forall>i<NUM_FILES. region_ok (inodes sb ! i)) \<and>
     (\<forall>i<NUM_FILES. \<forall>j<NUM_FILES. i \<noteq> j \<longrightarrow> regions_apart (inodes sb ! i) (inodes sb ! j)) \<and>
     (\<forall>i<NUM_FILES. \<forall>j<NUM_FILES. is_valid_inode sb i \<and> is_valid_inode sb j \<and>
        filename (inodes sb ! i) = filename (inodes sb ! j) \<longrightarrow> i = j) \<and>
     num_files sb = int (length (filter is_valid (inodes sb)))"

definition file_bytes :: "memory \<Rightarrow> inode \<Rightarrow> u8 list" where
  "file_bytes m ino = read_bytes m (ucast (s_pos ino)) (unat (file_size ino))"

definition file_region :: "inode \<Rightarrow> u64 set" where
  "file_region ino = mem_range (ucast (s_pos ino)) FILE_SIZE"

lemma length_file_bytes [simp]: "length (file_bytes m ino) = unat (file_size ino)"
  by (simp add: file_bytes_def)

lemma region_okD:
  assumes "region_ok ino"
  shows "uint (file_size ino) = uint (max_pos ino) - uint (s_pos ino)"
    and "uint (file_size ino) \<le> int FILE_SIZE"
    and "uint (e_pos ino) - uint (s_pos ino) = int FILE_SIZE"
    and "uint (s_pos ino) + int FILE_SIZE \<le> 2 ^ 31"
  using assms by (auto simp: region_ok_def uint_u32_sub)

lemma file_region_interval:
  "region_ok ino \<Longrightarrow>
   x \<in> file_region ino \<longleftrightarrow> uint (s_pos ino) \<le> uint x \<and> uint x < uint (s_pos ino) + int FILE_SIZE"
  unfolding file_region_def by (subst mem_range_interval) (auto dest: region_okD(4))

lemma uint_file_addr:
  assumes "region_ok ino" "0 \<le> uint (s_pos ino) + off" "off \<le> 2 ^ 62"
  shows "uint (file_addr ino off) = uint (s_pos ino) + off"
proof -
  have "uint (s_pos ino) < 2 ^ 31"
    using region_okD(4) [OF assms(1)] by (simp add: fs_const)
  with assms show ?thesis
    by (simp add: file_addr_def uint_word_ariths uint_word_of_int mod_add_right_eq)
qed

lemma file_range_interval:
  assumes "region_ok ino" "0 \<le> off" "off \<le> int FILE_SIZE" "n \<le> FILE_SIZE"
  shows "x \<in> mem_range (file_addr ino off) n \<longleftrightarrow>
         uint (s_pos ino) + off \<le> uint x \<and> uint x < uint (s_pos ino) + off + int n"
proof -
  have a: "uint (file_addr ino off) = uint (s_pos ino) + off"
    using assms by (intro uint_file_addr) (simp_all add: fs_const)
  moreover have "uint (s_pos ino) + off + int n \<le> 2 ^ 64"
    using region_okD(4) [OF assms(1)] assms by (simp add: fs_const)
  ultimately show ?thesis by (simp add: mem_range_interval)
qed

lemma file_range_subset:
  "region_ok ino \<Longrightarrow> 0 \<le> off \<Longrightarrow> off + int n \<le> int FILE_SIZE \<Longrightarrow>
   mem_range (file_addr ino off) n \<subseteq> file_region ino"
  by (auto simp: file_range_interval file_region_interval)

lemma file_addr_nat: "file_addr ino (int i) = ucast (s_pos ino) + of_nat i"
  by (simp add: file_addr_def)

lemma regions_apart_disjoint:
  "region_ok a \<Longrightarrow> region_ok b \<Longrightarrow> regions_apart a b \<Longrightarrow> file_region a \<inter> file_region b = {}"
  by (auto simp: file_region_interval regions_apart_def region_ok_def)

lemma file_bytes_frame:
  assumes "region_ok ino" and "\<And>x. x \<in> file_region ino \<Longrightarrow> m' x = m x"
  shows "file_bytes m' ino = file_bytes m ino"
  unfolding file_bytes_def
proof (rule read_bytes_cong)
  fix i assume "i < unat (file_size ino)"
  then have "i < FILE_SIZE"
    using region_okD(2) [OF assms(1)] by (simp only: unat_eq_nat_uint)
  then have "ucast (s_pos ino) + of_nat i \<in> file_region ino"
    by (simp add: file_region_def mem_range_off)
  then show "m' (ucast (s_pos ino) + of_nat i) = m (ucast (s_pos ino) + of_nat i)"
    by (rule assms(2))
qed

section \<open>Reading a file\<close>

text \<open>
  \<open>flat_read\<close> against its contract: from an offset inside the file it delivers the bytes from
  there on, at most \<open>count\<close> of them, and touches nothing but the buffer.
\<close>

definition read_count :: "inode \<Rightarrow> int \<Rightarrow> int \<Rightarrow> int" where
  "read_count ino count off = max 0 (min count (uint (file_size ino) - off))"

lemma flat_read_eq:
  assumes "0 \<le> count"
  shows "flat_read ino m buf count off =
         Inr (read_count ino count off,
              copy_bytes m buf (file_addr ino off) (nat (read_count ino count off)))"
  using assms by (auto simp: flat_read_def read_count_def Let_def)

lemma read_count_bounds:
  assumes "region_ok ino" "0 \<le> off" "0 \<le> count"
  shows "0 \<le> read_count ino count off" "read_count ino count off \<le> count"
    and "off \<le> uint (file_size ino) \<Longrightarrow> off + read_count ino count off \<le> uint (file_size ino)"
    and "read_count ino count off \<le> int FILE_SIZE"
  using assms region_okD(2) [OF assms(1)] by (auto simp: read_count_def)

lemma flat_read_bytes:
  assumes ok: "region_ok ino" and off: "0 \<le> off" and count: "0 \<le> count"
    and disj: "mem_range buf (nat (read_count ino count off)) \<inter> file_region ino = {}"
    and eq: "flat_read ino m buf count off = Inr (n, m')"
  shows "read_bytes m' buf (nat n) = take (nat count) (drop (nat off) (file_bytes m ino))"
proof -
  from eq count have n: "n = read_count ino count off"
    and m': "m' = copy_bytes m buf (file_addr ino off) (nat n)"
    by (auto simp: flat_read_eq)
  obtain sz where sz: "unat (file_size ino) = sz" "uint (file_size ino) = int sz"
    by (rule word_value_nat)
  show ?thesis
  proof (cases "off \<le> uint (file_size ino)")
    case False
    then show ?thesis using n by (simp add: read_count_def sz)
  next
    case True
    note b = read_count_bounds [OF ok off count]
    have sub: "mem_range (file_addr ino off) (nat n) \<subseteq> file_region ino"
      using ok off b(1,3) True region_okD(2) [OF ok] n by (intro file_range_subset) simp_all
    have "nat n \<le> 2 ^ 64"
      using b(1,4) n by (simp add: fs_const)
    moreover have "mem_range buf (nat n) \<inter> mem_range (file_addr ino off) (nat n) = {}"
      using disj sub unfolding n by blast
    ultimately have r: "read_bytes m' buf (nat n) = read_bytes m (file_addr ino off) (nat n)"
      unfolding m' by (intro read_copy_bytes)
    show ?thesis
    proof (rule nth_equalityI)
      show "length (read_bytes m' buf (nat n)) =
            length (take (nat count) (drop (nat off) (file_bytes m ino)))"
        using n True off count by (simp add: read_count_def sz min_def max_def, arith)
      fix i assume i: "i < length (read_bytes m' buf (nat n))"
      then have "int i < n" by simp
      with n True off count have lt: "nat off + i < unat (file_size ino)" "i < nat count"
        by (auto simp: read_count_def sz)
      have "file_addr ino off + of_nat i = ucast (s_pos ino) + of_nat (nat off + i)"
        using off by (simp add: file_addr_def)
      with i lt show "read_bytes m' buf (nat n) ! i =
            take (nat count) (drop (nat off) (file_bytes m ino)) ! i"
        by (simp add: r file_bytes_def add.assoc)
    qed
  qed
qed

section \<open>Writing a file\<close>

text \<open>
  A write that starts inside the data and stays inside the region: where the data ends
  afterwards, and what the file, its neighbours and the rest of memory hold.
\<close>

lemma flat_write_data_end:
  assumes ok: "region_ok ino" and off: "0 \<le> off" and count: "0 \<le> count"
    and fit: "off + count \<le> int FILE_SIZE"
    and eq: "flat_write ino m buf count off = Inr (r, ino', m')"
  shows "r = count" and "m' = copy_bytes m (file_addr ino off) buf (nat count)"
    and "uint (max_pos ino') = max (uint (max_pos ino)) (uint (s_pos ino) + off + count)"
    and "ino' = ino\<lparr>max_pos := max_pos ino', file_size := max_pos ino' - s_pos ino\<rparr>"
proof -
  let ?last = "s_pos ino + word_of_int off + word_of_int count"
  have b: "uint (s_pos ino) + int FILE_SIZE \<le> 2 ^ 31" and e: "uint (e_pos ino) - uint (s_pos ino) = int FILE_SIZE"
    using region_okD [OF ok] by simp_all
  have o: "uint (s_pos ino + word_of_int off) = uint (s_pos ino) + off"
    using b fit off count by (intro uint_u32_add_int) (simp_all add: fs_const)
  then have last: "uint ?last = uint (s_pos ino) + off + count"
    using b fit off count uint_u32_add_int [of "s_pos ino + word_of_int off" count]
    by (simp add: fs_const)
  have "\<not> count > uint (e_pos ino) - off - uint (s_pos ino)" "\<not> count < 0"
    using e fit count by linarith+
  then have "flat_write ino m buf count off =
      Inr (count, ino\<lparr>max_pos := (if ?last > max_pos ino then ?last else max_pos ino),
                  file_size := (if ?last > max_pos ino then ?last else max_pos ino) - s_pos ino\<rparr>,
           copy_bytes m (file_addr ino off) buf (nat count))"
    unfolding flat_write_def Let_def by (simp only: if_False)
  from eq [unfolded this] have r: "r = count" "m' = copy_bytes m (file_addr ino off) buf (nat count)"
      "ino' = ino\<lparr>max_pos := (if ?last > max_pos ino then ?last else max_pos ino),
                  file_size := (if ?last > max_pos ino then ?last else max_pos ino) - s_pos ino\<rparr>"
    by auto
  then show "r = count" "m' = copy_bytes m (file_addr ino off) buf (nat count)"
    "ino' = ino\<lparr>max_pos := max_pos ino', file_size := max_pos ino' - s_pos ino\<rparr>"
    by simp_all
  show "uint (max_pos ino') = max (uint (max_pos ino)) (uint (s_pos ino) + off + count)"
    using r(3) last by (simp add: word_less_def)
qed

lemma flat_write_total:
  assumes "region_ok ino" "0 \<le> count" "off + count \<le> int FILE_SIZE"
  shows "\<exists>ino' m'. flat_write ino m buf count off = Inr (count, ino', m')"
  using assms region_okD(3) [OF assms(1)] by (simp add: flat_write_def Let_def)

lemma flat_write_error:
  assumes "region_ok ino" "off + count > int FILE_SIZE"
  shows "flat_write ino m buf count off = Inr (-1, ino, m)"
  using assms region_okD(3) [OF assms(1)] by (simp add: flat_write_def Let_def)

lemma flat_write_region_ok:
  assumes "region_ok ino" "0 \<le> off" "0 \<le> count" "off + count \<le> int FILE_SIZE"
    and "flat_write ino m buf count off = Inr (r, ino', m')"
  shows "region_ok ino'" "s_pos ino' = s_pos ino" "e_pos ino' = e_pos ino"
    "is_valid ino' = is_valid ino" "filename ino' = filename ino" "imode ino' = imode ino"
proof -
  note w = flat_write_data_end [OF assms]
  show s: "s_pos ino' = s_pos ino" "e_pos ino' = e_pos ino" "is_valid ino' = is_valid ino"
    "filename ino' = filename ino" "imode ino' = imode ino"
    by (subst w(4), simp)+
  have "file_size ino' = max_pos ino' - s_pos ino" by (subst w(4)) simp
  with s w(3) assms show "region_ok ino'" by (auto simp: region_ok_def)
qed

lemma flat_write_bytes:
  assumes ok: "region_ok ino" and off: "0 \<le> off" "off \<le> uint (file_size ino)"
    and count: "0 \<le> count" and fit: "off + count \<le> int FILE_SIZE"
    and disj: "mem_range buf (nat count) \<inter> file_region ino = {}"
    and eq: "flat_write ino m buf count off = Inr (r, ino', m')"
  shows "file_bytes m' ino' = overwrite (file_bytes m ino) (nat off) (read_bytes m buf (nat count))"
proof -
  note w = flat_write_data_end [OF ok off(1) count fit eq]
  note w' = flat_write_region_ok [OF ok off(1) count fit eq]
  let ?dst = "file_addr ino off"
  have range: "mem_range ?dst (nat count) \<subseteq> file_region ino"
    using ok off count fit by (intro file_range_subset) simp_all
  obtain sz where sz: "unat (file_size ino) = sz" "uint (file_size ino) = int sz"
    by (rule word_value_nat)
  obtain sz' where sz': "unat (file_size ino') = sz'" "uint (file_size ino') = int sz'"
    by (rule word_value_nat)
  have size: "sz' = max sz (nat off + nat count)"
    using w(3) region_okD(1) [OF ok] region_okD(1) [OF w'(1)] w'(2) off count
    by (simp add: sz sz' max_def, arith)
  have in_region: "i < sz' \<Longrightarrow> i < FILE_SIZE" for i
    using region_okD(2) [OF w'(1)] by (simp add: sz')
  show ?thesis
  proof (rule nth_equalityI)
    show "length (file_bytes m' ino') =
          length (overwrite (file_bytes m ino) (nat off) (read_bytes m buf (nat count)))"
      using size off by (simp add: length_overwrite sz sz')
    fix i assume "i < length (file_bytes m' ino')"
    then have i: "i < sz'" by (simp add: sz')
    have at: "file_bytes m' ino' ! i = m' (file_addr ino (int i))"
      using i w'(2) by (simp add: file_bytes_def file_addr_nat sz')
    have addr: "uint (file_addr ino (int i)) = uint (s_pos ino) + int i"
      using ok in_region [OF i] by (intro uint_file_addr) (simp_all add: fs_const)
    have ov: "overwrite (file_bytes m ino) (nat off) (read_bytes m buf (nat count)) ! i =
        (if nat off \<le> i \<and> i < nat off + nat count
         then read_bytes m buf (nat count) ! (i - nat off) else file_bytes m ino ! i)"
      using off size i by (subst nth_overwrite) (simp_all add: sz)
    show "file_bytes m' ino' ! i =
          overwrite (file_bytes m ino) (nat off) (read_bytes m buf (nat count)) ! i"
    proof (cases "nat off \<le> i \<and> i < nat off + nat count")
      case True
      then have j: "i - nat off < nat count" "file_addr ino (int i) = ?dst + of_nat (i - nat off)"
        using off by (auto simp: file_addr_def of_nat_diff)
      have "m' (?dst + of_nat (i - nat off)) = m (buf + of_nat (i - nat off))"
        unfolding w(2) using disj range j(1) fit off
        by (intro copy_bytes_dst) (auto simp: fs_const disjoint_iff)
      with True j at show ?thesis unfolding ov by simp
    next
      case False
      have "file_addr ino (int i) \<notin> mem_range ?dst (nat count)"
        using False ok off count fit by (subst file_range_interval) (auto simp: addr)
      then have "m' (file_addr ino (int i)) = m (file_addr ino (int i))"
        unfolding w(2) by (rule copy_bytes_frame)
      moreover have "i < sz"
        using False size i off by (auto simp: sz)
      ultimately show ?thesis
        using False at unfolding ov by (auto simp: sz file_bytes_def file_addr_nat)
    qed
  qed
qed

lemma flat_write_frame:
  assumes "region_ok ino" "0 \<le> off" "0 \<le> count" "off + count \<le> int FILE_SIZE"
    and "flat_write ino m buf count off = Inr (r, ino', m')" and "x \<notin> file_region ino"
  shows "m' x = m x"
proof -
  have "mem_range (file_addr ino off) (nat count) \<subseteq> file_region ino"
    using assms by (intro file_range_subset) simp_all
  with assms(6) have "x \<notin> mem_range (file_addr ino off) (nat count)" by blast
  then show ?thesis
    unfolding flat_write_data_end(2) [OF assms(1-5)] by (rule copy_bytes_frame)
qed

section \<open>The inode table\<close>

lemma fs_wfD:
  assumes "fs_wf sb"
  shows "length (inodes sb) = NUM_FILES"
    and "i < NUM_FILES \<Longrightarrow> region_ok (inodes sb ! i)"
    and "i < NUM_FILES \<Longrightarrow> j < NUM_FILES \<Longrightarrow> i \<noteq> j \<Longrightarrow> regions_apart (inodes sb ! i) (inodes sb ! j)"
    and "i < NUM_FILES \<Longrightarrow> j < NUM_FILES \<Longrightarrow> is_valid_inode sb i \<Longrightarrow> is_valid_inode sb j \<Longrightarrow>
         filename (inodes sb ! i) = filename (inodes sb ! j) \<Longrightarrow> i = j"
    and "num_files sb = int (length (filter is_valid (inodes sb)))"
  using assms by (simp_all add: fs_wf_def)

lemma lookup_None_iff:
  "flat_lookup_inode sb name = None \<longleftrightarrow>
   (\<forall>i<NUM_FILES. \<not> (is_valid_inode sb i \<and> filename (inodes sb ! i) = name))"
  by (simp add: flat_lookup_inode_def find_upt_None)

lemma lookup_SomeD:
  "flat_lookup_inode sb name = Some i \<Longrightarrow>
   i < NUM_FILES \<and> is_valid_inode sb i \<and> filename (inodes sb ! i) = name"
  unfolding flat_lookup_inode_def by (drule find_upt_SomeD) simp

lemma lookup_Some_iff:
  assumes "fs_wf sb"
  shows "flat_lookup_inode sb name = Some i \<longleftrightarrow>
         i < NUM_FILES \<and> is_valid_inode sb i \<and> filename (inodes sb ! i) = name"
proof
  assume i: "i < NUM_FILES \<and> is_valid_inode sb i \<and> filename (inodes sb ! i) = name"
  then obtain j where j: "flat_lookup_inode sb name = Some j"
    using lookup_None_iff [of sb name] by fastforce
  with i have "j = i"
    using lookup_SomeD [OF j] fs_wfD(4) [OF assms] by metis
  with j show "flat_lookup_inode sb name = Some i" by simp
qed (simp add: lookup_SomeD)

lemma flat_get_inode_no_eq:
  "flat_get_inode_no sb name =
   (case flat_lookup_inode sb name of Some i \<Rightarrow> int i | None \<Rightarrow> -1)"
  by (simp add: flat_get_inode_no_def flat_lookup_inode_def)

lemma get_free_inode_cases:
  obtains (full) "get_free_inode sb = -1" "\<forall>i<NUM_FILES. is_valid_inode sb i"
  | (free) i where "get_free_inode sb = int i" "i < NUM_FILES" "\<not> is_valid_inode sb i"
      "\<forall>j<i. is_valid_inode sb j"
proof (cases "find (\<lambda>i. \<not> is_valid_inode sb i) [0..<NUM_FILES]")
  case None
  then have "get_free_inode sb = -1" "\<forall>i<NUM_FILES. is_valid_inode sb i"
    by (simp add: get_free_inode_def) (use None in \<open>simp add: find_upt_None\<close>)
  then show thesis by (rule full)
next
  case (Some i)
  from find_upt_SomeD [OF Some] show thesis
    by (intro free [of i]) (auto simp: get_free_inode_def Some)
qed

definition created_inode :: "inode \<Rightarrow> string \<Rightarrow> u32 \<Rightarrow> inode" where
  "created_inode ino name mode =
     ino\<lparr>is_valid := True, imode := mode, filename := name, max_pos := s_pos ino,
         file_size := 0, iref_count := 0\<rparr>"

text \<open>The result of a creation, branch by branch.\<close>

lemma create_exists:
  "flat_lookup_inode sb name \<noteq> None \<Longrightarrow> flat_create_inode sb name mode = Inr (-1, sb)"
  by (simp add: flat_create_inode_def Let_def)

lemma create_full:
  "\<forall>i<NUM_FILES. is_valid_inode sb i \<Longrightarrow> flat_create_inode sb name mode = Inr (-1, sb)"
  by (rule get_free_inode_cases [of sb]) (auto simp: flat_create_inode_def Let_def fs_const)

lemma create_new:
  assumes "flat_lookup_inode sb name = None" "get_free_inode sb = int i" "i < NUM_FILES"
  shows "flat_create_inode sb name mode =
    (if length name < NAME_BYTES
     then Inr (int i, sb\<lparr>inodes := (inodes sb)[i := created_inode (inodes sb ! i) name mode],
                         num_files := num_files sb + 1\<rparr>)
     else Inl OutOfBounds)"
proof -
  have u: "uint (word_of_int (int i) :: u32) = int i"
    using assms(3) by (intro uint_u32_of_int) (simp_all add: fs_const)
  moreover from u have "sint (word_of_int (int i) :: u32) = int i"
    using assms(3) by (subst sint_u32_small) (simp_all add: fs_const)
  moreover from u have "unat (word_of_int (int i) :: u32) = i"
    by (metis nat_int nat_uint_eq)
  ultimately show ?thesis
    using assms by (simp add: flat_create_inode_def Let_def created_inode_def)
qed

lemma created_inode_simps [simp]:
  "is_valid (created_inode ino name mode)" "filename (created_inode ino name mode) = name"
  "imode (created_inode ino name mode) = mode" "file_size (created_inode ino name mode) = 0"
  "s_pos (created_inode ino name mode) = s_pos ino" "e_pos (created_inode ino name mode) = e_pos ino"
  by (simp_all add: created_inode_def)

lemma region_ok_created: "region_ok ino \<Longrightarrow> region_ok (created_inode ino name mode)"
  by (auto simp: region_ok_def created_inode_def)

text \<open>
  Replacing one inode by another with the same region keeps the table well formed, as long as
  the new one's name is not taken and the count is adjusted.
\<close>

lemma fs_wf_upd:
  assumes wf: "fs_wf sb" and i: "i < NUM_FILES"
    and ino: "region_ok ino" "s_pos ino = s_pos (inodes sb ! i)" "e_pos ino = e_pos (inodes sb ! i)"
    and name: "is_valid ino \<Longrightarrow> \<forall>j<NUM_FILES. j \<noteq> i \<longrightarrow> is_valid_inode sb j \<longrightarrow>
      filename (inodes sb ! j) \<noteq> filename ino"
    and nf: "nf = num_files sb - of_bool (is_valid_inode sb i) + of_bool (is_valid ino)"
  shows "fs_wf (sb\<lparr>inodes := (inodes sb)[i := ino], num_files := nf\<rparr>)"
proof -
  note wfD = fs_wfD [OF wf]
  have "regions_apart (inodes sb ! j) (inodes sb ! k) \<Longrightarrow>
        regions_apart ((inodes sb)[i := ino] ! j) ((inodes sb)[i := ino] ! k)" for j k
    using i ino wfD(1) by (auto simp: regions_apart_def nth_list_update)
  moreover have "nf = int (length (filter is_valid ((inodes sb)[i := ino])))"
    using i wfD(1,5) nf by (subst length_filter_upd) (simp_all add: is_valid_inode_def)
  ultimately show ?thesis
    using wfD(1-4) ino(1) name i
    unfolding fs_wf_def is_valid_inode_def by (auto simp: nth_list_update)
qed

lemma create_wf:
  assumes wf: "fs_wf sb" and eq: "flat_create_inode sb name mode = Inr (r, sb')"
  shows "fs_wf sb'"
proof (cases "flat_lookup_inode sb name")
  case (Some j)
  then show ?thesis using wf eq create_exists [of sb name mode] by simp
next
  case None
  show ?thesis
  proof (rule get_free_inode_cases [of sb])
    assume "\<forall>i<NUM_FILES. is_valid_inode sb i"
    then show ?thesis using wf eq create_full by simp
  next
    fix i assume i: "get_free_inode sb = int i" "i < NUM_FILES" "\<not> is_valid_inode sb i"
    from eq create_new [OF None i(1,2)]
    have "sb' = sb\<lparr>inodes := (inodes sb)[i := created_inode (inodes sb ! i) name mode],
                   num_files := num_files sb + 1\<rparr>"
      by (auto split: if_splits)
    moreover have "fs_wf \<dots>"
      using wf i None fs_wfD(2) [OF wf i(2)]
      by (intro fs_wf_upd) (auto simp: region_ok_created lookup_None_iff)
    ultimately show ?thesis by simp
  qed
qed

text \<open>What a successful creation leaves in the table.\<close>

lemma create_lookup:
  assumes wf: "fs_wf sb" and eq: "flat_create_inode sb name mode = Inr (r, sb')" and r: "0 \<le> r"
  shows "flat_lookup_inode sb name = None"
    and "flat_lookup_inode sb' name = Some (nat r)"
    and "inodes sb' ! nat r = created_inode (inodes sb ! nat r) name mode"
    and "\<forall>i. i \<noteq> nat r \<longrightarrow> inodes sb' ! i = inodes sb ! i"
    and "\<not> is_valid_inode sb (nat r)" and "nat r < NUM_FILES"
proof -
  show none: "flat_lookup_inode sb name = None"
    using eq r create_exists [of sb name mode] by (cases "flat_lookup_inode sb name") auto
  have "\<exists>i. get_free_inode sb = int i \<and> i < NUM_FILES \<and> \<not> is_valid_inode sb i"
    using eq r create_full [of sb name mode] by (rule_tac get_free_inode_cases [of sb]) auto
  then obtain i where i: "get_free_inode sb = int i" "i < NUM_FILES" "\<not> is_valid_inode sb i"
    by blast
  from eq create_new [OF none i(1,2)] have ri: "r = int i"
    and sb': "sb' = sb\<lparr>inodes := (inodes sb)[i := created_inode (inodes sb ! i) name mode],
                       num_files := num_files sb + 1\<rparr>"
    by (auto split: if_splits)
  show "\<not> is_valid_inode sb (nat r)" "nat r < NUM_FILES" using i ri by simp_all
  show new: "inodes sb' ! nat r = created_inode (inodes sb ! nat r) name mode"
    and "\<forall>i. i \<noteq> nat r \<longrightarrow> inodes sb' ! i = inodes sb ! i"
    using sb' ri i fs_wfD(1) [OF wf] by simp_all
  show "flat_lookup_inode sb' name = Some (nat r)"
    using new i ri by (simp add: lookup_Some_iff [OF create_wf [OF wf eq]] is_valid_inode_def)
qed

lemma create_fail:
  assumes "flat_create_inode sb name mode = Inr (r, sb')" and "r < 0"
  shows "r = -1" "sb' = sb"
proof -
  have "r = -1 \<and> sb' = sb"
  proof (cases "flat_lookup_inode sb name")
    case (Some j)
    then show ?thesis using assms create_exists [of sb name mode] by simp
  next
    case None
    show ?thesis
    proof (rule get_free_inode_cases [of sb])
      assume "\<forall>i<NUM_FILES. is_valid_inode sb i"
      then show ?thesis using assms create_full by simp
    next
      fix i assume "get_free_inode sb = int i" "i < NUM_FILES"
      then show ?thesis using assms create_new [OF None] by (auto split: if_splits)
    qed
  qed
  then show "r = -1" "sb' = sb" by simp_all
qed

lemma create_lookup_other:
  assumes wf: "fs_wf sb" and eq: "flat_create_inode sb name mode = Inr (r, sb')" and ne: "name' \<noteq> name"
  shows "flat_lookup_inode sb' name' = flat_lookup_inode sb name'"
proof (cases "0 \<le> r")
  case True
  note c = create_lookup [OF wf eq True]
  have "flat_lookup_inode sb' name' = Some i \<longleftrightarrow> flat_lookup_inode sb name' = Some i" for i
    unfolding lookup_Some_iff [OF wf] lookup_Some_iff [OF create_wf [OF wf eq]]
    using c(3,4,5) ne by (cases "i = nat r") (auto simp: is_valid_inode_def)
  then show ?thesis
    by (cases "flat_lookup_inode sb name'"; cases "flat_lookup_inode sb' name'") auto
next
  case False
  then show ?thesis using create_fail [OF eq] by simp
qed

text \<open>Removal: the entry is free afterwards, and its name is gone.\<close>

lemma remove_wf:
  assumes wf: "fs_wf sb" and i: "i < NUM_FILES" "is_valid_inode sb i"
    and eq: "flat_remove_inode sb (Some i) = Inr (r, sb')"
  shows "fs_wf sb'"
proof -
  let ?ino = "(inodes sb ! i)\<lparr>is_valid := False, filename := '''', max_pos := s_pos (inodes sb ! i),
                         file_size := 0, imode := 0\<rparr>"
  have "region_ok ?ino"
    using fs_wfD(2) [OF wf i(1)] by (auto simp: region_ok_def)
  then have "fs_wf (sb\<lparr>inodes := (inodes sb)[i := ?ino], num_files := num_files sb - 1\<rparr>)"
    using i by (intro fs_wf_upd [OF wf]) simp_all
  with eq show ?thesis by (simp add: flat_remove_inode_def Let_def)
qed

lemma remove_lookup:
  assumes wf: "fs_wf sb" and eq: "flat_remove_inode sb (Some i) = Inr (r, sb')"
    and lk: "flat_lookup_inode sb name = Some i"
  shows "r = 0" "flat_lookup_inode sb' name = None"
    and "name' \<noteq> name \<Longrightarrow> flat_lookup_inode sb' name' = flat_lookup_inode sb name'"
proof -
  note i = lookup_SomeD [OF lk]
  have wf': "fs_wf sb'" using remove_wf [OF wf _ _ eq] i by blast
  have sb': "\<not> is_valid_inode sb' i" "\<And>j. j \<noteq> i \<Longrightarrow> inodes sb' ! j = inodes sb ! j"
    using eq i fs_wfD(1) [OF wf] by (auto simp: flat_remove_inode_def Let_def is_valid_inode_def)
  have at: "flat_lookup_inode sb' n = Some j \<longleftrightarrow> j \<noteq> i \<and> flat_lookup_inode sb n = Some j" for n j
    unfolding lookup_Some_iff [OF wf] lookup_Some_iff [OF wf']
    using sb' by (cases "j = i") (auto simp: is_valid_inode_def)
  show "r = 0" using eq by (simp add: flat_remove_inode_def Let_def)
  show "flat_lookup_inode sb' name = None"
    using at [of name] lk by (metis not_None_eq option.inject)
  assume "name' \<noteq> name"
  then have "flat_lookup_inode sb name' \<noteq> Some i"
    using i lookup_SomeD [of sb name' i] by auto
  then show "flat_lookup_inode sb' name' = flat_lookup_inode sb name'"
    using at [of name'] by (metis not_None_eq)
qed

section \<open>What initialisation leaves\<close>

text \<open>
  The page frames the file store is made of: inode \<open>0\<close> takes the first page of the region, the
  second is allocated and not used, and inode \<open>i\<close> takes page \<open>i + 1\<close>.
\<close>

definition store_page :: "nat \<Rightarrow> nat" where
  "store_page i = (if i = 0 then 0 else Suc i)"

definition page_addr :: "u32 \<Rightarrow> u64" where
  "page_addr p = push_bit PAGE_SHIFT (ucast p)"

lemma uint_page_addr:
  assumes "uint p < 2 ^ 19"
  shows "uint (page_addr p) = uint p * 4096"
proof -
  have "uint (push_bit 12 (ucast p :: u64)) = take_bit 64 (uint p * 4096)"
    by (simp add: push_bit_eq_mult uint_word_ariths take_bit_eq_mod)
  also have "\<dots> = uint p * 4096"
    using assms by (simp add: take_bit_int_eq_self)
  finally show ?thesis by (simp add: page_addr_def fs_const)
qed

lemma get_contigous_one:
  "n \<le> 1 \<Longrightarrow> \<exists>m'. get_contigous_pages pfn k n m = (page_addr (pfn k), Suc k, False, m')"
  by (simp add: get_contigous_pages_def Let_def page_addr_def)

lemma alloc_step_eq:
  assumes "k = (if i = 0 then 1 else Suc i)"
  shows "\<exists>m'. alloc_inode_step pfn (page_addr (pfn 0)) i (acc, k, m) =
      (acc @ [fresh_inode i (page_addr (pfn (store_page i))) (page_addr (pfn (store_page i)) + 4096)],
       i + 2, m')"
proof (cases "i = 0")
  case True
  obtain m' where "get_contigous_pages pfn 1 0 m = (page_addr (pfn 1), 2, False, m')"
    using get_contigous_one [of 0 pfn 1 m] by auto
  with True assms show ?thesis
    by (simp add: alloc_inode_step_def store_page_def fs_const)
next
  case False
  obtain m' where "get_contigous_pages pfn (Suc i) 1 m = (page_addr (pfn (Suc i)), Suc (Suc i), False, m')"
    using get_contigous_one [of 1 pfn "Suc i" m] by auto
  with False assms show ?thesis
    by (simp add: alloc_inode_step_def store_page_def fs_const)
qed

definition initial_inodes :: "(nat \<Rightarrow> u32) \<Rightarrow> nat \<Rightarrow> inode list" where
  "initial_inodes pfn n =
     map (\<lambda>i. fresh_inode i (page_addr (pfn (store_page i))) (page_addr (pfn (store_page i)) + 4096))
       [0..<n]"

lemma alloc_fold:
  "\<exists>m'. fold (alloc_inode_step pfn (page_addr (pfn 0))) [0..<n] ([], Suc 0, m) =
     (initial_inodes pfn n, (if n = 0 then 1 else Suc n), m')"
proof (induction n)
  case 0
  then show ?case by (simp add: initial_inodes_def)
next
  case (Suc n)
  then obtain m1 where m1: "fold (alloc_inode_step pfn (page_addr (pfn 0))) [0..<n] ([], Suc 0, m) =
     (initial_inodes pfn n, (if n = 0 then 1 else Suc n), m1)"
    by blast
  let ?step = "alloc_inode_step pfn (page_addr (pfn 0))"
  have "fold ?step [0..<Suc n] ([], Suc 0, m) = ?step n (fold ?step [0..<n] ([], Suc 0, m))"
    by simp
  moreover obtain m2 where "?step n (initial_inodes pfn n, (if n = 0 then 1 else Suc n), m1) =
      (initial_inodes pfn n @ [fresh_inode n (page_addr (pfn (store_page n)))
        (page_addr (pfn (store_page n)) + 4096)], n + 2, m2)"
    using alloc_step_eq [OF refl] by blast
  ultimately have "fold ?step [0..<Suc n] ([], Suc 0, m) = (initial_inodes pfn (Suc n), n + 2, m2)"
    unfolding m1 by (simp add: initial_inodes_def)
  then show ?case by auto
qed

text \<open>The inodes do not overlap, and their pages have room for them.\<close>

lemma inode_slots:
  assumes eq: "init_file_inode ds_pfn k m = (addrs, k', m')" and ij: "i < NUM_FILES" "j < NUM_FILES" "i \<noteq> j"
  shows "mem_range (addrs ! i) INODE_SIZE \<inter> mem_range (addrs ! j) INODE_SIZE = {}"
proof -
  obtain b where b: "addrs = map (\<lambda>index. b + of_nat (index * INODE_SIZE)) [0..<NUM_FILES]"
    using eq by (auto simp: init_file_inode_def Let_def split: prod.splits)
  have at: "addrs ! l = b + of_nat (l * INODE_SIZE)" if "l < NUM_FILES" for l
    using that by (simp add: b)
  have False if ac: "a < INODE_SIZE" "c < INODE_SIZE" "addrs ! i + of_nat a = addrs ! j + of_nat c" for a c
  proof -
    have "(of_nat (i * INODE_SIZE + a) :: u64) = of_nat (j * INODE_SIZE + c)"
      using ac(3) by (simp add: at ij(1,2) add.assoc)
    moreover have "i * INODE_SIZE + a < 2 ^ 64" "j * INODE_SIZE + c < 2 ^ 64"
      using ij ac(1,2) by (simp_all add: INODE_SIZE_def NUM_FILES_def)
    ultimately have "i * INODE_SIZE + a = j * INODE_SIZE + c" by (simp only: of_nat_u64_inj)
    then have "(i * INODE_SIZE + a) div INODE_SIZE = (j * INODE_SIZE + c) div INODE_SIZE" by simp
    then show False using ac(1,2) ij(3) by simp
  qed
  then show ?thesis by (auto simp: mem_range_def)
qed

lemma inode_pages: "INODE_SIZE * NUM_FILES \<le> (INODE_SIZE * NUM_FILES div PAGE_SIZE + 3) * PAGE_SIZE"
  by (simp add: INODE_SIZE_def fs_const)

lemma init_inodes:
  obtains m' where "init_file_system ds_pfn pfn m =
    (\<lparr>num_files = 0, fs_name = ''flat'', inodes = initial_inodes pfn NUM_FILES\<rparr>, m')"
proof -
  obtain addrs k0 m0 where "init_file_inode ds_pfn 1 m = (addrs, k0, m0)" by (rule prod_cases3)
  moreover obtain m1 where "get_contigous_pages pfn 0 1 m0 = (page_addr (pfn 0), Suc 0, False, m1)"
    using get_contigous_one [of 1 pfn 0 m0] by auto
  moreover obtain k m2 where "fold (alloc_inode_step pfn (page_addr (pfn 0))) [0..<NUM_FILES] ([], Suc 0, m1) =
     (initial_inodes pfn NUM_FILES, k, m2)"
    using alloc_fold by blast
  ultimately show thesis
    by (intro that [of m2]) (simp add: init_file_system_def alloc_inodes_def)
qed

lemma uint_ucast_u32: "uint (a :: u64) < 2 ^ 32 \<Longrightarrow> uint (ucast a :: u32) = uint a"
  by (simp add: unsigned_ucast_eq take_bit_int_eq_self)

lemma fresh_region:
  assumes "uint p < 2 ^ 19"
  shows "region_ok (fresh_inode i (page_addr p) (page_addr p + 4096))"
    and "uint (s_pos (fresh_inode i (page_addr p) (page_addr p + 4096))) = uint p * 4096"
    and "uint (e_pos (fresh_inode i (page_addr p) (page_addr p + 4096))) = uint p * 4096 + 4096"
proof -
  have s: "uint (page_addr p) = uint p * 4096" using assms by (rule uint_page_addr)
  then have e: "uint (page_addr p + 4096) = uint p * 4096 + 4096"
    using assms by (simp add: uint_word_ariths)
  show "uint (s_pos (fresh_inode i (page_addr p) (page_addr p + 4096))) = uint p * 4096"
    and "uint (e_pos (fresh_inode i (page_addr p) (page_addr p + 4096))) = uint p * 4096 + 4096"
    using s e assms by (simp_all add: fresh_inode_def uint_ucast_u32)
  then show "region_ok (fresh_inode i (page_addr p) (page_addr p + 4096))"
    using assms by (auto simp: region_ok_def fresh_inode_def fs_const)
qed

text \<open>
  The allocator's contract: page frames below \<open>END\<close>, and never the same one twice.
\<close>

definition distinct_frames :: "(nat \<Rightarrow> u32) \<Rightarrow> bool" where
  "distinct_frames pfn \<longleftrightarrow>
     (\<forall>k \<le> NUM_FILES. uint (pfn k) < 2 ^ 19) \<and> inj_on pfn {..NUM_FILES}"

lemma init_wf:
  assumes pages: "distinct_frames pfn" and eq: "init_file_system ds_pfn pfn m = (sb, m')"
  shows "fs_wf sb"
proof -
  obtain m1 where "init_file_system ds_pfn pfn m =
      (\<lparr>num_files = 0, fs_name = ''flat'', inodes = initial_inodes pfn NUM_FILES\<rparr>, m1)"
    by (rule init_inodes)
  with eq have sb: "num_files sb = 0" "length (inodes sb) = NUM_FILES"
    "\<And>i. i < NUM_FILES \<Longrightarrow> inodes sb ! i =
       fresh_inode i (page_addr (pfn (store_page i))) (page_addr (pfn (store_page i)) + 4096)"
    by (auto simp: initial_inodes_def)
  have pg: "store_page i \<le> NUM_FILES" if "i < NUM_FILES" for i
    using that by (simp add: store_page_def)
  then have small: "uint (pfn (store_page i)) < 2 ^ 19" if "i < NUM_FILES" for i
    using pages that by (simp add: distinct_frames_def)
  note fr = fresh_region [OF small]
  have inv: "\<not> is_valid_inode sb i" if "i < NUM_FILES" for i
    using that sb(3) by (simp add: is_valid_inode_def fresh_inode_def)
  have apart: "regions_apart (inodes sb ! i) (inodes sb ! j)"
    if ij: "i < NUM_FILES" "j < NUM_FILES" "i \<noteq> j" for i j
  proof -
    have "store_page i \<noteq> store_page j" using ij(3) by (simp add: store_page_def)
    then have "pfn (store_page i) \<noteq> pfn (store_page j)"
      using pages pg ij by (auto simp: inj_on_def distinct_frames_def)
    then have "uint (pfn (store_page i)) \<noteq> uint (pfn (store_page j))"
      by (metis word_uint_eqI)
    then show ?thesis
      unfolding regions_apart_def sb(3) [OF ij(1)] sb(3) [OF ij(2)] fr(2,3) [OF ij(1)] fr(2,3) [OF ij(2)]
      by linarith
  qed
  have "filter is_valid (inodes sb) = []"
    using inv sb(2) by (auto simp: filter_empty_conv in_set_conv_nth is_valid_inode_def)
  with sb inv apart fr(1) show ?thesis by (simp add: fs_wf_def)
qed

section \<open>The interface the open call relies on\<close>

text \<open>
  Look a name up and create it when it is missing and the caller asks for it: what
  \<^verbatim>\<open>do_regular_file_open\<close> does with the file system it is given. The result is the error to
  return or the entry found, with the new table.
\<close>

definition get_or_create ::
    "('s \<Rightarrow> string \<Rightarrow> 'i option) \<Rightarrow> ('s \<Rightarrow> string \<Rightarrow> ('i option \<times> 's) res) \<Rightarrow> bool \<Rightarrow> 's \<Rightarrow> string \<Rightarrow>
     ((int + 'i) \<times> 's) res" where
  "get_or_create lookup create may_create s name =
     (case lookup s name of
        Some i \<Rightarrow> Inr (Inr i, s)
      | None \<Rightarrow>
          if \<not> may_create then Inr (Inl (-EINVAL), s)
          else bind_res (create s name) (\<lambda>(i, s').
            case i of None \<Rightarrow> Inr (Inl (-ENOMEM), s') | Some i \<Rightarrow> Inr (Inr i, s')))"

locale name_table =
  fixes lookup :: "'s \<Rightarrow> string \<Rightarrow> 'i option"
    and create :: "'s \<Rightarrow> string \<Rightarrow> ('i option \<times> 's) res"
    and invar :: "'s \<Rightarrow> bool"
  assumes create_invar: "invar s \<Longrightarrow> create s n = Inr (r, s') \<Longrightarrow> invar s'"
    and create_found: "invar s \<Longrightarrow> create s n = Inr (Some i, s') \<Longrightarrow> lookup s' n = Some i"
    and create_other: "invar s \<Longrightarrow> create s n = Inr (r, s') \<Longrightarrow> n' \<noteq> n \<Longrightarrow> lookup s' n' = lookup s n'"
    and create_failed: "create s n = Inr (None, s') \<Longrightarrow> s' = s"
begin

lemma goc_invar:
  "invar s \<Longrightarrow> get_or_create lookup create b s n = Inr (r, s') \<Longrightarrow> invar s'"
  by (auto simp: get_or_create_def bind_res_Inr split: option.splits if_splits intro: create_invar)

lemma goc_found:
  "invar s \<Longrightarrow> get_or_create lookup create b s n = Inr (Inr i, s') \<Longrightarrow> lookup s' n = Some i"
  by (auto simp: get_or_create_def bind_res_Inr split: option.splits if_splits intro: create_found)

lemma goc_other:
  "invar s \<Longrightarrow> get_or_create lookup create b s n = Inr (r, s') \<Longrightarrow> n' \<noteq> n \<Longrightarrow>
   lookup s' n' = lookup s n'"
  by (auto simp: get_or_create_def bind_res_Inr split: option.splits if_splits intro: create_other)

lemma goc_failed:
  "get_or_create lookup create b s n = Inr (Inl e, s') \<Longrightarrow>
   s' = s \<and> lookup s n = None \<and> e \<in> {-EINVAL, -ENOMEM}"
  by (auto simp: get_or_create_def bind_res_Inr split: option.splits if_splits dest: create_failed)

lemma goc_again:
  "invar s \<Longrightarrow> get_or_create lookup create b s n = Inr (Inr i, s') \<Longrightarrow>
   get_or_create lookup create b' s' n = Inr (Inr i, s')"
  by (frule (1) goc_found) (simp add: get_or_create_def)

end

text \<open>The flat file system provides it.\<close>

lemma create_inode_Some:
  "create_inode s n mode = Inr (Some i, s') \<longleftrightarrow>
   (\<exists>r. flat_create_inode s n (ucast mode) = Inr (r, s') \<and> 0 \<le> r \<and> i = nat r)"
  by (cases "flat_create_inode s n (ucast mode)") (auto simp: create_inode_def split: prod.splits)

lemma create_inode_None:
  "create_inode s n mode = Inr (None, s') \<longleftrightarrow>
   (\<exists>r. flat_create_inode s n (ucast mode) = Inr (r, s') \<and> r < 0)"
  by (cases "flat_create_inode s n (ucast mode)") (auto simp: create_inode_def split: prod.splits)

lemma create_inode_flat:
  "create_inode s n mode = Inr (r, s') \<Longrightarrow> \<exists>r'. flat_create_inode s n (ucast mode) = Inr (r', s')"
  by (cases r) (auto simp: create_inode_None create_inode_Some)

interpretation flat: name_table lookup_inode "\<lambda>s n. create_inode s n mode" fs_wf for mode
proof unfold_locales
  fix s n r s'
  assume "fs_wf s" "create_inode s n mode = Inr (r, s')"
  then show "fs_wf s'" by (auto dest!: create_inode_flat intro: create_wf)
next
  fix s n i s'
  assume "fs_wf s" "create_inode s n mode = Inr (Some i, s')"
  then show "lookup_inode s' n = Some i"
    by (auto simp: create_inode_Some lookup_inode_def dest: create_lookup(2))
next
  fix s n r s' and n' :: string
  assume "fs_wf s" "create_inode s n mode = Inr (r, s')" "n' \<noteq> n"
  then show "lookup_inode s' n' = lookup_inode s n'"
    by (auto simp: lookup_inode_def dest!: create_inode_flat intro: create_lookup_other)
next
  fix s n s'
  assume "create_inode s n mode = Inr (None, s')"
  then show "s' = s" by (auto simp: create_inode_None dest: create_fail(2))
qed

end
