(* ===== verification/KernelState.thy ===== *)
theory KernelState
  imports FlatFs
begin

text \<open>
  The state the gemOS kernel code works on: open file objects (\<^verbatim>\<open>include/file.h\<close>), message
  queues (\<^verbatim>\<open>include/msg_queue.h\<close>), process contexts with their descriptor tables
  (\<^verbatim>\<open>include/context.h\<close>, \<^verbatim>\<open>include/schedule.h\<close>), and one record that holds them all
  together with the file system and the memory.

  A \<open>struct file *\<close> is an address in \<open>fheap\<close>, a \<open>struct msg_queue_info *\<close> one in
  \<open>qheap\<close>; NULL is \<open>None\<close>. An address that is not in the heap has been freed (or was never
  allocated): following it is the fault \<open>UseAfterFree\<close>. A context is named by its slot in the
  kernel's context table.
\<close>

section \<open>Open files\<close>

definition O_READ :: u32 where "O_READ = 1"
definition O_WRITE :: u32 where "O_WRITE = 2"
definition O_RDWR :: u32 where "O_RDWR = O_READ OR O_WRITE"
definition O_EXEC :: u32 where "O_EXEC = 4"
definition O_CREAT :: u32 where "O_CREAT = 8"

named_theorems o_flags "the open flags as numerals"

declare O_READ_def [o_flags] O_WRITE_def [o_flags] O_RDWR_def [o_flags] O_EXEC_def [o_flags]
  O_CREAT_def [o_flags]

text \<open>
  The function pointers of \<open>struct fileops\<close>, as the functions the kernel stores in them.
\<close>

datatype read_op = Do_read_kbd | Do_read_regular
datatype write_op = Do_write_console | Do_write_regular
datatype lseek_op = Do_lseek_regular
datatype close_op = Std_close | Do_file_close

record fileops =
  fread :: "read_op option"
  fwrite :: "write_op option"
  flseek :: "lseek_op option"
  fclose :: "close_op option"

definition no_fops :: fileops where
  "no_fops = \<lparr>fread = None, fwrite = None, flseek = None, fclose = None\<rparr>"

record file_obj =
  ftype :: file_type
  fmode :: u32
  offp :: u32
  ref_count :: u32
  finode :: "nat option"
  fops :: fileops
  msg_queue :: "nat option"

section \<open>Message queues\<close>

definition MAX_TXT_SIZE :: nat where "MAX_TXT_SIZE = 24"
definition MAX_MEMBERS :: nat where "MAX_MEMBERS = 4"
definition MAX_MESSAGES :: nat where "MAX_MESSAGES = 128"
definition BROADCAST_PID :: u32 where "BROADCAST_PID = 0xffffffff"

record message =
  from_pid :: u32
  to_pid :: u32
  msg_txt :: string

text \<open>
  \<open>msg_buffer\<close> holds the contents of the 128 slots (the pointers of the C array always point
  to slot \<open>k\<close> of the buffer at index \<open>k\<close>). \<open>block_process\<close> is the row-major memory of the
  \<open>int\<close> table \<open>[MAX_MEMBERS][MAX_MEMBERS]\<close>, which ends the struct, and of the three words after
  it in its page, which the code reads and never writes.
  The code scales the addresses of the slots and of \<open>member_info\<close> by the size of the struct twice, so
  that slot 4 and later ones and the member table lie past the pages it allocated; here they have
  memory of their own.
\<close>

record msg_queue_info =
  member_count :: u32
  member_pid :: "u32 list"
  msg_count :: int
  msg_buffer :: "message list"
  block_process :: "int list"

section \<open>Processes\<close>

definition MAX_PROCESSES :: nat where "MAX_PROCESSES = 7"
definition MAX_OPEN_FILES :: nat where "MAX_OPEN_FILES = 16"

named_theorems k_const "the table sizes of context.h and msg_queue.h as numerals"

declare MAX_TXT_SIZE_def [k_const] MAX_MEMBERS_def [k_const] MAX_MESSAGES_def [k_const]
  MAX_PROCESSES_def [k_const] MAX_OPEN_FILES_def [k_const]

datatype process_state = UNUSED | NEW | READY | RUNNING | WAITING | EXITING

text \<open>The 20 words of \<open>struct user_regs\<close>, in the order of the struct.\<close>

type_synonym user_regs = "u64 list"

text \<open>The areas of a process are a linked list.\<close>

record vm_area =
  vm_start :: u64
  vm_end :: u64
  access_flags :: u32

record exec_context =
  pid :: u32
  ppid :: u32
  pstate :: process_state
  vm_area :: "vm_area list"
  regs :: user_regs
  files :: "nat option list"

section \<open>The kernel\<close>

text \<open>The counters and the configuration the kernel keeps in \<open>stats\<close> and \<open>config\<close>.\<close>

record os_stats =
  swapper_invocations :: u64
  context_switches :: u64
  lw_context_switches :: u64
  ticks :: u64
  page_faults :: u64
  cow_page_faults :: u64
  syscalls :: u64
  used_memory :: u64
  num_processes :: u64
  num_vm_area :: u64
  mmap_page_faults :: u64
  user_reg_pages :: u64
  file_objects :: u64

record os_configs =
  global_mapping :: u64
  apic_tick_interval :: u64
  debug :: u64
  adv_global :: u64

record kernel =
  mem :: memory
  sb :: super_block
  fheap :: "nat \<rightharpoonup> file_obj"
  qheap :: "nat \<rightharpoonup> msg_queue_info"
  ctxs :: "nat \<rightharpoonup> exec_context"
  stats :: os_stats
  config :: os_configs

definition ctx_at :: "kernel \<Rightarrow> nat \<Rightarrow> exec_context res" where
  "ctx_at k c = (case ctxs k c of None \<Rightarrow> Inl NullDeref | Some ctx \<Rightarrow> Inr ctx)"

definition file_at :: "kernel \<Rightarrow> nat \<Rightarrow> file_obj res" where
  "file_at k p = (case fheap k p of None \<Rightarrow> Inl UseAfterFree | Some f \<Rightarrow> Inr f)"

definition queue_at :: "kernel \<Rightarrow> nat \<Rightarrow> msg_queue_info res" where
  "queue_at k q = (case qheap k q of None \<Rightarrow> Inl UseAfterFree | Some mq \<Rightarrow> Inr mq)"

text \<open>
  \<^verbatim>\<open>ctx->files[fd]\<close>, read and written: the array has \<open>MAX_OPEN_FILES\<close> entries.
\<close>

definition get_fd :: "kernel \<Rightarrow> nat \<Rightarrow> int \<Rightarrow> nat option res" where
  "get_fd k c fd =
     bind_res (ctx_at k c) (\<lambda>ctx.
       if 0 \<le> fd \<and> fd < int MAX_OPEN_FILES then Inr (files ctx ! nat fd) else Inl OutOfBounds)"

definition set_fd :: "kernel \<Rightarrow> nat \<Rightarrow> int \<Rightarrow> nat option \<Rightarrow> kernel res" where
  "set_fd k c fd p =
     bind_res (ctx_at k c) (\<lambda>ctx.
       if 0 \<le> fd \<and> fd < int MAX_OPEN_FILES
       then Inr (k\<lparr>ctxs := (ctxs k)(c \<mapsto> ctx\<lparr>files := (files ctx)[nat fd := p]\<rparr>)\<rparr>)
       else Inl OutOfBounds)"

definition put_file :: "kernel \<Rightarrow> nat \<Rightarrow> file_obj \<Rightarrow> kernel" where
  "put_file k p f = k\<lparr>fheap := (fheap k)(p \<mapsto> f)\<rparr>"

definition put_queue :: "kernel \<Rightarrow> nat \<Rightarrow> msg_queue_info \<Rightarrow> kernel" where
  "put_queue k q mq = k\<lparr>qheap := (qheap k)(q \<mapsto> mq)\<rparr>"

section \<open>Facts about the accessors\<close>

named_theorems kernel_acc "the accessors unfolded on a heap entry"

lemma ctx_at_Inr [kernel_acc]: "ctx_at k c = Inr ctx \<longleftrightarrow> ctxs k c = Some ctx"
  by (simp add: ctx_at_def split: option.splits)

lemma file_at_Inr [kernel_acc]: "file_at k p = Inr f \<longleftrightarrow> fheap k p = Some f"
  by (simp add: file_at_def split: option.splits)

lemma queue_at_Inr [kernel_acc]: "queue_at k q = Inr mq \<longleftrightarrow> qheap k q = Some mq"
  by (simp add: queue_at_def split: option.splits)

lemma acc_Some [simp]:
  "ctxs k c = Some ctx \<Longrightarrow> ctx_at k c = Inr ctx"
  "fheap k p = Some f \<Longrightarrow> file_at k p = Inr f"
  "qheap k q = Some mq \<Longrightarrow> queue_at k q = Inr mq"
  by (simp_all add: ctx_at_def file_at_def queue_at_def)

lemma acc_None [simp]:
  "fheap k p = None \<Longrightarrow> file_at k p = Inl UseAfterFree"
  "qheap k q = None \<Longrightarrow> queue_at k q = Inl UseAfterFree"
  by (simp_all add: file_at_def queue_at_def)

lemma put_file_simps [simp]:
  "mem (put_file k p f) = mem k" "sb (put_file k p f) = sb k" "ctxs (put_file k p f) = ctxs k"
  "fheap (put_file k p f) = (fheap k)(p \<mapsto> f)" "qheap (put_file k p f) = qheap k"
  "stats (put_file k p f) = stats k" "config (put_file k p f) = config k"
  by (simp_all add: put_file_def)

lemma put_queue_simps [simp]:
  "mem (put_queue k q mq) = mem k" "sb (put_queue k q mq) = sb k"
  "ctxs (put_queue k q mq) = ctxs k" "fheap (put_queue k q mq) = fheap k"
  "qheap (put_queue k q mq) = (qheap k)(q \<mapsto> mq)"
  "stats (put_queue k q mq) = stats k" "config (put_queue k q mq) = config k"
  by (simp_all add: put_queue_def)

lemma get_fd_Inr:
  "get_fd k c fd = Inr p \<longleftrightarrow>
   (\<exists>ctx. ctxs k c = Some ctx \<and> 0 \<le> fd \<and> fd < int MAX_OPEN_FILES \<and> p = files ctx ! nat fd)"
  by (auto simp: get_fd_def bind_res_Inr kernel_acc)

lemma set_fd_Inr:
  "set_fd k c fd p = Inr k' \<longleftrightarrow>
   (\<exists>ctx. ctxs k c = Some ctx \<and> 0 \<le> fd \<and> fd < int MAX_OPEN_FILES \<and>
      k' = k\<lparr>ctxs := (ctxs k)(c \<mapsto> ctx\<lparr>files := (files ctx)[nat fd := p]\<rparr>)\<rparr>)"
  by (auto simp: set_fd_def bind_res_Inr kernel_acc)

lemma get_fd_eq [simp]:
  "ctxs k c = Some ctx \<Longrightarrow> 0 \<le> fd \<Longrightarrow> fd < int MAX_OPEN_FILES \<Longrightarrow>
   get_fd k c fd = Inr (files ctx ! nat fd)"
  by (simp add: get_fd_def)

lemma set_fd_eq [simp]:
  "ctxs k c = Some ctx \<Longrightarrow> 0 \<le> fd \<Longrightarrow> fd < int MAX_OPEN_FILES \<Longrightarrow>
   set_fd k c fd p = Inr (k\<lparr>ctxs := (ctxs k)(c \<mapsto> ctx\<lparr>files := (files ctx)[nat fd := p]\<rparr>)\<rparr>)"
  by (simp add: set_fd_def)

end
