(* ===== verification/FileOps.thy ===== *)
theory FileOps
  imports KernelState
begin

text \<open>
  Open files, \<^verbatim>\<open>Assignment2/file.c\<close>: the file objects and their reference counts, the
  standard streams, open, read, write, lseek, close, dup2, sendfile and the clean-up of an
  exiting process.

  Each function takes the kernel and returns the value the C function returns with the new
  kernel, or a fault. \<open>os_page_alloc\<close> is not under \<^verbatim>\<open>src/\<close>: a function that allocates a file
  object takes the address \<open>p\<close> of the page it got and the contents \<open>page\<close> the page had, since
  \<open>alloc_file\<close> clears only some of the fields. \<open>kbd_read\<close> and \<open>do_write\<close>, also outside, are
  the two fields of \<open>device\<close>.
\<close>

section \<open>File objects\<close>

record device =
  kbd_read :: "memory \<Rightarrow> u64 \<Rightarrow> memory"
  do_write :: "memory \<Rightarrow> u64 \<Rightarrow> u64 \<Rightarrow> int"

definition free_file_object :: "kernel \<Rightarrow> nat \<Rightarrow> kernel" where
  "free_file_object k p =
     k\<lparr>fheap := (fheap k)(p := None), stats := (stats k)\<lparr>file_objects := file_objects (stats k) - 1\<rparr>\<rparr>"

definition alloc_file :: "nat \<Rightarrow> file_obj \<Rightarrow> kernel \<Rightarrow> kernel" where
  "alloc_file p page k =
     (put_file k p (page\<lparr>fops := no_fops, ref_count := 1, offp := 0\<rparr>))
       \<lparr>stats := (stats k)\<lparr>file_objects := file_objects (stats k) + 1\<rparr>\<rparr>"

text \<open>
  The common body of \<open>std_close\<close>, \<open>do_file_close\<close> and one turn of \<open>do_file_exit\<close>:
  \<^verbatim>\<open>filep->ref_count--; if(!filep->ref_count) free_file_object(filep);\<close>
\<close>

definition drop_ref :: "kernel \<Rightarrow> nat \<Rightarrow> kernel res" where
  "drop_ref k p =
     bind_res (file_at k p) (\<lambda>f.
       let f' = f\<lparr>ref_count := ref_count f - 1\<rparr>;
           k' = put_file k p f'
       in if ref_count f' = 0 then Inr (free_file_object k' p) else Inr k')"

definition std_close :: "kernel \<Rightarrow> nat \<Rightarrow> (int \<times> kernel) res" where
  "std_close k p = bind_res (drop_ref k p) (\<lambda>k'. Inr (0, k'))"

definition do_file_close :: "kernel \<Rightarrow> nat option \<Rightarrow> (int \<times> kernel) res" where
  "do_file_close k filep =
     (case filep of
        None \<Rightarrow> Inr (-EINVAL, k)
      | Some p \<Rightarrow> bind_res (drop_ref k p) (\<lambda>k'. Inr (0, k')))"

primrec file_exit_loop :: "kernel \<Rightarrow> nat option list \<Rightarrow> kernel res" where
  "file_exit_loop k [] = Inr k"
| "file_exit_loop k (fp # fps) =
     (case fp of
        None \<Rightarrow> file_exit_loop k fps
      | Some p \<Rightarrow> bind_res (drop_ref k p) (\<lambda>k'. file_exit_loop k' fps))"

definition do_file_exit :: "kernel \<Rightarrow> nat \<Rightarrow> kernel res" where
  "do_file_exit k c =
     bind_res (ctx_at k c) (\<lambda>ctx. file_exit_loop k (take MAX_OPEN_FILES (files ctx)))"

section \<open>Standard streams\<close>

fun std_type :: "nat \<Rightarrow> file_type" where
  "std_type 0 = STDIN"
| "std_type (Suc 0) = STDOUT"
| "std_type n = STDERR"

definition create_standard_IO :: "nat \<Rightarrow> file_obj \<Rightarrow> kernel \<Rightarrow> nat \<Rightarrow> kernel" where
  "create_standard_IO p page k type =
     (let f = page\<lparr>offp := 0, ref_count := 1, ftype := std_type type,
                   fmode := (if type = 0 then O_READ else O_WRITE),
                   fops := (if type = 0 then no_fops\<lparr>fread := Some Do_read_kbd\<rparr>
                            else no_fops\<lparr>fwrite := Some Do_write_console\<rparr>)
                             \<lparr>fclose := Some Std_close\<rparr>\<rparr>
      in put_file (alloc_file p page k) p f)"

definition free_fd :: "exec_context \<Rightarrow> nat option" where
  "free_fd ctx = find (\<lambda>fd. files ctx ! fd = None) [3..<MAX_OPEN_FILES]"

text \<open>
  The search for a free descriptor has no bound here: with all of them taken it reads on past
  the table.
\<close>

definition open_standard_IO :: "nat \<Rightarrow> file_obj \<Rightarrow> kernel \<Rightarrow> nat \<Rightarrow> nat \<Rightarrow> (int \<times> kernel) res" where
  "open_standard_IO p page k c type =
     bind_res (ctx_at k c) (\<lambda>ctx.
     bind_res (get_fd k c (int type)) (\<lambda>filep.
       case filep of
         None \<Rightarrow>
           bind_res (set_fd (create_standard_IO p page k type) c (int type) (Some p)) (\<lambda>k'.
             Inr (int type, k'))
       | Some q \<Rightarrow>
           bind_res (file_at k q) (\<lambda>f.
             let k1 = put_file k q (f\<lparr>ref_count := ref_count f + 1\<rparr>)
             in case free_fd ctx of
                  None \<Rightarrow> Inl OutOfBounds
                | Some fd \<Rightarrow> bind_res (set_fd k1 c (int fd) (Some q)) (\<lambda>k'. Inr (int fd, k')))))"

section \<open>Reading and writing regular files\<close>

definition do_read_regular :: "kernel \<Rightarrow> nat option \<Rightarrow> u64 \<Rightarrow> u32 \<Rightarrow> (int \<times> kernel) res" where
  "do_read_regular k filep buff count =
     (case filep of
        None \<Rightarrow> Inr (-EINVAL, k)
      | Some p \<Rightarrow> bind_res (file_at k p) (\<lambda>f.
          case finode f of
            None \<Rightarrow> Inr (-EINVAL, k)
          | Some i \<Rightarrow>
              if fmode f AND O_READ = 0 then Inr (-EACCES, k)
              else bind_res (flat_read (inodes (sb k) ! i) (mem k) buff (sint count) (sint (offp f)))
                (\<lambda>(read_count, m').
                  Inr (read_count,
                       put_file (k\<lparr>mem := m'\<rparr>) p (f\<lparr>offp := offp f + word_of_int read_count\<rparr>)))))"

text \<open>
  A write that does not fit returns \<open>-1\<close> from \<open>flat_write\<close>, and \<open>-1\<close> is then added to the
  offset like a byte count.
\<close>

definition do_write_regular :: "kernel \<Rightarrow> nat option \<Rightarrow> u64 \<Rightarrow> u32 \<Rightarrow> (int \<times> kernel) res" where
  "do_write_regular k filep buff count =
     (case filep of
        None \<Rightarrow> Inr (-EINVAL, k)
      | Some p \<Rightarrow> bind_res (file_at k p) (\<lambda>f.
          case finode f of
            None \<Rightarrow> Inr (-EINVAL, k)
          | Some i \<Rightarrow>
              if fmode f AND O_WRITE = 0 then Inr (-EACCES, k)
              else bind_res (flat_write (inodes (sb k) ! i) (mem k) buff (sint count) (sint (offp f)))
                (\<lambda>(write_count, ino', m').
                  Inr (write_count,
                       put_file
                         (k\<lparr>mem := m', sb := (sb k)\<lparr>inodes := (inodes (sb k))[i := ino']\<rparr>\<rparr>)
                         p (f\<lparr>offp := offp f + word_of_int write_count\<rparr>)))))"

datatype whence = SEEK_SET | SEEK_CUR | SEEK_END | Other_whence

text \<open>
  \<open>foffset\<close> is a \<open>long\<close>; the comparison with the unsigned \<open>file_size\<close> is made as \<open>long\<close>.
  A sum that leaves the range of \<open>long\<close> is undefined in C; here it is out of the file.
\<close>

definition seek_to :: "kernel \<Rightarrow> nat \<Rightarrow> file_obj \<Rightarrow> int res \<Rightarrow> int \<Rightarrow> (int \<times> kernel) res" where
  "seek_to k p f fsize foffset =
     bind_res fsize (\<lambda>sz.
       if foffset > sz \<or> foffset < 0 then Inr (-EINVAL, k)
       else let f' = f\<lparr>offp := word_of_int foffset\<rparr>
            in Inr (uint (offp f'), put_file k p f'))"

definition do_lseek_regular :: "kernel \<Rightarrow> nat option \<Rightarrow> int \<Rightarrow> whence \<Rightarrow> (int \<times> kernel) res" where
  "do_lseek_regular k filep offset whence =
     (case filep of
        None \<Rightarrow> Inr (-EINVAL, k)
      | Some p \<Rightarrow> bind_res (file_at k p) (\<lambda>f.
          let fsize = (case finode f of None \<Rightarrow> Inl NullDeref
                      | Some i \<Rightarrow> Inr (uint (file_size (inodes (sb k) ! i))))
          in case whence of
               SEEK_SET \<Rightarrow> seek_to k p f fsize offset
             | SEEK_CUR \<Rightarrow> seek_to k p f fsize (uint (offp f) + offset)
             | SEEK_END \<Rightarrow> bind_res fsize (\<lambda>sz. seek_to k p f fsize (sz + offset))
             | Other_whence \<Rightarrow> Inr (-EINVAL, k)))"

section \<open>Opening a regular file\<close>

text \<open>
  Looking the inode up, and creating it when it is missing and \<open>O_CREAT\<close> asks for it.
\<close>

definition open_inode ::
    "super_block \<Rightarrow> string \<Rightarrow> u64 \<Rightarrow> u64 \<Rightarrow> ((int + nat) \<times> super_block) res" where
  "open_inode s fname flags mode =
     get_or_create lookup_inode (\<lambda>s n. create_inode s n mode) (flags AND ucast O_CREAT \<noteq> 0) s fname"

text \<open>
  The permission test is \<^verbatim>\<open>finode->mode & flags != flags\<close>, which C reads as
  \<^verbatim>\<open>finode->mode & (flags != flags)\<close>. The file object is allocated before the search for a
  descriptor and stays allocated when there is none.
\<close>

definition do_regular_file_open ::
    "nat \<Rightarrow> file_obj \<Rightarrow> kernel \<Rightarrow> nat \<Rightarrow> string \<Rightarrow> u64 \<Rightarrow> u64 \<Rightarrow> (int \<times> kernel) res" where
  "do_regular_file_open p page k c fname flags mode =
     (if flags AND ucast (O_READ OR O_RDWR) = 0 then Inr (-EINVAL, k)
      else bind_res (open_inode (sb k) fname flags mode) (\<lambda>(r, s').
        let k1 = k\<lparr>sb := s'\<rparr>
        in case r of
             Inl err \<Rightarrow> Inr (err, k1)
           | Inr i \<Rightarrow>
               let flags' = flags XOR ucast O_CREAT;
                   differs = (if flags' \<noteq> flags' then 1 else 0 :: u32)
               in if imode (inodes s' ! i) AND differs \<noteq> 0 then Inr (-EACCES, k1)
                  else
                    let f = page\<lparr>offp := 0, ref_count := 1, finode := Some i, fmode := ucast flags',
                                 fops := \<lparr>fread = Some Do_read_regular, fwrite = Some Do_write_regular,
                                          flseek = Some Do_lseek_regular, fclose = Some Do_file_close\<rparr>,
                                 ftype := REGULAR\<rparr>;
                        k2 = put_file (alloc_file p page k1) p f
                    in bind_res (ctx_at k2 c) (\<lambda>ctx.
                         case free_fd ctx of
                           None \<Rightarrow> Inr (-ENOMEM, k2)
                         | Some fd \<Rightarrow> bind_res (set_fd k2 c (int fd) (Some p)) (\<lambda>k3.
                             Inr (int fd, k3)))))"

section \<open>dup2 and sendfile\<close>

definition fd_dup2 :: "kernel \<Rightarrow> nat \<Rightarrow> int \<Rightarrow> int \<Rightarrow> (int \<times> kernel) res" where
  "fd_dup2 k c oldfd newfd =
     bind_res (get_fd k c oldfd) (\<lambda>old.
       case old of
         None \<Rightarrow> Inr (-EINVAL, k)
       | Some p \<Rightarrow>
           bind_res (get_fd k c newfd) (\<lambda>new.
           bind_res (case new of None \<Rightarrow> Inr k
                     | Some q \<Rightarrow> bind_res (do_file_close k (Some q)) (\<lambda>(_, k'). Inr k')) (\<lambda>k1.
           bind_res (set_fd k1 c newfd (Some p)) (\<lambda>k2.
           bind_res (file_at k2 p) (\<lambda>f.
             Inr (newfd, put_file k2 p (f\<lparr>ref_count := ref_count f + 1\<rparr>)))))))"

text \<open>
  \<open>offset\<close> is the \<open>long\<close> the pointer refers to, or \<open>None\<close> for NULL; its new value is part of
  the result. \<open>flat_read\<close> gets the pointer cast to \<open>int *\<close> and reads the low 32 bits.
  \<open>buff\<close> is the address of the page \<open>alloc_memory_buffer\<close> returned.
\<close>

definition sendfile_read ::
    "u64 \<Rightarrow> kernel \<Rightarrow> nat \<Rightarrow> file_obj \<Rightarrow> int option \<Rightarrow> int \<Rightarrow> (int \<times> int option \<times> kernel) res" where
  "sendfile_read buff k p fin offset count =
     (case offset of
        Some off \<Rightarrow>
          (case finode fin of
             None \<Rightarrow> Inl NullDeref
           | Some i \<Rightarrow>
               bind_res (flat_read (inodes (sb k) ! i) (mem k) buff count
                           (sint (word_of_int off :: u32))) (\<lambda>(n, m').
                 Inr (n, Some (off + n), k\<lparr>mem := m'\<rparr>)))
      | None \<Rightarrow>
          bind_res (do_read_regular k (Some p) buff (word_of_int count)) (\<lambda>(n, k').
            Inr (n, None, k')))"

definition do_sendfile ::
    "u64 \<Rightarrow> kernel \<Rightarrow> nat \<Rightarrow> int \<Rightarrow> int \<Rightarrow> int option \<Rightarrow> int \<Rightarrow> (int \<times> int option \<times> kernel) res" where
  "do_sendfile buff k c outfd infd offset count =
     bind_res (get_fd k c infd) (\<lambda>inp.
       case inp of
         None \<Rightarrow> Inr (-EINVAL, offset, k)
       | Some p \<Rightarrow>
           bind_res (get_fd k c outfd) (\<lambda>outp.
             case outp of
               None \<Rightarrow> Inr (-EINVAL, offset, k)
             | Some q \<Rightarrow>
                 bind_res (file_at k p) (\<lambda>fin.
                   if fmode fin AND O_READ = 0 then Inr (-EACCES, offset, k)
                   else bind_res (file_at k q) (\<lambda>fout.
                     if fmode fout AND O_WRITE = 0 then Inr (-EACCES, offset, k)
                     else bind_res (sendfile_read buff k p fin offset count)
                       (\<lambda>(read_count, offset', k1).
                         bind_res (do_write_regular k1 (Some q) buff (word_of_int read_count))
                           (\<lambda>(n, k2). Inr (n, offset', k2)))))))"

section \<open>The contract of an open regular file\<close>

text \<open>
  Abstractly an open file is its bytes and a position in them. Reading delivers the bytes from
  the position on and moves it; writing overwrites from the position on.
\<close>

type_synonym file_view = "u8 list \<times> nat"

definition spec_read :: "nat \<Rightarrow> file_view \<Rightarrow> u8 list \<times> file_view" where
  "spec_read n v = (let (bs, off) = v; out = take n (drop off bs) in (out, (bs, off + length out)))"

definition spec_write :: "u8 list \<Rightarrow> file_view \<Rightarrow> file_view" where
  "spec_write ys v = (let (bs, off) = v in (overwrite bs off ys, off + length ys))"

definition view :: "kernel \<Rightarrow> nat \<Rightarrow> file_view option" where
  "view k p =
     (case fheap k p of
        None \<Rightarrow> None
      | Some f \<Rightarrow> (case finode f of
          None \<Rightarrow> None
        | Some i \<Rightarrow> Some (file_bytes (mem k) (inodes (sb k) ! i), unat (offp f))))"

text \<open>A regular file open at \<open>p\<close> whose position is inside the data.\<close>

definition open_regular :: "kernel \<Rightarrow> nat \<Rightarrow> nat \<Rightarrow> file_obj \<Rightarrow> bool" where
  "open_regular k p i f \<longleftrightarrow>
     fs_wf (sb k) \<and> fheap k p = Some f \<and> finode f = Some i \<and> i < NUM_FILES \<and>
     uint (offp f) \<le> uint (file_size (inodes (sb k) ! i))"

definition buffer_apart :: "kernel \<Rightarrow> u64 \<Rightarrow> nat \<Rightarrow> bool" where
  "buffer_apart k buff n \<longleftrightarrow>
     (\<forall>i<NUM_FILES. mem_range buff n \<inter> file_region (inodes (sb k) ! i) = {})"

definition file_content :: "kernel \<Rightarrow> nat \<Rightarrow> u8 list" where
  "file_content k i = file_bytes (mem k) (inodes (sb k) ! i)"

lemma open_regularD:
  assumes "open_regular k p i f"
  shows "fs_wf (sb k)" "fheap k p = Some f" "finode f = Some i" "i < NUM_FILES"
    "uint (offp f) \<le> uint (file_size (inodes (sb k) ! i))" "region_ok (inodes (sb k) ! i)"
    "uint (offp f) \<le> int FILE_SIZE" "sint (offp f) = uint (offp f)"
proof -
  show r: "region_ok (inodes (sb k) ! i)"
    using assms by (auto simp: open_regular_def dest: fs_wfD(2))
  show o: "uint (offp f) \<le> int FILE_SIZE"
    using assms region_okD(2) [OF r] by (simp add: open_regular_def)
  then show "sint (offp f) = uint (offp f)"
    by (intro sint_u32_small) (simp add: fs_const)
qed (use assms in \<open>simp_all add: open_regular_def\<close>)

lemma view_open: "open_regular k p i f \<Longrightarrow> view k p = Some (file_content k i, unat (offp f))"
  by (simp add: view_def open_regular_def file_content_def)

lemma buffer_apartD:
  "buffer_apart k buff n \<Longrightarrow> i < NUM_FILES \<Longrightarrow> mem_range buff n \<inter> file_region (inodes (sb k) ! i) = {}"
  by (simp add: buffer_apart_def)

lemma buffer_apart_mono: "buffer_apart k buff n \<Longrightarrow> j \<le> n \<Longrightarrow> buffer_apart k buff j"
  using mem_range_mono [of j n buff] by (auto simp: buffer_apart_def)

section \<open>Reading\<close>

text \<open>The result of a read through a readable descriptor, in one equation.\<close>

lemma do_read_regular_eq:
  assumes f: "open_regular k p i f" and mode: "fmode f AND O_READ \<noteq> 0" and count: "uint count < 2 ^ 31"
  defines "n \<equiv> read_count (inodes (sb k) ! i) (uint count) (uint (offp f))"
  shows "do_read_regular k (Some p) buff count =
    Inr (n, put_file (k\<lparr>mem := copy_bytes (mem k) buff (file_addr (inodes (sb k) ! i) (uint (offp f))) (nat n)\<rparr>)
              p (f\<lparr>offp := offp f + word_of_int n\<rparr>))"
  using open_regularD [OF f] mode sint_u32_small [OF count]
  by (simp add: do_read_regular_def flat_read_eq n_def)

lemma do_read_regular_view:
  assumes f: "open_regular k p i f" and mode: "fmode f AND O_READ \<noteq> 0" and count: "uint count < 2 ^ 31"
    and apart: "buffer_apart k buff (unat count)"
    and eq: "do_read_regular k (Some p) buff count = Inr (n, k')"
    and v: "spec_read (unat count) (file_content k i, unat (offp f)) = (out, v')"
  shows "view k' p = Some v'" "n = int (length out)" "read_bytes (mem k') buff (nat n) = out"
    and "\<forall>j<NUM_FILES. file_content k' j = file_content k j"
    and "open_regular k' p i (f\<lparr>offp := offp f + word_of_int n\<rparr>)" "sb k' = sb k"
proof -
  let ?ino = "inodes (sb k) ! i"
  note o = open_regularD [OF f]
  obtain sz where sz: "unat (file_size ?ino) = sz" "uint (file_size ?ino) = int sz"
    by (rule word_value_nat)
  obtain off where off: "unat (offp f) = off" "uint (offp f) = int off"
    by (rule word_value_nat)
  obtain c where c: "unat count = c" "uint count = int c"
    by (rule word_value_nat)
  have fit: "off \<le> sz" "sz \<le> FILE_SIZE"
    using o(5) region_okD(2) [OF o(6)] by (simp_all add: sz off)
  have n: "n = int (min c (sz - off))"
    and k': "k' = put_file (k\<lparr>mem := copy_bytes (mem k) buff (file_addr ?ino (uint (offp f))) (nat n)\<rparr>)
                p (f\<lparr>offp := offp f + word_of_int n\<rparr>)"
    using eq fit by (auto simp: do_read_regular_eq [OF f mode count] read_count_def sz off c min_def)
  have apart': "buffer_apart k buff (nat n)"
    using apart by (rule buffer_apart_mono) (simp add: n c)
  have frame: "file_content k' j = file_content k j" if "j < NUM_FILES" for j
    using buffer_apartD [OF apart' that] fs_wfD(2) [OF o(1) that]
    unfolding file_content_def k' by (auto intro!: file_bytes_frame copy_bytes_frame)
  then show "\<forall>j<NUM_FILES. file_content k' j = file_content k j" by blast
  have out: "out = take c (drop off (file_content k i))"
    and v': "v' = (file_content k i, off + length out)"
    using v by (auto simp: spec_read_def Let_def c off)
  show len: "n = int (length out)"
    by (simp add: out n file_content_def sz)
  have o': "uint (offp f + word_of_int n) = int (off + nat n)"
    using fit n by (subst uint_u32_add_int) (simp_all add: off fs_const)
  then have "unat (offp f + word_of_int n) = off + nat n"
    by (metis nat_int nat_uint_eq)
  then show "view k' p = Some v'"
    using frame [OF o(4)] o(3) len by (simp add: view_def k' v' file_content_def)
  have rc: "n = read_count ?ino (int c) (int off)"
    using fit by (simp add: n read_count_def sz)
  have "flat_read ?ino (mem k) buff (int c) (int off) = Inr (n, mem k')"
    unfolding k' rc by (simp add: flat_read_eq off)
  then show "read_bytes (mem k') buff (nat n) = out"
    using flat_read_bytes [OF o(6), of "int off" "int c" buff "mem k" n "mem k'"]
      buffer_apartD [OF apart' o(4)]
    by (simp add: out rc file_content_def)
  show "sb k' = sb k" by (simp add: k')
  then show "open_regular k' p i (f\<lparr>offp := offp f + word_of_int n\<rparr>)"
    using o fit o' n by (simp add: open_regular_def k' sz)
qed

section \<open>Writing\<close>

lemma do_write_regular_view:
  assumes f: "open_regular k p i f" and mode: "fmode f AND O_WRITE \<noteq> 0"
    and fit: "unat (offp f) + unat count \<le> FILE_SIZE"
    and apart: "buffer_apart k buff (unat count)"
  obtains k' f' where "do_write_regular k (Some p) buff count = Inr (int (unat count), k')"
    and "view k' p = Some (spec_write (read_bytes (mem k) buff (unat count)) (file_content k i, unat (offp f)))"
    and "\<forall>j<NUM_FILES. j \<noteq> i \<longrightarrow> file_content k' j = file_content k j"
    and "open_regular k' p i f'" and "ctxs k' = ctxs k" and "fheap k' = (fheap k)(p \<mapsto> f')"
    and "fmode f' = fmode f" "ref_count f' = ref_count f"
proof -
  let ?ino = "inodes (sb k) ! i"
  note o = open_regularD [OF f]
  obtain sz where sz: "unat (file_size ?ino) = sz" "uint (file_size ?ino) = int sz"
    by (rule word_value_nat)
  obtain off where off: "unat (offp f) = off" "uint (offp f) = int off"
    by (rule word_value_nat)
  obtain c where c: "unat count = c" "uint count = int c"
    by (rule word_value_nat)
  have le: "off \<le> sz" "off + c \<le> FILE_SIZE"
    using o(5) fit by (simp_all add: sz off c)
  have sc: "sint count = int c" "sint (offp f) = int off"
    using le o(8) by (simp_all add: sint_u32_small c off fs_const)
  obtain ino' m' where w: "flat_write ?ino (mem k) buff (int c) (int off) = Inr (int c, ino', m')"
    using flat_write_total [OF o(6), of "int c" "int off" "mem k" buff] le by auto
  note fw = flat_write_region_ok [OF o(6) _ _ _ w] and
    fb = flat_write_bytes [OF o(6) _ _ _ _ _ w] and
    ff = flat_write_frame [OF o(6) _ _ _ w] and
    fe = flat_write_data_end(3) [OF o(6) _ _ _ w]
  let ?s' = "(sb k)\<lparr>inodes := (inodes (sb k))[i := ino']\<rparr>"
  let ?f' = "f\<lparr>offp := offp f + word_of_int (int c)\<rparr>"
  let ?k' = "put_file (k\<lparr>mem := m', sb := ?s'\<rparr>) p ?f'"
  have at_i: "inodes (sb ?k') ! i = ino'"
    using o(1,4) fs_wfD(1) by simp
  have wf': "fs_wf ?s'"
  proof -
    have "fs_wf (sb k\<lparr>inodes := (inodes (sb k))[i := ino'], num_files := num_files (sb k)\<rparr>)"
      using fw le o(1,4) fs_wfD(4) [OF o(1)]
      by (intro fs_wf_upd) (auto simp: is_valid_inode_def)
    then show ?thesis by simp
  qed
  have r: "do_write_regular k (Some p) buff count = Inr (int (unat count), ?k')"
    using o mode w sc by (simp add: do_write_regular_def c)
  have content: "file_content ?k' i = overwrite (file_content k i) off (read_bytes (mem k) buff c)"
    using fb le buffer_apartD [OF apart o(4)] at_i
    by (simp add: file_content_def sz c)
  have o': "uint (offp f + word_of_int (int c)) = int (off + c)"
    using le by (subst uint_u32_add_int) (simp_all add: off fs_const)
  then have u': "unat (offp f + word_of_int (int c)) = off + c"
    by (metis nat_int nat_uint_eq)
  have v: "view ?k' p = Some (spec_write (read_bytes (mem k) buff (unat count)) (file_content k i, unat (offp f)))"
    using content o(3) u' by (simp add: view_def spec_write_def file_content_def c off)
  have other: "\<forall>j<NUM_FILES. j \<noteq> i \<longrightarrow> file_content ?k' j = file_content k j"
  proof (intro allI impI)
    fix j assume j: "j < NUM_FILES" "j \<noteq> i"
    have "file_region (inodes (sb k) ! j) \<inter> file_region ?ino = {}"
      using fs_wfD(2,3) [OF o(1)] j o(4) by (intro regions_apart_disjoint) simp_all
    then have "file_bytes m' (inodes (sb k) ! j) = file_bytes (mem k) (inodes (sb k) ! j)"
      using ff le fs_wfD(2) [OF o(1) j(1)] by (intro file_bytes_frame) auto
    with j show "file_content ?k' j = file_content k j" by (simp add: file_content_def)
  qed
  have "uint (file_size ino') \<ge> int (off + c)"
    using fe le region_okD(1) [OF fw(1)] fw(2) by simp
  then have "open_regular ?k' p i ?f'"
    using o wf' o' at_i by (simp add: open_regular_def)
  from that [OF r v other this] show thesis by simp
qed

text \<open>
  A write that does not fit in the 4 KB: \<open>-1\<close>, the bytes untouched, and the position one lower.
\<close>

lemma do_write_regular_full:
  assumes f: "open_regular k p i f" and mode: "fmode f AND O_WRITE \<noteq> 0"
    and big: "uint (offp f) + uint count > int FILE_SIZE" and count: "uint count < 2 ^ 31"
  shows "do_write_regular k (Some p) buff count = Inr (-1, put_file k p (f\<lparr>offp := offp f - 1\<rparr>))"
proof -
  note o = open_regularD [OF f]
  have "flat_write (inodes (sb k) ! i) (mem k) buff (uint count) (uint (offp f)) =
        Inr (-1, inodes (sb k) ! i, mem k)"
    using big by (intro flat_write_error [OF o(6)])
  then show ?thesis
    using o mode by (simp add: do_write_regular_def sint_u32_small [OF count] put_file_def)
qed

section \<open>Seeking\<close>

lemma do_lseek_regular_eq:
  assumes f: "open_regular k p i f"
  defines "sz \<equiv> uint (file_size (inodes (sb k) ! i))"
  defines "target \<equiv> (\<lambda>off wh. case wh of SEEK_SET \<Rightarrow> Some off | SEEK_CUR \<Rightarrow> Some (uint (offp f) + off)
      | SEEK_END \<Rightarrow> Some (sz + off) | Other_whence \<Rightarrow> None)"
  shows "do_lseek_regular k (Some p) offset wh =
    (case target offset wh of
       Some t \<Rightarrow> if 0 \<le> t \<and> t \<le> sz then Inr (t, put_file k p (f\<lparr>offp := word_of_int t\<rparr>))
                 else Inr (-EINVAL, k)
     | None \<Rightarrow> Inr (-EINVAL, k))"
proof -
  have "sz < 2 ^ 32" by (simp add: sz_def)
  then have "seek_to k p f (Inr sz) t =
      (if 0 \<le> t \<and> t \<le> sz then Inr (t, put_file k p (f\<lparr>offp := word_of_int t\<rparr>))
       else Inr (-EINVAL, k))" for t
    by (simp add: seek_to_def uint_u32_of_int)
  then show ?thesis
    using open_regularD [OF f]
    by (cases wh) (simp_all add: do_lseek_regular_def target_def sz_def [symmetric] Let_def)
qed

section \<open>Reference counts\<close>

text \<open>
  How many descriptors of live processes refer to an object. The invariant of the kernel: a
  descriptor of a live process refers to an allocated object, and the count of an allocated
  object is the number of these descriptors, or one for an object that an open without a free
  descriptor left behind.
\<close>

definition ctx_refs :: "exec_context option \<Rightarrow> nat \<Rightarrow> nat" where
  "ctx_refs cx p =
     (case cx of None \<Rightarrow> 0
      | Some ctx \<Rightarrow> if pstate ctx = UNUSED then 0 else length (filter ((=) (Some p)) (files ctx)))"

definition refs :: "kernel \<Rightarrow> nat \<Rightarrow> nat" where
  "refs k p = (\<Sum>c<MAX_PROCESSES. ctx_refs (ctxs k c) p)"

definition tables_ok :: "(nat \<rightharpoonup> exec_context) \<Rightarrow> bool" where
  "tables_ok cs \<longleftrightarrow>
     (\<forall>c ctx. cs c = Some ctx \<longrightarrow> c < MAX_PROCESSES \<and> length (files ctx) = MAX_OPEN_FILES)"

definition counts_ok :: "(nat \<rightharpoonup> file_obj) \<Rightarrow> (nat \<Rightarrow> nat) \<Rightarrow> bool" where
  "counts_ok h g \<longleftrightarrow>
     (\<forall>p f. h p = Some f \<longrightarrow> unat (ref_count f) = max 1 (g p)) \<and>
     (\<forall>p. 0 < g p \<longrightarrow> h p \<noteq> None)"

definition refs_ok :: "kernel \<Rightarrow> bool" where
  "refs_ok k \<longleftrightarrow> tables_ok (ctxs k) \<and> counts_ok (fheap k) (refs k)"

lemma refs_cong: "ctxs k' = ctxs k \<Longrightarrow> refs k' = refs k"
  by (simp add: refs_def fun_eq_iff)

lemma refs_put_file [simp]: "refs (put_file k p f) = refs k"
  by (rule refs_cong) simp

lemma refs_upd_other [simp]:
  "refs (k\<lparr>mem := m\<rparr>) = refs k" "refs (k\<lparr>sb := s\<rparr>) = refs k"
  "refs (k\<lparr>fheap := h\<rparr>) = refs k" "refs (k\<lparr>stats := n\<rparr>) = refs k"
  by (rule refs_cong; simp)+

lemma refs_upd_ctx:
  assumes "c < MAX_PROCESSES"
  shows "int (refs (k\<lparr>ctxs := (ctxs k)(c := cx)\<rparr>) p) =
         int (refs k p) - int (ctx_refs (ctxs k c) p) + int (ctx_refs cx p)"
proof -
  let ?rest = "\<Sum>i\<in>{..<MAX_PROCESSES} - {c}. ctx_refs (ctxs k i) p"
  have "refs k p = ctx_refs (ctxs k c) p + ?rest"
    unfolding refs_def using assms by (intro sum.remove) simp_all
  moreover have "refs (k\<lparr>ctxs := (ctxs k)(c := cx)\<rparr>) p = ctx_refs cx p +
      (\<Sum>i\<in>{..<MAX_PROCESSES} - {c}. ctx_refs (((ctxs k)(c := cx)) i) p)"
    unfolding refs_def using assms by (subst sum.remove [of _ c]) simp_all
  moreover have "(\<Sum>i\<in>{..<MAX_PROCESSES} - {c}. ctx_refs (((ctxs k)(c := cx)) i) p) = ?rest"
    by (intro sum.cong) auto
  ultimately show ?thesis by simp
qed

definition live_ctx :: "kernel \<Rightarrow> nat \<Rightarrow> exec_context \<Rightarrow> bool" where
  "live_ctx k c ctx \<longleftrightarrow> ctxs k c = Some ctx \<and> pstate ctx \<noteq> UNUSED"

lemma refs_okD:
  assumes "refs_ok k"
  shows "ctxs k c = Some ctx \<Longrightarrow> c < MAX_PROCESSES"
    and "ctxs k c = Some ctx \<Longrightarrow> length (files ctx) = MAX_OPEN_FILES"
    and "fheap k p = Some f \<Longrightarrow> unat (ref_count f) = max 1 (refs k p)"
    and "0 < refs k p \<Longrightarrow> \<exists>f. fheap k p = Some f"
  using assms unfolding refs_ok_def tables_ok_def counts_ok_def by blast+

lemma refs_set_fd:
  assumes ok: "refs_ok k" and live: "live_ctx k c ctx" and fd: "fd < MAX_OPEN_FILES"
  shows "int (refs (k\<lparr>ctxs := (ctxs k)(c \<mapsto> ctx\<lparr>files := (files ctx)[fd := x]\<rparr>)\<rparr>) p) =
         int (refs k p) - of_bool (files ctx ! fd = Some p) + of_bool (x = Some p)"
proof -
  have c: "ctxs k c = Some ctx" "pstate ctx \<noteq> UNUSED" using live by (simp_all add: live_ctx_def)
  have len: "fd < length (files ctx)" using refs_okD(2) [OF ok c(1)] fd by simp
  show ?thesis
    using c length_filter_upd [OF len, of "(=) (Some p)" x]
    by (simp add: refs_upd_ctx [OF refs_okD(1) [OF ok c(1)]] ctx_refs_def eq_commute [of "Some p"])
qed

lemma refs_pos:
  assumes "refs_ok k" "live_ctx k c ctx" "fd < MAX_OPEN_FILES" "files ctx ! fd = Some p"
  shows "0 < refs k p"
proof -
  have "int (refs (k\<lparr>ctxs := (ctxs k)(c \<mapsto> ctx\<lparr>files := (files ctx)[fd := None]\<rparr>)\<rparr>) p) = int (refs k p) - 1"
    using refs_set_fd [OF assms(1-3), of None p] assms(4) by simp
  then show ?thesis by linarith
qed

lemma fd_allocated:
  assumes "refs_ok k" "live_ctx k c ctx" "fd < MAX_OPEN_FILES" "files ctx ! fd = Some p"
  obtains f where "fheap k p = Some f" "unat (ref_count f) = refs k p" "0 < refs k p"
proof -
  have pos: "0 < refs k p" by (rule refs_pos [OF assms])
  then obtain f where "fheap k p = Some f" using refs_okD(4) [OF assms(1)] by blast
  with pos refs_okD(3) [OF assms(1) this] that show thesis by simp
qed

lemma ctx_refs_le: "length (files ctx) = MAX_OPEN_FILES \<Longrightarrow> ctx_refs (Some ctx) p \<le> MAX_OPEN_FILES"
  by (auto simp: ctx_refs_def intro: order_trans [OF length_filter_le])

lemma refs_le:
  assumes "refs_ok k"
  shows "refs k p \<le> MAX_PROCESSES * MAX_OPEN_FILES"
proof -
  have "ctx_refs (ctxs k c) p \<le> MAX_OPEN_FILES" for c
    using refs_okD(2) [OF assms] by (cases "ctxs k c") (auto simp: ctx_refs_def
      intro: order_trans [OF length_filter_le])
  then have "refs k p \<le> (\<Sum>c<MAX_PROCESSES. MAX_OPEN_FILES)"
    unfolding refs_def by (intro sum_mono)
  then show ?thesis by simp
qed

text \<open>Dropping one reference to an object that has one.\<close>

lemma drop_ref_cases:
  assumes "fheap k p = Some f" "unat (ref_count f) = n" "0 < n"
  shows "drop_ref k p =
    (if n = 1 then Inr (free_file_object k p)
     else Inr (put_file k p (f\<lparr>ref_count := ref_count f - 1\<rparr>)))"
proof -
  have "ref_count f - 1 = 0 \<longleftrightarrow> n = 1"
    using assms(2) by (metis eq_iff_diff_eq_0 unat_1 word_unat_eq_iff)
  then show ?thesis
    using assms(1) by (simp add: drop_ref_def Let_def free_file_object_def put_file_def)
qed

lemma unat_u32_dec: "0 < unat (w :: u32) \<Longrightarrow> unat (w - 1) = unat w - 1"
  by (simp add: unat_minus_one unat_gt_0)

lemma unat_u32_inc: "unat (w :: u32) < 1000 \<Longrightarrow> unat (w + 1) = unat w + 1"
  by (simp add: unat_word_ariths)


text \<open>
  What the three changes of a count do: \<open>g\<close> says how many references each object should have.
\<close>

lemma counts_okD:
  assumes "counts_ok h g"
  shows "h p = Some f \<Longrightarrow> unat (ref_count f) = max 1 (g p)" and "0 < g p \<Longrightarrow> \<exists>f. h p = Some f"
  using assms unfolding counts_ok_def by blast+

lemma counts_drop:
  assumes ok: "counts_ok (fheap k) g" and pos: "0 < g p"
  obtains k' where "drop_ref k p = Inr k'" "counts_ok (fheap k') (g(p := g p - 1))"
    "ctxs k' = ctxs k" "sb k' = sb k" "mem k' = mem k" "qheap k' = qheap k"
    "\<forall>q. q \<noteq> p \<longrightarrow> fheap k' q = fheap k q"
    "fheap k' p = (if g p = 1 then None
       else map_option (\<lambda>f. f\<lparr>ref_count := ref_count f - 1\<rparr>) (fheap k p))"
proof -
  obtain f where f: "fheap k p = Some f" using counts_okD(2) [OF ok pos] by blast
  have n: "unat (ref_count f) = g p" using counts_okD(1) [OF ok f] pos by simp
  note d = drop_ref_cases [OF f n pos]
  show thesis
  proof (cases "g p = 1")
    case True
    have "counts_ok ((fheap k)(p := None)) (g(p := g p - 1))"
      using ok True by (auto simp: counts_ok_def)
    then show ?thesis
      using d True by (intro that [of "free_file_object k p"]) (simp_all add: free_file_object_def)
  next
    case False
    let ?f = "f\<lparr>ref_count := ref_count f - 1\<rparr>"
    have "unat (ref_count ?f) = g p - 1" using n pos by (simp add: unat_u32_dec)
    then have "counts_ok ((fheap k)(p \<mapsto> ?f)) (g(p := g p - 1))"
      using ok pos False by (auto simp: counts_ok_def)
    then show ?thesis
      using d False f by (intro that [of "put_file k p ?f"]) simp_all
  qed
qed

lemma counts_inc:
  assumes "counts_ok h g" "0 < g p" "g p < 1000" "h p = Some f"
  shows "counts_ok (h(p \<mapsto> f\<lparr>ref_count := ref_count f + 1\<rparr>)) (g(p := g p + 1))"
proof -
  have "unat (ref_count f) = g p" using counts_okD(1) [OF assms(1,4)] assms(2) by simp
  then have "unat (ref_count f + 1) = g p + 1" using assms(3) by (simp add: unat_u32_inc)
  with assms show ?thesis by (auto simp: counts_ok_def)
qed

lemma counts_alloc:
  assumes "counts_ok h g" "h p = None" "ref_count f = 1"
  shows "counts_ok (h(p \<mapsto> f)) g" "counts_ok (h(p \<mapsto> f)) (g(p := 1))" "g p = 0"
proof -
  show g: "g p = 0" using counts_okD(2) [OF assms(1), of p] assms(2) by (cases "g p") auto
  with assms show "counts_ok (h(p \<mapsto> f)) g" "counts_ok (h(p \<mapsto> f)) (g(p := 1))"
    by (auto simp: counts_ok_def)
qed

lemma counts_loop:
  assumes "counts_ok (fheap k) (\<lambda>p. g p + length (filter ((=) (Some p)) fps))"
  obtains k' where "file_exit_loop k fps = Inr k'" "counts_ok (fheap k') g"
    "ctxs k' = ctxs k" "sb k' = sb k" "mem k' = mem k" "qheap k' = qheap k"
  using assms
proof (induction fps arbitrary: k thesis)
  case Nil
  then show ?case by simp
next
  case (Cons fp fps)
  show ?case
  proof (cases fp)
    case None
    have "counts_ok (fheap k) (\<lambda>p. g p + length (filter ((=) (Some p)) fps))"
      using Cons.prems(2) None by simp
    then show ?thesis
      using Cons.IH [of k] Cons.prems(1) None by simp blast
  next
    case (Some q)
    let ?g = "\<lambda>p. g p + length (filter ((=) (Some p)) (fp # fps))"
    have pos: "0 < ?g q" by (simp add: Some)
    obtain k1 where k1: "drop_ref k q = Inr k1" "counts_ok (fheap k1) (?g(q := ?g q - 1))"
      "ctxs k1 = ctxs k" "sb k1 = sb k" "mem k1 = mem k" "qheap k1 = qheap k"
      using counts_drop [OF Cons.prems(2) pos] by blast
    have "?g(q := ?g q - 1) = (\<lambda>p. g p + length (filter ((=) (Some p)) fps))"
      using Some by (auto simp: fun_eq_iff)
    with k1(2) have "counts_ok (fheap k1) (\<lambda>p. g p + length (filter ((=) (Some p)) fps))"
      by simp
    then obtain k' where "file_exit_loop k1 fps = Inr k'" "counts_ok (fheap k') g"
      "ctxs k' = ctxs k1" "sb k' = sb k1" "mem k' = mem k1" "qheap k' = qheap k1"
      by (rule Cons.IH [rotated])
    then show ?thesis using Cons.prems(1) [of k'] k1 Some by simp
  qed
qed

text \<open>The references of a kernel whose descriptor \<open>fd\<close> of process \<open>c\<close> was replaced.\<close>

lemma refs_replace:
  assumes ok: "refs_ok k" and live: "live_ctx k c ctx" and fd: "fd < MAX_OPEN_FILES"
    and cs: "ctxs k' = (ctxs k)(c \<mapsto> ctx\<lparr>files := (files ctx)[fd := x]\<rparr>)"
  shows "tables_ok (ctxs k')"
    and "refs k' = (\<lambda>p. refs k p - of_bool (files ctx ! fd = Some p) + of_bool (x = Some p))"
proof -
  show "tables_ok (ctxs k')"
    using ok live unfolding cs refs_ok_def tables_ok_def live_ctx_def by auto
  have "int (refs k' p) = int (refs k p) - of_bool (files ctx ! fd = Some p) + of_bool (x = Some p)" for p
    using refs_set_fd [OF ok live fd, of x p] by (simp add: refs_def cs)
  moreover have "0 < refs k p" if "files ctx ! fd = Some p" for p
    by (rule refs_pos [OF ok live fd that])
  ultimately have "refs k' p = refs k p - of_bool (files ctx ! fd = Some p) + of_bool (x = Some p)" for p
    by (cases "files ctx ! fd = Some p"; cases "x = Some p") (auto simp: int_eq_iff)
  then show "refs k' = (\<lambda>p. refs k p - of_bool (files ctx ! fd = Some p) + of_bool (x = Some p))"
    by blast
qed

section \<open>Opening\<close>

lemma free_fdD:
  "free_fd ctx = Some fd \<Longrightarrow> 3 \<le> fd \<and> fd < MAX_OPEN_FILES \<and> files ctx ! fd = None"
  by (auto simp: free_fd_def find_Some_iff)

lemma free_fd_first:
  assumes "free_fd ctx = Some fd" "3 \<le> j" "j < fd"
  shows "files ctx ! j \<noteq> None"
proof -
  obtain i where i: "i < length [3..<MAX_OPEN_FILES]" "fd = [3..<MAX_OPEN_FILES] ! i"
    "\<forall>m<i. files ctx ! ([3..<MAX_OPEN_FILES] ! m) \<noteq> None"
    using assms(1) by (auto simp: free_fd_def find_Some_iff)
  have "j - 3 < i" "[3..<MAX_OPEN_FILES] ! (j - 3) = j" using assms(2,3) i(1,2) by auto
  with i(3) show ?thesis by metis
qed

lemma free_fd_None: "free_fd ctx = None \<longleftrightarrow> (\<forall>fd. 3 \<le> fd \<and> fd < MAX_OPEN_FILES \<longrightarrow> files ctx ! fd \<noteq> None)"
  by (auto simp: free_fd_def find_None_iff)

definition opened_file :: "file_obj \<Rightarrow> nat \<Rightarrow> u64 \<Rightarrow> file_obj" where
  "opened_file page i flags =
     page\<lparr>offp := 0, ref_count := 1, finode := Some i, fmode := ucast (flags XOR ucast O_CREAT),
          fops := \<lparr>fread = Some Do_read_regular, fwrite = Some Do_write_regular,
                   flseek = Some Do_lseek_regular, fclose = Some Do_file_close\<rparr>,
          ftype := REGULAR\<rparr>"

text \<open>
  The call in terms of its two sources of failure. The permission test is never true.
\<close>

lemma do_regular_file_open_eq:
  assumes ctx: "ctxs k c = Some ctx" and flags: "flags AND ucast (O_READ OR O_RDWR) \<noteq> 0"
  shows "do_regular_file_open p page k c fname flags mode =
    bind_res (open_inode (sb k) fname flags mode) (\<lambda>(r, s').
      case r of
        Inl err \<Rightarrow> Inr (err, k\<lparr>sb := s'\<rparr>)
      | Inr i \<Rightarrow>
          let k2 = (put_file (k\<lparr>sb := s'\<rparr>) p (opened_file page i flags))
                     \<lparr>stats := (stats k)\<lparr>file_objects := file_objects (stats k) + 1\<rparr>\<rparr>
          in case free_fd ctx of
               None \<Rightarrow> Inr (-ENOMEM, k2)
             | Some fd \<Rightarrow>
                 Inr (int fd, k2\<lparr>ctxs := (ctxs k)(c \<mapsto> ctx\<lparr>files := (files ctx)[fd := Some p]\<rparr>)\<rparr>))"
proof -
  have "set_fd k' c (int fd) (Some p) =
      Inr (k'\<lparr>ctxs := (ctxs k)(c \<mapsto> ctx\<lparr>files := (files ctx)[fd := Some p]\<rparr>)\<rparr>)"
    if "free_fd ctx = Some fd" "ctxs k' = ctxs k" for fd k'
    using free_fdD [OF that(1)] ctx that(2) by simp
  then show ?thesis
    using flags ctx
    by (auto simp: do_regular_file_open_def Let_def alloc_file_def put_file_def opened_file_def
        bind_res_def split: sum.split option.split prod.split)
qed

text \<open>The ways an open ends.\<close>

lemma open_cases:
  assumes ctx: "ctxs k c = Some ctx"
    and eq: "do_regular_file_open p page k c fname flags mode = Inr (r, k')"
  obtains (no_access) "flags AND ucast (O_READ OR O_RDWR) = 0" "r = -EINVAL" "k' = k"
  | (no_inode) s' where "open_inode (sb k) fname flags mode = Inr (Inl r, s')" "k' = k\<lparr>sb := s'\<rparr>"
  | (no_fd) s' i where "open_inode (sb k) fname flags mode = Inr (Inr i, s')" "free_fd ctx = None"
      "r = -ENOMEM" "k' = (put_file (k\<lparr>sb := s'\<rparr>) p (opened_file page i flags))
                     \<lparr>stats := (stats k)\<lparr>file_objects := file_objects (stats k) + 1\<rparr>\<rparr>"
  | (opened) s' i fd where "open_inode (sb k) fname flags mode = Inr (Inr i, s')"
      "free_fd ctx = Some fd" "r = int fd"
      "k' = (put_file (k\<lparr>sb := s'\<rparr>) p (opened_file page i flags))
                     \<lparr>stats := (stats k)\<lparr>file_objects := file_objects (stats k) + 1\<rparr>,
                      ctxs := (ctxs k)(c \<mapsto> ctx\<lparr>files := (files ctx)[fd := Some p]\<rparr>)\<rparr>"
proof (cases "flags AND ucast (O_READ OR O_RDWR) = 0")
  case True
  with eq no_access show ?thesis by (simp add: do_regular_file_open_def)
next
  case False
  note e = eq [unfolded do_regular_file_open_eq [OF ctx False] bind_res_Inr]
  then obtain a s' where o: "open_inode (sb k) fname flags mode = Inr (a, s')" by auto
  show ?thesis
  proof (cases a)
    case (Inl err)
    with e o no_inode show ?thesis by simp
  next
    case (Inr i)
    show ?thesis
    proof (cases "free_fd ctx")
      case None
      show ?thesis by (rule no_fd [of i s']) (use e o Inr None in \<open>simp_all add: Let_def\<close>)
    next
      case (Some fd)
      show ?thesis by (rule opened [of i s' fd]) (use e o Inr Some in \<open>simp_all add: Let_def\<close>)
    qed
  qed
qed

lemma open_refs_ok:
  assumes ok: "refs_ok k" and live: "live_ctx k c ctx" and p: "fheap k p = None"
    and eq: "do_regular_file_open p page k c fname flags mode = Inr (r, k')"
  shows "refs_ok k'"
proof -
  have ctx: "ctxs k c = Some ctx" using live by (simp add: live_ctx_def)
  have ct: "counts_ok (fheap k) (refs k)" and tb: "tables_ok (ctxs k)"
    using ok by (simp_all add: refs_ok_def)
  note counts = counts_alloc [OF ct p, of "opened_file page i flags" for i]
  from ctx eq show ?thesis
  proof (cases rule: open_cases)
    case (no_fd s' i)
    with tb counts(1) show ?thesis by (simp add: refs_ok_def opened_file_def)
  next
    case (opened s' i fd)
    note fd = free_fdD [OF opened(2)]
    have cs: "ctxs k' = (ctxs k)(c \<mapsto> ctx\<lparr>files := (files ctx)[fd := Some p]\<rparr>)"
      by (simp add: opened(4))
    note r = refs_replace [OF ok live _ cs]
    have c1: "counts_ok (fheap k') ((refs k)(p := 1))" and "refs k p = 0"
      using counts(2,3) [of i] by (simp_all add: opened(4) opened_file_def)
    moreover from this have "refs k' = (refs k)(p := 1)"
      using r fd by (auto simp: fun_eq_iff)
    ultimately show ?thesis using r fd by (simp add: refs_ok_def)
  qed (use ok in \<open>simp_all add: refs_ok_def\<close>)
qed

text \<open>What a successful open returns: the lowest free descriptor from 3, at the start of the file.\<close>

lemma open_success:
  assumes wf: "fs_wf (sb k)" and ctx: "ctxs k c = Some ctx" and len: "length (files ctx) = MAX_OPEN_FILES"
    and eq: "do_regular_file_open p page k c fname flags mode = Inr (r, k')" and r: "0 \<le> r"
  obtains i where "lookup_inode (sb k') fname = Some i" "open_regular k' p i (opened_file page i flags)"
    "get_fd k' c r = Inr (Some p)" "free_fd ctx = Some (nat r)" "fs_wf (sb k')"
    "mem k' = mem k" "\<forall>n. n \<noteq> fname \<longrightarrow> lookup_inode (sb k') n = lookup_inode (sb k) n"
proof -
  from ctx eq obtain i s' fd where o: "open_inode (sb k) fname flags mode = Inr (Inr i, s')"
    and fd: "free_fd ctx = Some fd" "r = int fd"
    and k': "k' = (put_file (k\<lparr>sb := s'\<rparr>) p (opened_file page i flags))
                     \<lparr>stats := (stats k)\<lparr>file_objects := file_objects (stats k) + 1\<rparr>,
                      ctxs := (ctxs k)(c \<mapsto> ctx\<lparr>files := (files ctx)[fd := Some p]\<rparr>)\<rparr>"
  proof (cases rule: open_cases)
    case (no_inode s')
    then have "r \<in> {-EINVAL, -ENOMEM}" unfolding open_inode_def by (auto dest: flat.goc_failed)
    with r show ?thesis by (auto simp: errno)
  qed (use r in \<open>simp_all add: errno\<close>)
  have wf': "fs_wf s'" and lk: "lookup_inode s' fname = Some i"
    using o wf unfolding open_inode_def by (auto intro: flat.goc_invar flat.goc_found)
  have i: "i < NUM_FILES" using lookup_SomeD lk by (auto simp: lookup_inode_def)
  have other: "\<forall>n. n \<noteq> fname \<longrightarrow> lookup_inode s' n = lookup_inode (sb k) n"
    using o wf unfolding open_inode_def by (auto intro: flat.goc_other)
  show thesis
    using free_fdD [OF fd(1)] fd len wf' lk i other
    by (intro that [of i]) (simp_all add: k' open_regular_def opened_file_def get_fd_def)
qed

section \<open>Standard streams\<close>

lemma std_refs_ok:
  assumes ok: "refs_ok k" and live: "live_ctx k c ctx" and p: "fheap k p = None" and ty: "type < 3"
    and eq: "open_standard_IO p page k c type = Inr (r, k')"
  shows "refs_ok k'"
proof -
  have ctx: "ctxs k c = Some ctx" using live by (simp add: live_ctx_def)
  have ct: "counts_ok (fheap k) (refs k)" using ok by (simp add: refs_ok_def)
  have t: "type < MAX_OPEN_FILES" using ty by (simp add: k_const)
  show ?thesis
  proof (cases "files ctx ! type")
    case None
    obtain f where k': "k' = (put_file (alloc_file p page k) p f)
        \<lparr>ctxs := (ctxs k)(c \<mapsto> ctx\<lparr>files := (files ctx)[type := Some p]\<rparr>)\<rparr>" and f: "ref_count f = 1"
      using eq ctx t None by (auto simp: open_standard_IO_def create_standard_IO_def alloc_file_def Let_def)
    have cs: "ctxs k' = (ctxs k)(c \<mapsto> ctx\<lparr>files := (files ctx)[type := Some p]\<rparr>)" by (simp add: k')
    note r = refs_replace [OF ok live t cs]
    have "counts_ok (fheap k') ((refs k)(p := 1))" and "refs k p = 0"
      using counts_alloc(2,3) [OF ct p f] by (simp_all add: k' alloc_file_def)
    moreover from this have "refs k' = (refs k)(p := 1)" using r None by (auto simp: fun_eq_iff)
    ultimately show ?thesis using r by (simp add: refs_ok_def)
  next
    case (Some q)
    obtain f where f: "fheap k q = Some f" "0 < refs k q"
      by (rule fd_allocated [OF ok live t Some])
    obtain fd where fd: "free_fd ctx = Some fd"
      and k': "k' = (put_file k q (f\<lparr>ref_count := ref_count f + 1\<rparr>))
        \<lparr>ctxs := (ctxs k)(c \<mapsto> ctx\<lparr>files := (files ctx)[fd := Some q]\<rparr>)\<rparr>"
    proof (cases "free_fd ctx")
      case None
      with eq ctx t Some f show ?thesis by (simp add: open_standard_IO_def)
    next
      case (Some fd)
      from free_fdD [OF this] Some eq ctx t \<open>files ctx ! type = Some q\<close> f show ?thesis
        by (intro that [of fd]) (auto simp: open_standard_IO_def Let_def)
    qed
    note fd' = free_fdD [OF fd]
    have cs: "ctxs k' = (ctxs k)(c \<mapsto> ctx\<lparr>files := (files ctx)[fd := Some q]\<rparr>)" by (simp add: k')
    note r = refs_replace [OF ok live _ cs]
    have "counts_ok (fheap k') ((refs k)(q := refs k q + 1))"
      using counts_inc [OF ct f(2) _ f(1)] refs_le [OF ok, of q] by (simp add: k' k_const)
    moreover have "refs k' = (refs k)(q := refs k q + 1)" using r fd' by (auto simp: fun_eq_iff)
    ultimately show ?thesis using r fd' by (simp add: refs_ok_def)
  qed
qed

section \<open>dup2\<close>

text \<open>An object open at a descriptor keeps a reference when another descriptor is cleared.\<close>

lemma refs_two_fds:
  assumes ok: "refs_ok k" and live: "live_ctx k c ctx" and n: "n < MAX_OPEN_FILES"
    and o: "i < MAX_OPEN_FILES" and ne: "i \<noteq> n" and p: "files ctx ! i = Some p"
  shows "of_bool (files ctx ! n = Some p) < refs k p"
proof -
  have ctx: "ctxs k c = Some ctx" using live by (simp add: live_ctx_def)
  let ?k0 = "k\<lparr>ctxs := (ctxs k)(c \<mapsto> ctx\<lparr>files := (files ctx)[n := None]\<rparr>)\<rparr>"
  have "int (refs k p) - of_bool (files ctx ! n = Some p) = int (refs ?k0 p)"
    using refs_set_fd [OF ok live n, of None p] by simp
  moreover have "0 < refs ?k0 p"
  proof -
    have "c < MAX_PROCESSES" using refs_okD(1) [OF ok ctx] .
    moreover have "0 < ctx_refs (ctxs ?k0 c) p"
      using live p ne o refs_okD(2) [OF ok ctx]
      by (auto simp: ctx_refs_def live_ctx_def filter_empty_conv in_set_conv_nth
          intro!: exI [of _ i] bexI [of _ "Some p"])
    ultimately show ?thesis
      unfolding refs_def by (auto simp: sum_pos2 intro!: sum_pos2 [of _ c])
  qed
  ultimately show ?thesis by (cases "files ctx ! n = Some p") simp_all
qed

text \<open>
  Duplicating onto another descriptor always succeeds, whatever was open there.
\<close>

lemma dup2_refs_ok:
  assumes ok: "refs_ok k" and live: "live_ctx k c ctx"
    and old: "0 \<le> oldfd" "oldfd < int MAX_OPEN_FILES" and new: "0 \<le> newfd" "newfd < int MAX_OPEN_FILES"
    and ne: "oldfd \<noteq> newfd" and p: "files ctx ! nat oldfd = Some p"
  obtains k' where "fd_dup2 k c oldfd newfd = Inr (newfd, k')" "refs_ok k'"
    "ctxs k' = (ctxs k)(c \<mapsto> ctx\<lparr>files := (files ctx)[nat newfd := Some p]\<rparr>)"
    "sb k' = sb k" "mem k' = mem k"
proof -
  have ctx: "ctxs k c = Some ctx" using live by (simp add: live_ctx_def)
  have ct: "counts_ok (fheap k) (refs k)" using ok by (simp add: refs_ok_def)
  have o: "nat oldfd < MAX_OPEN_FILES" and n: "nat newfd < MAX_OPEN_FILES" using old new by simp_all
  let ?ctx' = "ctx\<lparr>files := (files ctx)[nat newfd := Some p]\<rparr>"
  let ?g = "\<lambda>q. refs k q - of_bool (files ctx ! nat newfd = Some q)"
  have "\<exists>k1. (case files ctx ! nat newfd of None \<Rightarrow> Inr k
       | Some q \<Rightarrow> bind_res (do_file_close k (Some q)) (\<lambda>(_, k'). Inr k')) = Inr k1 \<and>
      counts_ok (fheap k1) ?g \<and> ctxs k1 = ctxs k \<and> sb k1 = sb k \<and> mem k1 = mem k"
  proof (cases "files ctx ! nat newfd")
    case None
    with ct show ?thesis by simp
  next
    case (Some q)
    have "0 < refs k q" by (rule refs_pos [OF ok live n Some])
    then obtain k1 where "drop_ref k q = Inr k1" "counts_ok (fheap k1) ((refs k)(q := refs k q - 1))"
      "ctxs k1 = ctxs k" "sb k1 = sb k" "mem k1 = mem k"
      using counts_drop [OF ct] by metis
    moreover have "(refs k)(q := refs k q - 1) = ?g" using Some by (auto simp: fun_eq_iff)
    ultimately show ?thesis using Some by (simp add: do_file_close_def)
  qed
  then obtain k1 where k1: "(case files ctx ! nat newfd of None \<Rightarrow> Inr k
       | Some q \<Rightarrow> bind_res (do_file_close k (Some q)) (\<lambda>(_, k'). Inr k')) = Inr k1"
    "counts_ok (fheap k1) ?g" "ctxs k1 = ctxs k" "sb k1 = sb k" "mem k1 = mem k" by blast
  have pos: "0 < ?g p"
    using refs_two_fds [OF ok live n o _ p] ne old new by simp
  obtain f where f: "fheap k1 p = Some f" using counts_okD(2) [OF k1(2) pos] by blast
  let ?k' = "put_file (k1\<lparr>ctxs := (ctxs k)(c \<mapsto> ?ctx')\<rparr>) p (f\<lparr>ref_count := ref_count f + 1\<rparr>)"
  have "fd_dup2 k c oldfd newfd = Inr (newfd, ?k')"
    using old new ctx p k1(1,3) f by (simp add: fd_dup2_def)
  moreover have "refs_ok ?k'"
  proof -
    note r = refs_replace [OF ok live n, of ?k' "Some p", simplified]
    have "counts_ok (fheap ?k') (?g(p := ?g p + 1))"
      using counts_inc [OF k1(2) pos _ f] refs_le [OF ok, of p] by (simp add: k_const)
    moreover have "?g(p := ?g p + 1) = refs ?k'" using r(2) by (auto simp: fun_eq_iff)
    ultimately show ?thesis using r(1) by (simp add: refs_ok_def)
  qed
  ultimately show thesis using k1 by (intro that [of ?k']) simp_all
qed

text \<open>
  Duplicating a descriptor onto itself closes it first. When it is the only one that refers to
  the object, the object is freed and the code goes on to count a reference in it.
\<close>

lemma dup2_same_fd:
  assumes ok: "refs_ok k" and live: "live_ctx k c ctx"
    and fd: "0 \<le> fd" "fd < int MAX_OPEN_FILES" and p: "files ctx ! nat fd = Some p" and one: "refs k p = 1"
  shows "fd_dup2 k c fd fd = Inl UseAfterFree"
proof -
  have ctx: "ctxs k c = Some ctx" using live by (simp add: live_ctx_def)
  have ct: "counts_ok (fheap k) (refs k)" using ok by (simp add: refs_ok_def)
  obtain k1 where "drop_ref k p = Inr k1" "ctxs k1 = ctxs k" "fheap k1 p = None"
    by (rule counts_drop [OF ct, of p]) (use one in auto)
  with ctx fd p show ?thesis by (simp add: fd_dup2_def do_file_close_def)
qed

section \<open>The exit of a process\<close>

text \<open>
  \<open>do_file_exit\<close> gives back every reference of the process; with the process then marked
  unused (as \<open>do_exit\<close> does) the counts are those of the remaining processes.
\<close>

lemma file_exit_refs_ok:
  assumes ok: "refs_ok k" and live: "live_ctx k c ctx"
  obtains k' where "do_file_exit k c = Inr k'" "ctxs k' = ctxs k" "sb k' = sb k" "mem k' = mem k"
    "refs_ok (k'\<lparr>ctxs := (ctxs k)(c \<mapsto> ctx\<lparr>pstate := UNUSED\<rparr>)\<rparr>)"
    "\<forall>p. refs (k'\<lparr>ctxs := (ctxs k)(c \<mapsto> ctx\<lparr>pstate := UNUSED\<rparr>)\<rparr>) p =
         refs k p - length (filter ((=) (Some p)) (files ctx))"
proof -
  have ctx: "ctxs k c = Some ctx" "pstate ctx \<noteq> UNUSED" using live by (simp_all add: live_ctx_def)
  have c: "c < MAX_PROCESSES" and len: "length (files ctx) = MAX_OPEN_FILES"
    using refs_okD(1,2) [OF ok ctx(1)] by simp_all
  let ?n = "\<lambda>p. length (filter ((=) (Some p)) (files ctx))"
  let ?cs = "(ctxs k)(c \<mapsto> ctx\<lparr>pstate := UNUSED\<rparr>)"
  have g: "int (refs (k\<lparr>ctxs := ?cs\<rparr>) p) = int (refs k p) - int (?n p)" for p
    using ctx by (simp add: refs_upd_ctx [OF c] ctx_refs_def)
  have sum: "refs k p = refs (k\<lparr>ctxs := ?cs\<rparr>) p + ?n p" for p
    using g [of p] by linarith
  then have "refs k = (\<lambda>p. refs (k\<lparr>ctxs := ?cs\<rparr>) p + ?n p)" by (rule ext)
  with ok have "counts_ok (fheap k) (\<lambda>p. refs (k\<lparr>ctxs := ?cs\<rparr>) p + ?n p)"
    by (simp only: refs_ok_def)
  then obtain k' where k': "file_exit_loop k (files ctx) = Inr k'"
    "counts_ok (fheap k') (refs (k\<lparr>ctxs := ?cs\<rparr>))" "ctxs k' = ctxs k" "sb k' = sb k" "mem k' = mem k"
    by (rule counts_loop)
  have r: "refs (k'\<lparr>ctxs := ?cs\<rparr>) = refs (k\<lparr>ctxs := ?cs\<rparr>)" by (rule refs_cong) simp
  have "tables_ok ?cs"
    using ok c len by (auto simp: refs_ok_def tables_ok_def)
  with k'(2) r have "refs_ok (k'\<lparr>ctxs := ?cs\<rparr>)" by (simp add: refs_ok_def)
  moreover have "do_file_exit k c = Inr k'" using ctx len k'(1) by (simp add: do_file_exit_def)
  moreover have "\<forall>p. refs (k'\<lparr>ctxs := ?cs\<rparr>) p = refs k p - ?n p"
    using sum unfolding r by (metis diff_add_inverse2)
  ultimately show thesis using that k' by blast
qed

end
