(* ===== verification/MsgQueue.thy ===== *)
theory MsgQueue
  imports FileOps
begin

text \<open>
  Message queues, \<^verbatim>\<open>Assignment2/msg_queue.c\<close> and \<^verbatim>\<open>include/msg_queue.h\<close>: creation,
  sending to one member or to all, receiving, counting, blocking a sender, leaving a queue, and
  the handlers that fork and exit call.

  The bodies that work on one \<open>struct msg_queue_info\<close> are functions on that record; the
  handlers follow the pointers to it, with the checks of the code in the code's order. An index
  past one of the arrays is \<open>OutOfBounds\<close>.
\<close>

section \<open>Searching the member and message tables\<close>

text \<open>
  \<^verbatim>\<open>for(i=0; i<n; i++) if(xs[i] ...) break;\<close> from index \<open>i\<close> on, with \<open>n\<close> turns left.
\<close>

primrec scan :: "('a \<Rightarrow> bool) \<Rightarrow> 'a list \<Rightarrow> nat \<Rightarrow> nat \<Rightarrow> nat option res" where
  "scan P xs i 0 = Inr None"
| "scan P xs i (Suc n) =
     (if length xs \<le> i then Inl OutOfBounds
      else if P (xs ! i) then Inr (Some i)
      else scan P xs (Suc i) n)"

definition find_member :: "msg_queue_info \<Rightarrow> u32 \<Rightarrow> nat option res" where
  "find_member mq pd = scan (\<lambda>q. q = pd) (member_pid mq) 0 (unat (member_count mq))"

definition find_message :: "msg_queue_info \<Rightarrow> u32 \<Rightarrow> nat option res" where
  "find_message mq pd = scan (\<lambda>msg. to_pid msg = pd) (msg_buffer mq) 0 (nat (msg_count mq))"

text \<open>
  Row \<open>i\<close> of \<open>block_process\<close>, as far as the caller reads: the C index \<open>[i][j]\<close> is the word
  \<open>i * MAX_MEMBERS + j\<close>, whatever \<open>j\<close> is. The \<open>int\<close> read is compared with an unsigned pid.
\<close>

definition blocked :: "msg_queue_info \<Rightarrow> nat \<Rightarrow> nat \<Rightarrow> u32 \<Rightarrow> bool res" where
  "blocked mq i width pd =
     (if i * MAX_MEMBERS + width \<le> length (block_process mq)
      then Inr (\<exists>j \<in> set [0..<width]. word_of_int (block_process mq ! (i * MAX_MEMBERS + j)) = pd)
      else Inl OutOfBounds)"

section \<open>Creation\<close>

definition init_queue :: "msg_queue_info \<Rightarrow> u32 \<Rightarrow> msg_queue_info" where
  "init_queue page pd =
     page\<lparr>member_count := 1, member_pid := (member_pid page)[0 := pd], msg_count := 0,
          block_process := replicate (MAX_MEMBERS * MAX_MEMBERS) (-1) @
                           drop (MAX_MEMBERS * MAX_MEMBERS) (block_process page)\<rparr>"

text \<open>
  \<open>q\<close> is what \<open>alloc_msg_queue_info\<close> returned and \<open>qpage\<close> what that page held; \<open>p\<close> and
  \<open>page\<close> are the same for \<open>alloc_file\<close>.
\<close>

definition do_create_msg_queue ::
    "nat option \<Rightarrow> msg_queue_info \<Rightarrow> nat \<Rightarrow> file_obj \<Rightarrow> kernel \<Rightarrow> nat \<Rightarrow> (int \<times> kernel) res" where
  "do_create_msg_queue q qpage p page k c =
     bind_res (ctx_at k c) (\<lambda>ctx.
       case free_fd ctx of
         None \<Rightarrow> Inr (-ENOMEM, k)
       | Some fd \<Rightarrow>
           (case q of
              None \<Rightarrow> Inr (-ENOMEM, k)
            | Some qa \<Rightarrow>
                let k1 = put_queue k qa (init_queue qpage (pid ctx));
                    k2 = alloc_file p page k1;
                    f = page\<lparr>offp := 0, ref_count := 1, fops := no_fops, msg_queue := Some qa,
                             ftype := MSG_QUEUE\<rparr>;
                    k3 = put_file k2 p f
                in bind_res (set_fd k3 c (int fd) (Some p)) (\<lambda>k4. Inr (int fd, k4))))"

section \<open>Receiving\<close>

text \<open>The loop that moves the later messages one slot down.\<close>

definition shift_down :: "nat \<Rightarrow> nat \<Rightarrow> 'a list \<Rightarrow> 'a list" where
  "shift_down i n xs = fold (\<lambda>j b. b[j := b ! Suc j]) [i..<n - 1] xs"

definition rcv_body :: "u32 \<Rightarrow> msg_queue_info \<Rightarrow> (int \<times> message option \<times> msg_queue_info) res" where
  "rcv_body pd mq =
     bind_res (find_message mq pd) (\<lambda>r.
       case r of
         None \<Rightarrow> Inr (0, None, mq)
       | Some i \<Rightarrow>
           Inr (1, Some (msg_buffer mq ! i),
                mq\<lparr>msg_buffer := shift_down i (nat (msg_count mq)) (msg_buffer mq),
                   msg_count := msg_count mq - 1\<rparr>))"

text \<open>
  Following the pointers of a handler: the queue of the file object \<open>filep\<close>, or \<open>-EINVAL\<close>.
\<close>

definition with_queue ::
    "kernel \<Rightarrow> nat option \<Rightarrow> 'a res \<Rightarrow> (nat \<Rightarrow> msg_queue_info \<Rightarrow> 'a res) \<Rightarrow> 'a res" where
  "with_queue k filep einval body =
     (case filep of
        None \<Rightarrow> einval
      | Some p \<Rightarrow> bind_res (file_at k p) (\<lambda>f.
          case msg_queue f of
            None \<Rightarrow> einval
          | Some qa \<Rightarrow> bind_res (queue_at k qa) (body qa)))"

definition do_msg_queue_rcv ::
    "kernel \<Rightarrow> nat \<Rightarrow> nat option \<Rightarrow> bool \<Rightarrow> (int \<times> message option \<times> kernel) res" where
  "do_msg_queue_rcv k c filep msg_ptr =
     (let einval = Inr (-EINVAL, None, k)
      in if \<not> msg_ptr then einval
         else with_queue k filep einval (\<lambda>qa mq.
           bind_res (ctx_at k c) (\<lambda>ctx.
           bind_res (find_member mq (pid ctx)) (\<lambda>mem.
             if mem = None then einval
             else bind_res (rcv_body (pid ctx) mq) (\<lambda>(r, out, mq').
               Inr (r, out, put_queue k qa mq'))))))"

section \<open>Sending\<close>

text \<open>
  The next slot gets the message. The buffer has 128 slots and the code does not count them.
\<close>

definition append_msg :: "message \<Rightarrow> msg_queue_info \<Rightarrow> msg_queue_info res" where
  "append_msg msg mq =
     (if 0 \<le> msg_count mq \<and> nat (msg_count mq) < length (msg_buffer mq)
      then Inr (mq\<lparr>msg_buffer := (msg_buffer mq)[nat (msg_count mq) := msg],
                   msg_count := msg_count mq + 1\<rparr>)
      else Inl OutOfBounds)"

text \<open>The broadcast loop, from member \<open>i\<close> with \<open>n\<close> members left.\<close>

primrec broadcast_loop ::
    "u32 \<Rightarrow> message \<Rightarrow> nat \<Rightarrow> nat \<Rightarrow> int \<Rightarrow> msg_queue_info \<Rightarrow> (int \<times> msg_queue_info) res" where
  "broadcast_loop pd msg i 0 delivered mq = Inr (delivered, mq)"
| "broadcast_loop pd msg i (Suc n) delivered mq =
     (if length (member_pid mq) \<le> i then Inl OutOfBounds
      else if member_pid mq ! i = pd then broadcast_loop pd msg (Suc i) n delivered mq
      else bind_res (blocked mq i MAX_MEMBERS pd) (\<lambda>b.
        if b then broadcast_loop pd msg (Suc i) n delivered mq
        else bind_res (append_msg (msg\<lparr>to_pid := member_pid mq ! i\<rparr>) mq) (\<lambda>mq'.
          broadcast_loop pd msg (Suc i) n (delivered + 1) mq')))"

text \<open>To one member: here the row of the block table is read \<open>MAX_PROCESSES\<close> words wide.\<close>

definition unicast :: "u32 \<Rightarrow> message \<Rightarrow> msg_queue_info \<Rightarrow> (int \<times> msg_queue_info) res" where
  "unicast pd msg mq =
     bind_res (find_member mq (to_pid msg)) (\<lambda>mem.
       case mem of
         None \<Rightarrow> Inr (-EINVAL, mq)
       | Some i \<Rightarrow>
           bind_res (blocked mq i MAX_PROCESSES pd) (\<lambda>b.
             if b then Inr (-EINVAL, mq)
             else bind_res (append_msg msg mq) (\<lambda>mq'. Inr (1, mq'))))"

definition send_body :: "u32 \<Rightarrow> message \<Rightarrow> msg_queue_info \<Rightarrow> (int \<times> msg_queue_info) res" where
  "send_body pd msg mq =
     (if from_pid msg \<noteq> pd \<or> from_pid msg = to_pid msg then Inr (-EINVAL, mq)
      else if to_pid msg = BROADCAST_PID
           then broadcast_loop pd msg 0 (unat (member_count mq)) 0 mq
           else unicast pd msg mq)"

definition do_msg_queue_send ::
    "kernel \<Rightarrow> nat \<Rightarrow> nat option \<Rightarrow> message option \<Rightarrow> (int \<times> kernel) res" where
  "do_msg_queue_send k c filep msgp =
     (let einval = Inr (-EINVAL, k)
      in with_queue k filep einval (\<lambda>qa mq.
           case msgp of
             None \<Rightarrow> einval
           | Some msg \<Rightarrow>
               bind_res (ctx_at k c) (\<lambda>ctx.
               bind_res (find_member mq (pid ctx)) (\<lambda>mem.
                 if mem = None then einval
                 else bind_res (send_body (pid ctx) msg mq) (\<lambda>(r, mq').
                   Inr (r, put_queue k qa mq'))))))"

section \<open>Member information, counting and blocking\<close>

definition do_msg_queue_get_member_info ::
    "kernel \<Rightarrow> nat option \<Rightarrow> (int \<times> (u32 \<times> u32 list) option \<times> kernel) res" where
  "do_msg_queue_get_member_info k filep =
     with_queue k filep (Inr (-EINVAL, None, k)) (\<lambda>qa mq.
       Inr (0, Some (member_count mq, member_pid mq), k))"

definition count_messages :: "u32 \<Rightarrow> msg_queue_info \<Rightarrow> int res" where
  "count_messages pd mq =
     (if nat (msg_count mq) \<le> length (msg_buffer mq)
      then Inr (int (length (filter (\<lambda>msg. to_pid msg = pd) (take (nat (msg_count mq)) (msg_buffer mq)))))
      else Inl OutOfBounds)"

definition do_get_msg_count :: "kernel \<Rightarrow> nat \<Rightarrow> nat option \<Rightarrow> (int \<times> kernel) res" where
  "do_get_msg_count k c filep =
     with_queue k filep (Inr (-EINVAL, k)) (\<lambda>qa mq.
       bind_res (ctx_at k c) (\<lambda>ctx.
       bind_res (find_member mq (pid ctx)) (\<lambda>mem.
         if mem = None then Inr (-EINVAL, k)
         else bind_res (count_messages (pid ctx) mq) (\<lambda>n. Inr (n, k)))))"

text \<open>
  The index of the last member that matches, as the loop without a break leaves it.
\<close>

definition last_member :: "msg_queue_info \<Rightarrow> u32 \<Rightarrow> nat option res" where
  "last_member mq pd =
     (if unat (member_count mq) \<le> length (member_pid mq)
      then Inr (find (\<lambda>i. member_pid mq ! i = pd) (rev [0..<unat (member_count mq)]))
      else Inl OutOfBounds)"

definition block_row :: "msg_queue_info \<Rightarrow> nat \<Rightarrow> int list" where
  "block_row mq i = map (\<lambda>j. block_process mq ! (i * MAX_MEMBERS + j)) [0..<MAX_MEMBERS]"

definition block_body :: "u32 \<Rightarrow> int \<Rightarrow> msg_queue_info \<Rightarrow> (int \<times> msg_queue_info) res" where
  "block_body me pd mq =
     bind_res (last_member mq me) (\<lambda>idx_ctx.
     bind_res (last_member mq (word_of_int pd)) (\<lambda>idx_pid.
       case (idx_ctx, idx_pid) of
         (Some i, Some j) \<Rightarrow>
           if i = j then Inr (-EINVAL, mq)
           else if pd \<in> set (block_row mq i) then Inr (0, mq)
           else (case find (\<lambda>s. block_row mq i ! s = -1) [0..<MAX_MEMBERS] of
                   None \<Rightarrow> Inr (-EINVAL, mq)
                 | Some s \<Rightarrow>
                     Inr (0, mq\<lparr>block_process := (block_process mq)[i * MAX_MEMBERS + s := pd]\<rparr>))
       | _ \<Rightarrow> Inr (-EINVAL, mq)))"

definition do_msg_queue_block :: "kernel \<Rightarrow> nat \<Rightarrow> nat option \<Rightarrow> int \<Rightarrow> (int \<times> kernel) res" where
  "do_msg_queue_block k c filep pd =
     with_queue k filep (Inr (-EINVAL, k)) (\<lambda>qa mq.
       if pd < 0 then Inr (-EINVAL, k)
       else bind_res (ctx_at k c) (\<lambda>ctx.
         bind_res (block_body (pid ctx) pd mq) (\<lambda>(r, mq'). Inr (r, put_queue k qa mq'))))"

section \<open>Leaving a queue\<close>

text \<open>
  Removing member \<open>i\<close>: the members after it and their block rows move one place down, the row
  past the new end is cleared, the leaving pid is cleared from every row, and the messages
  addressed to it are dropped.
\<close>

definition shift_members :: "nat \<Rightarrow> u32 list \<Rightarrow> u32 list" where
  "shift_members i xs = shift_down i MAX_MEMBERS xs"

definition shift_rows :: "nat \<Rightarrow> int list \<Rightarrow> int list" where
  "shift_rows i bp =
     fold (\<lambda>j b. fold (\<lambda>s b. b[j * MAX_MEMBERS + s := b ! (Suc j * MAX_MEMBERS + s)]) [0..<MAX_MEMBERS] b)
       [i..<MAX_MEMBERS - 1] bp"

definition clear_row :: "nat \<Rightarrow> int list \<Rightarrow> int list" where
  "clear_row n bp = fold (\<lambda>s b. b[n * MAX_MEMBERS + s := -1]) [0..<MAX_MEMBERS] bp"

definition clear_pid :: "u32 \<Rightarrow> int list \<Rightarrow> int list" where
  "clear_pid pd bp =
     fold (\<lambda>x b. if word_of_int (b ! x) = pd then b[x := -1] else b) [0..<MAX_MEMBERS * MAX_MEMBERS] bp"

definition drop_messages :: "u32 \<Rightarrow> nat \<Rightarrow> message list \<Rightarrow> message list \<times> nat" where
  "drop_messages pd n buf =
     fold (\<lambda>j (b, t). if to_pid (b ! j) \<noteq> pd then (b[t := b ! j], Suc t) else (b, t)) [0..<n] (buf, 0)"

definition leave_queue :: "u32 \<Rightarrow> nat \<Rightarrow> msg_queue_info \<Rightarrow> msg_queue_info" where
  "leave_queue pd i mq =
     (let n = member_count mq - 1;
          (buf, t) = drop_messages pd (nat (msg_count mq)) (msg_buffer mq)
      in mq\<lparr>member_pid := shift_members i (member_pid mq), member_count := n,
            block_process := clear_pid pd (clear_row (unat n) (shift_rows i (block_process mq))),
            msg_buffer := buf, msg_count := int t\<rparr>)"

definition do_msg_queue_close :: "kernel \<Rightarrow> nat \<Rightarrow> int \<Rightarrow> (int \<times> kernel) res" where
  "do_msg_queue_close k c fd =
     (if fd < 0 then Inr (-EINVAL, k)
      else bind_res (get_fd k c fd) (\<lambda>filep.
        with_queue k filep (Inr (-EINVAL, k)) (\<lambda>qa mq.
          bind_res (ctx_at k c) (\<lambda>ctx.
          bind_res (find_member mq (pid ctx)) (\<lambda>mem.
            case mem of
              None \<Rightarrow> Inr (-EINVAL, k)
            | Some i \<Rightarrow>
                let mq' = leave_queue (pid ctx) i mq;
                    k1 = (if member_count mq' = 0
                          then free_file_object (k\<lparr>qheap := (qheap k)(qa := None)\<rparr>) (the filep)
                          else put_queue k qa mq')
                in bind_res (set_fd k1 c fd None) (\<lambda>k2. Inr (0, k2)))))))"

section \<open>The fork and exit handlers\<close>

text \<open>
  Fork adds the child to the queue behind every descriptor. The member table has
  \<open>MAX_MEMBERS\<close> entries and the code does not count them.
\<close>

definition add_member :: "u32 \<Rightarrow> msg_queue_info \<Rightarrow> msg_queue_info res" where
  "add_member pd mq =
     (let n = member_count mq + 1
      in if unat (n - 1) < length (member_pid mq)
         then Inr (mq\<lparr>member_count := n, member_pid := (member_pid mq)[unat (n - 1) := pd]\<rparr>)
         else Inl OutOfBounds)"

primrec add_child_loop :: "u32 \<Rightarrow> kernel \<Rightarrow> nat option list \<Rightarrow> kernel res" where
  "add_child_loop pd k [] = Inr k"
| "add_child_loop pd k (fp # fps) =
     bind_res
       (with_queue k fp (Inr k) (\<lambda>qa mq.
          bind_res (add_member pd mq) (\<lambda>mq'. Inr (put_queue k qa mq'))))
       (\<lambda>k'. add_child_loop pd k' fps)"

definition do_add_child_to_msg_queue :: "kernel \<Rightarrow> nat \<Rightarrow> kernel res" where
  "do_add_child_to_msg_queue k child =
     bind_res (ctx_at k child) (\<lambda>ctx. add_child_loop (pid ctx) k (take MAX_OPEN_FILES (files ctx)))"

primrec cleanup_loop :: "kernel \<Rightarrow> nat \<Rightarrow> nat list \<Rightarrow> kernel res" where
  "cleanup_loop k c [] = Inr k"
| "cleanup_loop k c (fd # fds) =
     bind_res (get_fd k c (int fd)) (\<lambda>fp.
     bind_res (with_queue k fp (Inr k) (\<lambda>qa mq.
         bind_res (do_msg_queue_close k c (int fd)) (\<lambda>(_, k'). Inr k')))
       (\<lambda>k'. cleanup_loop k' c fds))"

definition do_msg_queue_cleanup :: "kernel \<Rightarrow> nat \<Rightarrow> kernel res" where
  "do_msg_queue_cleanup k c = cleanup_loop k c [0..<MAX_OPEN_FILES]"

section \<open>Well-formed queues\<close>

definition members :: "msg_queue_info \<Rightarrow> u32 list" where
  "members mq = take (unat (member_count mq)) (member_pid mq)"

definition messages :: "msg_queue_info \<Rightarrow> message list" where
  "messages mq = take (nat (msg_count mq)) (msg_buffer mq)"

definition mq_ok :: "msg_queue_info \<Rightarrow> bool" where
  "mq_ok mq \<longleftrightarrow>
     length (member_pid mq) = MAX_MEMBERS \<and> unat (member_count mq) \<le> MAX_MEMBERS \<and>
     distinct (members mq) \<and>
     length (msg_buffer mq) = MAX_MESSAGES \<and> 0 \<le> msg_count mq \<and> nat (msg_count mq) \<le> MAX_MESSAGES \<and>
     length (block_process mq) = MAX_MEMBERS * MAX_MEMBERS + 3"

lemma mq_okD:
  assumes "mq_ok mq"
  shows "length (member_pid mq) = MAX_MEMBERS" "unat (member_count mq) \<le> MAX_MEMBERS"
    "distinct (members mq)" "length (msg_buffer mq) = MAX_MESSAGES" "0 \<le> msg_count mq"
    "nat (msg_count mq) \<le> MAX_MESSAGES" "length (block_process mq) = MAX_MEMBERS * MAX_MEMBERS + 3"
    "length (members mq) = unat (member_count mq)" "length (messages mq) = nat (msg_count mq)"
  using assms by (simp_all add: mq_ok_def members_def messages_def)

section \<open>The loops\<close>

lemma scan_eq: "i + n \<le> length xs \<Longrightarrow> scan P xs i n = Inr (find (\<lambda>j. P (xs ! j)) [i..<i + n])"
proof (induction n arbitrary: i)
  case 0
  then show ?case by simp
next
  case (Suc n)
  have "[i..<i + Suc n] = i # [Suc i..<Suc i + n]" by (simp add: upt_conv_Cons)
  with Suc show ?case by simp
qed

lemma scan_take:
  assumes "n \<le> length xs"
  shows "scan P xs 0 n = Inr (find (\<lambda>j. P (take n xs ! j)) [0..<length (take n xs)])"
proof -
  have "find (\<lambda>j. P (xs ! j)) [0..<n] = find (\<lambda>j. P (take n xs ! j)) [0..<n]"
    by (rule find_cong) simp_all
  moreover have "scan P xs 0 n = Inr (find (\<lambda>j. P (xs ! j)) [0..<n])"
    using scan_eq [of 0 n xs P] assms by simp
  moreover have "length (take n xs) = n" using assms by simp
  ultimately show ?thesis by (simp only:)
qed

lemma find_index_Some:
  "find (\<lambda>j. P (xs ! j)) [0..<length xs] = Some i \<longleftrightarrow> i < length xs \<and> P (xs ! i) \<and> (\<forall>j<i. \<not> P (xs ! j))"
  by (auto simp: find_Some_iff)

lemma find_index_None: "find (\<lambda>j. P (xs ! j)) [0..<length xs] = None \<longleftrightarrow> (\<forall>x\<in>set xs. \<not> P x)"
  by (simp add: find_None_iff all_set_conv_all_nth)

lemma find_member_eq:
  assumes "mq_ok mq"
  shows "find_member mq pd = Inr (find (\<lambda>j. members mq ! j = pd) [0..<length (members mq)])"
  unfolding find_member_def members_def using mq_okD(1,2) [OF assms] by (intro scan_take) simp

lemma find_member_cases:
  assumes "mq_ok mq"
  obtains (absent) "find_member mq pd = Inr None" "pd \<notin> set (members mq)"
  | (present) i where "find_member mq pd = Inr (Some i)" "i < length (members mq)" "members mq ! i = pd"
proof (cases "find (\<lambda>j. members mq ! j = pd) [0..<length (members mq)]")
  case None
  then show ?thesis
    using absent find_index_None [of "\<lambda>q. q = pd" "members mq"]
    by (auto simp: find_member_eq [OF assms])
next
  case (Some i)
  then show ?thesis
    using present [of i] find_index_Some [of "\<lambda>q. q = pd" "members mq" i]
    by (auto simp: find_member_eq [OF assms])
qed

lemma find_message_eq:
  assumes "mq_ok mq"
  shows "find_message mq pd = Inr (find (\<lambda>j. to_pid (messages mq ! j) = pd) [0..<length (messages mq)])"
  unfolding find_message_def messages_def using mq_okD(4,6) [OF assms] by (intro scan_take) simp

lemma length_shift_down [simp]: "length (shift_down i n xs) = length xs"
proof -
  have "length (fold (\<lambda>j b. b[j := b ! Suc j]) js xs) = length xs" for js
    by (induction js arbitrary: xs) simp_all
  then show ?thesis by (simp add: shift_down_def)
qed

lemma nth_shift_down:
  assumes "n \<le> length xs" "j < length xs"
  shows "shift_down i n xs ! j = (if i \<le> j \<and> j < n - 1 then xs ! Suc j else xs ! j)"
proof -
  have "m < length xs \<Longrightarrow> j < length xs \<Longrightarrow>
      length (fold (\<lambda>j b. b[j := b ! Suc j]) [i..<m] xs) = length xs \<and>
      (fold (\<lambda>j b. b[j := b ! Suc j]) [i..<m] xs) ! j = (if i \<le> j \<and> j < m then xs ! Suc j else xs ! j)"
    for m j
  proof (induction m arbitrary: j)
    case 0
    then show ?case by simp
  next
    case (Suc m)
    show ?case
    proof (cases "i \<le> m")
      case True
      with Suc.IH [of j] Suc.IH [of "Suc m"] Suc.prems show ?thesis
        by (auto simp: nth_list_update less_Suc_eq)
    next
      case False
      with Suc.prems show ?thesis by (auto simp: not_le)
    qed
  qed
  from this [of "n - 1" j] assms show ?thesis by (auto simp: shift_down_def)
qed

lemma take_shift_down:
  assumes "i < n" "n \<le> length xs"
  shows "take (n - 1) (shift_down i n xs) = take i (take n xs) @ drop (Suc i) (take n xs)"
proof (rule nth_equalityI)
  show len: "length (take (n - 1) (shift_down i n xs)) =
        length (take i (take n xs) @ drop (Suc i) (take n xs))"
    using assms by simp
  fix j assume "j < length (take (n - 1) (shift_down i n xs))"
  then have "j < n - 1" "j < length xs" using assms by auto
  then show "take (n - 1) (shift_down i n xs) ! j = (take i (take n xs) @ drop (Suc i) (take n xs)) ! j"
    using assms by (auto simp: nth_shift_down nth_append)
qed

lemma drop_messages_eq:
  assumes "n \<le> length buf" "drop_messages pd n buf = (b, t)"
  shows "length b = length buf" "t \<le> n" "take t b = filter (\<lambda>msg. to_pid msg \<noteq> pd) (take n buf)"
    "\<forall>j. n \<le> j \<longrightarrow> b ! j = buf ! j"
proof -
  have "length b = length buf \<and> t \<le> n \<and>
      take t b = filter (\<lambda>msg. to_pid msg \<noteq> pd) (take n buf) \<and> (\<forall>j. n \<le> j \<longrightarrow> b ! j = buf ! j)"
    using assms
  proof (induction n arbitrary: b t)
    case 0
    then show ?case by (simp add: drop_messages_def)
  next
    case (Suc n)
    obtain b0 t0 where b0: "drop_messages pd n buf = (b0, t0)" by fastforce
    with Suc have IH: "length b0 = length buf" "t0 \<le> n"
      "take t0 b0 = filter (\<lambda>msg. to_pid msg \<noteq> pd) (take n buf)" "\<forall>j. n \<le> j \<longrightarrow> b0 ! j = buf ! j"
      by auto
    have step: "(b, t) = (if to_pid (b0 ! n) \<noteq> pd then (b0[t0 := b0 ! n], Suc t0) else (b0, t0))"
      using Suc.prems(2) b0 by (simp add: drop_messages_def)
    have tk: "take (Suc n) buf = take n buf @ [buf ! n]" "b0 ! n = buf ! n"
      using Suc.prems(1) IH(4) by (simp_all add: take_Suc_conv_app_nth)
    have "take (Suc t0) (b0[t0 := x]) = take t0 b0 @ [x]" for x
      using IH(1,2) Suc.prems(1) by (simp add: take_Suc_conv_app_nth)
    with step IH tk show ?case by (auto split: if_splits)
  qed
  then show "length b = length buf" "t \<le> n" "take t b = filter (\<lambda>msg. to_pid msg \<noteq> pd) (take n buf)"
    "\<forall>j. n \<le> j \<longrightarrow> b ! j = buf ! j" by auto
qed

section \<open>Appending and receiving\<close>

lemma append_msg_ok:
  assumes ok: "mq_ok mq" and eq: "append_msg msg mq = Inr mq'"
  shows "mq_ok mq'" "messages mq' = messages mq @ [msg]" "members mq' = members mq"
    "member_count mq' = member_count mq" "member_pid mq' = member_pid mq"
    "block_process mq' = block_process mq"
proof -
  note o = mq_okD [OF ok]
  have lt: "nat (msg_count mq) < MAX_MESSAGES"
    and mq': "mq' = mq\<lparr>msg_buffer := (msg_buffer mq)[nat (msg_count mq) := msg],
                      msg_count := msg_count mq + 1\<rparr>"
    using eq o(4) by (auto simp: append_msg_def split: if_splits)
  show "messages mq' = messages mq @ [msg]"
    using lt o by (simp add: messages_def mq' nat_add_distrib take_Suc_conv_app_nth)
  show "mq_ok mq'" using ok lt by (simp add: mq_ok_def mq' members_def)
  show "members mq' = members mq" "member_count mq' = member_count mq"
    "member_pid mq' = member_pid mq" "block_process mq' = block_process mq"
    by (simp_all add: mq' members_def)
qed

lemma append_msg_total:
  assumes "mq_ok mq"
  shows "(\<exists>mq'. append_msg msg mq = Inr mq') \<longleftrightarrow> length (messages mq) < MAX_MESSAGES"
  using mq_okD [OF assms] by (simp add: append_msg_def)

lemma rcv_body_cases:
  assumes ok: "mq_ok mq"
  obtains (empty) "rcv_body pd mq = Inr (0, None, mq)" "\<forall>m\<in>set (messages mq). to_pid m \<noteq> pd"
  | (got) xs m ys mq' where "rcv_body pd mq = Inr (1, Some m, mq')" "to_pid m = pd"
      "messages mq = xs @ m # ys" "\<forall>x\<in>set xs. to_pid x \<noteq> pd" "messages mq' = xs @ ys"
      "mq_ok mq'" "members mq' = members mq" "block_process mq' = block_process mq"
proof (cases "find (\<lambda>j. to_pid (messages mq ! j) = pd) [0..<length (messages mq)]")
  case None
  then show ?thesis
    using empty find_index_None [of "\<lambda>m. to_pid m = pd" "messages mq"]
    by (auto simp: rcv_body_def find_message_eq [OF ok])
next
  case (Some i)
  note o = mq_okD [OF ok]
  have i: "i < length (messages mq)" "to_pid (messages mq ! i) = pd" "\<forall>j<i. to_pid (messages mq ! j) \<noteq> pd"
    using Some find_index_Some [of "\<lambda>m. to_pid m = pd" "messages mq" i] by auto
  then have lt: "i < nat (msg_count mq)" using o(9) by simp
  let ?n = "nat (msg_count mq)"
  let ?mq' = "mq\<lparr>msg_buffer := shift_down i ?n (msg_buffer mq), msg_count := msg_count mq - 1\<rparr>"
  have "rcv_body pd mq = Inr (1, Some (messages mq ! i), ?mq')"
    using Some lt by (simp add: rcv_body_def find_message_eq [OF ok] messages_def)
  moreover have "messages ?mq' = take i (messages mq) @ drop (Suc i) (messages mq)"
    using take_shift_down [OF lt, of "msg_buffer mq"] o
    by (simp add: messages_def nat_diff_distrib')
  moreover have "mq_ok ?mq'" using ok lt by (auto simp: mq_ok_def members_def)
  moreover have "\<forall>x\<in>set (take i (messages mq)). to_pid x \<noteq> pd"
    using i by (auto simp: in_set_conv_nth)
  ultimately show ?thesis
    using i by (intro got [of "messages mq ! i" ?mq' "take i (messages mq)" "drop (Suc i) (messages mq)"])
      (simp_all add: id_take_nth_drop [symmetric] members_def)
qed

section \<open>The mailbox contract\<close>

text \<open>
  What a queue promises its members: a message put in is kept, and each member gets the messages
  addressed to it, each once and in the order they were sent. The contract is stated over any
  implementation of the two operations, with the queued messages as the abstraction.
\<close>

datatype mail_op = Put message | Get u32

primrec run_mail ::
    "(message \<Rightarrow> 'q \<Rightarrow> 'q res) \<Rightarrow> (u32 \<Rightarrow> 'q \<Rightarrow> (int \<times> message option \<times> 'q) res) \<Rightarrow>
     mail_op list \<Rightarrow> 'q \<Rightarrow> ((u32 \<times> message) list \<times> 'q) res" where
  "run_mail put get [] q = Inr ([], q)"
| "run_mail put get (x # xs) q =
     (case x of
        Put msg \<Rightarrow> bind_res (put msg q) (\<lambda>q'. run_mail put get xs q')
      | Get pd \<Rightarrow>
          bind_res (get pd q) (\<lambda>(r, out, q').
          bind_res (run_mail put get xs q') (\<lambda>(log, q'').
            Inr ((case out of None \<Rightarrow> log | Some msg \<Rightarrow> (pd, msg) # log), q''))))"

definition addressed :: "u32 \<Rightarrow> message list \<Rightarrow> message list" where
  "addressed pd ms = filter (\<lambda>msg. to_pid msg = pd) ms"

definition received_by :: "u32 \<Rightarrow> (u32 \<times> message) list \<Rightarrow> message list" where
  "received_by pd log = map snd (filter (\<lambda>(p, _). p = pd) log)"

primrec sent :: "mail_op list \<Rightarrow> message list" where
  "sent [] = []"
| "sent (x # xs) = (case x of Put msg \<Rightarrow> msg # sent xs | Get _ \<Rightarrow> sent xs)"

locale mailbox =
  fixes put :: "message \<Rightarrow> 'q \<Rightarrow> 'q res"
    and get :: "u32 \<Rightarrow> 'q \<Rightarrow> (int \<times> message option \<times> 'q) res"
    and queued :: "'q \<Rightarrow> message list"
    and invar :: "'q \<Rightarrow> bool"
  assumes put_law: "invar q \<Longrightarrow> put msg q = Inr q' \<Longrightarrow> invar q' \<and> queued q' = queued q @ [msg]"
    and get_some: "invar q \<Longrightarrow> get pd q = Inr (r, Some msg, q') \<Longrightarrow>
      invar q' \<and> to_pid msg = pd \<and> (\<exists>xs ys. queued q = xs @ msg # ys \<and> queued q' = xs @ ys \<and>
        (\<forall>x\<in>set xs. to_pid x \<noteq> pd))"
    and get_none: "invar q \<Longrightarrow> get pd q = Inr (r, None, q') \<Longrightarrow>
      q' = q \<and> (\<forall>x\<in>set (queued q). to_pid x \<noteq> pd)"
    and get_total: "invar q \<Longrightarrow> \<exists>r out q'. get pd q = Inr (r, out, q')"
begin

lemma get_addressed:
  assumes "invar q" "get pd q = Inr (r, Some msg, q')"
  shows "addressed pd' (queued q) = (if pd' = pd then [msg] else []) @ addressed pd' (queued q')"
  using get_some [OF assms] by (auto simp: addressed_def filter_empty_conv [THEN iffD2])

lemma get_empty_iff:
  assumes "invar q"
  shows "(\<exists>r q'. get pd q = Inr (r, None, q')) \<longleftrightarrow> addressed pd (queued q) = []"
proof
  assume "\<exists>r q'. get pd q = Inr (r, None, q')"
  then show "addressed pd (queued q) = []"
    using get_none [OF assms] by (fastforce simp: addressed_def filter_empty_conv)
next
  assume none: "addressed pd (queued q) = []"
  obtain r out q' where g: "get pd q = Inr (r, out, q')" using get_total [OF assms] by blast
  with none get_addressed [OF assms, of pd r _ q' pd] show "\<exists>r q'. get pd q = Inr (r, None, q')"
    by (cases out) auto
qed

text \<open>First in, first out, per member: nothing is lost, duplicated or reordered.\<close>

lemma fifo:
  assumes "invar q" "run_mail put get ops q = Inr (log, q')"
  shows "received_by pd log @ addressed pd (queued q') = addressed pd (queued q) @ addressed pd (sent ops)"
    and "invar q'"
proof -
  have "received_by pd log @ addressed pd (queued q') = addressed pd (queued q) @ addressed pd (sent ops)
      \<and> invar q'"
    using assms
  proof (induction ops arbitrary: q log)
    case Nil
    then show ?case by (simp add: received_by_def addressed_def)
  next
    case (Cons x xs)
    show ?case
    proof (cases x)
      case (Put msg)
      with Cons.prems obtain q1 where q1: "put msg q = Inr q1" "run_mail put get xs q1 = Inr (log, q')"
        by (auto simp: bind_res_Inr)
      with Cons.IH [OF _ q1(2)] put_law [OF Cons.prems(1) q1(1)] Put show ?thesis
        by (auto simp: addressed_def)
    next
      case (Get pd')
      with Cons.prems obtain r out q1 log1 where q1: "get pd' q = Inr (r, out, q1)"
        "run_mail put get xs q1 = Inr (log1, q')"
        "log = (case out of None \<Rightarrow> log1 | Some msg \<Rightarrow> (pd', msg) # log1)"
        by (auto simp: bind_res_Inr)
      show ?thesis
      proof (cases out)
        case None
        with get_none [OF Cons.prems(1)] q1(1) have "q1 = q" by blast
        with Cons.IH [OF _ q1(2)] None q1(3) Get Cons.prems(1) show ?thesis by simp
      next
        case (Some msg)
        with Cons.IH [OF _ q1(2)] get_some [OF Cons.prems(1)] get_addressed [OF Cons.prems(1)] q1 Get
        show ?thesis by (auto simp: received_by_def)
      qed
    qed
  qed
  then show "received_by pd log @ addressed pd (queued q') = addressed pd (queued q) @ addressed pd (sent ops)"
    "invar q'" by simp_all
qed

end

text \<open>The message buffer of \<^verbatim>\<open>msg_queue.c\<close> is such a mailbox.\<close>

interpretation mq: mailbox append_msg rcv_body messages mq_ok
proof unfold_locales
  fix q msg q'
  assume "mq_ok q" "append_msg msg q = Inr q'"
  then show "mq_ok q' \<and> messages q' = messages q @ [msg]"
    using append_msg_ok(1,2) by blast
next
  fix q pd r msg q'
  assume ok: "mq_ok q" and eq: "rcv_body pd q = Inr (r, Some msg, q')"
  from ok show "mq_ok q' \<and> to_pid msg = pd \<and> (\<exists>xs ys. messages q = xs @ msg # ys \<and>
      messages q' = xs @ ys \<and> (\<forall>x\<in>set xs. to_pid x \<noteq> pd))"
    by (cases rule: rcv_body_cases [of q pd]) (use eq in auto)
next
  fix q pd r q'
  assume ok: "mq_ok q" and eq: "rcv_body pd q = Inr (r, None, q')"
  from ok show "q' = q \<and> (\<forall>x\<in>set (messages q). to_pid x \<noteq> pd)"
    by (cases rule: rcv_body_cases [of q pd]) (use eq in auto)
next
  fix q pd
  assume ok: "mq_ok q"
  from ok show "\<exists>r out q'. rcv_body pd q = Inr (r, out, q')"
    by (cases rule: rcv_body_cases [of q pd]) blast+
qed

section \<open>Sending\<close>

lemma blocked_eq:
  assumes "mq_ok mq" "i < MAX_MEMBERS" "width \<le> MAX_PROCESSES"
  shows "blocked mq i width pd =
    Inr (\<exists>j<width. word_of_int (block_process mq ! (i * MAX_MEMBERS + j)) = pd)"
  using assms mq_okD(7) [OF assms(1)] by (auto simp: blocked_def k_const)

lemma members_nth: "i < length (members mq) \<Longrightarrow> members mq ! i = member_pid mq ! i"
  by (simp add: members_def)

text \<open>
  The sender of a message is refused by a member whose row of the block table names it. For a
  message to one member the row is read three words further.
\<close>

definition row_blocks :: "msg_queue_info \<Rightarrow> nat \<Rightarrow> u32 \<Rightarrow> bool" where
  "row_blocks mq i pd \<longleftrightarrow> (\<exists>x \<in> set (block_row mq i). word_of_int x = pd)"

lemma blocked_row:
  assumes "mq_ok mq" "i < MAX_MEMBERS"
  shows "blocked mq i MAX_MEMBERS pd = Inr (row_blocks mq i pd)"
  using assms by (subst blocked_eq) (auto simp: row_blocks_def block_row_def k_const)

lemma blocked_wide:
  assumes "mq_ok mq" "i < MAX_MEMBERS" "row_blocks mq i pd"
  shows "blocked mq i MAX_PROCESSES pd = Inr True"
proof -
  from assms(3) obtain j where "j < MAX_MEMBERS"
    "word_of_int (block_process mq ! (i * MAX_MEMBERS + j)) = pd"
    by (auto simp: row_blocks_def block_row_def)
  then have "\<exists>j<MAX_PROCESSES. word_of_int (block_process mq ! (i * MAX_MEMBERS + j)) = pd"
    by (intro exI [of _ j]) (simp add: k_const)
  with assms show ?thesis by (simp add: blocked_eq)
qed

text \<open>The recipients of a broadcast, in the order of the member table.\<close>

definition recipients :: "u32 \<Rightarrow> msg_queue_info \<Rightarrow> u32 list" where
  "recipients pd mq =
     map (\<lambda>i. members mq ! i)
       (filter (\<lambda>i. members mq ! i \<noteq> pd \<and> \<not> row_blocks mq i pd) [0..<length (members mq)])"

lemma filter_upt_Suc:
  "filter P [i..<i + Suc n] =
     (if P i then i # filter P [Suc i..<Suc i + n] else filter P [Suc i..<Suc i + n])"
proof -
  have "[i..<i + Suc n] = i # [Suc i..<Suc i + n]" by (simp add: upt_conv_Cons del: upt_Suc)
  then show ?thesis by simp
qed

lemma broadcast_loop_spec:
  assumes "mq_ok mq" "i + n = length (members mq)"
    and "broadcast_loop pd msg i n d mq = Inr (r, mq')"
  shows "mq_ok mq'" "members mq' = members mq" "block_process mq' = block_process mq"
    and "messages mq' = messages mq @ map (\<lambda>j. msg\<lparr>to_pid := members mq ! j\<rparr>)
           (filter (\<lambda>j. members mq ! j \<noteq> pd \<and> \<not> row_blocks mq j pd) [i..<i + n])"
    and "r = d + int (length (filter (\<lambda>j. members mq ! j \<noteq> pd \<and> \<not> row_blocks mq j pd) [i..<i + n]))"
proof -
  have "mq_ok mq' \<and> members mq' = members mq \<and> block_process mq' = block_process mq \<and>
     messages mq' = messages mq @ map (\<lambda>j. msg\<lparr>to_pid := members mq ! j\<rparr>)
           (filter (\<lambda>j. members mq ! j \<noteq> pd \<and> \<not> row_blocks mq j pd) [i..<i + n]) \<and>
     r = d + int (length (filter (\<lambda>j. members mq ! j \<noteq> pd \<and> \<not> row_blocks mq j pd) [i..<i + n]))"
    using assms
  proof (induction n arbitrary: i d mq)
    case 0
    then show ?case by simp
  next
    case (Suc n)
    note o = mq_okD [OF Suc.prems(1)]
    have i: "i < length (members mq)" "i < MAX_MEMBERS" "i < length (member_pid mq)"
      using Suc.prems(2) o by simp_all

    have sn: "Suc i + n = length (members mq)" using Suc.prems(2) by simp
    have at: "member_pid mq ! i = members mq ! i" using i by (simp add: members_nth)
    show ?case
    proof (cases "members mq ! i \<noteq> pd \<and> \<not> row_blocks mq i pd")
      case False
      then have "broadcast_loop pd msg (Suc i) n d mq = Inr (r, mq')"
        using Suc.prems(3) i at blocked_row [OF Suc.prems(1) i(2)] by (auto split: if_splits)
      from Suc.IH [OF Suc.prems(1) sn this] False show ?thesis
        unfolding filter_upt_Suc by (auto simp del: upt_Suc)
    next
      case True
      then obtain mq1 where mq1: "append_msg (msg\<lparr>to_pid := members mq ! i\<rparr>) mq = Inr mq1"
        "broadcast_loop pd msg (Suc i) n (d + 1) mq1 = Inr (r, mq')"
        using Suc.prems(3) i at blocked_row [OF Suc.prems(1) i(2)]
        by (auto simp: bind_res_Inr split: if_splits)
      note a = append_msg_ok [OF Suc.prems(1) mq1(1)]
      have "row_blocks mq1 = row_blocks mq" using a(6) by (simp add: fun_eq_iff row_blocks_def block_row_def)
      have "Suc i + n = length (members mq1)" using sn a(3) by simp
      from Suc.IH [OF a(1) this mq1(2)] \<open>row_blocks mq1 = row_blocks mq\<close> a(2,3,6) True show ?thesis
        unfolding filter_upt_Suc by (simp del: upt_Suc)
    qed
  qed
  then show "mq_ok mq'" "members mq' = members mq" "block_process mq' = block_process mq"
    "messages mq' = messages mq @ map (\<lambda>j. msg\<lparr>to_pid := members mq ! j\<rparr>)
           (filter (\<lambda>j. members mq ! j \<noteq> pd \<and> \<not> row_blocks mq j pd) [i..<i + n])"
    "r = d + int (length (filter (\<lambda>j. members mq ! j \<noteq> pd \<and> \<not> row_blocks mq j pd) [i..<i + n]))"
    by blast+
qed

lemma broadcast_total:
  assumes "mq_ok mq" "i + n = length (members mq)" "length (messages mq) + n \<le> MAX_MESSAGES"
  shows "\<exists>r mq'. broadcast_loop pd msg i n d mq = Inr (r, mq')"
  using assms
proof (induction n arbitrary: i d mq)
  case 0
  then show ?case by simp
next
  case (Suc n)
  note o = mq_okD [OF Suc.prems(1)]
  have i: "i < MAX_MEMBERS" "i < length (member_pid mq)" using Suc.prems(2) o by simp_all
  obtain mq1 where mq1: "append_msg (msg\<lparr>to_pid := member_pid mq ! i\<rparr>) mq = Inr mq1"
    using append_msg_total [OF Suc.prems(1)] Suc.prems(3) by (metis add_Suc_right less_le_trans less_add_Suc1 less_Suc_eq_le)
  note a = append_msg_ok [OF Suc.prems(1) mq1]
  have "\<exists>r mq'. broadcast_loop pd msg (Suc i) n (d + 1) mq1 = Inr (r, mq')"
    using Suc.IH [OF a(1), of "Suc i"] Suc.prems(2,3) a(2,3) by simp
  moreover have "\<exists>r mq'. broadcast_loop pd msg (Suc i) n d mq = Inr (r, mq')"
    using Suc.IH [OF Suc.prems(1), of "Suc i"] Suc.prems(2,3) by simp
  ultimately show ?case using i mq1 blocked_row [OF Suc.prems(1) i(1)] by simp
qed

lemma unicast_cases:
  assumes ok: "mq_ok mq" and eq: "unicast pd msg mq = Inr (r, mq')"
  obtains (refused) "r = -EINVAL" "mq' = mq"
  | (delivered) i where "r = 1" "i < length (members mq)" "members mq ! i = to_pid msg"
      "\<not> row_blocks mq i pd" "append_msg msg mq = Inr mq'"
  using ok
proof (cases rule: find_member_cases [of mq "to_pid msg"])
  case absent
  with eq refused show ?thesis by (simp add: unicast_def)
next
  case (present i)
  have i: "i < MAX_MEMBERS" using present(2) mq_okD [OF ok] by simp
  obtain b where b: "blocked mq i MAX_PROCESSES pd = Inr b"
    using blocked_eq [OF ok i] by simp
  show ?thesis
  proof (cases b)
    case True
    with eq present(1) b refused show ?thesis by (simp add: unicast_def)
  next
    case False
    then have "\<not> row_blocks mq i pd" using blocked_wide [OF ok i] b by auto
    with eq present b False delivered [of i] show ?thesis by (auto simp: unicast_def bind_res_Inr)
  qed
qed

lemma send_body_ok:
  assumes ok: "mq_ok mq" and eq: "send_body pd msg mq = Inr (r, mq')"
  shows "mq_ok mq'" "members mq' = members mq" "block_process mq' = block_process mq"
proof -
  have "mq_ok mq' \<and> members mq' = members mq \<and> block_process mq' = block_process mq"
  proof (cases "from_pid msg \<noteq> pd \<or> from_pid msg = to_pid msg")
    case True
    with eq ok show ?thesis by (simp add: send_body_def)
  next
    case False
    show ?thesis
    proof (cases "to_pid msg = BROADCAST_PID")
      case True
      with False eq have "broadcast_loop pd msg 0 (unat (member_count mq)) 0 mq = Inr (r, mq')"
        by (simp add: send_body_def)
      from broadcast_loop_spec(1-3) [OF ok _ this] mq_okD [OF ok] show ?thesis by simp
    next
      case False
      with \<open>\<not> (_ \<or> _)\<close> eq have u: "unicast pd msg mq = Inr (r, mq')" by (simp add: send_body_def)
      from ok u show ?thesis
      proof (cases rule: unicast_cases)
        case refused
        with ok show ?thesis by simp
      next
        case (delivered i)
        with append_msg_ok [OF ok delivered(5)] show ?thesis by blast
      qed
    qed
  qed
  then show "mq_ok mq'" "members mq' = members mq" "block_process mq' = block_process mq" by blast+
qed

section \<open>Blocking\<close>

lemma word_minus_1: "(word_of_int (-1) :: u32) = BROADCAST_PID"
  by (simp add: BROADCAST_PID_def)

lemma last_member_eq:
  assumes ok: "mq_ok mq"
  shows "last_member mq pd = find_member mq pd"
proof -
  note o = mq_okD [OF ok]
  have lm: "last_member mq pd = Inr (find (\<lambda>i. member_pid mq ! i = pd) (rev [0..<length (members mq)]))"
    using o by (simp add: last_member_def)
  from ok show ?thesis
  proof (cases rule: find_member_cases [of mq pd])
    case absent
    then have "find (\<lambda>i. member_pid mq ! i = pd) (rev [0..<length (members mq)]) = None"
      by (auto simp: find_None_iff members_nth [symmetric])
    with absent lm show ?thesis by simp
  next
    case (present i)
    have only: "member_pid mq ! j = pd \<longleftrightarrow> j = i" if "j < length (members mq)" for j
      using that present(2,3) nth_eq_iff_index_eq [OF o(3) that present(2)] by (simp add: members_nth)
    obtain j where j: "find (\<lambda>i. member_pid mq ! i = pd) (rev [0..<length (members mq)]) = Some j"
      using present(2) only [OF present(2)]
      by (cases "find (\<lambda>i. member_pid mq ! i = pd) (rev [0..<length (members mq)])")
        (auto simp: find_None_iff)
    then have "j < length (members mq)" "member_pid mq ! j = pd"
      by (auto simp: find_Some_iff rev_nth)
    with only have "j = i" by simp
    with present(1) lm j show ?thesis by simp
  qed
qed

lemma length_block_row [simp]: "length (block_row mq i) = MAX_MEMBERS"
  by (simp add: block_row_def)

lemma nth_block_row: "j < MAX_MEMBERS \<Longrightarrow> block_row mq i ! j = block_process mq ! (i * MAX_MEMBERS + j)"
  by (simp add: block_row_def)

lemma block_index:
  assumes "i < MAX_MEMBERS" "j < MAX_MEMBERS"
  shows "i * MAX_MEMBERS + j < MAX_MEMBERS * MAX_MEMBERS"
proof -
  have "i * MAX_MEMBERS + j < Suc i * MAX_MEMBERS" using assms(2) by simp
  also have "\<dots> \<le> MAX_MEMBERS * MAX_MEMBERS" using assms(1) by (intro mult_right_mono) simp_all
  finally show ?thesis .
qed

lemma block_index_eq:
  "j < MAX_MEMBERS \<Longrightarrow> j' < MAX_MEMBERS \<Longrightarrow>
   i * MAX_MEMBERS + j = i' * MAX_MEMBERS + j' \<longleftrightarrow> i = i' \<and> j = j'"
  unfolding k_const by presburger

lemma block_row_update:
  assumes "mq_ok mq" "i < MAX_MEMBERS" "s < MAX_MEMBERS"
  shows "block_row (mq\<lparr>block_process := (block_process mq)[i * MAX_MEMBERS + s := x]\<rparr>) i' =
    (if i' = i then (block_row mq i)[s := x] else block_row mq i')"
  using assms mq_okD(7) [OF assms(1)] block_index [OF assms(2,3)]
  by (auto simp: list_eq_iff_nth_eq nth_block_row nth_list_update block_index_eq)

lemma row_blocks_image: "row_blocks mq i b \<longleftrightarrow> b \<in> word_of_int ` set (block_row mq i)"
  by (auto simp: row_blocks_def)

text \<open>The two ways a call to block ends; \<open>i\<close> is the index of the caller.\<close>

lemma block_body_cases:
  assumes ok: "mq_ok mq" and eq: "block_body me pd mq = Inr (r, mq')"
  obtains (refused) "r = -EINVAL" "mq' = mq"
  | (blocks) i where "r = 0" "i < length (members mq)" "members mq ! i = me"
      "word_of_int pd \<in> set (members mq)" "word_of_int pd \<noteq> me" "mq_ok mq'"
      "members mq' = members mq" "messages mq' = messages mq" "pd \<in> set (block_row mq' i)"
      "\<forall>i'. i' \<noteq> i \<longrightarrow> block_row mq' i' = block_row mq i'" "member_count mq' = member_count mq"
      "\<forall>b. b \<noteq> BROADCAST_PID \<longrightarrow> row_blocks mq' i b = (row_blocks mq i b \<or> b = word_of_int pd)"
  using ok
proof (cases rule: find_member_cases [of mq me])
  case absent
  with eq refused show ?thesis by (simp add: block_body_def last_member_eq [OF ok] bind_res_Inr split: option.splits)
next
  case (present i)
  note i = this
  have i4: "i < MAX_MEMBERS" using i(2) mq_okD [OF ok] by simp
  from ok show ?thesis
  proof (cases rule: find_member_cases [of mq "word_of_int pd"])
    case absent
    with i eq refused show ?thesis by (simp add: block_body_def last_member_eq [OF ok])
  next
    case (present j)
    show ?thesis
    proof (cases "i = j")
      case True
      with i present eq refused show ?thesis by (simp add: block_body_def last_member_eq [OF ok])
    next
      case False
      have other: "word_of_int pd \<in> set (members mq)" "word_of_int pd \<noteq> me"
        using False i present nth_eq_iff_index_eq [OF mq_okD(3) [OF ok] i(2) present(2)]
        by (auto simp: in_set_conv_nth)
      show ?thesis
      proof (cases "pd \<in> set (block_row mq i)")
        case True
        with i present eq False have "r = 0" "mq' = mq" by (simp_all add: block_body_def last_member_eq [OF ok])
        with blocks [of i] i True other ok show ?thesis by (auto simp: row_blocks_def)
      next
        case new: False
        show ?thesis
        proof (cases "find (\<lambda>s. block_row mq i ! s = -1) [0..<MAX_MEMBERS]")
          case None
          with i present eq False new refused show ?thesis by (simp add: block_body_def last_member_eq [OF ok])
        next
          case (Some s)
          have s: "s < MAX_MEMBERS" using find_upt_SomeD [OF Some] by simp
          have mq': "r = 0" "mq' = mq\<lparr>block_process := (block_process mq)[i * MAX_MEMBERS + s := pd]\<rparr>"
            using Some i present eq False new by (simp_all add: block_body_def last_member_eq [OF ok])
          note row = block_row_update [OF ok i4 s, of pd]
          have "pd \<in> set (block_row mq' i)" using s by (simp add: mq' row set_update_memI)
          moreover have "mq_ok mq'" using ok by (simp add: mq' mq_ok_def members_def)
          moreover have "row_blocks mq' i b = (row_blocks mq i b \<or> b = word_of_int pd)"
            if "b \<noteq> BROADCAST_PID" for b
          proof -
            have "b \<noteq> word_of_int (block_row mq i ! s)"
              using that find_upt_SomeD [OF Some] word_minus_1 by simp
            then show ?thesis
              using image_set_update [of s "block_row mq i" b word_of_int pd] s
              by (simp add: row_blocks_image mq' row)
          qed
          ultimately show ?thesis using blocks [of i] i other mq'(1)
            by (simp add: mq'(2) row members_def messages_def)
        qed
      qed
    qed
  qed
qed

lemma block_body_total:
  assumes "mq_ok mq"
  shows "\<exists>r mq'. block_body me pd mq = Inr (r, mq')"
proof -
  obtain a b where ab: "last_member mq me = Inr a" "last_member mq (word_of_int pd) = Inr b"
    using assms by (simp add: last_member_eq find_member_eq)
  show ?thesis
    by (cases a; cases b) (simp_all add: block_body_def ab split: option.split)
qed

lemma row_blocksI: "pd \<in> set (block_row mq i) \<Longrightarrow> row_blocks mq i (word_of_int pd)"
  by (auto simp: row_blocks_def)

text \<open>A blocked sender reaches the member that blocked it neither directly nor by broadcast.\<close>

lemma unicast_blocked:
  assumes ok: "mq_ok mq" and i: "i < length (members mq)" "members mq ! i = to_pid msg"
    and b: "row_blocks mq i pd"
  shows "unicast pd msg mq = Inr (-EINVAL, mq)"
proof -
  have i4: "i < MAX_MEMBERS" using i(1) mq_okD [OF ok] by simp
  from ok show ?thesis
  proof (cases rule: find_member_cases [of mq "to_pid msg"])
    case absent
    then show ?thesis by (simp add: unicast_def)
  next
    case (present j)
    then have "j = i" using i nth_eq_iff_index_eq [OF mq_okD(3) [OF ok] present(2) i(1)] by simp
    with present blocked_wide [OF ok i4 b] show ?thesis by (simp add: unicast_def)
  qed
qed

lemma recipients_spec:
  assumes ok: "mq_ok mq"
  shows "set (recipients pd mq) =
      {members mq ! i | i. i < length (members mq) \<and> members mq ! i \<noteq> pd \<and> \<not> row_blocks mq i pd}"
    "distinct (recipients pd mq)"
proof -
  show "set (recipients pd mq) =
      {members mq ! i | i. i < length (members mq) \<and> members mq ! i \<noteq> pd \<and> \<not> row_blocks mq i pd}"
    by (auto simp: recipients_def)
  show "distinct (recipients pd mq)"
    using mq_okD(3) [OF ok] by (auto simp: recipients_def distinct_map inj_on_def nth_eq_iff_index_eq)
qed

lemma recipients_blocked:
  assumes ok: "mq_ok mq" and i: "i < length (members mq)" and b: "row_blocks mq i pd"
  shows "members mq ! i \<notin> set (recipients pd mq)"
  using b i mq_okD(3) [OF ok] by (auto simp: recipients_spec [OF ok] nth_eq_iff_index_eq)

text \<open>What a broadcast does: one copy to each recipient, in the order of the member table.\<close>

lemma send_broadcast:
  assumes ok: "mq_ok mq" and room: "length (messages mq) + length (members mq) \<le> MAX_MESSAGES"
    and msg: "from_pid msg = pd" "pd \<noteq> BROADCAST_PID" "to_pid msg = BROADCAST_PID"
  obtains mq' where "send_body pd msg mq = Inr (int (length (recipients pd mq)), mq')" "mq_ok mq'"
    "members mq' = members mq"
    "messages mq' = messages mq @ map (\<lambda>q. msg\<lparr>to_pid := q\<rparr>) (recipients pd mq)"
proof -
  note o = mq_okD [OF ok]
  have n: "0 + unat (member_count mq) = length (members mq)" using o by simp
  obtain r mq' where eq: "broadcast_loop pd msg 0 (unat (member_count mq)) 0 mq = Inr (r, mq')"
    using broadcast_total [OF ok n] room o by fastforce
  have "send_body pd msg mq = Inr (r, mq')" using eq msg by (simp add: send_body_def)
  with that [of mq'] broadcast_loop_spec [OF ok n eq] show ?thesis
    by (simp add: recipients_def comp_def o)
qed

section \<open>Leaving\<close>

lemma shift_row_step:
  assumes "m \<le> M" "Suc j * M + m \<le> length b"
  shows "length (fold (\<lambda>s b. b[j * M + s := b ! (Suc j * M + s)]) [0..<m] b) = length b \<and>
    (\<forall>x < length b. fold (\<lambda>s b. b[j * M + s := b ! (Suc j * M + s)]) [0..<m] b ! x =
      (if j * M \<le> x \<and> x < j * M + m then b ! (x + M) else b ! x))"
  using assms
proof (induction m)
  case 0
  then show ?case by auto
next
  case (Suc m)
  let ?b = "fold (\<lambda>s b. b[j * M + s := b ! (Suc j * M + s)]) [0..<m] b"
  from Suc have IH: "length ?b = length b"
    "\<And>x. x < length b \<Longrightarrow> ?b ! x = (if j * M \<le> x \<and> x < j * M + m then b ! (x + M) else b ! x)"
    by auto
  have src: "?b ! (Suc j * M + m) = b ! (j * M + m + M)"
    using Suc.prems by (subst IH(2)) (auto simp: add_ac)
  have "fold (\<lambda>s b. b[j * M + s := b ! (Suc j * M + s)]) [0..<Suc m] b = ?b[j * M + m := b ! (j * M + m + M)]"
    using src by simp
  with IH Suc.prems show ?case by (auto simp: nth_list_update)
qed

lemma shift_rows_gen:
  assumes "(k + 1) * M \<le> length bp" "i \<le> k"
  shows "length (fold (\<lambda>j b. fold (\<lambda>s b. b[j * M + s := b ! (Suc j * M + s)]) [0..<M] b) [i..<k] bp) = length bp \<and>
    (\<forall>x < length bp. fold (\<lambda>j b. fold (\<lambda>s b. b[j * M + s := b ! (Suc j * M + s)]) [0..<M] b) [i..<k] bp ! x =
      (if i * M \<le> x \<and> x < k * M then bp ! (x + M) else bp ! x))"
  using assms(2,1)
proof (induction k rule: dec_induct)
  case base
  then show ?case by auto
next
  case (step k)
  let ?row = "\<lambda>j b. fold (\<lambda>s b. b[j * M + s := b ! (Suc j * M + s)]) [0..<M] b"
  let ?b = "fold ?row [i..<k] bp"
  from step have IH: "length ?b = length bp"
    "\<And>x. x < length bp \<Longrightarrow> ?b ! x = (if i * M \<le> x \<and> x < k * M then bp ! (x + M) else bp ! x)"
    by auto
  have s: "\<forall>x < length bp. ?row k ?b ! x = (if k * M \<le> x \<and> x < k * M + M then ?b ! (x + M) else ?b ! x)"
    "length (?row k ?b) = length bp"
    using shift_row_step [of M M k ?b] step.prems IH(1) by (simp_all add: algebra_simps)
  have "fold ?row [i..<Suc k] bp = ?row k ?b" using step.hyps by simp
  moreover have "i * M \<le> x" if "k * M \<le> x" for x
    using that step.hyps by (meson le_trans mult_le_mono1)
  ultimately show ?case using s IH step.prems by (auto simp: add_ac)
qed

lemma shift_rows_nth:
  assumes "length bp = MAX_MEMBERS * MAX_MEMBERS + 3" "i < MAX_MEMBERS"
  shows "length (shift_rows i bp) = length bp"
    and "x < length bp \<Longrightarrow> shift_rows i bp ! x =
      (if i * MAX_MEMBERS \<le> x \<and> x < (MAX_MEMBERS - 1) * MAX_MEMBERS then bp ! (x + MAX_MEMBERS) else bp ! x)"
proof -
  have "(MAX_MEMBERS - 1 + 1) * MAX_MEMBERS \<le> length bp" "i \<le> MAX_MEMBERS - 1"
    using assms by (simp_all add: k_const)
  from shift_rows_gen [OF this]
  show "length (shift_rows i bp) = length bp"
    "x < length bp \<Longrightarrow> shift_rows i bp ! x =
      (if i * MAX_MEMBERS \<le> x \<and> x < (MAX_MEMBERS - 1) * MAX_MEMBERS then bp ! (x + MAX_MEMBERS) else bp ! x)"
    by (simp_all add: shift_rows_def)
qed

lemma clear_row_nth:
  "length (clear_row n bp) = length bp"
  "x < length bp \<Longrightarrow> clear_row n bp ! x =
     (if n * MAX_MEMBERS \<le> x \<and> x < n * MAX_MEMBERS + MAX_MEMBERS then -1 else bp ! x)"
proof -
  have "length (fold (\<lambda>s b. b[a + s := -1]) [0..<m] bp) = length bp \<and>
    (\<forall>x < length bp. fold (\<lambda>s b. b[a + s := -1]) [0..<m] bp ! x =
      (if a \<le> x \<and> x < a + m then -1 else bp ! x))" for m a
    by (induction m) (auto simp: nth_list_update less_Suc_eq)
  then show "length (clear_row n bp) = length bp"
    "x < length bp \<Longrightarrow> clear_row n bp ! x =
     (if n * MAX_MEMBERS \<le> x \<and> x < n * MAX_MEMBERS + MAX_MEMBERS then -1 else bp ! x)"
    by (simp_all add: clear_row_def)
qed

lemma clear_pid_nth:
  "length (clear_pid pd bp) = length bp"
  "x < length bp \<Longrightarrow> clear_pid pd bp ! x =
     (if x < MAX_MEMBERS * MAX_MEMBERS \<and> word_of_int (bp ! x) = pd then -1 else bp ! x)"
proof -
  have "length (fold (\<lambda>x b. if word_of_int (b ! x) = pd then b[x := -1] else b) [0..<m] bp) = length bp \<and>
    (\<forall>x < length bp. fold (\<lambda>x b. if word_of_int (b ! x) = pd then b[x := -1] else b) [0..<m] bp ! x =
      (if x < m \<and> word_of_int (bp ! x) = pd then -1 else bp ! x))" for m
  proof (induction m)
    case 0
    then show ?case by simp
  next
    case (Suc m)
    then show ?case
      by (cases "m < length bp") (auto simp: nth_list_update less_Suc_eq list_update_beyond)
  qed
  then show "length (clear_pid pd bp) = length bp"
    "x < length bp \<Longrightarrow> clear_pid pd bp ! x =
     (if x < MAX_MEMBERS * MAX_MEMBERS \<and> word_of_int (bp ! x) = pd then -1 else bp ! x)"
    by (simp_all add: clear_pid_def)
qed

text \<open>
  What the block table says: \<open>(a, b)\<close> when member \<open>a\<close> has blocked \<open>b\<close>. The rows past the
  last member are empty, so that a new member starts with nobody blocked.
\<close>

definition blocks :: "msg_queue_info \<Rightarrow> (u32 \<times> u32) set" where
  "blocks mq = {(a, b). b \<noteq> BROADCAST_PID \<and>
     (\<exists>i < length (members mq). members mq ! i = a \<and> row_blocks mq i b)}"

definition rows_ok :: "msg_queue_info \<Rightarrow> bool" where
  "rows_ok mq \<longleftrightarrow>
     (\<forall>i < MAX_MEMBERS. unat (member_count mq) \<le> i \<longrightarrow> set (block_row mq i) \<subseteq> {-1})"

lemma blocks_iff:
  assumes "mq_ok mq" "i < length (members mq)" "b \<noteq> BROADCAST_PID"
  shows "(members mq ! i, b) \<in> blocks mq \<longleftrightarrow> row_blocks mq i b"
  using assms mq_okD(3) [OF assms(1)] by (auto simp: blocks_def nth_eq_iff_index_eq)

lemma row_blocks_nth:
  "row_blocks mq i b \<longleftrightarrow> (\<exists>s < MAX_MEMBERS. word_of_int (block_process mq ! (i * MAX_MEMBERS + s)) = b)"
  by (auto simp: row_blocks_def block_row_def)



lemma leave_row:
  fixes pd :: u32
  assumes ok: "mq_ok mq" and i: "i < length (members mq)" and j: "j < MAX_MEMBERS"
  defines "mq' \<equiv> leave_queue pd i mq" and "n \<equiv> length (members mq) - 1"
  shows "block_row mq' j =
     (if j = n then replicate MAX_MEMBERS (-1)
      else map (\<lambda>x. if word_of_int x = pd then -1 else x)
             (block_row mq (if i \<le> j \<and> j < MAX_MEMBERS - 1 then Suc j else j)))"
proof (rule nth_equalityI)
  note o = mq_okD [OF ok]
  let ?bp = "block_process mq"
  have i4: "i < MAX_MEMBERS" using i o by simp
  have n: "unat (member_count mq - 1) = n"
    using i o(8) unat_pred [of "member_count mq"] by (simp add: n_def)
  have bp: "block_process mq' = clear_pid pd (clear_row n (shift_rows i ?bp))"
    by (simp add: mq'_def leave_queue_def Let_def n split: prod.split)
  show "length (block_row mq' j) = length (if j = n then replicate MAX_MEMBERS (-1)
      else map (\<lambda>x. if word_of_int x = pd then -1 else x)
             (block_row mq (if i \<le> j \<and> j < MAX_MEMBERS - 1 then Suc j else j)))" by simp
  fix s assume "s < length (block_row mq' j)"
  then have s: "s < MAX_MEMBERS" by simp
  let ?x = "j * MAX_MEMBERS + s"
  have x: "?x < MAX_MEMBERS * MAX_MEMBERS" "?x < length ?bp"
    using block_index [OF j s] o(7) by simp_all
  have low: "i * MAX_MEMBERS \<le> ?x \<longleftrightarrow> i \<le> j" "?x < (MAX_MEMBERS - 1) * MAX_MEMBERS \<longleftrightarrow> j < MAX_MEMBERS - 1"
    "n * MAX_MEMBERS \<le> ?x \<and> ?x < n * MAX_MEMBERS + MAX_MEMBERS \<longleftrightarrow> j = n"
    using s unfolding k_const by presburger+
  have sh: "shift_rows i ?bp ! ?x =
      ?bp ! ((if i \<le> j \<and> j < MAX_MEMBERS - 1 then Suc j else j) * MAX_MEMBERS + s)"
    using shift_rows_nth(2) [OF o(7) i4 x(2)] unfolding low by (simp add: add_ac)
  note len = shift_rows_nth(1) [OF o(7) i4]
  define v where "v = clear_row n (shift_rows i ?bp) ! ?x"
  have v: "v = (if j = n then -1 else shift_rows i ?bp ! ?x)"
    using clear_row_nth(2) [of ?x "shift_rows i ?bp" n] x(2) len unfolding low(3) v_def by simp
  have "block_process mq' ! ?x = (if word_of_int v = pd then -1 else v)"
    using clear_pid_nth(2) [of ?x "clear_row n (shift_rows i ?bp)" pd] x len
    by (simp add: bp clear_row_nth(1) v_def)
  then have "block_process mq' ! ?x =
      (if j = n then -1 else if word_of_int (shift_rows i ?bp ! ?x) = pd then -1 else shift_rows i ?bp ! ?x)"
    unfolding v by simp
  then show "block_row mq' j ! s = (if j = n then replicate MAX_MEMBERS (-1)
      else map (\<lambda>x. if word_of_int x = pd then -1 else x)
             (block_row mq (if i \<le> j \<and> j < MAX_MEMBERS - 1 then Suc j else j))) ! s"
    using s by (simp add: nth_block_row sh)
qed

lemma leave_members:
  fixes pd :: u32
  assumes ok: "mq_ok mq" and i: "i < length (members mq)"
  defines "mq' \<equiv> leave_queue pd i mq"
  shows "mq_ok mq'" "members mq' = take i (members mq) @ drop (Suc i) (members mq)"
    "messages mq' = filter (\<lambda>msg. to_pid msg \<noteq> pd) (messages mq)"
    "unat (member_count mq') = length (members mq) - 1"
proof -
  note o = mq_okD [OF ok]
  obtain b t where b: "drop_messages pd (nat (msg_count mq)) (msg_buffer mq) = (b, t)" by fastforce
  have bt: "length b = MAX_MESSAGES" "t \<le> nat (msg_count mq)"
    "take t b = filter (\<lambda>msg. to_pid msg \<noteq> pd) (messages mq)"
    using drop_messages_eq [OF _ b] o by (simp_all add: messages_def)
  let ?n = "unat (member_count mq)"
  have n: "unat (member_count mq - 1) = ?n - 1"
    using i o(8) by (intro unat_pred) simp
  have mq': "mq' = mq\<lparr>member_pid := shift_members i (member_pid mq), member_count := member_count mq - 1,
            block_process := clear_pid pd (clear_row (?n - 1) (shift_rows i (block_process mq))),
            msg_buffer := b, msg_count := int t\<rparr>"
    by (simp add: mq'_def leave_queue_def b n)
  show count: "unat (member_count mq') = length (members mq) - 1"
    by (simp add: mq' n o)
  have "i < ?n" "?n \<le> MAX_MEMBERS" using i o by simp_all
  have "take (?n - 1) (shift_down i MAX_MEMBERS (member_pid mq)) =
      take (?n - 1) (shift_down i ?n (member_pid mq))"
    using \<open>i < ?n\<close> \<open>?n \<le> MAX_MEMBERS\<close> o(1) by (auto simp: list_eq_iff_nth_eq nth_shift_down)
  then show mem: "members mq' = take i (members mq) @ drop (Suc i) (members mq)"
    using take_shift_down [OF \<open>i < ?n\<close>, of "member_pid mq"] \<open>?n \<le> MAX_MEMBERS\<close> o(1)
    by (simp add: members_def mq' n shift_members_def)
  show "messages mq' = filter (\<lambda>msg. to_pid msg \<noteq> pd) (messages mq)"
    using bt by (simp add: messages_def mq')
  have "distinct (take i (members mq) @ drop (Suc i) (members mq))"
  proof -
    have "distinct (take i (members mq) @ members mq ! i # drop (Suc i) (members mq))"
      using o(3) i by (simp add: id_take_nth_drop [symmetric])
    then show ?thesis by simp
  qed
  moreover have "length (clear_pid pd (clear_row (?n - 1) (shift_rows i (block_process mq)))) =
      length (block_process mq)"
    using shift_rows_nth(1) [OF o(7), of i] \<open>i < ?n\<close> \<open>?n \<le> MAX_MEMBERS\<close>
    by (simp add: clear_pid_nth(1) clear_row_nth(1))
  ultimately show "mq_ok mq'"
    using ok mem bt n \<open>?n \<le> MAX_MEMBERS\<close> unfolding mq_ok_def mem
    by (simp add: mq' shift_members_def)
qed

lemma block_body_blocks:
  assumes ok: "mq_ok mq" and eq: "block_body me pd mq = Inr (0, mq')"
    and pd: "word_of_int pd \<noteq> BROADCAST_PID"
  shows "mq_ok mq'" "members mq' = members mq" "messages mq' = messages mq"
    "blocks mq' = insert (me, word_of_int pd) (blocks mq)" "rows_ok mq \<Longrightarrow> rows_ok mq'"
proof -
  from ok eq have "mq_ok mq' \<and> members mq' = members mq \<and> messages mq' = messages mq \<and>
    blocks mq' = insert (me, word_of_int pd) (blocks mq) \<and> (rows_ok mq \<longrightarrow> rows_ok mq')"
  proof (cases rule: block_body_cases)
    case refused
    then show ?thesis by (simp add: EINVAL_def)
  next
    case (blocks i)
    have rb: "row_blocks mq' j b = (row_blocks mq j b \<or> j = i \<and> b = word_of_int pd)"
      if "b \<noteq> BROADCAST_PID" for j b
      using blocks(10,12) that by (cases "j = i") (simp_all add: row_blocks_def)
    have "MsgQueue.blocks mq' = insert (me, word_of_int pd) (MsgQueue.blocks mq)"
      unfolding MsgQueue.blocks_def blocks(7) using rb blocks(2,3) pd by auto
    moreover have "rows_ok mq'" if "rows_ok mq"
      using that blocks(2,10,11) mq_okD(8) [OF ok] by (auto simp: rows_ok_def)
    ultimately show ?thesis using blocks by simp
  qed
  then show "mq_ok mq'" "members mq' = members mq" "messages mq' = messages mq"
    "blocks mq' = insert (me, word_of_int pd) (blocks mq)" "rows_ok mq \<Longrightarrow> rows_ok mq'" by blast+
qed

lemma blocks_frame:
  assumes "members mq' = members mq" "block_process mq' = block_process mq"
  shows "blocks mq' = blocks mq"
  using assms by (simp add: blocks_def row_blocks_def block_row_def)

lemma rows_frame:
  assumes "member_count mq' = member_count mq" "block_process mq' = block_process mq"
  shows "rows_ok mq' = rows_ok mq"
  using assms by (simp add: rows_ok_def block_row_def)

lemma row_blocks_replicate: "block_row mq j = replicate MAX_MEMBERS (-1) \<Longrightarrow> b \<noteq> BROADCAST_PID \<Longrightarrow> \<not> row_blocks mq j b"
  by (auto simp: row_blocks_def word_minus_1 [unfolded BROADCAST_PID_def] BROADCAST_PID_def)

lemma rows_okD:
  assumes "rows_ok mq" "i < MAX_MEMBERS" "unat (member_count mq) \<le> i" "b \<noteq> BROADCAST_PID"
  shows "\<not> row_blocks mq i b"
proof
  assume "row_blocks mq i b"
  then obtain x where "x \<in> set (block_row mq i)" "word_of_int x = b" by (auto simp: row_blocks_def)
  moreover from this(1) assms(1-3) have "x = -1" by (auto simp: rows_ok_def)
  ultimately show False using assms(4) word_minus_1 by simp
qed

text \<open>Leaving, against the abstract queue: the member, its mail and its blocks are gone, nothing else.\<close>

lemma leave_blocks:
  fixes pd :: u32
  assumes ok: "mq_ok mq" and rows: "rows_ok mq" and i: "i < length (members mq)" "members mq ! i = pd"
  defines "mq' \<equiv> leave_queue pd i mq"
  shows "blocks mq' = {(a, b) \<in> blocks mq. a \<noteq> pd \<and> b \<noteq> pd}" "rows_ok mq'"
proof -
  note o = mq_okD [OF ok]
  note lm = leave_members [OF ok i(1), of pd, folded mq'_def]
  let ?n = "length (members mq) - 1"
  let ?idx = "\<lambda>j. if i \<le> j then Suc j else j"
  have n': "length (members mq') = ?n" using mq_okD(8) [OF lm(1)] lm(4) by simp
  have mem: "members mq' ! j = members mq ! ?idx j" if "j < ?n" for j
    using that i(1) by (auto simp: lm(2) nth_append)
  have row: "row_blocks mq' j b \<longleftrightarrow> b \<noteq> pd \<and> row_blocks mq (?idx j) b"
    if "j < ?n" "b \<noteq> BROADCAST_PID" for j b
  proof -
    have j: "j < MAX_MEMBERS - 1" "j < MAX_MEMBERS" using that(1) o(2,8) by simp_all
    then have "block_row mq' j = map (\<lambda>x. if word_of_int x = pd then -1 else x) (block_row mq (?idx j))"
      using leave_row [OF ok i(1) j(2), of pd] that(1) by (simp add: mq'_def)
    then show ?thesis using that(2) word_minus_1 by (auto simp: row_blocks_def)
  qed
  have ne: "members mq ! ?idx j \<noteq> pd" if "j < ?n" for j
  proof -
    have "?idx j < length (members mq)" "?idx j \<noteq> i" using that by auto
    with nth_eq_iff_index_eq [OF o(3) this(1) i(1)] i(2) show ?thesis by simp
  qed
  have surj: "\<exists>j < ?n. k = ?idx j" if "k < length (members mq)" "k \<noteq> i" for k
  proof (cases "k < i")
    case True
    with i that show ?thesis by (intro exI [of _ k]) simp
  next
    case False
    with i that show ?thesis by (intro exI [of _ "k - 1"]) auto
  qed
  show "blocks mq' = {(a, b) \<in> blocks mq. a \<noteq> pd \<and> b \<noteq> pd}"
  proof (intro set_eqI iffI; clarify)
    fix a b assume "(a, b) \<in> blocks mq'"
    then obtain j where j: "j < ?n" "b \<noteq> BROADCAST_PID" "members mq' ! j = a" "row_blocks mq' j b"
      by (auto simp: blocks_def n')
    have "?idx j < length (members mq)" using j(1) by auto
    moreover have "members mq ! ?idx j = a" using j(3) mem [OF j(1)] by simp
    moreover have "b \<noteq> pd" "row_blocks mq (?idx j) b" using row [OF j(1,2)] j(4) by simp_all
    moreover have "a \<noteq> pd" using ne [OF j(1)] j(3) mem [OF j(1)] by simp
    ultimately show "(a, b) \<in> blocks mq \<and> a \<noteq> pd \<and> b \<noteq> pd"
      using j(2) by (auto simp: blocks_def)
  next
    fix a b assume "(a, b) \<in> blocks mq" "a \<noteq> pd" "b \<noteq> pd"
    then obtain k where k: "k < length (members mq)" "members mq ! k = a" "row_blocks mq k b"
      "b \<noteq> BROADCAST_PID" "k \<noteq> i" using i(2) by (auto simp: blocks_def)
    from surj [OF k(1,5)] obtain j where "j < ?n" "k = ?idx j" by blast
    with k row mem \<open>b \<noteq> pd\<close> show "(a, b) \<in> blocks mq'" by (auto simp: blocks_def n')
  qed
  show "rows_ok mq'"
    unfolding rows_ok_def
  proof (intro allI impI)
    fix j assume j: "j < MAX_MEMBERS" "unat (member_count mq') \<le> j"
    show "set (block_row mq' j) \<subseteq> {-1}"
    proof (cases "j = ?n")
      case True
      with leave_row [OF ok i(1) j(1), of pd] show ?thesis by (auto simp: mq'_def)
    next
      case False
      let ?k = "if i \<le> j \<and> j < MAX_MEMBERS - 1 then Suc j else j"
      have "unat (member_count mq) \<le> ?k" "?k < MAX_MEMBERS" using False j lm(4) o by auto
      with rows have "set (block_row mq ?k) \<subseteq> {-1}" by (auto simp: rows_ok_def)
      with leave_row [OF ok i(1) j(1), of pd] False show ?thesis by (auto simp: mq'_def)
    qed
  qed
qed

section \<open>Joining and creating\<close>

lemma init_queue_ok:
  assumes "length (member_pid page) = MAX_MEMBERS" "length (msg_buffer page) = MAX_MESSAGES"
    "length (block_process page) = MAX_MEMBERS * MAX_MEMBERS + 3"
  shows "mq_ok (init_queue page pd)" "rows_ok (init_queue page pd)"
    "members (init_queue page pd) = [pd]" "messages (init_queue page pd) = []"
    "blocks (init_queue page pd) = {}"
proof -
  show mem: "members (init_queue page pd) = [pd]"
    using assms(1) by (cases "member_pid page") (simp_all add: members_def init_queue_def k_const)
  show "mq_ok (init_queue page pd)"
    using assms unfolding mq_ok_def mem by (simp add: init_queue_def k_const)
  show "messages (init_queue page pd) = []" by (simp add: messages_def init_queue_def)
  have row: "block_row (init_queue page pd) i = replicate MAX_MEMBERS (-1)" if "i < MAX_MEMBERS" for i
    using that block_index [OF that]
    by (auto simp: list_eq_iff_nth_eq nth_block_row init_queue_def nth_append)
  then show "rows_ok (init_queue page pd)" by (simp add: rows_ok_def)
  have "0 < MAX_MEMBERS" by (simp add: k_const)
  with row [OF this] row_blocks_replicate show "blocks (init_queue page pd) = {}"
    by (auto simp: blocks_def mem)
qed

lemma add_member_ok:
  assumes ok: "mq_ok mq" and rows: "rows_ok mq"
    and room: "length (members mq) < MAX_MEMBERS" and new: "pd \<notin> set (members mq)"
  obtains mq' where "add_member pd mq = Inr mq'" "mq_ok mq'" "rows_ok mq'"
    "members mq' = members mq @ [pd]" "messages mq' = messages mq" "blocks mq' = blocks mq"
    "block_process mq' = block_process mq"
proof -
  note o = mq_okD [OF ok]
  let ?n = "unat (member_count mq)"
  let ?mq' = "mq\<lparr>member_count := member_count mq + 1, member_pid := (member_pid mq)[?n := pd]\<rparr>"
  have n: "?n < MAX_MEMBERS" using room o by simp
  have n1: "unat (member_count mq + 1) = Suc ?n"
    using n by (intro unat_succ) (simp add: k_const)
  have eq: "add_member pd mq = Inr ?mq'" using n o by (simp add: add_member_def)
  have mem: "members ?mq' = members mq @ [pd]"
    using n o by (simp add: members_def n1 take_Suc_conv_app_nth)
  have "mq_ok ?mq'" using ok new n unfolding mq_ok_def mem by (simp add: n1)
  moreover have row: "block_row ?mq' = block_row mq" by (simp add: block_row_def fun_eq_iff)
  then have rb: "row_blocks ?mq' = row_blocks mq" by (simp add: row_blocks_def fun_eq_iff)
  have "rows_ok ?mq'" using rows by (simp add: rows_ok_def row n1)
  moreover have "\<not> row_blocks mq ?n b" if "b \<noteq> BROADCAST_PID" for b
    using rows_okD [OF rows n _ that] by simp
  then have "blocks ?mq' = blocks mq"
    unfolding blocks_def mem rb using o(8) by (auto simp: nth_append less_Suc_eq)
  ultimately show ?thesis using that [OF eq] mem by (simp add: messages_def)
qed

lemma add_member_overflow:
  "mq_ok mq \<Longrightarrow> length (members mq) = MAX_MEMBERS \<Longrightarrow> add_member pd mq = Inl OutOfBounds"
  using mq_okD [of mq] by (simp add: add_member_def)

section \<open>The handlers\<close>

definition queue_inv :: "msg_queue_info \<Rightarrow> bool" where
  "queue_inv mq \<longleftrightarrow> mq_ok mq \<and> rows_ok mq"

definition queues_ok :: "kernel \<Rightarrow> bool" where
  "queues_ok k \<longleftrightarrow> (\<forall>q mq. qheap k q = Some mq \<longrightarrow> queue_inv mq)"

lemma queue_invD: "queue_inv mq \<Longrightarrow> mq_ok mq" "queue_inv mq \<Longrightarrow> rows_ok mq"
  by (simp_all add: queue_inv_def)

lemma queues_okD: "queues_ok k \<Longrightarrow> qheap k q = Some mq \<Longrightarrow> queue_inv mq"
  by (auto simp: queues_ok_def)

lemma queues_ok_put: "queues_ok k \<Longrightarrow> queue_inv mq \<Longrightarrow> queues_ok (put_queue k q mq)"
  by (auto simp: queues_ok_def)

lemma queues_ok_cong: "qheap k' = qheap k \<Longrightarrow> queues_ok k' = queues_ok k"
  by (simp add: queues_ok_def)

lemma with_queue_Inr:
  assumes "with_queue k filep e body = Inr y"
  obtains (bad) "e = Inr y"
  | (queue) p f qa mq where "filep = Some p" "fheap k p = Some f" "msg_queue f = Some qa"
      "qheap k qa = Some mq" "body qa mq = Inr y"
  using assms by (auto simp: with_queue_def bind_res_Inr kernel_acc split: option.splits)

lemma inv_append:
  assumes "queue_inv mq" "append_msg msg mq = Inr mq'"
  shows "queue_inv mq'"
  using append_msg_ok [OF queue_invD(1) [OF assms(1)] assms(2)] queue_invD [OF assms(1)]
  by (simp add: queue_inv_def rows_frame [of mq' mq])

lemma send_body_inv:
  assumes inv: "queue_inv mq" and eq: "send_body pd msg mq = Inr (r, mq')"
  shows "queue_inv mq'"
proof -
  note s = send_body_ok [OF queue_invD(1) [OF inv] eq]
  have "member_count mq' = member_count mq"
    using mq_okD(8) [OF s(1)] mq_okD(8) [OF queue_invD(1) [OF inv]] s(2) by (simp add: word_unat_eq_iff)
  with s inv show ?thesis by (simp add: queue_inv_def rows_frame [of mq' mq])
qed

lemma rcv_body_inv:
  assumes inv: "queue_inv mq" and eq: "rcv_body pd mq = Inr (r, out, mq')"
  shows "queue_inv mq'"
  using queue_invD(1) [OF inv]
proof (cases rule: rcv_body_cases [of mq pd])
  case empty
  with eq inv show ?thesis by simp
next
  case (got xs m ys mq1)
  have "mq' = mq1" using got(1) eq by simp
  moreover have "member_count mq1 = member_count mq"
    using mq_okD(8) [OF got(6)] mq_okD(8) [OF queue_invD(1) [OF inv]] got(7)
    by (simp add: word_unat_eq_iff)
  ultimately show ?thesis using got inv by (simp add: queue_inv_def rows_frame [of mq1 mq])
qed

lemma block_body_inv:
  assumes inv: "queue_inv mq" and eq: "block_body me pd mq = Inr (r, mq')"
  shows "queue_inv mq'"
  using queue_invD(1) [OF inv] eq
proof (cases rule: block_body_cases)
  case refused
  with inv show ?thesis by simp
next
  case (blocks i)
  then show ?thesis
    using queue_invD [OF inv] mq_okD(8) [OF queue_invD(1) [OF inv]]
    by (auto simp: queue_inv_def rows_ok_def)
qed

lemma leave_inv:
  assumes "queue_inv mq" "i < length (members mq)" "members mq ! i = pd"
  shows "queue_inv (leave_queue pd i mq)"
  using leave_members(1) [of mq i pd] leave_blocks(2) [of mq i pd] assms by (simp add: queue_inv_def)

text \<open>
  The handlers that send, receive and block change the queues only, and keep them well formed.
\<close>

definition only_queues :: "kernel \<Rightarrow> kernel \<Rightarrow> bool" where
  "only_queues k k' \<longleftrightarrow> k' = k\<lparr>qheap := qheap k'\<rparr>"

lemma only_queues_refl [simp]: "only_queues k k" "only_queues k (put_queue k q mq)"
  by (simp_all add: only_queues_def put_queue_def)

lemma send_keeps:
  assumes ok: "queues_ok k" and eq: "do_msg_queue_send k c filep msgp = Inr (r, k')"
  shows "queues_ok k'" "only_queues k k'"
proof -
  have "queues_ok k' \<and> only_queues k k'"
    using eq unfolding do_msg_queue_send_def Let_def
  proof (cases rule: with_queue_Inr)
    case bad
    with ok show ?thesis by auto
  next
    case (queue p f qa mq)
    from queue(5) ok send_body_inv [OF queues_okD [OF ok queue(4)]] show ?thesis
      by (auto simp: bind_res_Inr queues_ok_put split: option.splits if_splits)
  qed
  then show "queues_ok k'" "only_queues k k'" by simp_all
qed

lemma rcv_keeps:
  assumes ok: "queues_ok k" and eq: "do_msg_queue_rcv k c filep ptr = Inr (r, out, k')"
  shows "queues_ok k'" "only_queues k k'"
proof -
  have "queues_ok k' \<and> only_queues k k'"
  proof (cases ptr)
    case False
    with ok eq show ?thesis by (simp add: do_msg_queue_rcv_def)
  next
    case True
    have "with_queue k filep (Inr (-EINVAL, None, k)) (\<lambda>qa mq.
        bind_res (ctx_at k c) (\<lambda>ctx.
        bind_res (find_member mq (pid ctx)) (\<lambda>mem.
          if mem = None then Inr (-EINVAL, None, k)
          else bind_res (rcv_body (pid ctx) mq) (\<lambda>(r, out, mq').
            Inr (r, out, put_queue k qa mq'))))) = Inr (r, out, k')"
      using eq True by (simp add: do_msg_queue_rcv_def Let_def)
    then show ?thesis
    proof (cases rule: with_queue_Inr)
      case bad
      with ok show ?thesis by auto
    next
      case (queue p f qa mq)
      from queue(5) ok rcv_body_inv [OF queues_okD [OF ok queue(4)]] show ?thesis
        by (auto simp: bind_res_Inr queues_ok_put split: if_splits)
    qed
  qed
  then show "queues_ok k'" "only_queues k k'" by simp_all
qed

lemma block_keeps:
  assumes ok: "queues_ok k" and eq: "do_msg_queue_block k c filep pd = Inr (r, k')"
  shows "queues_ok k'" "only_queues k k'"
proof -
  have "queues_ok k' \<and> only_queues k k'"
    using eq unfolding do_msg_queue_block_def
  proof (cases rule: with_queue_Inr)
    case bad
    with ok show ?thesis by auto
  next
    case (queue p f qa mq)
    from queue(5) ok block_body_inv [OF queues_okD [OF ok queue(4)]] show ?thesis
      by (auto simp: bind_res_Inr queues_ok_put split: if_splits)
  qed
  then show "queues_ok k'" "only_queues k k'" by simp_all
qed

lemma count_member_keeps:
  "do_get_msg_count k c filep = Inr (r, k') \<Longrightarrow> k' = k"
  "do_msg_queue_get_member_info k filep = Inr (r, info, k') \<Longrightarrow> k' = k"
  by (auto simp: do_get_msg_count_def do_msg_queue_get_member_info_def bind_res_Inr
      split: if_splits elim!: with_queue_Inr)

text \<open>Closing: the caller leaves; the last one to leave frees the queue and its file object.\<close>

lemma close_cases:
  assumes ok: "queues_ok k" and eq: "do_msg_queue_close k c fd = Inr (r, k')"
  obtains (refused) "r = -EINVAL" "k' = k"
  | (left) ctx p f qa mq i where "r = 0" "ctxs k c = Some ctx" "0 \<le> fd" "fd < int MAX_OPEN_FILES"
      "files ctx ! nat fd = Some p" "fheap k p = Some f" "msg_queue f = Some qa" "qheap k qa = Some mq"
      "queue_inv mq" "i < length (members mq)" "members mq ! i = pid ctx"
      "qheap k' = (qheap k)(qa := if length (members mq) = 1 then None
                                  else Some (leave_queue (pid ctx) i mq))"
      "fheap k' = (if length (members mq) = 1 then (fheap k)(p := None) else fheap k)"
      "ctxs k' = (ctxs k)(c \<mapsto> ctx\<lparr>files := (files ctx)[nat fd := None]\<rparr>)"
      "mem k' = mem k" "sb k' = sb k"
proof (cases "fd < 0")
  case True
  with eq refused show ?thesis by (simp add: do_msg_queue_close_def)
next
  case False
  with eq obtain filep where filep: "get_fd k c fd = Inr filep"
    and wq: "with_queue k filep (Inr (-EINVAL, k)) (\<lambda>qa mq.
          bind_res (ctx_at k c) (\<lambda>ctx.
          bind_res (find_member mq (pid ctx)) (\<lambda>mem.
            case mem of
              None \<Rightarrow> Inr (-EINVAL, k)
            | Some i \<Rightarrow>
                let mq' = leave_queue (pid ctx) i mq;
                    k1 = (if member_count mq' = 0
                          then free_file_object (k\<lparr>qheap := (qheap k)(qa := None)\<rparr>) (the filep)
                          else put_queue k qa mq')
                in bind_res (set_fd k1 c fd None) (\<lambda>k2. Inr (0, k2))))) = Inr (r, k')"
    by (auto simp: do_msg_queue_close_def bind_res_Inr)
  from wq show ?thesis
  proof (cases rule: with_queue_Inr)
    case bad
    with refused show ?thesis by simp
  next
    case (queue p f qa mq)
    note inv = queues_okD [OF ok queue(4)]
    from filep obtain ctx where ctx: "ctxs k c = Some ctx" "0 \<le> fd" "fd < int MAX_OPEN_FILES"
      "filep = files ctx ! nat fd" by (auto simp: get_fd_Inr)
    from queue_invD(1) [OF inv] show ?thesis
    proof (cases rule: find_member_cases [of mq "pid ctx"])
      case absent
      with queue(5) ctx refused show ?thesis by simp
    next
      case (present i)
      have "unat (member_count (leave_queue (pid ctx) i mq)) = length (members mq) - 1"
        by (rule leave_members(4) [OF queue_invD(1) [OF inv] present(2)])
      then have z: "member_count (leave_queue (pid ctx) i mq) = 0 \<longleftrightarrow> length (members mq) = 1"
        using present(2) by (auto simp: word_unat_eq_iff)
      show ?thesis
        using queue ctx present inv z
        by (intro left [of ctx p f qa mq i])
          (auto simp: Let_def free_file_object_def put_queue_def split: if_splits)
    qed
  qed
qed

lemma close_keeps:
  assumes ok: "queues_ok k" and eq: "do_msg_queue_close k c fd = Inr (r, k')"
  shows "queues_ok k'"
  using assms
proof (cases rule: close_cases)
  case refused
  with ok show ?thesis by simp
next
  case (left ctx p f qa mq i)
  have "queue_inv (leave_queue (pid ctx) i mq)" using leave_inv left(9-11) by blast
  with ok left(12) show ?thesis by (auto simp: queues_ok_def split: if_splits)
qed

lemma create_cases:
  assumes eq: "do_create_msg_queue q qpage p page k c = Inr (r, k')"
  obtains (full) "r = -ENOMEM" "k' = k"
  | (created) ctx qa fd where "ctxs k c = Some ctx" "free_fd ctx = Some fd" "fd < MAX_OPEN_FILES"
      "q = Some qa" "r = int fd" "qheap k' = (qheap k)(qa \<mapsto> init_queue qpage (pid ctx))"
      "fheap k' = (fheap k)(p \<mapsto> page\<lparr>offp := 0, ref_count := 1, fops := no_fops,
                             msg_queue := Some qa, ftype := MSG_QUEUE\<rparr>)"
      "ctxs k' = (ctxs k)(c \<mapsto> ctx\<lparr>files := (files ctx)[fd := Some p]\<rparr>)" "sb k' = sb k"
proof -
  from eq obtain ctx where ctx: "ctxs k c = Some ctx"
    by (auto simp: do_create_msg_queue_def bind_res_Inr kernel_acc)
  show ?thesis
  proof (cases "free_fd ctx")
    case None
    with eq ctx full show ?thesis by (simp add: do_create_msg_queue_def)
  next
    case fd: (Some fd)
    show ?thesis
    proof (cases q)
      case None
      with eq ctx fd full show ?thesis by (simp add: do_create_msg_queue_def)
    next
      case (Some qa)
      with eq ctx fd created [of ctx fd qa] show ?thesis
        by (auto simp: do_create_msg_queue_def bind_res_Inr Let_def set_fd_Inr alloc_file_def
            put_file_def put_queue_def)
    qed
  qed
qed

lemma create_keeps:
  assumes ok: "queues_ok k"
    and page: "length (member_pid qpage) = MAX_MEMBERS" "length (msg_buffer qpage) = MAX_MESSAGES"
      "length (block_process qpage) = MAX_MEMBERS * MAX_MEMBERS + 3"
    and eq: "do_create_msg_queue q qpage p page k c = Inr (r, k')"
  shows "queues_ok k'"
proof -
  have init: "queue_inv (init_queue qpage pd)" for pd
    using init_queue_ok [OF page] by (simp add: queue_inv_def)
  from eq show ?thesis
  proof (cases rule: create_cases)
    case full
    with ok show ?thesis by simp
  next
    case (created ctx qa fd)
    with ok init show ?thesis by (simp add: queues_ok_def)
  qed
qed

text \<open>Forking: the child joins each queue its parent is in.\<close>

definition queue_of :: "kernel \<Rightarrow> nat option \<Rightarrow> nat option" where
  "queue_of k fp = (case fp of None \<Rightarrow> None
                    | Some p \<Rightarrow> (case fheap k p of None \<Rightarrow> None | Some f \<Rightarrow> msg_queue f))"

definition can_join :: "kernel \<Rightarrow> u32 \<Rightarrow> nat \<Rightarrow> bool" where
  "can_join k pd qa \<longleftrightarrow> (\<exists>mq. qheap k qa = Some mq \<and> queue_inv mq \<and>
     length (members mq) < MAX_MEMBERS \<and> pd \<notin> set (members mq))"

definition joined :: "u32 \<Rightarrow> msg_queue_info option \<Rightarrow> msg_queue_info option \<Rightarrow> bool" where
  "joined pd q q' \<longleftrightarrow> (\<exists>mq mq'. q = Some mq \<and> q' = Some mq' \<and> queue_inv mq' \<and>
     members mq' = members mq @ [pd] \<and> messages mq' = messages mq \<and> blocks mq' = blocks mq \<and>
     block_process mq' = block_process mq)"

lemma add_child_loop_joins:
  assumes "\<forall>p. Some p \<in> set fps \<longrightarrow> fheap k p \<noteq> None"
    and "distinct (List.map_filter (queue_of k) fps)"
    and "\<forall>qa \<in> set (List.map_filter (queue_of k) fps). can_join k pd qa"
  shows "\<exists>k'. add_child_loop pd k fps = Inr k' \<and> only_queues k k' \<and>
    (\<forall>qa. if qa \<in> set (List.map_filter (queue_of k) fps) then joined pd (qheap k qa) (qheap k' qa)
          else qheap k' qa = qheap k qa)"
  using assms
proof (induction fps arbitrary: k)
  case Nil
  then show ?case by (simp add: map_filter_simps)
next
  case (Cons fp fps)
  show ?case
  proof (cases "queue_of k fp")
    case None
    then have "with_queue k fp (Inr k) body = Inr k" for body :: "nat \<Rightarrow> msg_queue_info \<Rightarrow> kernel res"
      using Cons.prems(1) by (auto simp: with_queue_def queue_of_def split: option.splits)
    with Cons.IH [of k] Cons.prems None show ?thesis by (simp add: map_filter_simps)
  next
    case (Some qa)
    then obtain p f where p: "fp = Some p" "fheap k p = Some f" "msg_queue f = Some qa"
      by (auto simp: queue_of_def split: option.splits)
    from Cons.prems(3) Some obtain mq where mq: "qheap k qa = Some mq" "queue_inv mq"
      "length (members mq) < MAX_MEMBERS" "pd \<notin> set (members mq)"
      by (auto simp: map_filter_simps can_join_def)
    obtain mq' where mq': "add_member pd mq = Inr mq'" "mq_ok mq'" "rows_ok mq'"
      "members mq' = members mq @ [pd]" "messages mq' = messages mq" "blocks mq' = blocks mq"
      "block_process mq' = block_process mq"
      using add_member_ok [OF queue_invD [OF mq(2)] mq(3,4)] by metis
    let ?k1 = "put_queue k qa mq'"
    have q1: "queue_of ?k1 = queue_of k" by (auto simp: queue_of_def fun_eq_iff split: option.split)
    have fresh: "qa \<notin> set (List.map_filter (queue_of k) fps)"
      using Cons.prems(2) Some by (simp add: map_filter_simps)
    have "\<exists>k'. add_child_loop pd ?k1 fps = Inr k' \<and> only_queues ?k1 k' \<and>
      (\<forall>qa'. if qa' \<in> set (List.map_filter (queue_of ?k1) fps) then joined pd (qheap ?k1 qa') (qheap k' qa')
          else qheap k' qa' = qheap ?k1 qa')"
    proof (rule Cons.IH)
      show "\<forall>qa' \<in> set (List.map_filter (queue_of ?k1) fps). can_join ?k1 pd qa'"
        using Cons.prems(3) fresh unfolding q1 by (auto simp: map_filter_simps can_join_def Some)
    qed (use Cons.prems Some in \<open>simp_all add: q1 map_filter_simps\<close>)
    then obtain k' where k': "add_child_loop pd ?k1 fps = Inr k'" "only_queues ?k1 k'"
      "\<forall>qa'. if qa' \<in> set (List.map_filter (queue_of k) fps) then joined pd (qheap ?k1 qa') (qheap k' qa')
          else qheap k' qa' = qheap ?k1 qa'" unfolding q1 by blast
    have "add_child_loop pd k (fp # fps) = Inr k'"
      using p mq mq'(1) k'(1) by (simp add: with_queue_def)
    moreover have "only_queues k k'" using k'(2) by (simp add: only_queues_def put_queue_def)
    moreover have j: "joined pd (qheap k qa) (qheap k' qa)"
      using k'(3) [rule_format, of qa] fresh mq mq' by (auto simp: joined_def queue_inv_def)
    moreover have "if qa' \<in> set (List.map_filter (queue_of k) (fp # fps))
        then joined pd (qheap k qa') (qheap k' qa') else qheap k' qa' = qheap k qa'" for qa'
      using k'(3) [rule_format, of qa'] j Some
      by (cases "qa' = qa") (auto simp: map_filter_simps split: if_splits)
    ultimately show ?thesis by blast
  qed
qed

lemma cleanup_keeps:
  assumes "queues_ok k" "do_msg_queue_cleanup k c = Inr k'"
  shows "queues_ok k'"
proof -
  have "cleanup_loop k c fds = Inr k' \<Longrightarrow> queues_ok k \<Longrightarrow> queues_ok k'" for fds
  proof (induction fds arbitrary: k)
    case Nil
    then show ?case by simp
  next
    case (Cons fd fds)
    from Cons.prems(1) obtain fp k1 where fp: "get_fd k c (int fd) = Inr fp"
      and k1: "with_queue k fp (Inr k) (\<lambda>qa mq.
          bind_res (do_msg_queue_close k c (int fd)) (\<lambda>(_, k'). Inr k')) = Inr k1"
        "cleanup_loop k1 c fds = Inr k'"
      by (auto simp: bind_res_Inr)
    from k1(1) have "queues_ok k1"
    proof (cases rule: with_queue_Inr)
      case bad
      with Cons.prems(2) show ?thesis by simp
    next
      case (queue p f qa mq)
      with close_keeps [OF Cons.prems(2)] show ?thesis by (auto simp: bind_res_Inr)
    qed
    with Cons.IH k1(2) show ?case by blast
  qed
  with assms show ?thesis by (simp add: do_msg_queue_cleanup_def)
qed

text \<open>
  A message to one member also meets the first three entries of the next member's row.
\<close>

lemma unicast_overread:
  assumes ok: "mq_ok mq" and i: "i < length (members mq)" "members mq ! i = to_pid msg"
    and j: "j < MAX_PROCESSES - MAX_MEMBERS"
    and next_row: "word_of_int (block_process mq ! (Suc i * MAX_MEMBERS + j)) = pd"
  shows "unicast pd msg mq = Inr (-EINVAL, mq)"
proof -
  note o = mq_okD [OF ok]
  have i4: "i < MAX_MEMBERS" using i(1) o by simp
  have "Suc i * MAX_MEMBERS + j = i * MAX_MEMBERS + (MAX_MEMBERS + j)" by simp
  moreover have "MAX_MEMBERS + j < MAX_PROCESSES" using j by (simp add: k_const)
  ultimately have "\<exists>j<MAX_PROCESSES. word_of_int (block_process mq ! (i * MAX_MEMBERS + j)) = pd"
    using next_row by (metis)
  then have b: "blocked mq i MAX_PROCESSES pd = Inr True" by (simp add: blocked_eq [OF ok i4])
  from ok show ?thesis
  proof (cases rule: find_member_cases [of mq "to_pid msg"])
    case absent
    then show ?thesis by (simp add: unicast_def)
  next
    case (present m)
    then have "m = i" using i nth_eq_iff_index_eq [OF o(3) present(2) i(1)] by simp
    with present b show ?thesis by (simp add: unicast_def)
  qed
qed

text \<open>Delivery to one member, when neither row names the sender.\<close>

lemma unicast_delivers:
  assumes ok: "mq_ok mq" and i: "i < length (members mq)" "members mq ! i = to_pid msg"
    and free: "\<forall>j < MAX_PROCESSES. word_of_int (block_process mq ! (i * MAX_MEMBERS + j)) \<noteq> pd"
    and room: "length (messages mq) < MAX_MESSAGES"
  obtains mq' where "unicast pd msg mq = Inr (1, mq')" "mq_ok mq'" "members mq' = members mq"
    "messages mq' = messages mq @ [msg]" "blocks mq' = blocks mq"
proof -
  note o = mq_okD [OF ok]
  have i4: "i < MAX_MEMBERS" using i(1) o by simp
  have b: "blocked mq i MAX_PROCESSES pd = Inr False" using free by (simp add: blocked_eq [OF ok i4])
  obtain mq' where a: "append_msg msg mq = Inr mq'" using append_msg_total [OF ok] room by blast
  from ok show ?thesis
  proof (cases rule: find_member_cases [of mq "to_pid msg"])
    case absent
    with i show ?thesis by (metis nth_mem)
  next
    case (present m)
    then have "m = i" using i nth_eq_iff_index_eq [OF o(3) present(2) i(1)] by simp
    with present b a that [of mq'] append_msg_ok [OF ok a] blocks_frame [of mq' mq] show ?thesis
      by (simp add: unicast_def)
  qed
qed

end
