(* ===== verification/UserMemory.thy ===== *)
theory UserMemory
  imports KernelState
begin

text \<open>
  C objects in the flat memory: what the kernel reads and writes when it follows a pointer a user
  program passed to it. Words are little endian, a struct is its members one behind the other
  (none of the structs here has padding), a string ends with its terminator.
\<close>

section \<open>Bytes\<close>

definition store_bytes :: "memory \<Rightarrow> u64 \<Rightarrow> u8 list \<Rightarrow> memory" where
  "store_bytes m a bs = fold (\<lambda>i m. m(a + of_nat i := bs ! i)) [0..<length bs] m"

lemma store_bytes_prefix:
  assumes "n \<le> length bs" "length bs \<le> 2 ^ 64"
  shows "(\<forall>i<n. fold (\<lambda>i m. m(a + of_nat i := bs ! i)) [0..<n] m (a + of_nat i) = bs ! i) \<and>
    (\<forall>x. x \<notin> mem_range a n \<longrightarrow> fold (\<lambda>i m. m(a + of_nat i := bs ! i)) [0..<n] m x = m x)"
  using assms
proof (induction n)
  case (Suc n)
  have "a + of_nat i \<noteq> a + (of_nat n :: u64)" if "i < n" for i
    using that Suc.prems by (simp add: of_nat_u64_inj)
  with Suc show ?case by (auto simp: mem_range_def less_Suc_eq lessThan_Suc)
qed simp

lemma store_bytes_at:
  "i < length bs \<Longrightarrow> length bs \<le> 2 ^ 64 \<Longrightarrow> store_bytes m a bs (a + of_nat i) = bs ! i"
  using store_bytes_prefix [of "length bs" bs] by (simp add: store_bytes_def)

lemma store_bytes_frame:
  "x \<notin> mem_range a (length bs) \<Longrightarrow> length bs \<le> 2 ^ 64 \<Longrightarrow> store_bytes m a bs x = m x"
  using store_bytes_prefix [of "length bs" bs] by (simp add: store_bytes_def)

lemma read_store_bytes:
  "length bs \<le> 2 ^ 64 \<Longrightarrow> n = length bs \<Longrightarrow> read_bytes (store_bytes m a bs) a n = bs"
  by (intro nth_equalityI) (simp_all add: store_bytes_at)

lemma read_store_other:
  assumes "mem_range a (length bs) \<inter> mem_range b n = {}" "length bs \<le> 2 ^ 64"
  shows "read_bytes (store_bytes m a bs) b n = read_bytes m b n"
proof (rule read_bytes_cong)
  fix i assume "i < n"
  then have "b + of_nat i \<notin> mem_range a (length bs)" using assms(1) mem_range_off by blast
  then show "store_bytes m a bs (b + of_nat i) = m (b + of_nat i)" using assms(2) by (rule store_bytes_frame)
qed

text \<open>A range read in pieces.\<close>

lemma read_bytes_add: "read_bytes m a (j + n) = read_bytes m a j @ read_bytes m (a + of_nat j) n"
proof -
  have "[0..<j + n] = [0..<j] @ map (\<lambda>i. i + j) [0..<n]"
    using upt_add_eq_append [of 0 j n] map_add_upt [of j n] by (simp add: add.commute)
  then show ?thesis by (simp add: read_bytes_def o_def add.commute add.left_commute)
qed

lemma read_bytes_part:
  assumes "read_bytes m a (length xs + length ys) = xs @ ys"
  shows "read_bytes m a (length xs) = xs" "read_bytes m (a + of_nat (length xs)) (length ys) = ys"
  using assms unfolding read_bytes_add by (simp_all add: append_eq_append_conv)

section \<open>Words\<close>

definition word_bytes :: "nat \<Rightarrow> int \<Rightarrow> u8 list" where
  "word_bytes n v = map (\<lambda>i. word_of_int (v div 256 ^ i)) [0..<n]"

definition load64 :: "memory \<Rightarrow> u64 \<Rightarrow> u64" where
  "load64 m a = word_of_int (horner_sum uint 256 (read_bytes m a 8))"

definition load32 :: "memory \<Rightarrow> u64 \<Rightarrow> u32" where
  "load32 m a = word_of_int (horner_sum uint 256 (read_bytes m a 4))"

definition store64 :: "memory \<Rightarrow> u64 \<Rightarrow> u64 \<Rightarrow> memory" where
  "store64 m a v = store_bytes m a (word_bytes 8 (uint v))"

lemma length_word_bytes [simp]: "length (word_bytes n v) = n"
  by (simp add: word_bytes_def)

lemma horner_word_bytes: "horner_sum uint 256 (word_bytes n v) = v mod 256 ^ n"
proof (induction n)
  case (Suc n)
  have "v mod (256 ^ n * 256) = 256 ^ n * (v div 256 ^ n mod 256) + v mod 256 ^ n"
    by (rule zmod_zmult2_eq) simp
  with Suc show ?case
    by (simp add: word_bytes_def horner_sum_append uint_word_of_int mult.commute)
qed (simp add: word_bytes_def)

lemma load64_bytes: "read_bytes m a 8 = word_bytes 8 (uint v) \<Longrightarrow> load64 m a = v"
  using uint_bounded [of v] by (simp add: load64_def horner_word_bytes)

lemma load32_bytes: "read_bytes m a 4 = word_bytes 4 (uint v) \<Longrightarrow> load32 m a = v"
  using uint_bounded [of v] by (simp add: load32_def horner_word_bytes)

lemma load_store: "load64 (store64 m a v) a = v"
  by (rule load64_bytes) (simp add: store64_def read_store_bytes)

lemma store_frame: "x \<notin> mem_range a 8 \<Longrightarrow> store64 m a v x = m x"
  by (simp add: store64_def store_bytes_frame)

lemma load_store_other:
  "mem_range a 8 \<inter> mem_range b 8 = {} \<Longrightarrow> load64 (store64 m a v) b = load64 m b"
  by (simp add: load64_def store64_def read_store_other)

section \<open>Strings\<close>

definition byte_char :: "u8 \<Rightarrow> char" where "byte_char b = char_of (unat b)"

definition char_byte :: "char \<Rightarrow> u8" where "char_byte c = word_of_nat (of_char c)"

lemma byte_char_inverse [simp]: "byte_char (char_byte c) = c"
proof -
  have "(of_char c :: nat) < 256" using of_char_mod_256 [of c, where 'a = nat] by simp
  then show ?thesis by (simp add: byte_char_def char_byte_def unat_of_nat)
qed

lemma byte_char_comp [simp]: "byte_char \<circ> char_byte = id"
  by (simp add: fun_eq_iff)

lemma char_byte_0: "char_byte c = 0 \<longleftrightarrow> c = CHR 0x00"
proof
  have zero: "byte_char 0 = CHR 0x00" by (simp add: byte_char_def char_of_def)
  assume "char_byte c = 0"
  with zero show "c = CHR 0x00" by (metis byte_char_inverse)
qed (simp add: char_byte_def)

text \<open>A string up to its terminator; memory without one has no string at the address.\<close>

partial_function (option) c_string :: "memory \<Rightarrow> u64 \<Rightarrow> string option" where
  "c_string m a =
     (if m a = 0 then Some [] else Option.bind (c_string m (a + 1)) (\<lambda>s. Some (byte_char (m a) # s)))"

lemma c_string_stored:
  "read_bytes m a (Suc (length s)) = map char_byte s @ [0] \<Longrightarrow> CHR 0x00 \<notin> set s \<Longrightarrow> c_string m a = Some s"
proof (induction s arbitrary: a)
  case Nil
  then have "m a = 0" by (simp add: read_bytes_def)
  then show ?case by (subst c_string.simps) simp
next
  case (Cons c s)
  have "read_bytes m a (1 + Suc (length s)) = char_byte c # map char_byte s @ [0]"
    using Cons.prems(1) by simp
  then have "m a = char_byte c" "read_bytes m (a + 1) (Suc (length s)) = map char_byte s @ [0]"
    unfolding read_bytes_add by (simp_all add: read_bytes_def)
  moreover from this have "c_string m (a + 1) = Some s" using Cons by simp
  moreover have "char_byte c \<noteq> 0" using Cons.prems(2) by (auto simp: char_byte_0)
  ultimately show ?case by (subst c_string.simps) simp
qed

section \<open>Structs\<close>

text \<open>\<open>struct message\<close>, \<open>struct msg_queue_member_info\<close>, \<open>struct os_configs\<close> and \<open>struct user_regs\<close>.\<close>

definition message_bytes :: "message \<Rightarrow> u8 list" where
  "message_bytes msg =
     word_bytes 4 (uint (from_pid msg)) @ word_bytes 4 (uint (to_pid msg)) @ map char_byte (msg_txt msg)"

definition load_message :: "memory \<Rightarrow> u64 \<Rightarrow> message" where
  "load_message m a =
     \<lparr>from_pid = load32 m a, to_pid = load32 m (a + 4),
      msg_txt = map byte_char (read_bytes m (a + 8) MAX_TXT_SIZE)\<rparr>"

definition store_message :: "memory \<Rightarrow> u64 \<Rightarrow> message \<Rightarrow> memory" where
  "store_message m a msg = store_bytes m a (message_bytes msg)"

definition info_bytes :: "u32 \<times> u32 list \<Rightarrow> u8 list" where
  "info_bytes info = word_bytes 4 (uint (fst info)) @ concat (map (\<lambda>pd. word_bytes 4 (uint pd)) (snd info))"

definition store_info :: "memory \<Rightarrow> u64 \<Rightarrow> u32 \<times> u32 list \<Rightarrow> memory" where
  "store_info m a info = store_bytes m a (info_bytes info)"

definition load_configs :: "memory \<Rightarrow> u64 \<Rightarrow> os_configs" where
  "load_configs m a =
     \<lparr>global_mapping = load64 m a, apic_tick_interval = load64 m (a + 8), debug = load64 m (a + 16),
      adv_global = load64 m (a + 24)\<rparr>"

definition load_regs :: "memory \<Rightarrow> u64 \<Rightarrow> user_regs" where
  "load_regs m a = map (\<lambda>i. load64 m (a + of_nat (8 * i))) [0..<20]"

text \<open>The argument of a call that is a pointer: NULL is no object.\<close>

definition at_ptr :: "(memory \<Rightarrow> u64 \<Rightarrow> 'a) \<Rightarrow> memory \<Rightarrow> u64 \<Rightarrow> 'a option" where
  "at_ptr load m a = (if a = 0 then None else Some (load m a))"

lemma length_message_bytes: "length (msg_txt msg) = MAX_TXT_SIZE \<Longrightarrow> length (message_bytes msg) = 32"
  by (simp add: message_bytes_def k_const)

lemma load_message_text: "length (msg_txt (load_message m a)) = MAX_TXT_SIZE"
  by (simp add: load_message_def)

lemma load_message_bytes:
  assumes "read_bytes m a 32 = message_bytes msg" "length (msg_txt msg) = MAX_TXT_SIZE"
  shows "load_message m a = msg"
proof -
  have all: "read_bytes m a (4 + (4 + 24)) = word_bytes 4 (uint (from_pid msg)) @
      word_bytes 4 (uint (to_pid msg)) @ map char_byte (msg_txt msg)"
    using assms(1) by (simp add: message_bytes_def)
  have "read_bytes m a 4 = word_bytes 4 (uint (from_pid msg))"
    and rest: "read_bytes m (a + of_nat 4) (4 + 24) = word_bytes 4 (uint (to_pid msg)) @ map char_byte (msg_txt msg)"
    using all unfolding read_bytes_add [of m a 4] by (simp_all add: append_eq_append_conv)
  moreover have "read_bytes m (a + 4) 4 = word_bytes 4 (uint (to_pid msg))"
    and "read_bytes m (a + 4 + of_nat 4) 24 = map char_byte (msg_txt msg)"
    using rest unfolding read_bytes_add [of m "a + of_nat 4" 4] by (simp_all add: append_eq_append_conv)
  ultimately show ?thesis
    by (simp add: load_message_def load32_bytes MAX_TXT_SIZE_def add.assoc)
qed

lemma load_store_message:
  "length (msg_txt msg) = MAX_TXT_SIZE \<Longrightarrow> load_message (store_message m a msg) a = msg"
  by (rule load_message_bytes) (simp_all add: store_message_def read_store_bytes length_message_bytes)

lemma load_message_read:
  assumes "read_bytes m a 32 = read_bytes m' b 32"
  shows "load_message m a = load_message m' b"
proof -
  have same: "m (a + of_nat i) = m' (b + of_nat i)" if "i < 32" for i
    using nth_read_bytes [OF that, of m a] nth_read_bytes [OF that, of m' b] assms by simp
  have part: "read_bytes m (a + of_nat j) n = read_bytes m' (b + of_nat j) n" if "j + n \<le> 32" for j n
    using same [of "j + i" for i] that by (intro read_bytes_cong) (simp add: add.assoc)
  show ?thesis
    using part [of 0 4] part [of 4 4] part [of 8 24] by (simp add: load_message_def load32_def MAX_TXT_SIZE_def)
qed

end
