(* ===== verification/VmArea.thy ===== *)
theory VmArea
  imports KernelState
begin

text \<open>
  The inline functions of \<^verbatim>\<open>include/mmap.h\<close> on the areas of a process: counting them, and the dump behind
  the call \<open>pmap\<close>. What is printed is the list of the calls of \<open>printk\<close>, each with its format and its
  arguments. The functions that map and unmap are in object files.
\<close>

section \<open>Access rights\<close>

definition MM_RD :: u32 where "MM_RD = 1"
definition MM_WR :: u32 where "MM_WR = 2"
definition MM_EX :: u32 where "MM_EX = 4"

definition PROT_READ :: u32 where "PROT_READ = MM_RD"
definition PROT_WRITE :: u32 where "PROT_WRITE = MM_WR"
definition PROT_EXEC :: u32 where "PROT_EXEC = MM_EX"

lemmas prot_const = PROT_READ_def PROT_WRITE_def PROT_EXEC_def MM_RD_def MM_WR_def MM_EX_def

section \<open>Counting\<close>

text \<open>What the allocator returns is an argument; the count goes up even when it is NULL.\<close>

definition alloc_vm_area :: "vm_area option \<Rightarrow> os_stats \<Rightarrow> vm_area option \<times> os_stats" where
  "alloc_vm_area got st = (got, st\<lparr>num_vm_area := num_vm_area st + 1\<rparr>)"

definition dealloc_vm_area :: "os_stats \<Rightarrow> os_stats" where
  "dealloc_vm_area st = st\<lparr>num_vm_area := num_vm_area st - 1\<rparr>"

lemma alloc_dealloc: "dealloc_vm_area (snd (alloc_vm_area got st)) = st"
  by (simp add: alloc_vm_area_def dealloc_vm_area_def)

section \<open>The dump\<close>

type_synonym printk = "string \<times> u64 list"

definition nl :: string where "nl = [CHR 0x0A]"
definition tab :: string where "tab = [CHR 0x09]"

text \<open>One turn of the loop: the addresses and the number of pages, then the rights one by one.\<close>

definition dump_area :: "vm_area \<Rightarrow> printk list" where
  "dump_area v =
     [(tab @ ''[%x'' @ tab @ ''%x] #PAGES[%d]'' @ tab,
       [vm_start v, vm_end v, (vm_end v - vm_start v) div of_nat PAGE_SIZE]),
      (if access_flags v AND PROT_READ \<noteq> 0 then ''R '' else ''_ '', []),
      (if access_flags v AND PROT_WRITE \<noteq> 0 then ''W '' else ''_ '', []),
      (if access_flags v AND PROT_EXEC \<noteq> 0 then ''X'' @ nl else ''_'' @ nl, [])]"

text \<open>The list is followed from its first node, which is never shown; an empty list is NULL.\<close>

definition vm_area_dump :: "os_stats \<Rightarrow> vm_area list \<Rightarrow> int \<Rightarrow> (int \<times> printk list) res" where
  "vm_area_dump st vm details =
     (if details = 0 then
        Inr (0, [(''VM_Area:[%d]'' @ tab @ ''MMAP_Page_Faults[%d]'' @ nl, [num_vm_area st - 1, mmap_page_faults st])])
      else
        (case vm of
           [] \<Rightarrow> Inl NullDeref
         | _ # temp \<Rightarrow>
             Inr (0, [(nl @ nl @ tab @ ''########### '' @ tab @ ''VM Area Details '' @ tab @ ''################'' @ nl, []),
                      (tab @ ''VM_Area:[%d]'' @ tab @ tab @ ''MMAP_Page_Faults[%d]'' @ nl @ nl,
                       [num_vm_area st - 1, mmap_page_faults st])]
                     @ concat (map dump_area temp)
                     @ [(nl @ tab @ ''###############################################'' @ nl @ nl, [])])))"

lemma vm_area_dump_returns:
  "details = 0 \<or> vm \<noteq> [] \<Longrightarrow> \<exists>out. vm_area_dump st vm details = Inr (0, out)"
  by (cases vm) (auto simp: vm_area_dump_def)

lemma vm_area_dump_Inr: "vm_area_dump st vm details = Inr (v, out) \<Longrightarrow> v = 0"
  by (auto simp: vm_area_dump_def split: if_splits list.splits)

section \<open>Reading a dump\<close>

text \<open>The areas a dump shows, from what was printed: start, end, number of pages and rights.\<close>

definition shown_access :: "string \<Rightarrow> string \<Rightarrow> string \<Rightarrow> u32" where
  "shown_access r w x = (if r = ''R '' then 1 else 0) OR (if w = ''W '' then 2 else 0) OR (if x = ''X'' @ nl then 4 else 0)"

fun shown_areas :: "printk list \<Rightarrow> (u64 \<times> u64 \<times> u64 \<times> u32) list" where
  "shown_areas ((_, [a, b, n]) # (r, []) # (w, []) # (x, []) # ps) = (a, b, n, shown_access r w x) # shown_areas ps"
| "shown_areas _ = []"

lemma one_bit: "(w :: u32) AND 2 ^ n = 0 \<or> w AND 2 ^ n = 2 ^ n"
proof (cases "bit w n")
  case True
  then have "w AND 2 ^ n = 2 ^ n" by (intro bit_eqI) (auto simp: bit_and_iff bit_exp_iff)
  then show ?thesis ..
next
  case False
  then have "w AND 2 ^ n = 0" by (intro bit_eqI) (auto simp: bit_and_iff bit_exp_iff)
  then show ?thesis ..
qed

lemma low_bits:
  "(w :: u32) AND 7 = (if w AND 1 \<noteq> 0 then 1 else 0) OR (if w AND 2 \<noteq> 0 then 2 else 0) OR (if w AND 4 \<noteq> 0 then 4 else 0)"
proof -
  have "w AND 7 = w AND (1 OR 2 OR 4)" by simp
  also have "\<dots> = (w AND 1) OR (w AND 2) OR (w AND 4)" by (simp only: and.assoc bit.conj_disj_distrib)
  finally have w: "w AND 7 = (w AND 1) OR (w AND 2) OR (w AND 4)" .
  have "w AND 1 = 0 \<or> w AND 1 = 1" "w AND 2 = 0 \<or> w AND 2 = 2" "w AND 4 = 0 \<or> w AND 4 = 4"
    using one_bit [of w 0] one_bit [of w 1] one_bit [of w 2] by simp_all
  then show ?thesis unfolding w by (elim disjE) simp_all
qed

lemma shown_dump_area:
  "shown_areas (dump_area v @ ps) =
     (vm_start v, vm_end v, (vm_end v - vm_start v) div 4096, access_flags v AND 7) # shown_areas ps"
  by (auto simp: dump_area_def shown_access_def low_bits prot_const nl_def PAGE_SIZE_def)

lemma shown_dump_areas:
  "shown_areas (concat (map dump_area vs) @ [(s, [])]) =
     map (\<lambda>v. (vm_start v, vm_end v, (vm_end v - vm_start v) div 4096, access_flags v AND 7)) vs"
  by (induction vs) (simp_all add: shown_dump_area)

text \<open>Behind the two lines of the head a dump shows every area but the first, in the order of the list.\<close>

lemma dump_shows_areas:
  assumes "vm_area_dump st (v # vs) details = Inr (r, out)" "details \<noteq> 0"
  shows "shown_areas (drop 2 out) =
    map (\<lambda>v. (vm_start v, vm_end v, (vm_end v - vm_start v) div 4096, access_flags v AND 7)) vs"
  using assms by (auto simp: vm_area_dump_def shown_dump_areas)

end
