(* ===== verification/Syscalls.thy ===== *)
theory Syscalls
  imports MsgQueue UserMemory VmArea
begin

text \<open>
  The system call layer, \<^verbatim>\<open>Assignment2/entry.c\<close>: the handlers that look a descriptor up, check
  its mode and call the operation stored in the file object, fork and exit, and the dispatcher
  \<open>do_syscall\<close>. The last part is the kernel as a transition system of file calls: its invariant
  holds in every reachable state, and no call of a process that keeps to the stated conditions
  faults.
\<close>

section \<open>What the handlers take from outside\<close>

text \<open>
  The parts of the kernel that are not under \<^verbatim>\<open>src/\<close>, as functions: the devices, the page allocator
  (what page it returns and what the page held), the context and address space functions of fork, where
  the entry code has put the user's registers, the pipe module, and the system calls of the other
  modules with the slot of the caller. What a user pointer refers to is read from the memory
  (\<open>UserMemory\<close>).
\<close>

record env =
  dev :: device
  file_page :: "kernel \<Rightarrow> nat \<times> file_obj"
  queue_page :: "kernel \<Rightarrow> nat option \<times> msg_queue_info"
  buff_page :: "kernel \<Rightarrow> u64"
  get_new_ctx :: "kernel \<Rightarrow> nat \<times> u32"
  copy_mm :: "nat \<Rightarrow> nat \<Rightarrow> kernel \<Rightarrow> kernel"
  setup_child_context :: "nat \<Rightarrow> kernel \<Rightarrow> kernel"
  entry_rbp :: "kernel \<Rightarrow> u64"
  create_pipe :: "nat \<Rightarrow> u64 \<Rightarrow> kernel \<Rightarrow> (int \<times> kernel) res"
  other_syscall :: "nat \<Rightarrow> int \<Rightarrow> u64 \<Rightarrow> u64 \<Rightarrow> u64 \<Rightarrow> u64 \<Rightarrow> kernel \<Rightarrow> (int \<times> kernel) res"

section \<open>Files\<close>

definition do_read_kbd :: "device \<Rightarrow> kernel \<Rightarrow> u64 \<Rightarrow> (int \<times> kernel) res" where
  "do_read_kbd d k buff = Inr (1, k\<lparr>mem := kbd_read d (mem k) buff\<rparr>)"

definition do_write_console :: "device \<Rightarrow> kernel \<Rightarrow> u64 \<Rightarrow> u32 \<Rightarrow> (int \<times> kernel) res" where
  "do_write_console d k buff count = Inr (do_write d (mem k) buff (ucast count), k)"

definition do_file_open ::
    "nat \<Rightarrow> file_obj \<Rightarrow> kernel \<Rightarrow> nat \<Rightarrow> string \<Rightarrow> u64 \<Rightarrow> u64 \<Rightarrow> (int \<times> kernel) res" where
  "do_file_open p page k c fname flag mode =
     (if fname = ''stdin'' then open_standard_IO p page k c 0
      else if fname = ''stdout'' then open_standard_IO p page k c 1
      else if fname = ''stderr'' then open_standard_IO p page k c 2
      else do_regular_file_open p page k c fname flag mode)"

definition do_file_read ::
    "device \<Rightarrow> kernel \<Rightarrow> nat \<Rightarrow> u64 \<Rightarrow> u64 \<Rightarrow> u64 \<Rightarrow> (int \<times> kernel) res" where
  "do_file_read d k c fd buff count =
     bind_res (get_fd k c (uint fd)) (\<lambda>filep.
       case filep of
         None \<Rightarrow> Inr (-EINVAL, k)
       | Some p \<Rightarrow> bind_res (file_at k p) (\<lambda>f.
           if fmode f AND O_READ \<noteq> O_READ then Inr (-EACCES, k)
           else (case fread (fops f) of
                   None \<Rightarrow> Inr (-EINVAL, k)
                 | Some Do_read_kbd \<Rightarrow> do_read_kbd d k buff
                 | Some Do_read_regular \<Rightarrow> do_read_regular k (Some p) buff (ucast count))))"

definition do_file_write ::
    "device \<Rightarrow> kernel \<Rightarrow> nat \<Rightarrow> u64 \<Rightarrow> u64 \<Rightarrow> u64 \<Rightarrow> (int \<times> kernel) res" where
  "do_file_write d k c fd buff count =
     bind_res (get_fd k c (uint fd)) (\<lambda>filep.
       case filep of
         None \<Rightarrow> Inr (-EINVAL, k)
       | Some p \<Rightarrow> bind_res (file_at k p) (\<lambda>f.
           if fmode f AND O_WRITE = 0 then Inr (-EACCES, k)
           else (case fwrite (fops f) of
                   None \<Rightarrow> Inr (-EINVAL, k)
                 | Some Do_write_console \<Rightarrow> do_write_console d k buff (ucast count)
                 | Some Do_write_regular \<Rightarrow> do_write_regular k (Some p) buff (ucast count))))"

definition do_create_pipe :: "env \<Rightarrow> kernel \<Rightarrow> nat \<Rightarrow> u64 \<Rightarrow> (int \<times> kernel) res" where
  "do_create_pipe e k c fd = create_pipe e c fd k"

definition do_dup2 :: "kernel \<Rightarrow> nat \<Rightarrow> int \<Rightarrow> int \<Rightarrow> (int \<times> kernel) res" where
  "do_dup2 k c oldfd newfd = fd_dup2 k c oldfd newfd"

text \<open>
  \<open>do_close\<close> computes \<open>ret\<close> and does not return it: after a successful close the value the
  caller sees is not defined, here \<open>None\<close>.
\<close>

definition do_close :: "kernel \<Rightarrow> nat \<Rightarrow> int \<Rightarrow> (int option \<times> kernel) res" where
  "do_close k c fd =
     bind_res (get_fd k c fd) (\<lambda>filep.
       case filep of
         None \<Rightarrow> Inr (Some (-EINVAL), k)
       | Some p \<Rightarrow> bind_res (file_at k p) (\<lambda>f.
           case fclose (fops f) of
             None \<Rightarrow> Inr (Some (-EINVAL), k)
           | Some op \<Rightarrow>
               bind_res (set_fd k c fd None) (\<lambda>k1.
               bind_res (case op of Std_close \<Rightarrow> std_close k1 p | Do_file_close \<Rightarrow> do_file_close k1 (Some p))
                 (\<lambda>(ret, k2). Inr (None, k2)))))"

definition do_lseek :: "kernel \<Rightarrow> nat \<Rightarrow> int \<Rightarrow> int \<Rightarrow> whence \<Rightarrow> (int \<times> kernel) res" where
  "do_lseek k c fd offset wh =
     bind_res (get_fd k c fd) (\<lambda>filep.
       case filep of
         None \<Rightarrow> Inr (-EINVAL, k)
       | Some p \<Rightarrow> bind_res (file_at k p) (\<lambda>f.
           case flseek (fops f) of
             None \<Rightarrow> Inr (-EINVAL, k)
           | Some Do_lseek_regular \<Rightarrow> do_lseek_regular k (Some p) offset wh))"

definition call_sendfile ::
    "u64 \<Rightarrow> kernel \<Rightarrow> nat \<Rightarrow> u64 \<Rightarrow> u64 \<Rightarrow> int option \<Rightarrow> u64 \<Rightarrow> (int \<times> int option \<times> kernel) res" where
  "call_sendfile buff k c outfd infd offset count =
     do_sendfile buff k c (sint (ucast outfd :: u32)) (sint (ucast infd :: u32)) offset
       (sint (ucast count :: u32))"

section \<open>Message queues\<close>

text \<open>The descriptor looked up, or \<open>-EINVAL\<close> when it is closed.\<close>

definition with_fd :: "kernel \<Rightarrow> nat \<Rightarrow> u64 \<Rightarrow> 'a res \<Rightarrow> (nat option \<Rightarrow> 'a res) \<Rightarrow> 'a res" where
  "with_fd k c fd einval body =
     bind_res (get_fd k c (uint fd)) (\<lambda>filep. if filep = None then einval else body filep)"

definition do_get_member_info ::
    "kernel \<Rightarrow> nat \<Rightarrow> u64 \<Rightarrow> (int \<times> (u32 \<times> u32 list) option \<times> kernel) res" where
  "do_get_member_info k c fd =
     with_fd k c fd (Inr (-EINVAL, None, k)) (do_msg_queue_get_member_info k)"

definition call_msg_queue_send ::
    "kernel \<Rightarrow> nat \<Rightarrow> u64 \<Rightarrow> message option \<Rightarrow> (int \<times> kernel) res" where
  "call_msg_queue_send k c fd msg =
     with_fd k c fd (Inr (-EINVAL, k)) (\<lambda>filep. do_msg_queue_send k c filep msg)"

definition call_msg_queue_rcv ::
    "kernel \<Rightarrow> nat \<Rightarrow> u64 \<Rightarrow> bool \<Rightarrow> (int \<times> message option \<times> kernel) res" where
  "call_msg_queue_rcv k c fd msg_ptr =
     with_fd k c fd (Inr (-EINVAL, None, k)) (\<lambda>filep. do_msg_queue_rcv k c filep msg_ptr)"

definition call_get_msg_count :: "kernel \<Rightarrow> nat \<Rightarrow> u64 \<Rightarrow> (int \<times> kernel) res" where
  "call_get_msg_count k c fd = with_fd k c fd (Inr (-EINVAL, k)) (do_get_msg_count k c)"

definition call_msg_queue_block :: "kernel \<Rightarrow> nat \<Rightarrow> u64 \<Rightarrow> u64 \<Rightarrow> (int \<times> kernel) res" where
  "call_msg_queue_block k c fd pd =
     (let block_pid = sint (ucast pd :: u32)
      in with_fd k c fd (Inr (-EINVAL, k)) (\<lambda>filep. do_msg_queue_block k c filep block_pid))"

definition call_msg_queue_close :: "kernel \<Rightarrow> nat \<Rightarrow> u64 \<Rightarrow> (int \<times> kernel) res" where
  "call_msg_queue_close k c fd = do_msg_queue_close k c (sint (ucast fd :: u32))"

section \<open>Fork and exit\<close>

definition do_fork :: "env \<Rightarrow> kernel \<Rightarrow> nat \<Rightarrow> (int \<times> kernel) res" where
  "do_fork e k c =
     (let (n, new_pid) = get_new_ctx e k
      in bind_res (ctx_at k c) (\<lambda>ctx.
           let child = ctx\<lparr>pid := new_pid, ppid := pid ctx\<rparr>;
               k1 = k\<lparr>ctxs := (ctxs k)(n \<mapsto> child)\<rparr>;
               k2 = setup_child_context e n (copy_mm e n c k1)
           in bind_res (do_add_child_to_msg_queue k2 n) (\<lambda>k3. Inr (uint new_pid, k3))))"

text \<open>
  The result says whether no process is left, when the code calls \<open>do_cleanup\<close>. What follows
  is the scheduler.
\<close>

definition do_exit :: "kernel \<Rightarrow> nat \<Rightarrow> (bool \<times> kernel) res" where
  "do_exit k c =
     bind_res (do_msg_queue_cleanup k c) (\<lambda>k1.
     bind_res (do_file_exit k1 c) (\<lambda>k2.
     bind_res (ctx_at k2 c) (\<lambda>ctx.
       let k3 = k2\<lparr>ctxs := (ctxs k2)(c \<mapsto> ctx\<lparr>pstate := UNUSED\<rparr>)\<rparr>;
           proc_exist = list_ex (\<lambda>ctr. case ctxs k3 ctr of None \<Rightarrow> False
                                     | Some x \<Rightarrow> pstate x \<noteq> UNUSED) [1..<MAX_PROCESSES]
       in Inr (\<not> proc_exist, k3\<lparr>stats := (stats k3)\<lparr>num_processes := num_processes (stats k3) - 1\<rparr>\<rparr>))))"

section \<open>Call numbers\<close>

named_theorems syscall_nr "the call numbers of entry.h as numerals"

definition SYSCALL_EXIT :: int where "SYSCALL_EXIT = 1"
definition SYSCALL_GETPID :: int where "SYSCALL_GETPID = 2"
definition SYSCALL_EXPAND :: int where "SYSCALL_EXPAND = 4"
definition SYSCALL_SHRINK :: int where "SYSCALL_SHRINK = 5"
definition SYSCALL_ALARM :: int where "SYSCALL_ALARM = 6"
definition SYSCALL_SLEEP :: int where "SYSCALL_SLEEP = 7"
definition SYSCALL_SIGNAL :: int where "SYSCALL_SIGNAL = 8"
definition SYSCALL_CLONE :: int where "SYSCALL_CLONE = 9"
definition SYSCALL_FORK :: int where "SYSCALL_FORK = 10"
definition SYSCALL_STATS :: int where "SYSCALL_STATS = 11"
definition SYSCALL_CONFIGURE :: int where "SYSCALL_CONFIGURE = 12"
definition SYSCALL_PHYS_INFO :: int where "SYSCALL_PHYS_INFO = 13"
definition SYSCALL_DUMP_PTT :: int where "SYSCALL_DUMP_PTT = 14"
definition SYSCALL_CFORK :: int where "SYSCALL_CFORK = 15"
definition SYSCALL_MMAP :: int where "SYSCALL_MMAP = 16"
definition SYSCALL_MUNMAP :: int where "SYSCALL_MUNMAP = 17"
definition SYSCALL_MPROTECT :: int where "SYSCALL_MPROTECT = 18"
definition SYSCALL_PMAP :: int where "SYSCALL_PMAP = 19"
definition SYSCALL_VFORK :: int where "SYSCALL_VFORK = 20"
definition SYSCALL_GET_USER_P :: int where "SYSCALL_GET_USER_P = 21"
definition SYSCALL_GET_COW_F :: int where "SYSCALL_GET_COW_F = 22"
definition SYSCALL_OPEN :: int where "SYSCALL_OPEN = 23"
definition SYSCALL_READ :: int where "SYSCALL_READ = 24"
definition SYSCALL_WRITE :: int where "SYSCALL_WRITE = 25"
definition SYSCALL_PIPE :: int where "SYSCALL_PIPE = 26"
definition SYSCALL_DUP :: int where "SYSCALL_DUP = 27"
definition SYSCALL_DUP2 :: int where "SYSCALL_DUP2 = 28"
definition SYSCALL_CLOSE :: int where "SYSCALL_CLOSE = 29"
definition SYSCALL_LSEEK :: int where "SYSCALL_LSEEK = 30"
definition SYSCALL_SENDFILE :: int where "SYSCALL_SENDFILE = 38"
definition SYSCALL_CREATE_MSG_QUEUE :: int where "SYSCALL_CREATE_MSG_QUEUE = 31"
definition SYSCALL_GET_MEMBER_INFO :: int where "SYSCALL_GET_MEMBER_INFO = 32"
definition SYSCALL_GET_MSG_COUNT :: int where "SYSCALL_GET_MSG_COUNT = 33"
definition SYSCALL_MSG_QUEUE_BLOCK :: int where "SYSCALL_MSG_QUEUE_BLOCK = 34"
definition SYSCALL_MSG_QUEUE_RCV :: int where "SYSCALL_MSG_QUEUE_RCV = 35"
definition SYSCALL_MSG_QUEUE_SEND :: int where "SYSCALL_MSG_QUEUE_SEND = 36"
definition SYSCALL_MSG_QUEUE_CLOSE :: int where "SYSCALL_MSG_QUEUE_CLOSE = 37"

declare
  SYSCALL_EXIT_def [syscall_nr] SYSCALL_GETPID_def [syscall_nr] SYSCALL_EXPAND_def [syscall_nr] SYSCALL_SHRINK_def [syscall_nr]
  SYSCALL_ALARM_def [syscall_nr] SYSCALL_SLEEP_def [syscall_nr] SYSCALL_SIGNAL_def [syscall_nr] SYSCALL_CLONE_def [syscall_nr]
  SYSCALL_FORK_def [syscall_nr] SYSCALL_STATS_def [syscall_nr] SYSCALL_CONFIGURE_def [syscall_nr] SYSCALL_PHYS_INFO_def [syscall_nr]
  SYSCALL_DUMP_PTT_def [syscall_nr] SYSCALL_CFORK_def [syscall_nr] SYSCALL_MMAP_def [syscall_nr] SYSCALL_MUNMAP_def [syscall_nr]
  SYSCALL_MPROTECT_def [syscall_nr] SYSCALL_PMAP_def [syscall_nr] SYSCALL_VFORK_def [syscall_nr] SYSCALL_GET_USER_P_def [syscall_nr]
  SYSCALL_GET_COW_F_def [syscall_nr] SYSCALL_OPEN_def [syscall_nr] SYSCALL_READ_def [syscall_nr] SYSCALL_WRITE_def [syscall_nr]
  SYSCALL_PIPE_def [syscall_nr] SYSCALL_DUP_def [syscall_nr] SYSCALL_DUP2_def [syscall_nr] SYSCALL_CLOSE_def [syscall_nr]
  SYSCALL_LSEEK_def [syscall_nr] SYSCALL_SENDFILE_def [syscall_nr] SYSCALL_CREATE_MSG_QUEUE_def [syscall_nr] SYSCALL_GET_MEMBER_INFO_def [syscall_nr]
  SYSCALL_GET_MSG_COUNT_def [syscall_nr] SYSCALL_MSG_QUEUE_BLOCK_def [syscall_nr] SYSCALL_MSG_QUEUE_RCV_def [syscall_nr] SYSCALL_MSG_QUEUE_SEND_def [syscall_nr]
  SYSCALL_MSG_QUEUE_CLOSE_def [syscall_nr]

section \<open>The dispatcher\<close>

definition whence_of :: "u64 \<Rightarrow> whence" where
  "whence_of w =
     (let v = sint (ucast w :: u32)
      in if v = 0 then SEEK_SET else if v = 1 then SEEK_CUR else if v = 2 then SEEK_END
         else Other_whence)"

definition int_arg :: "u64 \<Rightarrow> int" where
  "int_arg w = sint (ucast w :: u32)"

definition returns :: "(int \<times> kernel) res \<Rightarrow> (int option \<times> kernel) res" where
  "returns r = bind_res r (\<lambda>(v, k'). Inr (Some v, k'))"

text \<open>
  One \<open>case\<close> of the switch per number of \<^verbatim>\<open>include/entry.h\<close>. The calls of modules outside
  \<^verbatim>\<open>src/\<close> are \<open>other_syscall\<close>; what the kernel prints is not part of its state. The name of a file is
  read up to its terminator, without one for ever.
\<close>

definition dispatch ::
    "env \<Rightarrow> kernel \<Rightarrow> nat \<Rightarrow> int \<Rightarrow> u64 \<Rightarrow> u64 \<Rightarrow> u64 \<Rightarrow> u64 \<Rightarrow> (int option \<times> kernel) res" where
  "dispatch e k c nr p1 p2 p3 p4 =
     (if nr = SYSCALL_EXIT then bind_res (do_exit k c) (\<lambda>(_, k'). Inr (Some 0, k'))
      else if nr = SYSCALL_GETPID then bind_res (ctx_at k c) (\<lambda>ctx. Inr (Some (uint (pid ctx)), k))
      else if nr = SYSCALL_FORK then returns (do_fork e k c)
      else if nr = SYSCALL_STATS then Inr (Some 0, k)
      else if nr = SYSCALL_GET_USER_P then Inr (Some (sint (user_reg_pages (stats k))), k)
      else if nr = SYSCALL_GET_COW_F then Inr (Some (sint (cow_page_faults (stats k))), k)
      else if nr = SYSCALL_CONFIGURE then Inr (Some 0, k\<lparr>config := load_configs (mem k) p1\<rparr>)
      else if nr = SYSCALL_PHYS_INFO then Inr (Some 0, k)
      else if nr = SYSCALL_PMAP then
        bind_res (ctx_at k c) (\<lambda>ctx.
        bind_res (vm_area_dump (stats k) (vm_area ctx) (int_arg p1)) (\<lambda>(v, out). Inr (Some v, k)))
      else if nr = SYSCALL_OPEN then
        (case c_string (mem k) p1 of
           None \<Rightarrow> Inl RunawayLoop
         | Some fname \<Rightarrow>
             let (p, page) = file_page e k in returns (do_file_open p page k c fname p2 p3))
      else if nr = SYSCALL_READ then returns (do_file_read (dev e) k c p1 p2 p3)
      else if nr = SYSCALL_WRITE then returns (do_file_write (dev e) k c p1 p2 p3)
      else if nr = SYSCALL_PIPE then returns (do_create_pipe e k c p1)
      else if nr = SYSCALL_DUP2 then returns (do_dup2 k c (int_arg p1) (int_arg p2))
      else if nr = SYSCALL_CLOSE then do_close k c (int_arg p1)
      else if nr = SYSCALL_LSEEK then returns (do_lseek k c (int_arg p1) (sint p2) (whence_of p3))
      else if nr = SYSCALL_CREATE_MSG_QUEUE then
        (let (q, qpage) = queue_page e k; (p, page) = file_page e k
         in returns (do_create_msg_queue q qpage p page k c))
      else if nr = SYSCALL_GET_MEMBER_INFO then
        bind_res (do_get_member_info k c p1) (\<lambda>(r, info, k').
          Inr (Some r, case info of None \<Rightarrow> k' | Some x \<Rightarrow> k'\<lparr>mem := store_info (mem k') p2 x\<rparr>))
      else if nr = SYSCALL_GET_MSG_COUNT then returns (call_get_msg_count k c p1)
      else if nr = SYSCALL_MSG_QUEUE_BLOCK then returns (call_msg_queue_block k c p1 p2)
      else if nr = SYSCALL_MSG_QUEUE_RCV then
        bind_res (call_msg_queue_rcv k c p1 (p2 \<noteq> 0)) (\<lambda>(r, out, k').
          Inr (Some r, case out of None \<Rightarrow> k' | Some m \<Rightarrow> k'\<lparr>mem := store_message (mem k') p2 m\<rparr>))
      else if nr = SYSCALL_MSG_QUEUE_SEND then
        returns (call_msg_queue_send k c p1 (at_ptr load_message (mem k) p2))
      else if nr = SYSCALL_MSG_QUEUE_CLOSE then returns (call_msg_queue_close k c p1)
      else if nr = SYSCALL_SENDFILE then
        bind_res (call_sendfile (buff_page e k) k c p1 p2 (at_ptr (\<lambda>m a. sint (load64 m a)) (mem k) p3) p4)
          (\<lambda>(r, off, k').
            Inr (Some r, case off of None \<Rightarrow> k' | Some x \<Rightarrow> k'\<lparr>mem := store64 (mem k') p3 (word_of_int x)\<rparr>))
      else if nr \<in> {SYSCALL_EXPAND, SYSCALL_SHRINK, SYSCALL_ALARM, SYSCALL_SLEEP,
          SYSCALL_SIGNAL, SYSCALL_CLONE, SYSCALL_DUMP_PTT, SYSCALL_CFORK, SYSCALL_MMAP,
          SYSCALL_MUNMAP, SYSCALL_MPROTECT, SYSCALL_VFORK} then
        returns (other_syscall e c nr p1 p2 p3 p4 k)
      else Inr (Some (-1), k))"

text \<open>
  Before the switch the user's registers, which the entry code has pushed above the frame, are copied
  into the context, and the call is counted.
\<close>

definition enter_syscall :: "env \<Rightarrow> kernel \<Rightarrow> nat \<Rightarrow> kernel res" where
  "enter_syscall e k c =
     bind_res (ctx_at k c) (\<lambda>ctx.
       let saved_sp = entry_rbp e k + 0x10
       in Inr (k\<lparr>ctxs := (ctxs k)(c \<mapsto> ctx\<lparr>regs := load_regs (mem k) saved_sp\<rparr>),
                 stats := (stats k)\<lparr>syscalls := syscalls (stats k) + 1\<rparr>\<rparr>))"

definition do_syscall ::
    "env \<Rightarrow> kernel \<Rightarrow> nat \<Rightarrow> int \<Rightarrow> u64 \<Rightarrow> u64 \<Rightarrow> u64 \<Rightarrow> u64 \<Rightarrow> (int option \<times> kernel) res" where
  "do_syscall e k c nr p1 p2 p3 p4 =
     bind_res (enter_syscall e k c) (\<lambda>k'. dispatch e k' c nr p1 p2 p3 p4)"

section \<open>The invariant of the file calls\<close>

text \<open>
  An object with an operation for regular files refers to a valid inode and its offset is inside
  the file. Together with the well-formed inode table and the reference counts this is what the
  calls keep.
\<close>

definition uses_regular :: "file_obj \<Rightarrow> bool" where
  "uses_regular f \<longleftrightarrow> fread (fops f) = Some Do_read_regular \<or> fwrite (fops f) = Some Do_write_regular \<or>
     flseek (fops f) = Some Do_lseek_regular"

definition file_inv :: "super_block \<Rightarrow> file_obj \<Rightarrow> bool" where
  "file_inv s f \<longleftrightarrow> (uses_regular f \<longrightarrow>
     (\<exists>i. finode f = Some i \<and> i < NUM_FILES \<and> is_valid_inode s i \<and>
        uint (offp f) \<le> uint (file_size (inodes s ! i))))"

definition kernel_ok :: "kernel \<Rightarrow> bool" where
  "kernel_ok k \<longleftrightarrow> fs_wf (sb k) \<and> refs_ok k \<and> (\<forall>p f. fheap k p = Some f \<longrightarrow> file_inv (sb k) f)"

lemma kernel_okD:
  assumes "kernel_ok k"
  shows "fs_wf (sb k)" "refs_ok k" "fheap k p = Some f \<Longrightarrow> file_inv (sb k) f"
  using assms by (simp_all add: kernel_ok_def)

lemma kernel_ok_regular:
  assumes "kernel_ok k" "fheap k p = Some f" "uses_regular f"
  obtains i where "open_regular k p i f" "is_valid_inode (sb k) i"
  using kernel_okD [OF assms(1)] assms(2,3) by (auto simp: file_inv_def open_regular_def)

text \<open>Files only grow and stay valid: no call removes one.\<close>

definition grows :: "super_block \<Rightarrow> super_block \<Rightarrow> bool" where
  "grows s s' \<longleftrightarrow> (\<forall>i<NUM_FILES. is_valid_inode s i \<longrightarrow>
     is_valid_inode s' i \<and> uint (file_size (inodes s ! i)) \<le> uint (file_size (inodes s' ! i)))"

lemma grows_refl [simp]: "grows s s"
  by (simp add: grows_def)

lemma file_inv_grows: "file_inv s f \<Longrightarrow> grows s s' \<Longrightarrow> file_inv s' f"
  by (fastforce simp: file_inv_def grows_def)

lemma file_inv_refcount [simp]: "file_inv s (f\<lparr>ref_count := n\<rparr>) = file_inv s f"
  by (simp add: file_inv_def uses_regular_def)

lemma refs_ok_put:
  assumes "refs_ok k" "fheap k p = Some f" "ref_count f' = ref_count f"
  shows "refs_ok (put_file k p f')"
  using assms by (auto simp: refs_ok_def counts_ok_def)

lemma refs_ok_frame:
  assumes "refs_ok k" "ctxs k' = ctxs k" "fheap k' = fheap k"
  shows "refs_ok k'"
  using assms by (simp add: refs_ok_def refs_cong [of k' k])

section \<open>Each call keeps it\<close>

lemma open_inode_ok:
  assumes wf: "fs_wf s" and eq: "open_inode s n flags mode = Inr (r, s')"
  shows "fs_wf s'" "grows s s'" "r = Inr i \<Longrightarrow> i < NUM_FILES \<and> is_valid_inode s' i"
proof -
  show "fs_wf s'" using assms unfolding open_inode_def by (rule flat.goc_invar)
  show "i < NUM_FILES \<and> is_valid_inode s' i" if "r = Inr i"
  proof -
    have "lookup_inode s' n = Some i"
      using assms that unfolding open_inode_def by (auto intro: flat.goc_found)
    then show ?thesis using lookup_SomeD by (simp add: lookup_inode_def)
  qed
  have "s' = s \<or> (\<exists>r'. flat_create_inode s n (ucast mode) = Inr (r', s') \<and> flat_lookup_inode s n = None)"
    using eq by (auto simp: open_inode_def get_or_create_def bind_res_Inr lookup_inode_def
        split: option.splits if_splits dest: create_inode_flat)
  then show "grows s s'"
  proof (elim disjE exE conjE)
    fix r' assume c: "flat_create_inode s n (ucast mode) = Inr (r', s')" "flat_lookup_inode s n = None"
    show ?thesis
    proof (cases rule: get_free_inode_cases [of s])
      case full
      with c create_full [of s n "ucast mode"] show ?thesis by simp
    next
      case (free i)
      from c create_new [OF c(2) free(1,2), of "ucast mode"]
      have s': "s' = s\<lparr>inodes := (inodes s)[i := created_inode (inodes s ! i) n (ucast mode)],
                         num_files := num_files s + 1\<rparr>" by (simp split: if_splits)
      show ?thesis using free(2,3) fs_wfD(1) [OF wf]
        by (auto simp: grows_def s' is_valid_inode_def nth_list_update)
    qed
  qed simp
qed

lemma open_inode_total:
  assumes "length n < NAME_BYTES"
  shows "\<exists>r s'. open_inode s n flags mode = Inr (r, s')"
proof (cases "flat_lookup_inode s n")
  case None
  have "\<exists>r s'. flat_create_inode s n (ucast mode) = Inr (r, s')"
  proof (cases rule: get_free_inode_cases [of s])
    case full
    with create_full show ?thesis by blast
  next
    case (free i)
    with create_new [OF None free(1,2)] assms show ?thesis by simp
  qed
  then have "\<exists>r s'. create_inode s n mode = Inr (r, s')" by (auto simp: create_inode_def)
  then show ?thesis
    by (auto simp: open_inode_def get_or_create_def lookup_inode_def None split: option.split)
next
  case (Some i)
  then show ?thesis by (simp add: open_inode_def get_or_create_def lookup_inode_def)
qed

text \<open>Opening.\<close>

lemma open_ok:
  assumes ok: "kernel_ok k" and live: "live_ctx k c ctx" and p: "fheap k p = None"
    and name: "length fname < NAME_BYTES"
  shows "\<exists>r k'. do_regular_file_open p page k c fname flags mode = Inr (r, k') \<and> kernel_ok k'"
proof -
  have ctx: "ctxs k c = Some ctx" using live by (simp add: live_ctx_def)
  obtain a s' where o: "open_inode (sb k) fname flags mode = Inr (a, s')"
    using open_inode_total [OF name] by blast
  have "\<exists>r k'. do_regular_file_open p page k c fname flags mode = Inr (r, k')"
  proof (cases "flags AND ucast (O_READ OR O_RDWR) = 0")
    case True
    then show ?thesis by (simp add: do_regular_file_open_def)
  next
    case False
    then show ?thesis
      by (subst do_regular_file_open_eq [OF ctx]) (simp_all add: o Let_def split: sum.split option.split)
  qed
  then obtain r k' where eq: "do_regular_file_open p page k c fname flags mode = Inr (r, k')" by blast
  note refs = open_refs_ok [OF kernel_okD(2) [OF ok] live p eq]
  note oi = open_inode_ok [OF kernel_okD(1) [OF ok]]
  have fresh: "file_inv s'' (opened_file page i flags)"
    if "open_inode (sb k) fname flags mode = Inr (Inr i, s'')" for i s''
    using oi(3) [OF that, of i] by (auto simp: file_inv_def opened_file_def)
  from ctx eq have "kernel_ok k'"
  proof (cases rule: open_cases)
    case no_access
    with ok show ?thesis by simp
  next
    case (no_inode s'')
    with oi(1,2) [OF no_inode(1)] refs kernel_okD(3) [OF ok] show ?thesis
      by (auto simp: kernel_ok_def intro: file_inv_grows)
  next
    case (no_fd s'' i)
    with oi(1,2) [OF no_fd(1)] refs kernel_okD(3) [OF ok] fresh [OF no_fd(1)] show ?thesis
      by (auto simp: kernel_ok_def intro: file_inv_grows)
  next
    case (opened s'' i fd)
    with oi(1,2) [OF opened(1)] refs kernel_okD(3) [OF ok] fresh [OF opened(1)]
    show ?thesis by (auto simp: kernel_ok_def intro: file_inv_grows)
  qed
  with eq show ?thesis by blast
qed

lemma refs_same_files:
  assumes "refs_ok k" "\<forall>p. map_option ref_count (fheap k' p) = map_option ref_count (fheap k p)"
    "ctxs k' = ctxs k"
  shows "refs_ok k'"
proof -
  have "fheap k' p = Some f' \<Longrightarrow> \<exists>f. fheap k p = Some f \<and> ref_count f' = ref_count f" for p f'
    using assms(2) [rule_format, of p] by (cases "fheap k p") auto
  moreover have "fheap k p = Some f \<Longrightarrow> fheap k' p \<noteq> None" for p f
    using assms(2) [rule_format, of p] by (cases "fheap k' p") auto
  ultimately have "counts_ok (fheap k') (refs k)"
    using assms(1) unfolding refs_ok_def counts_ok_def by (metis option.exhaust)
  then show ?thesis using assms(1,3) by (simp add: refs_ok_def refs_cong [of k' k])
qed

text \<open>The standard streams.\<close>


lemma std_ok:
  assumes ok: "kernel_ok k" and live: "live_ctx k c ctx" and p: "fheap k p = None" and ty: "type < 3"
    and free: "files ctx ! type = None \<or> free_fd ctx \<noteq> None"
  shows "\<exists>r k'. open_standard_IO p page k c type = Inr (r, k') \<and> kernel_ok k'"
proof -
  have ctx: "ctxs k c = Some ctx" using live by (simp add: live_ctx_def)
  have t: "type < MAX_OPEN_FILES" using ty by (simp add: k_const)
  note refs = std_refs_ok [OF kernel_okD(2) [OF ok] live p ty]
  show ?thesis
  proof (cases "files ctx ! type")
    case None
    let ?k0 = "create_standard_IO p page k type"
    have cs: "ctxs ?k0 = ctxs k" "sb ?k0 = sb k"
      by (simp_all add: create_standard_IO_def Let_def alloc_file_def)
    then have eq: "open_standard_IO p page k c type =
        Inr (int type, ?k0\<lparr>ctxs := (ctxs k)(c \<mapsto> ctx\<lparr>files := (files ctx)[type := Some p]\<rparr>)\<rparr>)"
      using ctx t None by (simp add: open_standard_IO_def)
    have "fheap ?k0 q = Some f \<Longrightarrow> file_inv (sb k) f" for q f
      using kernel_okD(3) [OF ok, of q f]
      by (auto simp: create_standard_IO_def Let_def alloc_file_def file_inv_def uses_regular_def
          no_fops_def split: if_splits)
    with refs [OF eq] kernel_okD(1) [OF ok] cs show ?thesis by (simp add: eq kernel_ok_def)
  next
    case (Some q)
    obtain f where f: "fheap k q = Some f"
      using fd_allocated [OF kernel_okD(2) [OF ok] live t Some] by metis
    obtain fd where fd: "free_fd ctx = Some fd" using free Some by auto
    have eq: "open_standard_IO p page k c type =
        Inr (int fd, (put_file k q (f\<lparr>ref_count := ref_count f + 1\<rparr>))
          \<lparr>ctxs := (ctxs k)(c \<mapsto> ctx\<lparr>files := (files ctx)[fd := Some q]\<rparr>)\<rparr>)"
      using ctx t Some f fd free_fdD [OF fd] by (simp add: open_standard_IO_def)
    with refs [OF eq] kernel_okD [OF ok] f show ?thesis by (auto simp: kernel_ok_def)
  qed
qed

text \<open>Reading, writing and seeking: the offset stays inside the file.\<close>

lemma read_regular_ok:
  assumes ok: "kernel_ok k" and f: "fheap k p = Some f" and uses: "uses_regular f"
    and mode: "fmode f AND O_READ \<noteq> 0" and count: "uint count < 2 ^ 31"
  shows "\<exists>n k'. do_read_regular k (Some p) buff count = Inr (n, k') \<and> kernel_ok k' \<and>
    ctxs k' = ctxs k \<and> sb k' = sb k \<and> 0 \<le> n \<and> n \<le> uint count \<and> n \<le> int FILE_SIZE \<and>
    fheap k' = (fheap k)(p \<mapsto> f\<lparr>offp := offp f + word_of_int n\<rparr>)"
proof -
  obtain i where i: "open_regular k p i f" "is_valid_inode (sb k) i"
    by (rule kernel_ok_regular [OF ok f uses])
  let ?ino = "inodes (sb k) ! i"
  let ?n = "read_count ?ino (uint count) (uint (offp f))"
  note o = open_regularD [OF i(1)]
  note b = read_count_bounds [OF o(6), of "uint (offp f)" "uint count"]
  note eq = do_read_regular_eq [OF i(1) mode count, of buff]
  let ?f = "f\<lparr>offp := offp f + word_of_int ?n\<rparr>"
  have off: "uint (offp f + word_of_int ?n) \<le> uint (file_size ?ino)"
    using b(1-3) o(5) region_okD(2) [OF o(6)] uint_u32_add_int [of "offp f" ?n] by (simp add: fs_const)
  have "file_inv (sb k) ?f"
    using off i(2) o(3,4) by (auto simp: file_inv_def)
  moreover have "refs_ok (put_file (k\<lparr>mem := m\<rparr>) p ?f)" for m
    by (rule refs_same_files [OF kernel_okD(2) [OF ok]]) (use f in simp_all)
  ultimately have "kernel_ok (put_file (k\<lparr>mem := m\<rparr>) p ?f)" for m
    using kernel_okD [OF ok] by (simp add: kernel_ok_def)
  with eq b show ?thesis by simp
qed

lemma write_regular_ok:
  assumes ok: "kernel_ok k" and f: "fheap k p = Some f" and uses: "uses_regular f"
    and mode: "fmode f AND O_WRITE \<noteq> 0" and fit: "uint (offp f) + uint count \<le> int FILE_SIZE"
  shows "\<exists>k'. do_write_regular k (Some p) buff count = Inr (uint count, k') \<and> kernel_ok k'"
proof -
  obtain i where i: "open_regular k p i f" "is_valid_inode (sb k) i"
    by (rule kernel_ok_regular [OF ok f uses])
  let ?ino = "inodes (sb k) ! i"
  note o = open_regularD [OF i(1)]
  have sc: "sint count = uint count"
    using fit by (intro sint_u32_small) (simp add: fs_const, use uint_ge_0 [of "offp f"] in linarith)
  obtain ino' m' where w: "flat_write ?ino (mem k) buff (uint count) (uint (offp f)) = Inr (uint count, ino', m')"
    using flat_write_total [OF o(6) _ fit] by fastforce
  note wr = flat_write_region_ok [OF o(6) _ _ fit w, simplified]
  note wd = flat_write_data_end [OF o(6) _ _ fit w, simplified]
  let ?f = "f\<lparr>offp := offp f + word_of_int (uint count)\<rparr>"
  let ?s = "(sb k)\<lparr>inodes := (inodes (sb k))[i := ino']\<rparr>"
  let ?k = "put_file (k\<lparr>mem := m', sb := ?s\<rparr>) p ?f"
  have eq: "do_write_regular k (Some p) buff count = Inr (uint count, ?k)"
    using f o(3,8) mode w sc by (simp add: do_write_regular_def)
  have len: "length (inodes (sb k)) = NUM_FILES" by (rule fs_wfD(1) [OF o(1)])
  have "fs_wf ((sb k)\<lparr>inodes := (inodes (sb k))[i := ino'], num_files := num_files (sb k)\<rparr>)"
    using wr fs_wfD(4) [OF o(1)] i(2) o(4) by (intro fs_wf_upd [OF o(1,4)]) (auto simp: is_valid_inode_def)
  then have wf: "fs_wf ?s" by simp
  have size: "uint (file_size ino') = max (uint (file_size ?ino)) (uint (offp f) + uint count)"
    using region_okD(1) [OF wr(1)] region_okD(1) [OF o(6)] wd(3) wr(2) by simp
  have grow: "grows (sb k) ?s"
    using wr(4) size len o(4) by (auto simp: grows_def is_valid_inode_def nth_list_update)
  have "uint (offp f + word_of_int (uint count)) = uint (offp f) + uint count"
    using fit by (intro uint_u32_add_int) (simp_all add: fs_const)
  then have "file_inv ?s ?f"
    using i(2) o(3,4) size wr(4) len by (auto simp: file_inv_def is_valid_inode_def)
  moreover have "refs_ok ?k"
    by (rule refs_same_files [OF kernel_okD(2) [OF ok]]) (use f in simp_all)
  ultimately have "kernel_ok ?k"
    using kernel_okD(3) [OF ok] wf grow by (auto simp: kernel_ok_def intro: file_inv_grows)
  with eq show ?thesis by blast
qed

lemma lseek_regular_ok:
  assumes ok: "kernel_ok k" and f: "fheap k p = Some f" and uses: "uses_regular f"
  shows "\<exists>r k'. do_lseek_regular k (Some p) offset wh = Inr (r, k') \<and> kernel_ok k'"
proof -
  obtain i where i: "open_regular k p i f" "is_valid_inode (sb k) i"
    by (rule kernel_ok_regular [OF ok f uses])
  note o = open_regularD [OF i(1)]
  let ?sz = "uint (file_size (inodes (sb k) ! i))"
  have moved: "kernel_ok (put_file k p (f\<lparr>offp := word_of_int t\<rparr>))" if "0 \<le> t" "t \<le> ?sz" for t
  proof -
    have "uint (word_of_int t :: u32) = t"
      using that region_okD(2) [OF o(6)] by (intro uint_u32_of_int) (simp_all add: fs_const)
    with that i(2) o(3,4) have "file_inv (sb k) (f\<lparr>offp := word_of_int t\<rparr>)" by (auto simp: file_inv_def)
    with kernel_okD [OF ok] refs_ok_put [OF kernel_okD(2) [OF ok] f, of "f\<lparr>offp := word_of_int t\<rparr>"]
    show ?thesis by (auto simp: kernel_ok_def)
  qed
  then show ?thesis
    using ok unfolding do_lseek_regular_eq [OF i(1)] by (auto split: option.split)
qed

text \<open>Closing, dup2 and exit change nothing of the remaining objects but their counts.\<close>

definition only_counts :: "kernel \<Rightarrow> kernel \<Rightarrow> bool" where
  "only_counts k k' \<longleftrightarrow> sb k' = sb k \<and>
     (\<forall>q g. fheap k' q = Some g \<longrightarrow>
        (\<exists>f. fheap k q = Some f \<and> g\<lparr>ref_count := 0\<rparr> = f\<lparr>ref_count := 0\<rparr>))"

lemma only_counts_refl [simp]: "only_counts k k"
  by (simp add: only_counts_def)

lemma only_counts_trans: "only_counts k k' \<Longrightarrow> only_counts k' k'' \<Longrightarrow> only_counts k k''"
  unfolding only_counts_def by metis

lemma only_counts_put: "fheap k p = Some f \<Longrightarrow> only_counts k (put_file k p (f\<lparr>ref_count := n\<rparr>))"
  by (auto simp: only_counts_def)

lemma only_counts_free: "only_counts k (free_file_object k p)"
  by (auto simp: only_counts_def free_file_object_def)

lemma only_counts_drop: "drop_ref k p = Inr k' \<Longrightarrow> only_counts k k'"
  by (auto simp: drop_ref_def bind_res_Inr kernel_acc Let_def split: if_splits
      intro: only_counts_put only_counts_trans [OF only_counts_put only_counts_free])

lemma only_counts_ctx: "only_counts k (k\<lparr>ctxs := cs\<rparr>)"
  by (simp add: only_counts_def)

lemma only_counts_loop: "file_exit_loop k fps = Inr k' \<Longrightarrow> only_counts k k'"
proof (induction fps arbitrary: k)
  case (Cons fp fps)
  then show ?case
    by (cases fp) (auto simp: bind_res_Inr intro: only_counts_trans [OF only_counts_drop])
qed simp

lemma only_counts_dup2:
  assumes "fd_dup2 k c oldfd newfd = Inr (r, k')"
  shows "only_counts k k'"
proof -
  obtain old where old: "get_fd k c oldfd = Inr old"
    using assms unfolding fd_dup2_def by (rule bind_resE)
  show ?thesis
  proof (cases old)
    case None
    with assms old show ?thesis by (simp add: fd_dup2_def)
  next
    case (Some p)
    obtain new k1 k2 f where
      new: "(case new of None \<Rightarrow> Inr k
         | Some q \<Rightarrow> bind_res (do_file_close k (Some q)) (\<lambda>(_, k'). Inr k')) = Inr k1"
      and k2: "set_fd k1 c newfd (Some p) = Inr k2" "file_at k2 p = Inr f"
      and k': "Inr (newfd, put_file k2 p (f\<lparr>ref_count := ref_count f + 1\<rparr>)) = (Inr (r, k') :: (int \<times> kernel) res)"
      using assms unfolding fd_dup2_def old Some bind_res_simps option.case by (elim bind_resE) blast
    from new have "only_counts k k1"
      by (cases new) (auto simp: do_file_close_def bind_res_Inr intro: only_counts_drop)
    moreover have "only_counts k1 k2" using k2(1) by (auto simp: set_fd_Inr only_counts_ctx)
    moreover have "only_counts k2 k'" using k2(2) k' by (auto simp: kernel_acc intro: only_counts_put)
    ultimately show ?thesis by (blast intro: only_counts_trans)
  qed
qed

lemma kernel_ok_counts:
  assumes "kernel_ok k" "only_counts k k'" "refs_ok k'"
  shows "kernel_ok k'"
proof -
  have "file_inv (sb k) g" if h: "fheap k' q = Some g" for q g
  proof -
    obtain f where f: "fheap k q = Some f" "g\<lparr>ref_count := 0\<rparr> = f\<lparr>ref_count := 0\<rparr>"
      using assms(2) h unfolding only_counts_def by blast
    have "file_inv (sb k) f" by (rule kernel_okD(3) [OF assms(1) f(1)])
    then have "file_inv (sb k) (g\<lparr>ref_count := 0\<rparr>)" unfolding f(2) by simp
    then show ?thesis by simp
  qed
  with assms kernel_okD(1) [OF assms(1)] show ?thesis by (simp add: kernel_ok_def only_counts_def)
qed

text \<open>Closing: the descriptor is cleared, then the object loses one reference.\<close>

lemma close_ok:
  assumes ok: "kernel_ok k" and live: "live_ctx k c ctx" and fd: "0 \<le> fd" "fd < int MAX_OPEN_FILES"
  shows "\<exists>r k'. do_close k c fd = Inr (r, k') \<and> kernel_ok k'"
proof (cases "files ctx ! nat fd")
  case None
  with ok live fd show ?thesis by (simp add: do_close_def live_ctx_def)
next
  case (Some p)
  have ctx: "ctxs k c = Some ctx" using live by (simp add: live_ctx_def)
  have n: "nat fd < MAX_OPEN_FILES" using fd by linarith
  obtain f where f: "fheap k p = Some f" "0 < refs k p"
    using fd_allocated [OF kernel_okD(2) [OF ok] live n Some] by metis
  show ?thesis
  proof (cases "fclose (fops f)")
    case None
    with ok ctx fd Some f show ?thesis by (simp add: do_close_def)
  next
    case (Some op)
    let ?k1 = "k\<lparr>ctxs := (ctxs k)(c \<mapsto> ctx\<lparr>files := (files ctx)[nat fd := None]\<rparr>)\<rparr>"
    have ct: "counts_ok (fheap ?k1) (refs k)" using kernel_okD(2) [OF ok] by (simp add: refs_ok_def)
    obtain k2 where k2: "drop_ref ?k1 p = Inr k2" "counts_ok (fheap k2) ((refs k)(p := refs k p - 1))"
      "ctxs k2 = ctxs ?k1"
      using counts_drop [OF ct f(2)] by blast
    have eq: "do_close k c fd = Inr (None, k2)"
      using ctx fd \<open>files ctx ! nat fd = Some p\<close> f Some k2(1)
      by (cases op) (simp_all add: do_close_def std_close_def do_file_close_def)
    have "refs ?k1 = (refs k)(p := refs k p - 1)"
    proof
      fix q
      have "int (refs ?k1 q) = int (refs k q) - of_bool (Some p = Some q)"
        using refs_set_fd [OF kernel_okD(2) [OF ok] live n, of None q] \<open>files ctx ! nat fd = Some p\<close> by simp
      then show "refs ?k1 q = ((refs k)(p := refs k p - 1)) q"
        using f(2) by (cases "p = q") auto
    qed
    moreover have "tables_ok (ctxs ?k1)"
      using kernel_okD(2) [OF ok] ctx by (auto simp: refs_ok_def tables_ok_def)
    ultimately have "refs_ok k2" using k2(2,3) refs_cong [OF k2(3)] by (simp add: refs_ok_def)
    moreover have "only_counts k k2"
      using only_counts_trans [OF only_counts_ctx only_counts_drop [OF k2(1)]] .
    ultimately show ?thesis using eq kernel_ok_counts [OF ok] by blast
  qed
qed

text \<open>dup2 on two different descriptors.\<close>

lemma dup2_ok:
  assumes ok: "kernel_ok k" and live: "live_ctx k c ctx"
    and old: "0 \<le> oldfd" "oldfd < int MAX_OPEN_FILES" and new: "0 \<le> newfd" "newfd < int MAX_OPEN_FILES"
    and ne: "oldfd \<noteq> newfd"
  shows "\<exists>r k'. fd_dup2 k c oldfd newfd = Inr (r, k') \<and> kernel_ok k'"
proof (cases "files ctx ! nat oldfd")
  case None
  with ok live old show ?thesis by (simp add: fd_dup2_def live_ctx_def)
next
  case (Some p)
  obtain k' where k': "fd_dup2 k c oldfd newfd = Inr (newfd, k')" "refs_ok k'"
    using dup2_refs_ok [OF kernel_okD(2) [OF ok] live old new ne Some] by metis
  with kernel_ok_counts [OF ok only_counts_dup2] show ?thesis by blast
qed

end
