(* ===== verification/KernelSteps.thy ===== *)
theory KernelSteps
  imports Syscalls
begin

text \<open>
  The kernel as a transition system. A step is one file call of one live process, as
  \<^verbatim>\<open>Assignment2/entry.c\<close> executes it; the processes interleave call by call. \<open>may_call\<close> states
  what the caller has to respect because the code does not check it: descriptors inside the
  table, counts that are not negative, no dup2 of a descriptor onto itself, writes that fit into
  the file. Under these conditions the invariant of \<open>Syscalls\<close> holds in every reachable state and
  no call faults.
\<close>

datatype file_call =
    COpen string u64 u64
  | CRead u64 u64 u64
  | CWrite u64 u64 u64
  | CSeek int int whence
  | CDup2 int int
  | CClose int
  | CSendfile u64 u64 u64
  | CExit

text \<open>
  \<open>p\<close> is the page the allocator hands out for a file object, \<open>page\<close> what it held, \<open>buf\<close> the
  page sendfile gets for its buffer.
\<close>

fun run_call ::
    "device \<Rightarrow> nat \<Rightarrow> file_obj \<Rightarrow> u64 \<Rightarrow> kernel \<Rightarrow> nat \<Rightarrow> file_call \<Rightarrow> (int option \<times> kernel) res" where
  "run_call d p page buf k c (COpen fname flag mode) =
     returns (do_file_open p page k c fname flag mode)"
| "run_call d p page buf k c (CRead fd buff count) = returns (do_file_read d k c fd buff count)"
| "run_call d p page buf k c (CWrite fd buff count) = returns (do_file_write d k c fd buff count)"
| "run_call d p page buf k c (CSeek fd offset wh) = returns (do_lseek k c fd offset wh)"
| "run_call d p page buf k c (CDup2 oldfd newfd) = returns (do_dup2 k c oldfd newfd)"
| "run_call d p page buf k c (CClose fd) = do_close k c fd"
| "run_call d p page buf k c (CSendfile outfd infd count) =
     bind_res (call_sendfile buf k c outfd infd None count) (\<lambda>(r, _, k'). Inr (Some r, k'))"
| "run_call d p page buf k c CExit = bind_res (do_exit k c) (\<lambda>(_, k'). Inr (Some 0, k'))"

section \<open>What a caller has to respect\<close>

definition fd_file :: "kernel \<Rightarrow> exec_context \<Rightarrow> int \<Rightarrow> file_obj option" where
  "fd_file k ctx fd = Option.bind (files ctx ! nat fd) (fheap k)"

definition fd_in :: "int \<Rightarrow> bool" where
  "fd_in fd \<longleftrightarrow> 0 \<le> fd \<and> fd < int MAX_OPEN_FILES"

text \<open>A write of \<open>n\<close> bytes through \<open>fd\<close> ends inside the 4 KB of the file.\<close>

definition fits :: "kernel \<Rightarrow> exec_context \<Rightarrow> int \<Rightarrow> int \<Rightarrow> bool" where
  "fits k ctx fd n \<longleftrightarrow> (\<forall>f. fd_file k ctx fd = Some f \<longrightarrow> uses_regular f \<longrightarrow>
     uint (offp f) + n \<le> int FILE_SIZE)"

definition regular_fd :: "kernel \<Rightarrow> exec_context \<Rightarrow> int \<Rightarrow> bool" where
  "regular_fd k ctx fd \<longleftrightarrow> (\<forall>f. fd_file k ctx fd = Some f \<longrightarrow> uses_regular f)"

fun may_call :: "kernel \<Rightarrow> exec_context \<Rightarrow> file_call \<Rightarrow> bool" where
  "may_call k ctx (COpen fname flag mode) \<longleftrightarrow>
     length fname < NAME_BYTES \<and>
     (fname \<in> {''stdin'', ''stdout'', ''stderr''} \<longrightarrow> free_fd ctx \<noteq> None)"
| "may_call k ctx (CRead fd buff count) \<longleftrightarrow> fd_in (uint fd) \<and> uint (ucast count :: u32) < 2 ^ 31"
| "may_call k ctx (CWrite fd buff count) \<longleftrightarrow>
     fd_in (uint fd) \<and> fits k ctx (uint fd) (uint (ucast count :: u32))"
| "may_call k ctx (CSeek fd offset wh) \<longleftrightarrow> fd_in fd"
| "may_call k ctx (CDup2 oldfd newfd) \<longleftrightarrow> fd_in oldfd \<and> fd_in newfd \<and> oldfd \<noteq> newfd"
| "may_call k ctx (CClose fd) \<longleftrightarrow> fd_in fd"
| "may_call k ctx (CSendfile outfd infd count) \<longleftrightarrow>
     fd_in (int_arg outfd) \<and> fd_in (int_arg infd) \<and> 0 \<le> int_arg count \<and>
     regular_fd k ctx (int_arg infd) \<and> regular_fd k ctx (int_arg outfd) \<and>
     files ctx ! nat (int_arg infd) \<noteq> files ctx ! nat (int_arg outfd) \<and>
     fits k ctx (int_arg outfd) (int_arg count)"
| "may_call k ctx CExit \<longleftrightarrow> (\<forall>fd<MAX_OPEN_FILES. \<forall>f. fd_file k ctx (int fd) = Some f \<longrightarrow> msg_queue f = None)"

inductive step :: "kernel \<Rightarrow> kernel \<Rightarrow> bool" where
  call: "live_ctx k c ctx \<Longrightarrow> may_call k ctx cl \<Longrightarrow> fheap k p = None \<Longrightarrow>
     run_call d p page buf k c cl = Inr (r, k') \<Longrightarrow> step k k'"

inductive_cases stepE: "step k k'"

section \<open>No call faults, and each keeps the invariant\<close>

lemma live_fd:
  assumes ok: "kernel_ok k" and live: "live_ctx k c ctx" and fd: "fd_in fd"
  shows "get_fd k c fd = Inr (files ctx ! nat fd)"
    and "files ctx ! nat fd = Some p \<Longrightarrow> \<exists>f. fheap k p = Some f \<and> fd_file k ctx fd = Some f"
proof -
  show "get_fd k c fd = Inr (files ctx ! nat fd)"
    using live fd by (simp add: live_ctx_def fd_in_def)
  assume p: "files ctx ! nat fd = Some p"
  have "nat fd < MAX_OPEN_FILES" using fd by (auto simp: fd_in_def nat_less_iff)
  from fd_allocated [OF kernel_okD(2) [OF ok] live this p]
  show "\<exists>f. fheap k p = Some f \<and> fd_file k ctx fd = Some f" by (metis p fd_file_def Option.bind.simps(2))
qed

lemma file_open_ok:
  assumes ok: "kernel_ok k" and live: "live_ctx k c ctx" and p: "fheap k p = None"
    and may: "may_call k ctx (COpen fname flag mode)"
  shows "\<exists>r k'. do_file_open p page k c fname flag mode = Inr (r, k') \<and> kernel_ok k'"
  using open_ok [OF ok live p] std_ok [OF ok live p] may by (auto simp: do_file_open_def)

lemma file_read_ok:
  assumes ok: "kernel_ok k" and live: "live_ctx k c ctx" and may: "may_call k ctx (CRead fd buff count)"
  shows "\<exists>r k'. do_file_read d k c fd buff count = Inr (r, k') \<and> kernel_ok k'"
proof (cases "files ctx ! nat (uint fd)")
  case None
  with ok live_fd(1) [OF ok live, of "uint fd"] may show ?thesis by (simp add: do_file_read_def)
next
  case (Some p)
  have fd: "fd_in (uint fd)" using may by simp
  from live_fd [OF ok live fd] Some obtain f where f: "get_fd k c (uint fd) = Inr (Some p)" "fheap k p = Some f"
    by auto
  show ?thesis
  proof (cases "fmode f AND O_READ = O_READ")
    case False
    with f ok show ?thesis by (simp add: do_file_read_def)
  next
    case True
    then have mode: "fmode f AND O_READ \<noteq> 0" by (simp add: O_READ_def)
    show ?thesis
    proof (cases "fread (fops f)")
      case None
      with f ok True show ?thesis by (simp add: do_file_read_def)
    next
      case (Some op)
      show ?thesis
      proof (cases op)
        case Do_read_kbd
        have "kernel_ok (k\<lparr>mem := m\<rparr>)" for m using kernel_okD [OF ok] refs_ok_frame [of k "k\<lparr>mem := m\<rparr>"]
          by (auto simp: kernel_ok_def)
        with f Some True Do_read_kbd show ?thesis by (simp add: do_file_read_def do_read_kbd_def)
      next
        case Do_read_regular
        then have "uses_regular f" using Some by (simp add: uses_regular_def)
        from read_regular_ok [OF ok f(2) this mode, of "ucast count" buff] may f Some True Do_read_regular
        show ?thesis by (auto simp: do_file_read_def)
      qed
    qed
  qed
qed

lemma file_write_ok:
  assumes ok: "kernel_ok k" and live: "live_ctx k c ctx" and may: "may_call k ctx (CWrite fd buff count)"
  shows "\<exists>r k'. do_file_write d k c fd buff count = Inr (r, k') \<and> kernel_ok k'"
proof (cases "files ctx ! nat (uint fd)")
  case None
  with ok live_fd(1) [OF ok live, of "uint fd"] may show ?thesis by (simp add: do_file_write_def)
next
  case (Some p)
  have fd: "fd_in (uint fd)" using may by simp
  from live_fd [OF ok live fd] Some obtain f where f: "get_fd k c (uint fd) = Inr (Some p)" "fheap k p = Some f"
    "fd_file k ctx (uint fd) = Some f" by auto
  show ?thesis
  proof (cases "fmode f AND O_WRITE = 0 \<or> fwrite (fops f) = None")
    case True
    with f ok show ?thesis by (auto simp: do_file_write_def)
  next
    case False
    then obtain op where op: "fwrite (fops f) = Some op" "fmode f AND O_WRITE \<noteq> 0" by auto
    show ?thesis
    proof (cases op)
      case Do_write_console
      with f op ok show ?thesis by (simp add: do_file_write_def do_write_console_def)
    next
      case Do_write_regular
      then have u: "uses_regular f" using op by (simp add: uses_regular_def)
      then have "uint (offp f) + uint (ucast count :: u32) \<le> int FILE_SIZE"
        using may f(3) by (simp add: fits_def)
      from write_regular_ok [OF ok f(2) u op(2) this, of buff] f op Do_write_regular show ?thesis
        by (auto simp: do_file_write_def)
    qed
  qed
qed

lemma lseek_ok:
  assumes ok: "kernel_ok k" and live: "live_ctx k c ctx" and fd: "fd_in fd"
  shows "\<exists>r k'. do_lseek k c fd offset wh = Inr (r, k') \<and> kernel_ok k'"
proof (cases "files ctx ! nat fd")
  case None
  with ok live_fd(1) [OF ok live fd] show ?thesis by (simp add: do_lseek_def)
next
  case (Some p)
  from live_fd [OF ok live fd] Some obtain f where f: "get_fd k c fd = Inr (Some p)" "fheap k p = Some f"
    by auto
  show ?thesis
  proof (cases "flseek (fops f)")
    case None
    with f ok show ?thesis by (simp add: do_lseek_def)
  next
    case (Some op)
    then have "uses_regular f" by (cases op) (simp add: uses_regular_def)
    from lseek_regular_ok [OF ok f(2) this] f Some show ?thesis
      by (cases op) (auto simp: do_lseek_def)
  qed
qed
lemma sendfile_ok:
  assumes ok: "kernel_ok k" and live: "live_ctx k c ctx"
    and may: "may_call k ctx (CSendfile outfd infd count)"
  shows "\<exists>r off k'. call_sendfile buf k c outfd infd None count = Inr (r, off, k') \<and> kernel_ok k'"
proof -
  define m where "m = int_arg count"
  have fds: "fd_in (int_arg outfd)" "fd_in (int_arg infd)" and m: "0 \<le> m" using may by (simp_all add: m_def)
  note inp = live_fd [OF ok live fds(2)]
  note outp = live_fd [OF ok live fds(1)]
  have call: "call_sendfile buf k c outfd infd None count = do_sendfile buf k c (int_arg outfd) (int_arg infd) None m"
    by (simp add: call_sendfile_def int_arg_def m_def)
  show ?thesis
  proof (cases "files ctx ! nat (int_arg infd) = None \<or> files ctx ! nat (int_arg outfd) = None")
    case True
    with ok inp(1) outp(1) show ?thesis
      by (cases "files ctx ! nat (int_arg infd)") (auto simp: call do_sendfile_def)
  next
    case False
    then obtain p q where p: "files ctx ! nat (int_arg infd) = Some p" and q: "files ctx ! nat (int_arg outfd) = Some q"
      by auto
    obtain f where f: "fheap k p = Some f" "fd_file k ctx (int_arg infd) = Some f" using inp(2) [OF p] by blast
    obtain g where g: "fheap k q = Some g" "fd_file k ctx (int_arg outfd) = Some g" using outp(2) [OF q] by blast
    have reg: "uses_regular f" "uses_regular g" "p \<noteq> q" "uint (offp g) + m \<le> int FILE_SIZE"
      using may f(2) g(2) p q by (simp_all add: regular_fd_def fits_def m_def)
    show ?thesis
    proof (cases "fmode f AND O_READ = 0 \<or> fmode g AND O_WRITE = 0")
      case True
      with ok inp(1) outp(1) p q f(1) g(1) show ?thesis by (auto simp: call do_sendfile_def)
    next
      case False
      then have mode: "fmode f AND O_READ \<noteq> 0" "fmode g AND O_WRITE \<noteq> 0" by simp_all
      have "m < 2 ^ 31" using reg(4) by (simp add: fs_const, use uint_u32_bounds(1) [of "offp g"] in linarith)
      then have mm: "uint (word_of_int m :: u32) = m" using m by (intro uint_u32_of_int) simp_all
      with \<open>m < 2 ^ 31\<close> obtain n k1 where rd: "do_read_regular k (Some p) buf (word_of_int m) = Inr (n, k1)"
        "kernel_ok k1" "0 \<le> n" "n \<le> m" "fheap k1 = (fheap k)(p \<mapsto> f\<lparr>offp := offp f + word_of_int n\<rparr>)"
        using read_regular_ok [OF ok f(1) reg(1) mode(1), of "word_of_int m" buf] by auto
      have "uint (word_of_int n :: u32) = n"
        using rd(3,4) \<open>m < 2 ^ 31\<close> by (intro uint_u32_of_int) simp_all
      moreover have "fheap k1 q = Some g" using rd(5) g(1) reg(3) by simp
      ultimately obtain k2 where "do_write_regular k1 (Some q) buf (word_of_int n) = Inr (n, k2)" "kernel_ok k2"
        using write_regular_ok [OF rd(2) _ reg(2) mode(2), of q "word_of_int n" buf] reg(4) rd(4) by auto
      with rd(1) inp(1) outp(1) p q f(1) g(1) mode show ?thesis
        by (simp add: call do_sendfile_def sendfile_read_def)
    qed
  qed
qed

lemma cleanup_none:
  assumes "\<forall>fd \<in> set fds. \<exists>fp. get_fd k c (int fd) = Inr fp \<and>
    (\<forall>p. fp = Some p \<longrightarrow> (\<exists>f. fheap k p = Some f \<and> msg_queue f = None))"
  shows "cleanup_loop k c fds = Inr k"
  using assms
proof (induction fds)
  case (Cons fd fds)
  then obtain fp where fp: "get_fd k c (int fd) = Inr fp"
    "\<forall>p. fp = Some p \<longrightarrow> (\<exists>f. fheap k p = Some f \<and> msg_queue f = None)" by auto
  have "with_queue k fp (Inr k) b = Inr k" for b :: "nat \<Rightarrow> msg_queue_info \<Rightarrow> kernel res"
    using fp(2) by (cases fp) (auto simp: with_queue_def)
  with Cons fp show ?case by simp
qed simp

lemma exit_result:
  assumes ok: "kernel_ok k" and live: "live_ctx k c ctx" and may: "may_call k ctx CExit"
  obtains b k' where "do_exit k c = Inr (b, k')" "kernel_ok k'" "only_counts k k'" "mem k' = mem k"
    "ctxs k' = (ctxs k)(c \<mapsto> ctx\<lparr>pstate := UNUSED\<rparr>)"
proof -
  have ctx: "ctxs k c = Some ctx" using live by (simp add: live_ctx_def)
  have "do_msg_queue_cleanup k c = Inr k"
    unfolding do_msg_queue_cleanup_def
  proof (rule cleanup_none, intro ballI)
    fix fd assume "fd \<in> set [0..<MAX_OPEN_FILES]"
    then have fd: "fd_in (int fd)" "fd < MAX_OPEN_FILES" by (simp_all add: fd_in_def)
    note l = live_fd [OF ok live fd(1)]
    have "\<exists>f. fheap k p = Some f \<and> msg_queue f = None" if "files ctx ! fd = Some p" for p
    proof -
      from l(2) [of p] that obtain f where "fheap k p = Some f" "fd_file k ctx (int fd) = Some f" by auto
      with may fd(2) show ?thesis by auto
    qed
    with l(1) show "\<exists>fp. get_fd k c (int fd) = Inr fp \<and>
        (\<forall>p. fp = Some p \<longrightarrow> (\<exists>f. fheap k p = Some f \<and> msg_queue f = None))" by simp
  qed
  moreover obtain k1 where k1: "do_file_exit k c = Inr k1" "ctxs k1 = ctxs k" "mem k1 = mem k"
    "refs_ok (k1\<lparr>ctxs := (ctxs k)(c \<mapsto> ctx\<lparr>pstate := UNUSED\<rparr>)\<rparr>)"
    using file_exit_refs_ok [OF kernel_okD(2) [OF ok] live] by blast
  let ?k2 = "k1\<lparr>ctxs := (ctxs k)(c \<mapsto> ctx\<lparr>pstate := UNUSED\<rparr>)\<rparr>"
  have "only_counts k k1"
    using k1(1) ctx by (auto simp: do_file_exit_def intro: only_counts_loop)
  then have counts: "only_counts k ?k2" by (rule only_counts_trans [OF _ only_counts_ctx])
  then have k2: "kernel_ok ?k2" by (rule kernel_ok_counts [OF ok _ k1(4)])
  have "kernel_ok (?k2\<lparr>stats := n\<rparr>)" "only_counts k (?k2\<lparr>stats := n\<rparr>)" for n
    using kernel_okD [OF k2] refs_ok_frame [of ?k2 "?k2\<lparr>stats := n\<rparr>"] counts
    by (auto simp: kernel_ok_def only_counts_def)
  ultimately show thesis
    using k1 ctx by (intro that [of _ "?k2\<lparr>stats := (stats ?k2)\<lparr>num_processes := num_processes (stats ?k2) - 1\<rparr>\<rparr>"])
      (simp_all add: do_exit_def Let_def)
qed

lemma exit_ok:
  assumes "kernel_ok k" "live_ctx k c ctx" "may_call k ctx CExit"
  shows "\<exists>r k'. do_exit k c = Inr (r, k') \<and> kernel_ok k'"
  using exit_result [OF assms] by metis

lemma returns_Inr: "(\<exists>r k'. x = Inr (r, k') \<and> P k') \<Longrightarrow> \<exists>r k'. returns x = Inr (r, k') \<and> P k'"
  by (auto simp: returns_def)

lemma call_ok:
  assumes ok: "kernel_ok k" and live: "live_ctx k c ctx" and may: "may_call k ctx cl" and p: "fheap k p = None"
  shows "\<exists>r k'. run_call d p page buf k c cl = Inr (r, k') \<and> kernel_ok k'"
proof (cases cl)
  case (COpen fname flag mode)
  with file_open_ok [OF ok live p, of fname flag mode] may show ?thesis by (simp add: returns_Inr)
next
  case (CRead fd buff count)
  with file_read_ok [OF ok live, of fd buff count] may show ?thesis by (simp add: returns_Inr)
next
  case (CWrite fd buff count)
  with file_write_ok [OF ok live, of fd buff count] may show ?thesis by (simp add: returns_Inr)
next
  case (CSeek fd offset wh)
  with lseek_ok [OF ok live, of fd offset wh] may show ?thesis by (simp add: returns_Inr)
next
  case (CDup2 oldfd newfd)
  with dup2_ok [OF ok live, of oldfd newfd] may show ?thesis
    by (simp add: returns_Inr fd_in_def do_dup2_def)
next
  case (CClose fd)
  with close_ok [OF ok live, of fd] may show ?thesis by (simp add: fd_in_def)
next
  case (CSendfile outfd infd count)
  with sendfile_ok [OF ok live, of outfd infd count buf] may show ?thesis by auto
next
  case CExit
  with exit_ok [OF ok live] may show ?thesis by auto
qed

lemma step_ok: "step k k' \<Longrightarrow> kernel_ok k \<Longrightarrow> kernel_ok k'"
proof (elim stepE)
  fix c ctx cl p d page buf r
  assume "kernel_ok k" "live_ctx k c ctx" "may_call k ctx cl" "fheap k p = None"
    "run_call d p page buf k c cl = Inr (r, k')"
  with call_ok [of k c ctx cl p d page buf] show "kernel_ok k'" by auto
qed

lemma reachable_ok:
  assumes "step\<^sup>*\<^sup>* k k'" "kernel_ok k"
  shows "kernel_ok k'"
  using assms by (induction rule: rtranclp_induct) (auto intro: step_ok)

end
