(* ===== verification/Samples.thy ===== *)
theory Samples
  imports KernelSteps
begin

text \<open>
  Concrete states the witnesses of the properties are evaluated on: a file system with one
  five-byte file and a kernel with a process that has it open.
\<close>

section \<open>A file system\<close>

definition sample_pfn :: "nat \<Rightarrow> u32" where
  "sample_pfn k = of_nat (25600 + k)"

lemma uint_sample_pfn: "k < 1000 \<Longrightarrow> uint (sample_pfn k) = 25600 + int k"
  using uint_u32_of_int [of "25600 + int k"] by (simp add: sample_pfn_def)

lemma sample_frames: "distinct_frames sample_pfn"
  unfolding distinct_frames_def
proof
  show "\<forall>k\<le>NUM_FILES. uint (sample_pfn k) < 2 ^ 19"
    by (auto simp: uint_sample_pfn fs_const)
  show "inj_on sample_pfn {..NUM_FILES}"
  proof (rule inj_onI)
    fix i j assume "i \<in> {..NUM_FILES}" "j \<in> {..NUM_FILES}" "sample_pfn i = sample_pfn j"
    then have "i < 1000" "j < 1000" "uint (sample_pfn i) = uint (sample_pfn j)" by (simp_all add: fs_const)
    then have "25600 + int i = 25600 + int j" by (simp only: uint_sample_pfn)
    then show "i = j" by simp
  qed
qed

definition empty_fs :: super_block where
  "empty_fs = \<lparr>num_files = 0, fs_name = ''flat'', inodes = initial_inodes sample_pfn NUM_FILES\<rparr>"

lemma empty_fs_wf: "fs_wf empty_fs"
proof -
  obtain m' where "init_file_system sample_pfn sample_pfn (\<lambda>_. 0) = (empty_fs, m')"
    by (rule init_inodes [of sample_pfn sample_pfn "\<lambda>_. 0"]) (simp add: empty_fs_def)
  then show ?thesis by (rule init_wf [OF sample_frames])
qed

lemma empty_fs_ino:
  "i < NUM_FILES \<Longrightarrow> inodes empty_fs ! i =
     fresh_inode i (page_addr (sample_pfn (store_page i))) (page_addr (sample_pfn (store_page i)) + 4096)"
  by (simp add: empty_fs_def initial_inodes_def)

lemma empty_fs_invalid: "i < NUM_FILES \<Longrightarrow> \<not> is_valid_inode empty_fs i"
  by (simp add: is_valid_inode_def empty_fs_ino fresh_inode_def)

definition sample_ino :: inode where
  "sample_ino = \<lparr>is_valid = True, filename = ''notes'', imode = 3, itype = REGULAR, inode_no = 0,
     iref_count = 0, s_pos = 104857600, e_pos = 104861696, max_pos = 104857605, file_size = 5\<rparr>"

definition sample_fs :: super_block where
  "sample_fs = empty_fs\<lparr>inodes := (inodes empty_fs)[0 := sample_ino], num_files := 1\<rparr>"

lemma region_sample: "region_ok sample_ino"
  by (simp add: region_ok_def sample_ino_def fs_const)

lemma zero_lt_files: "0 < NUM_FILES"
  by (simp add: fs_const)

lemma sample_fs_wf: "fs_wf sample_fs"
proof -
  note e = empty_fs_ino [OF zero_lt_files]
  have "uint (sample_pfn (store_page 0)) = 25600" using uint_sample_pfn [of 0] by (simp add: store_page_def)
  then have "uint (s_pos (inodes empty_fs ! 0)) = 104857600" "uint (e_pos (inodes empty_fs ! 0)) = 104861696"
    using fresh_region(2,3) [of "sample_pfn (store_page 0)" 0] unfolding e by simp_all
  then have pos: "s_pos sample_ino = s_pos (inodes empty_fs ! 0)" "e_pos sample_ino = e_pos (inodes empty_fs ! 0)"
    by (simp_all add: sample_ino_def word_uint_eq_iff)
  show ?thesis
    unfolding sample_fs_def
  proof (rule fs_wf_upd [OF empty_fs_wf zero_lt_files region_sample pos])
    show "\<forall>j<NUM_FILES. j \<noteq> 0 \<longrightarrow> is_valid_inode empty_fs j \<longrightarrow> filename (inodes empty_fs ! j) \<noteq> filename sample_ino"
      using empty_fs_invalid by blast
    show "1 = num_files empty_fs - of_bool (is_valid_inode empty_fs 0) + of_bool (is_valid sample_ino)"
      using empty_fs_invalid [OF zero_lt_files] by (simp add: empty_fs_def sample_ino_def)
  qed
qed

lemma sample_fs_0: "inodes sample_fs ! 0 = sample_ino"
  using fs_wfD(1) [OF empty_fs_wf] by (simp add: sample_fs_def fs_const)

lemma sample_fs_valid: "i < NUM_FILES \<Longrightarrow> is_valid_inode sample_fs i \<longleftrightarrow> i = 0"
  using empty_fs_invalid fs_wfD(1) [OF empty_fs_wf]
  by (auto simp: is_valid_inode_def sample_fs_def nth_list_update sample_ino_def)

lemma sample_lookup: "lookup_inode sample_fs n = (if n = ''notes'' then Some 0 else None)"
proof -
  have "lookup_inode sample_fs ''notes'' = Some 0"
    using lookup_Some_iff [OF sample_fs_wf, of "''notes''" 0] zero_lt_files
    by (simp add: lookup_inode_def sample_fs_valid sample_fs_0 sample_ino_def)
  moreover have "lookup_inode sample_fs n = None" if "n \<noteq> ''notes''"
    using that unfolding lookup_inode_def lookup_None_iff
    by (auto simp: sample_fs_valid sample_fs_0 sample_ino_def)
  ultimately show ?thesis by simp
qed

section \<open>A kernel\<close>

definition sample_file :: file_obj where
  "sample_file = \<lparr>ftype = REGULAR, fmode = O_RDWR, offp = 2, ref_count = 1, finode = Some 0,
     fops = \<lparr>fread = Some Do_read_regular, fwrite = Some Do_write_regular,
             flseek = Some Do_lseek_regular, fclose = Some Do_file_close\<rparr>, msg_queue = None\<rparr>"

definition zero_page :: file_obj where
  "zero_page = \<lparr>ftype = STDIN, fmode = 0, offp = 0, ref_count = 0, finode = None, fops = no_fops,
     msg_queue = None\<rparr>"

definition sample_device :: device where
  "sample_device = \<lparr>kbd_read = (\<lambda>m a. m(a := 97)), do_write = (\<lambda>m a n. uint n)\<rparr>"

definition sample_ctx :: exec_context where
  "sample_ctx = \<lparr>pid = 1, ppid = 0, pstate = RUNNING, vm_area = [], regs = replicate 20 0,
     files = (replicate MAX_OPEN_FILES None)[3 := Some 10]\<rparr>"

definition sample_stats :: os_stats where
  "sample_stats = \<lparr>swapper_invocations = 0, context_switches = 0, lw_context_switches = 0, ticks = 0,
     page_faults = 0, cow_page_faults = 0, syscalls = 5, used_memory = 0, num_processes = 1, num_vm_area = 0,
     mmap_page_faults = 0, user_reg_pages = 0, file_objects = 1\<rparr>"

definition sample_configs :: os_configs where
  "sample_configs = \<lparr>global_mapping = 1, apic_tick_interval = 32, debug = 0, adv_global = 1\<rparr>"

definition sample_kernel :: kernel where
  "sample_kernel = \<lparr>mem = (\<lambda>a. ucast a), sb = sample_fs, fheap = [10 \<mapsto> sample_file],
     qheap = Map.empty, ctxs = [1 \<mapsto> sample_ctx], stats = sample_stats,
     config = sample_configs\<rparr>"

lemma sample_kernel_simps [simp]:
  "mem sample_kernel = (\<lambda>a. ucast a)" "sb sample_kernel = sample_fs"
  "fheap sample_kernel = [10 \<mapsto> sample_file]" "ctxs sample_kernel = [1 \<mapsto> sample_ctx]"
  "qheap sample_kernel = Map.empty"
  by (simp_all add: sample_kernel_def)

lemma sample_file_simps [simp]:
  "fmode sample_file = O_RDWR" "offp sample_file = 2" "ref_count sample_file = 1"
  "finode sample_file = Some 0" "msg_queue sample_file = None"
  by (simp_all add: sample_file_def)

lemma sample_files: "length (files sample_ctx) = MAX_OPEN_FILES"
  "i < MAX_OPEN_FILES \<Longrightarrow> files sample_ctx ! i = (if i = 3 then Some 10 else None)"
  "pstate sample_ctx = RUNNING" "pid sample_ctx = 1"
  by (simp_all add: sample_ctx_def k_const)

lemma sample_modes: "O_RDWR AND O_READ \<noteq> 0" "O_RDWR AND O_WRITE \<noteq> 0"
  "O_RDWR AND O_READ = O_READ" "O_READ \<noteq> 0" "O_WRITE \<noteq> 0"
  by (simp_all add: o_flags)

lemma sample_live: "live_ctx sample_kernel 1 sample_ctx"
  by (simp add: live_ctx_def sample_files)

lemma sample_open: "open_regular sample_kernel 10 0 sample_file"
  by (simp add: open_regular_def sample_fs_wf zero_lt_files sample_fs_0 sample_ino_def)

lemma sample_free_fd: "free_fd sample_ctx = Some 4"
  by (simp add: free_fd_def sample_ctx_def k_const upt_conv_Cons)

lemma sample_refs: "refs sample_kernel p = (if p = 10 then 1 else 0)"
proof -
  have "ctx_refs (ctxs sample_kernel c) p = (if c = 1 \<and> p = 10 then 1 else 0)" for c
  proof -
    have len: "3 < length (replicate MAX_OPEN_FILES (None :: nat option))" by (simp add: k_const)
    have "int (length (filter ((=) (Some p)) (files sample_ctx))) = of_bool (p = 10)"
      using length_filter_upd [OF len, of "(=) (Some p)" "Some 10"] by (simp add: sample_ctx_def k_const)
    then show ?thesis by (cases "p = 10") (auto simp: ctx_refs_def sample_files)
  qed
  then show ?thesis unfolding refs_def by (simp add: k_const)
qed

lemma sample_refs_ok: "refs_ok sample_kernel"
  by (auto simp: refs_ok_def tables_ok_def counts_ok_def sample_refs sample_files k_const split: if_splits)

lemma sample_kernel_ok: "kernel_ok sample_kernel"
  by (auto simp: kernel_ok_def sample_fs_wf sample_refs_ok file_inv_def zero_lt_files sample_fs_0
      sample_fs_valid sample_ino_def split: if_splits)

text \<open>User memory lies above \<open>END\<close>, away from the file store.\<close>

lemma user_buffer_apart:
  assumes "fs_wf (sb k)" "2 ^ 31 \<le> uint buff" "uint buff + int n \<le> 2 ^ 64"
  shows "buffer_apart k buff n"
  unfolding buffer_apart_def
proof (intro allI impI)
  fix i assume "i < NUM_FILES"
  then have r: "region_ok (inodes (sb k) ! i)" by (rule fs_wfD(2) [OF assms(1)])
  show "mem_range buff n \<inter> file_region (inodes (sb k) ! i) = {}"
    using region_okD(4) [OF r] assms(2,3) by (auto simp: mem_range_interval file_region_interval [OF r])
qed

definition user_buf :: u64 where
  "user_buf = 0x180000000"

lemma sample_apart: "n \<le> 4096 \<Longrightarrow> buffer_apart sample_kernel user_buf n"
  by (rule user_buffer_apart) (simp_all add: sample_fs_wf user_buf_def)

text \<open>What a page for a message queue holds before it is used.\<close>

definition blank_queue :: msg_queue_info where
  "blank_queue = \<lparr>member_count = 0, member_pid = replicate MAX_MEMBERS 0, msg_count = 0,
     msg_buffer = replicate MAX_MESSAGES \<lparr>from_pid = 0, to_pid = 0, msg_txt = replicate MAX_TXT_SIZE (CHR 0x00)\<rparr>,
     block_process = replicate (MAX_MEMBERS * MAX_MEMBERS + 3) 0\<rparr>"

end
