(* ===== verification/FileProperties.thy ===== *)
theory FileProperties
  imports Samples
begin

text \<open>
  What the file calls promise, as properties of \<^verbatim>\<open>fs.c\<close>, \<^verbatim>\<open>file.c\<close> and \<^verbatim>\<open>entry.c\<close>, each with
  a witness at the concrete kernel of \<open>Samples\<close>.
\<close>

section \<open>Auxiliary facts\<close>

lemma open_regular_view:
  "open_regular k p i f \<Longrightarrow> view k p = Some (bs, off) \<Longrightarrow> bs = file_content k i \<and> off = unat (offp f)"
  by (simp add: view_open)

lemma length_content: "length (file_content k i) = unat (file_size (inodes (sb k) ! i))"
  by (simp add: file_content_def)

lemma offset_inside: "open_regular k p i f \<Longrightarrow> unat (offp f) \<le> length (file_content k i)"
  by (auto dest: open_regularD(5) simp: length_content word_le_nat_alt [symmetric] word_le_def)

lemma put_content [simp]: "file_content (put_file k p f) i = file_content k i"
  by (simp add: file_content_def)

lemma seek_set:
  assumes f: "open_regular k p i f" and t: "0 \<le> t" "t \<le> int (length (file_content k i))"
  shows "do_lseek_regular k (Some p) t SEEK_SET = Inr (t, put_file k p (f\<lparr>offp := word_of_int t\<rparr>))"
    and "open_regular (put_file k p (f\<lparr>offp := word_of_int t\<rparr>)) p i (f\<lparr>offp := word_of_int t\<rparr>)"
    and "unat (word_of_int t :: u32) = nat t"
proof -
  note o = open_regularD [OF f]
  have sz: "t \<le> uint (file_size (inodes (sb k) ! i))" using t by (simp add: length_content)
  then show "do_lseek_regular k (Some p) t SEEK_SET = Inr (t, put_file k p (f\<lparr>offp := word_of_int t\<rparr>))"
    using t(1) by (simp add: do_lseek_regular_eq [OF f])
  have u: "uint (word_of_int t :: u32) = t"
    using t(1) sz region_okD(2) [OF o(6)] by (intro uint_u32_of_int) (simp_all add: fs_const)
  then show "unat (word_of_int t :: u32) = nat t" by (metis nat_uint_eq)
  show "open_regular (put_file k p (f\<lparr>offp := word_of_int t\<rparr>)) p i (f\<lparr>offp := word_of_int t\<rparr>)"
    using o sz u by (simp add: open_regular_def)
qed

lemma spec_read_write:
  assumes "off \<le> length bs"
  shows "spec_read (length ys) (overwrite bs off ys, off) = (ys, overwrite bs off ys, off + length ys)"
  using take_drop_overwrite [OF assms, of ys] assms
  by (simp add: spec_read_def Let_def length_overwrite min_def)

section \<open>Reading and writing\<close>

text \<open>
  C3: Reading from an open regular file refines the abstract file: the bytes from the position on,
  at most \<open>count\<close>, are delivered into the buffer, the position moves by their number, and no file
  changes.
\<close>

theorem read_refines:
  assumes "open_regular k p i f" "fmode f AND O_READ \<noteq> 0" "uint count < 2 ^ 31"
    and "buffer_apart k buff (unat count)"
  shows "\<exists>k' out v'. do_read_regular k (Some p) buff count = Inr (int (length out), k') \<and>
    spec_read (unat count) (file_content k i, unat (offp f)) = (out, v') \<and> view k' p = Some v' \<and>
    read_bytes (mem k') buff (length out) = out \<and> sb k' = sb k \<and>
    (\<forall>j<NUM_FILES. file_content k' j = file_content k j)"
proof -
  obtain n k' where eq: "do_read_regular k (Some p) buff count = Inr (n, k')"
    using do_read_regular_eq [OF assms(1-3)] by blast
  obtain out v' where v: "spec_read (unat count) (file_content k i, unat (offp f)) = (out, v')"
    by (rule prod.exhaust)
  from do_read_regular_view [OF assms eq v] eq v show ?thesis by auto
qed

theorem read_refines_witness:
  "\<exists>k' out v'. do_read_regular sample_kernel (Some 10) user_buf 100 = Inr (int (length out), k') \<and>
    spec_read 100 (file_content sample_kernel 0, 2) = (out, v') \<and> view k' 10 = Some v' \<and>
    read_bytes (mem k') user_buf (length out) = out \<and> sb k' = sample_fs \<and>
    (\<forall>j<NUM_FILES. file_content k' j = file_content sample_kernel j)"
  using read_refines [OF sample_open, of 100 user_buf] sample_apart [of 100] by (simp add: sample_modes)

text \<open>
  C4: Writing inside the 4 KB of a file refines the abstract file: the buffer's bytes overwrite
  the content from the position on, the position moves behind them, and no other file changes.
\<close>

theorem write_refines:
  assumes "open_regular k p i f" "fmode f AND O_WRITE \<noteq> 0" "unat (offp f) + unat count \<le> FILE_SIZE"
    and "buffer_apart k buff (unat count)"
  shows "\<exists>k'. do_write_regular k (Some p) buff count = Inr (int (unat count), k') \<and>
    view k' p = Some (spec_write (read_bytes (mem k) buff (unat count)) (file_content k i, unat (offp f))) \<and>
    fs_wf (sb k') \<and> (\<forall>j<NUM_FILES. j \<noteq> i \<longrightarrow> file_content k' j = file_content k j)"
  using do_write_regular_view [OF assms] open_regularD(1) by metis

theorem write_refines_witness:
  "\<exists>k'. do_write_regular sample_kernel (Some 10) user_buf 7 = Inr (7, k') \<and>
    view k' 10 = Some (spec_write (read_bytes (\<lambda>a. ucast a) user_buf 7) (file_content sample_kernel 0, 2)) \<and>
    fs_wf (sb k') \<and> (\<forall>j<NUM_FILES. j \<noteq> 0 \<longrightarrow> file_content k' j = file_content sample_kernel j)"
  using write_refines [OF sample_open, of 7 user_buf] sample_apart [of 7] by (simp add: sample_modes fs_const)

text \<open>
  A write, a seek to where it began and a read of the same count, in one lemma: the read gives the
  written bytes.
\<close>

definition same_files :: "kernel \<Rightarrow> kernel \<Rightarrow> bool" where
  "same_files k k' \<longleftrightarrow> mem k' = mem k \<and> sb k' = sb k \<and> fheap k' = fheap k"

lemma same_files_open: "same_files k k' \<Longrightarrow> open_regular k' p i f = open_regular k p i f"
  by (simp add: same_files_def open_regular_def)

lemma same_files_content: "same_files k k' \<Longrightarrow> file_content k' i = file_content k i"
  by (simp add: same_files_def file_content_def)

text \<open>Between the calls \<open>g\<close> may change the rest of the kernel.\<close>

lemma write_seek_read:
  assumes f: "open_regular k p i f" and mode: "fmode f AND O_WRITE \<noteq> 0" "fmode f AND O_READ \<noteq> 0"
    and fit: "unat (offp f) + unat count \<le> FILE_SIZE"
    and src: "buffer_apart k src (unat count)" and dst: "2 ^ 31 \<le> uint dst" "uint dst + uint count \<le> 2 ^ 64"
    and g: "\<And>k. same_files k (g k)"
  obtains k1 f1 k2 k3 where "do_write_regular k (Some p) src count = Inr (uint count, k1)"
    "do_lseek_regular (g k1) (Some p) (uint (offp f)) SEEK_SET = Inr (uint (offp f), k2)"
    "do_read_regular (g k2) (Some p) dst count = Inr (uint count, k3)"
    "read_bytes (mem k3) dst (unat count) = read_bytes (mem k) src (unat count)"
    "fheap k1 p = Some f1" "fmode f1 = fmode f" "fheap k2 p = Some (f1\<lparr>offp := offp f\<rparr>)"
    "ctxs k1 = ctxs k" "ctxs k2 = ctxs (g k1)"
proof -
  let ?ys = "read_bytes (mem k) src (unat count)" and ?off = "unat (offp f)"
  obtain k1 f1 where k1: "do_write_regular k (Some p) src count = Inr (int (unat count), k1)"
    "open_regular k1 p i f1" "fmode f1 = fmode f" "ctxs k1 = ctxs k"
    "view k1 p = Some (spec_write ?ys (file_content k i, ?off))"
    by (rule do_write_regular_view [OF f mode(1) fit src]) blast
  have inside: "?off \<le> length (file_content k i)" by (rule offset_inside [OF f])
  have c1: "file_content (g k1) i = overwrite (file_content k i) ?off ?ys"
    using k1(5) view_open [OF k1(2)] same_files_content [OF g] by (simp add: spec_write_def)
  have "int ?off \<le> int (length (file_content (g k1) i))"
    unfolding c1 length_overwrite [OF inside] using inside by linarith
  then have sz: "uint (offp f) \<le> int (length (file_content (g k1) i))" by simp
  have "open_regular (g k1) p i f1" using k1(2) same_files_open [OF g [of k1]] by simp
  note sk = seek_set [OF this _ sz]
  let ?f2 = "f1\<lparr>offp := offp f\<rparr>"
  let ?k1 = "put_file (g k1) p ?f2" and ?k2 = "g (put_file (g k1) p ?f2)"
  have s: "do_lseek_regular (g k1) (Some p) (uint (offp f)) SEEK_SET = Inr (uint (offp f), ?k1)"
    and o1: "open_regular ?k1 p i ?f2" using sk(1,2) by simp_all
  have o2: "open_regular ?k2 p i ?f2" using o1 same_files_open [OF g [of ?k1]] by simp
  have c2: "file_content ?k2 i = file_content (g k1) i" using same_files_content [OF g] by simp
  have mode2: "fmode ?f2 AND O_READ \<noteq> 0" using k1(3) mode(2) by simp
  have "int (unat count) \<le> int FILE_SIZE" using fit by linarith
  then have cnt: "uint count < 2 ^ 31" by (simp add: fs_const)
  obtain m k3 where r: "do_read_regular ?k2 (Some p) dst count = Inr (m, k3)"
    using do_read_regular_eq [OF o2 mode2 cnt] by blast
  have ap: "buffer_apart ?k2 dst (unat count)"
    using user_buffer_apart [OF open_regularD(1) [OF o2] dst(1)] dst(2) by simp
  have v: "spec_read (unat count) (file_content ?k2 i, unat (offp ?f2)) =
      (?ys, overwrite (file_content k i) ?off ?ys, ?off + length ?ys)"
    using spec_read_write [OF inside, of ?ys] by (simp add: c1 c2)
  note rv = do_read_regular_view [OF o2 mode2 cnt ap r v]
  show thesis
  proof (rule that)
    show "do_write_regular k (Some p) src count = Inr (uint count, k1)" using k1(1) by simp
    show "do_read_regular ?k2 (Some p) dst count = Inr (uint count, k3)" using r rv(2) by simp
    show "read_bytes (mem k3) dst (unat count) = ?ys" using rv(2,3) by simp
    show "fheap k1 p = Some f1" by (rule open_regularD(2) [OF k1(2)])
  qed (use s k1(3,4) in simp_all)
qed

text \<open>
  A write that runs past the 4 KB of the file writes nothing and returns \<open>-1\<close>, but moves the
  position back by one.
\<close>

theorem write_past_end:
  assumes "open_regular k p i f" "fmode f AND O_WRITE \<noteq> 0" "uint count < 2 ^ 31"
    and "uint (offp f) + uint count > int FILE_SIZE"
  shows "do_write_regular k (Some p) buff count = Inr (-1, put_file k p (f\<lparr>offp := offp f - 1\<rparr>))"
  by (rule do_write_regular_full [OF assms(1,2,4,3)])

theorem write_past_end_witness:
  "do_write_regular sample_kernel (Some 10) user_buf 4095 =
     Inr (-1, put_file sample_kernel 10 (sample_file\<lparr>offp := 1\<rparr>))"
  using write_past_end [OF sample_open, of 4095 user_buf] by (simp add: sample_modes fs_const)

text \<open>The offset a seek asks for.\<close>

definition seek_target :: "kernel \<Rightarrow> nat \<Rightarrow> file_obj \<Rightarrow> int \<Rightarrow> whence \<Rightarrow> int option" where
  "seek_target k i f offset wh =
     (case wh of SEEK_SET \<Rightarrow> Some offset | SEEK_CUR \<Rightarrow> Some (uint (offp f) + offset)
      | SEEK_END \<Rightarrow> Some (int (length (file_content k i)) + offset) | Other_whence \<Rightarrow> None)"

text \<open>
  Seeking moves the position to the target when it lies inside the file and returns it; any
  other target, or an unknown \<open>whence\<close>, returns \<open>-EINVAL\<close> and changes nothing.
\<close>

theorem lseek_contract:
  assumes "open_regular k p i f"
  shows "do_lseek_regular k (Some p) offset wh =
    (case seek_target k i f offset wh of
       Some t \<Rightarrow> if 0 \<le> t \<and> t \<le> int (length (file_content k i))
                 then Inr (t, put_file k p (f\<lparr>offp := word_of_int t\<rparr>)) else Inr (-EINVAL, k)
     | None \<Rightarrow> Inr (-EINVAL, k))"
  by (subst do_lseek_regular_eq [OF assms]) (cases wh, simp_all add: seek_target_def length_content)

theorem lseek_contract_witness:
  "do_lseek_regular sample_kernel (Some 10) 1 SEEK_END = Inr (-EINVAL, sample_kernel) \<and>
   do_lseek_regular sample_kernel (Some 10) (-1) SEEK_CUR =
     Inr (1, put_file sample_kernel 10 (sample_file\<lparr>offp := 1\<rparr>))"
  by (simp add: lseek_contract [OF sample_open] seek_target_def length_content sample_fs_0 sample_ino_def)

section \<open>Opening\<close>

text \<open>
  A successful open returns the lowest free descriptor from 3 on, behind it an object at the
  start of the file of that name, and leaves every other name as it was.
\<close>

theorem open_lowest_descriptor:
  assumes "fs_wf (sb k)" "ctxs k c = Some ctx" "length (files ctx) = MAX_OPEN_FILES"
    and "do_regular_file_open p page k c fname flags mode = Inr (r, k')" "0 \<le> r"
  shows "\<exists>i. lookup_inode (sb k') fname = Some i \<and> view k' p = Some (file_content k' i, 0) \<and>
    get_fd k' c r = Inr (Some p) \<and> 3 \<le> r \<and> files ctx ! nat r = None \<and>
    (\<forall>fd. 3 \<le> fd \<and> fd < nat r \<longrightarrow> files ctx ! fd \<noteq> None) \<and> fs_wf (sb k') \<and> mem k' = mem k \<and>
    (\<forall>n. n \<noteq> fname \<longrightarrow> lookup_inode (sb k') n = lookup_inode (sb k) n)"
proof -
  obtain i where i: "lookup_inode (sb k') fname = Some i" "open_regular k' p i (opened_file page i flags)"
    "get_fd k' c r = Inr (Some p)" "free_fd ctx = Some (nat r)" "fs_wf (sb k')" "mem k' = mem k"
    "\<forall>n. n \<noteq> fname \<longrightarrow> lookup_inode (sb k') n = lookup_inode (sb k) n"
    by (rule open_success [OF assms])
  have "view k' p = Some (file_content k' i, 0)"
    using view_open [OF i(2)] by (simp add: opened_file_def)
  moreover have "\<forall>fd. 3 \<le> fd \<and> fd < nat r \<longrightarrow> files ctx ! fd \<noteq> None"
    using free_fd_first [OF i(4)] by blast
  ultimately show ?thesis using i free_fdD [OF i(4)] assms(5) by auto
qed

theorem open_lowest_descriptor_witness:
  "\<exists>k'. do_regular_file_open 20 zero_page sample_kernel 1 ''notes'' 1 0 = Inr (4, k') \<and>
    view k' 20 = Some (file_content k' 0, 0)"
proof -
  have fl: "(1 :: u64) AND ucast (O_READ OR O_RDWR) \<noteq> 0" by (simp add: o_flags)
  obtain k' where k': "do_regular_file_open 20 zero_page sample_kernel 1 ''notes'' 1 0 = Inr (4, k')"
    using do_regular_file_open_eq [OF _ fl, of sample_kernel 1 sample_ctx 20 zero_page "''notes''" 0]
    by (simp add: open_inode_def get_or_create_def sample_lookup sample_free_fd Let_def)
  moreover have "lookup_inode (sb k') ''notes'' = Some 0"
    using k' do_regular_file_open_eq [OF _ fl, of sample_kernel 1 sample_ctx 20 zero_page "''notes''" 0]
    by (auto simp: open_inode_def get_or_create_def sample_lookup sample_free_fd Let_def)
  ultimately show ?thesis
    using open_lowest_descriptor [OF _ _ _ k'] by (simp add: sample_fs_wf sample_files(1))
qed

text \<open>
  C37: Open never refuses a mode: whatever the permission bits of the file, an open for reading or
  writing with a free descriptor succeeds and gets the asked mode with \<open>O_CREAT\<close> toggled.
\<close>

theorem open_ignores_permissions:
  assumes "ctxs k c = Some ctx" "flags AND ucast (O_READ OR O_RDWR) \<noteq> 0"
    and "lookup_inode (sb k) fname = Some i" "free_fd ctx = Some fd"
  shows "\<exists>k' f. do_regular_file_open p page k c fname flags mode = Inr (int fd, k') \<and>
    fheap k' p = Some f \<and> finode f = Some i \<and> fmode f = ucast (flags XOR ucast O_CREAT)"
  unfolding do_regular_file_open_eq [OF assms(1,2)]
  by (simp add: assms(3,4) open_inode_def get_or_create_def Let_def opened_file_def)

definition locked_kernel :: kernel where
  "locked_kernel = sample_kernel\<lparr>sb := sample_fs\<lparr>inodes := (inodes sample_fs)[0 := sample_ino\<lparr>imode := 0\<rparr>]\<rparr>\<rparr>"

theorem open_ignores_permissions_witness:
  "imode (inodes (sb locked_kernel) ! 0) = 0 \<and>
   (\<exists>k' f. do_regular_file_open 20 zero_page locked_kernel 1 ''notes'' 3 0 = Inr (4, k') \<and>
      fheap k' 20 = Some f \<and> finode f = Some 0 \<and> fmode f = 11)"
proof -
  have len: "length (inodes sample_fs) = NUM_FILES" by (rule fs_wfD(1) [OF sample_fs_wf])
  then have 0: "inodes (sb locked_kernel) ! 0 = sample_ino\<lparr>imode := 0\<rparr>"
    using zero_lt_files by (simp add: locked_kernel_def)
  have "find (\<lambda>i. is_valid_inode (sb locked_kernel) i \<and> filename (inodes (sb locked_kernel) ! i) = ''notes'')
      [0..<NUM_FILES] = Some 0"
    by (rule find_upt_SomeI) (simp_all add: zero_lt_files is_valid_inode_def 0 sample_ino_def)
  then have lk: "lookup_inode (sb locked_kernel) ''notes'' = Some 0"
    by (simp add: lookup_inode_def flat_lookup_inode_def)
  have fl: "(3 :: u64) AND ucast (O_READ OR O_RDWR) \<noteq> 0" by (simp add: o_flags)
  have m: "ucast ((3 :: u64) XOR ucast O_CREAT) = (11 :: u32)" by (simp add: o_flags)
  show ?thesis
    using open_ignores_permissions [OF _ fl lk, of 1 sample_ctx 4 20 zero_page 0] 0
    by (simp add: locked_kernel_def sample_free_fd m)
qed

section \<open>The inode table\<close>

text \<open>
  C30: Creating a file: with an unused name and a free inode the name is found afterwards, at the
  index returned, as an empty file with the given mode; otherwise the result is \<open>-1\<close> and nothing
  changes. Every other name is found as before, and the table stays well formed.
\<close>

theorem create_contract:
  assumes "fs_wf s" "flat_create_inode s n mode = Inr (r, s')"
  shows "fs_wf s' \<and> (\<forall>n'. n' \<noteq> n \<longrightarrow> flat_lookup_inode s' n' = flat_lookup_inode s n') \<and>
    (if flat_lookup_inode s n = None \<and> (\<exists>i<NUM_FILES. \<not> is_valid_inode s i)
     then 0 \<le> r \<and> flat_lookup_inode s' n = Some (nat r) \<and> file_size (inodes s' ! nat r) = 0 \<and>
          imode (inodes s' ! nat r) = mode
     else r = -1 \<and> s' = s)"
proof -
  have bad: "r = -1 \<and> s' = s" if "flat_lookup_inode s n \<noteq> None \<or> (\<forall>i<NUM_FILES. is_valid_inode s i)"
    using that assms(2) create_exists [of s n mode] create_full [of s n mode] by auto
  have good: "0 \<le> r" if "flat_lookup_inode s n = None" "i < NUM_FILES" "\<not> is_valid_inode s i" for i
  proof (cases rule: get_free_inode_cases [of s])
    case full
    with that show ?thesis by blast
  next
    case (free j)
    with assms(2) create_new [OF that(1) free(1,2), of mode] show ?thesis by (simp split: if_splits)
  qed
  have other: "\<forall>n'. n' \<noteq> n \<longrightarrow> flat_lookup_inode s' n' = flat_lookup_inode s n'"
    by (blast intro: create_lookup_other [OF assms])
  show ?thesis
  proof (cases "flat_lookup_inode s n = None \<and> (\<exists>i<NUM_FILES. \<not> is_valid_inode s i)")
    case True
    then have "0 \<le> r" using good by blast
    note found = create_lookup(2,3) [OF assms this]
    show ?thesis
      unfolding if_P [OF True] found(2) created_inode_simps
      by (intro conjI create_wf [OF assms] other \<open>0 \<le> r\<close> found(1) refl)
  next
    case False
    then have "r = -1 \<and> s' = s" using bad by blast
    then show ?thesis unfolding if_not_P [OF False] using create_wf [OF assms] other by blast
  qed
qed

theorem create_contract_witness:
  "\<exists>s'. flat_create_inode empty_fs ''log'' 3 = Inr (0, s') \<and> fs_wf s' \<and>
     flat_lookup_inode s' ''log'' = Some 0 \<and> imode (inodes s' ! 0) = 3"
proof -
  have lk: "flat_lookup_inode empty_fs ''log'' = None"
    using empty_fs_invalid by (simp add: lookup_None_iff)
  have "find (\<lambda>i. \<not> is_valid_inode empty_fs i) [0..<NUM_FILES] = Some 0"
    by (rule find_upt_SomeI) (simp_all add: empty_fs_invalid zero_lt_files)
  then have free: "get_free_inode empty_fs = int 0" by (simp add: get_free_inode_def)
  obtain s' where s': "flat_create_inode empty_fs ''log'' 3 = Inr (0, s')"
    using create_new [OF lk free zero_lt_files, of 3] by (auto simp: fs_const)
  have "flat_lookup_inode empty_fs ''log'' = None \<and> (\<exists>i<NUM_FILES. \<not> is_valid_inode empty_fs i)"
    using lk empty_fs_invalid zero_lt_files by blast
  from create_contract [OF empty_fs_wf s', unfolded if_P [OF this]] s' show ?thesis by simp
qed

text \<open>
  C31: Removing a file succeeds whatever its reference count, makes its name unknown, keeps every
  other name and the well-formedness of the table.
\<close>

theorem remove_contract:
  assumes "fs_wf s" "flat_lookup_inode s n = Some i" "flat_remove_inode s (Some i) = Inr (r, s')"
  shows "r = 0 \<and> fs_wf s' \<and> flat_lookup_inode s' n = None \<and>
    (\<forall>n'. n' \<noteq> n \<longrightarrow> flat_lookup_inode s' n' = flat_lookup_inode s n')"
  using remove_lookup [OF assms(1,3,2)] remove_wf [OF assms(1) _ _ assms(3)] lookup_SomeD [OF assms(2)]
  by blast

theorem remove_contract_witness:
  "\<exists>s'. flat_remove_inode sample_fs (Some 0) = Inr (0, s') \<and> fs_wf s' \<and> flat_lookup_inode s' ''notes'' = None"
proof -
  have lk: "flat_lookup_inode sample_fs ''notes'' = Some 0"
    using sample_lookup [of "''notes''"] by (simp add: lookup_inode_def)
  obtain s' where s': "flat_remove_inode sample_fs (Some 0) = Inr (0, s')"
    by (simp add: flat_remove_inode_def Let_def)
  with remove_contract [OF sample_fs_wf lk s'] show ?thesis by blast
qed

text \<open>
  Initialisation with distinct page frames below \<open>END\<close> gives a well-formed super block in which
  no name is found and all \<open>NUM_FILES\<close> inodes are free, each with a region of its own.
\<close>

theorem init_contract:
  assumes "distinct_frames pfn" "init_file_system ds_pfn pfn m = (s, m')"
  shows "fs_wf s \<and> num_files s = 0 \<and> (\<forall>n. flat_lookup_inode s n = None) \<and>
    (\<forall>i<NUM_FILES. \<forall>j<NUM_FILES. i \<noteq> j \<longrightarrow>
       file_region (inodes s ! i) \<inter> file_region (inodes s ! j) = {})"
proof -
  have wf: "fs_wf s" by (rule init_wf [OF assms])
  obtain m1 where "init_file_system ds_pfn pfn m =
      (\<lparr>num_files = 0, fs_name = ''flat'', inodes = initial_inodes pfn NUM_FILES\<rparr>, m1)"
    by (rule init_inodes)
  with assms(2) have s: "num_files s = 0" "\<forall>i<NUM_FILES. \<not> is_valid_inode s i"
    by (auto simp: initial_inodes_def is_valid_inode_def fresh_inode_def)
  then have "\<forall>n. flat_lookup_inode s n = None" by (simp add: lookup_None_iff)
  with s(1) wf show ?thesis
    using regions_apart_disjoint [OF fs_wfD(2) [OF wf] fs_wfD(2) [OF wf] fs_wfD(3) [OF wf]] by simp
qed

theorem init_contract_witness:
  "\<exists>s m'. init_file_system sample_pfn sample_pfn (\<lambda>_. 7) = (s, m') \<and> fs_wf s \<and> num_files s = 0"
proof -
  obtain s m' where s: "init_file_system sample_pfn sample_pfn (\<lambda>_. 7) = (s, m')" by fastforce
  with init_contract [OF sample_frames s] show ?thesis by blast
qed

section \<open>Descriptors\<close>

text \<open>
  After dup2 both descriptors refer to the same object, the object that \<open>newfd\<close> referred to
  has lost a reference, and all counts are right.
\<close>

theorem dup2_contract:
  assumes "refs_ok k" "live_ctx k c ctx" "0 \<le> oldfd" "oldfd < int MAX_OPEN_FILES"
    and "0 \<le> newfd" "newfd < int MAX_OPEN_FILES" "oldfd \<noteq> newfd" "files ctx ! nat oldfd = Some p"
  shows "\<exists>k'. do_dup2 k c oldfd newfd = Inr (newfd, k') \<and> refs_ok k' \<and>
    get_fd k' c newfd = Inr (Some p) \<and> get_fd k' c oldfd = Inr (Some p) \<and>
    (\<forall>fd. 0 \<le> fd \<and> fd < int MAX_OPEN_FILES \<and> fd \<noteq> newfd \<longrightarrow> get_fd k' c fd = get_fd k c fd) \<and>
    sb k' = sb k \<and> mem k' = mem k"
proof -
  have ctx: "ctxs k c = Some ctx" "length (files ctx) = MAX_OPEN_FILES"
    using assms(2) refs_okD(2) [OF assms(1)] by (auto simp: live_ctx_def)
  obtain k' where k': "fd_dup2 k c oldfd newfd = Inr (newfd, k')" "refs_ok k'"
    "ctxs k' = (ctxs k)(c \<mapsto> ctx\<lparr>files := (files ctx)[nat newfd := Some p]\<rparr>)" "sb k' = sb k" "mem k' = mem k"
    by (rule dup2_refs_ok [OF assms])
  have n: "nat newfd < length (files ctx)" using assms(5,6) ctx(2) by linarith
  have "get_fd k' c fd = (if fd = newfd then Inr (Some p) else get_fd k c fd)"
    if "0 \<le> fd" "fd < int MAX_OPEN_FILES" for fd
    using that k'(3) ctx(1) n assms(5) by (simp add: nth_list_update eq_nat_nat_iff)
  then have "get_fd k' c newfd = Inr (Some p)" "get_fd k' c oldfd = Inr (Some p)"
    "\<forall>fd. 0 \<le> fd \<and> fd < int MAX_OPEN_FILES \<and> fd \<noteq> newfd \<longrightarrow> get_fd k' c fd = get_fd k c fd"
    using assms(3-8) ctx(1) by simp_all
  with k'(1,2,4,5) show ?thesis by (simp add: do_dup2_def)
qed

theorem dup2_contract_witness:
  "\<exists>k'. do_dup2 sample_kernel 1 3 1 = Inr (1, k') \<and> refs_ok k' \<and>
     get_fd k' 1 1 = Inr (Some 10) \<and> get_fd k' 1 3 = Inr (Some 10)"
  using dup2_contract [OF sample_refs_ok sample_live, of 3 1 10] by (auto simp: sample_files k_const)

text \<open>
  C36: Duplicating a descriptor onto itself, when it is the only reference to its object, frees the
  object and then uses it.
\<close>

theorem dup2_onto_itself:
  assumes "refs_ok k" "live_ctx k c ctx" "0 \<le> fd" "fd < int MAX_OPEN_FILES"
    and "files ctx ! nat fd = Some p" "refs k p = 1"
  shows "do_dup2 k c fd fd = Inl UseAfterFree"
  using dup2_same_fd [OF assms] by (simp add: do_dup2_def)

theorem dup2_onto_itself_witness: "do_dup2 sample_kernel 1 3 3 = Inl UseAfterFree"
  using dup2_onto_itself [OF sample_refs_ok sample_live, of 3 10]
  by (simp add: sample_files sample_refs k_const)


section \<open>Copying between files\<close>

text \<open>
  Sendfile without an offset is a read of the input file followed by a write of what was read
  to the output file: the output gets the bytes, both positions move by their number, and every
  other file keeps its content.
\<close>

theorem sendfile_copies:
  assumes inp: "open_regular k p i f" "fmode f AND O_READ \<noteq> 0" "get_fd k c infd = Inr (Some p)"
    and outp: "open_regular k q j g" "fmode g AND O_WRITE \<noteq> 0" "get_fd k c outfd = Inr (Some q)"
    and ne: "p \<noteq> q" and count: "0 \<le> count" "count < 2 ^ 31" "buffer_apart k buff (nat count)"
    and v: "spec_read (nat count) (file_content k i, unat (offp f)) = (out, v')"
    and fit: "unat (offp g) + length out \<le> FILE_SIZE"
  shows "\<exists>k'. do_sendfile buff k c outfd infd None count = Inr (int (length out), None, k') \<and>
    view k' q = Some (spec_write out (file_content k j, unat (offp g))) \<and>
    (i \<noteq> j \<longrightarrow> view k' p = Some v') \<and> (\<forall>l<NUM_FILES. l \<noteq> j \<longrightarrow> file_content k' l = file_content k l)"
proof -
  have cnt: "uint (word_of_int count :: u32) = count" using count by (intro uint_u32_of_int) simp_all
  then have un: "unat (word_of_int count :: u32) = nat count" by (simp add: nat_uint_eq [symmetric])
  obtain n k1 where rd: "do_read_regular k (Some p) buff (word_of_int count) = Inr (n, k1)"
    "fheap k1 = (fheap k)(p \<mapsto> f\<lparr>offp := offp f + word_of_int n\<rparr>)"
    using do_read_regular_eq [OF inp(1,2), of "word_of_int count" buff] cnt count(2) by simp
  have "uint (word_of_int count :: u32) < 2 ^ 31" using cnt count(2) by simp
  note rv = do_read_regular_view [OF inp(1,2) this, of buff n k1 out v', unfolded un, OF count(3) rd(1) v]
  have n: "unat (word_of_int n :: u32) = length out"
    using fit by (simp add: rv(2) unat_of_nat fs_const)
  have o: "open_regular k1 q j g"
    using outp(1) ne rd(2) rv(6) by (simp add: open_regular_def)
  have j: "j < NUM_FILES" by (rule open_regularD(4) [OF outp(1)])
  have same: "file_content k1 l = file_content k l" if "l < NUM_FILES" for l using rv(4) that by blast
  have "length out \<le> nat count" using v by (auto simp: spec_read_def Let_def)
  then have ap: "buffer_apart k1 buff (unat (word_of_int n :: u32))"
    using buffer_apart_mono [OF count(3)] rv(6) n by (simp add: buffer_apart_def)
  have room: "unat (offp g) + unat (word_of_int n :: u32) \<le> FILE_SIZE" using fit n by simp
  obtain k2 g' where w: "do_write_regular k1 (Some q) buff (word_of_int n) = Inr (int (length out), k2)"
    "view k2 q = Some (spec_write (read_bytes (mem k1) buff (length out)) (file_content k1 j, unat (offp g)))"
    "\<forall>l<NUM_FILES. l \<noteq> j \<longrightarrow> file_content k2 l = file_content k1 l"
    "fheap k2 = (fheap k1)(q \<mapsto> g')"
    by (rule do_write_regular_view [OF o outp(2) room ap, unfolded n]) auto
  have "read_bytes (mem k1) buff (length out) = out" using rv(2,3) by simp
  then have vq: "view k2 q = Some (spec_write out (file_content k j, unat (offp g)))"
    using w(2) same [OF j] by simp
  have vp: "view k2 p = Some v'" if "i \<noteq> j"
  proof -
    have i: "i < NUM_FILES" by (rule open_regularD(4) [OF inp(1)])
    have "file_content k2 i = file_content k1 i" using w(3) i that by blast
    then show ?thesis
      using rv(1) w(4) rd(2) ne open_regularD(3) [OF inp(1)] by (simp add: view_def file_content_def)
  qed
  have call: "do_sendfile buff k c outfd infd None count = Inr (int (length out), None, k2)"
    using inp outp rd(1) w(1) open_regularD(2) [OF inp(1)] open_regularD(2) [OF outp(1)]
    by (simp add: do_sendfile_def sendfile_read_def)
  show ?thesis using call vq vp w(3) same by auto
qed


text \<open>Descriptor 3 reads the sample file, descriptor 4 writes at its end.\<close>

definition two_descriptors :: kernel where
  "two_descriptors = sample_kernel\<lparr>fheap := [10 \<mapsto> sample_file, 11 \<mapsto> sample_file\<lparr>offp := 5\<rparr>],
     ctxs := [1 \<mapsto> sample_ctx\<lparr>files := (files sample_ctx)[4 := Some 11]\<rparr>]\<rparr>"

theorem sendfile_copies_witness:
  "\<exists>k'. do_sendfile user_buf two_descriptors 1 4 3 None 100 = Inr (3, None, k') \<and>
     view k' 11 = Some (spec_write (drop 2 (file_content sample_kernel 0)) (file_content sample_kernel 0, 5))"
proof -
  have c: "file_content two_descriptors 0 = file_content sample_kernel 0"
    by (simp add: file_content_def two_descriptors_def)
  have len: "length (file_content sample_kernel 0) = 5"
    by (simp add: length_content sample_fs_0 sample_ino_def)
  let ?g = "sample_file\<lparr>offp := 5\<rparr>" and ?out = "drop 2 (file_content sample_kernel 0)"
  have o: "open_regular two_descriptors 10 0 sample_file" "open_regular two_descriptors 11 0 ?g"
    using sample_open by (simp_all add: open_regular_def two_descriptors_def sample_fs_0 sample_ino_def)
  have fd: "get_fd two_descriptors 1 3 = Inr (Some 10)" "get_fd two_descriptors 1 4 = Inr (Some 11)"
    by (simp_all add: two_descriptors_def sample_files k_const)
  have ap: "buffer_apart two_descriptors user_buf (nat 100)"
    using sample_apart [of 100] by (simp add: buffer_apart_def two_descriptors_def)
  have v: "spec_read (nat 100) (file_content two_descriptors 0, unat (offp sample_file)) =
      (?out, file_content sample_kernel 0, 5)"
    using len by (simp add: spec_read_def c)
  have m: "fmode sample_file AND O_READ \<noteq> 0" "fmode ?g AND O_WRITE \<noteq> 0"
    by (simp_all add: sample_modes)
  have fit: "unat (offp ?g) + length ?out \<le> FILE_SIZE" using len by (simp add: fs_const)
  from sendfile_copies [OF o(1) m(1) fd(1) o(2) m(2) fd(2) _ _ _ ap v fit] show ?thesis
    using len by (auto simp: c)
qed

section \<open>Processes\<close>

text \<open>
  C29: When a process exits, every object it had open loses exactly the references of its
  descriptors, and the counts of the remaining processes stay right.
\<close>

theorem exit_releases_files:
  assumes "refs_ok k" "live_ctx k c ctx"
  shows "\<exists>k'. do_file_exit k c = Inr k' \<and> ctxs k' = ctxs k \<and> sb k' = sb k \<and> mem k' = mem k \<and>
    refs_ok (k'\<lparr>ctxs := (ctxs k)(c \<mapsto> ctx\<lparr>pstate := UNUSED\<rparr>)\<rparr>) \<and>
    (\<forall>p. refs (k'\<lparr>ctxs := (ctxs k)(c \<mapsto> ctx\<lparr>pstate := UNUSED\<rparr>)\<rparr>) p =
         refs k p - length (filter ((=) (Some p)) (files ctx)))"
  by (rule file_exit_refs_ok [OF assms]) blast

theorem exit_releases_files_witness:
  "\<exists>k'. do_file_exit sample_kernel 1 = Inr k' \<and>
     refs (k'\<lparr>ctxs := (ctxs sample_kernel)(1 \<mapsto> sample_ctx\<lparr>pstate := UNUSED\<rparr>)\<rparr>) 10 = 0"
proof -
  obtain k' where k': "do_file_exit sample_kernel 1 = Inr k'"
    "refs (k'\<lparr>ctxs := (ctxs sample_kernel)(1 \<mapsto> sample_ctx\<lparr>pstate := UNUSED\<rparr>)\<rparr>) 10 =
       refs sample_kernel 10 - length (filter ((=) (Some 10)) (files sample_ctx))"
    using exit_releases_files [OF sample_refs_ok sample_live] by blast
  have "Some 10 \<in> set (files sample_ctx)" by (simp add: sample_ctx_def k_const set_update_memI)
  then have "filter ((=) (Some 10)) (files sample_ctx) \<noteq> []" by (auto simp: filter_empty_conv)
  then have "0 < length (filter ((=) (Some 10)) (files sample_ctx))" by simp
  then have "refs sample_kernel 10 - length (filter ((=) (Some 10)) (files sample_ctx)) = 0"
    unfolding sample_refs by (simp add: Suc_le_eq)
  with k' show ?thesis by metis
qed

text \<open>
  C5: No file call faults when the caller keeps to the stated conditions: it returns, and the
  kernel invariant (well-formed inode table, right reference counts, positions inside the files)
  holds again.
\<close>

theorem file_calls_total:
  assumes "kernel_ok k" "live_ctx k c ctx" "may_call k ctx cl" "fheap k p = None"
  shows "\<exists>r k'. run_call d p page buf k c cl = Inr (r, k') \<and> kernel_ok k'"
  by (rule call_ok [OF assms])

theorem file_calls_total_witness:
  "\<exists>r k'. run_call sample_device 20 zero_page user_buf sample_kernel 1 (CWrite 3 user_buf 4000) = Inr (r, k') \<and> kernel_ok k'"
  using file_calls_total [OF sample_kernel_ok sample_live, of "CWrite 3 user_buf 4000" 20]
  by (simp add: fd_in_def fits_def fd_file_def sample_files k_const fs_const)

text \<open>
  In every state reachable by interleaved calls of the processes the kernel invariant holds.
\<close>

theorem reachable_kernel_ok:
  assumes "step\<^sup>*\<^sup>* k k'" "kernel_ok k"
  shows "kernel_ok k'"
  by (rule reachable_ok [OF assms])

theorem reachable_kernel_ok_witness:
  "\<exists>k'. run_call sample_device 20 zero_page user_buf sample_kernel 1 (CSeek 3 0 SEEK_END) = Inr (Some 5, k') \<and>
     sample_kernel \<noteq> k' \<and> kernel_ok k'"
proof -
  let ?k' = "put_file sample_kernel 10 (sample_file\<lparr>offp := 5\<rparr>)"

  have "do_lseek_regular sample_kernel (Some 10) 0 SEEK_END = Inr (5, ?k')"
    by (subst do_lseek_regular_eq [OF sample_open]) (simp add: sample_fs_0 sample_ino_def)
  moreover have "flseek (fops sample_file) = Some Do_lseek_regular" by (simp add: sample_file_def)
  ultimately have r: "run_call sample_device 20 zero_page user_buf sample_kernel 1 (CSeek 3 0 SEEK_END) = Inr (Some 5, ?k')"
    by (simp add: do_lseek_def returns_def sample_files k_const)
  have "step sample_kernel ?k'"
    by (rule step.call [OF sample_live _ _ r]) (simp_all add: fd_in_def k_const)
  then have "step\<^sup>*\<^sup>* sample_kernel ?k'" by (rule r_into_rtranclp)
  from reachable_kernel_ok [OF this sample_kernel_ok] have "kernel_ok ?k'" .
  moreover have "sample_kernel \<noteq> ?k'"
  proof
    assume "sample_kernel = ?k'"
    then have "fheap sample_kernel 10 = fheap ?k' 10" by simp
    then have "offp sample_file = 5" by (metis put_file_simps fun_upd_same sample_kernel_simps(3) option.inject file_obj.select_convs(3) file_obj.surjective file_obj.update_convs(3))
    then show False by simp
  qed
  ultimately show ?thesis using r by blast
qed

end
