(* ===== verification/QueueProperties.thy ===== *)
theory QueueProperties
  imports Samples
begin

text \<open>
  What the message queue calls promise, as properties of \<^verbatim>\<open>msg_queue.c\<close>. The calls are stated on a
  descriptor of a queue the caller is a member of; the abstract queue is its member list, its
  list of messages in the order of arrival and the set of pairs \<open>(a, b)\<close> where \<open>a\<close> has blocked
  \<open>b\<close>.
\<close>

section \<open>A member's descriptor\<close>

definition queue_fd :: "kernel \<Rightarrow> nat \<Rightarrow> nat \<Rightarrow> exec_context \<Rightarrow> nat \<Rightarrow> msg_queue_info \<Rightarrow> bool" where
  "queue_fd k c p ctx qa mq \<longleftrightarrow>
     ctxs k c = Some ctx \<and> (\<exists>f. fheap k p = Some f \<and> msg_queue f = Some qa) \<and>
     qheap k qa = Some mq \<and> queue_inv mq \<and> pid ctx \<in> set (members mq) \<and> pid ctx \<noteq> BROADCAST_PID"

lemma queue_fdD:
  assumes "queue_fd k c p ctx qa mq"
  shows "ctxs k c = Some ctx" "\<exists>f. fheap k p = Some f \<and> msg_queue f = Some qa" "qheap k qa = Some mq"
    "queue_inv mq" "mq_ok mq" "pid ctx \<in> set (members mq)" "pid ctx \<noteq> BROADCAST_PID"
    "\<exists>i. find_member mq (pid ctx) = Inr (Some i)"
proof -
  show "\<exists>i. find_member mq (pid ctx) = Inr (Some i)"
  proof -
    have "mq_ok mq" using assms by (simp add: queue_fd_def queue_inv_def)
    then show ?thesis
      by (cases rule: find_member_cases [of mq "pid ctx"]) (use assms in \<open>auto simp: queue_fd_def\<close>)
  qed
qed (use assms in \<open>auto simp: queue_fd_def queue_inv_def\<close>)

lemma put_queue_same: "qheap k qa = Some mq \<Longrightarrow> put_queue k qa mq = k"
  by (simp add: put_queue_def fun_upd_idem)

lemma send_on:
  "queue_fd k c p ctx qa mq \<Longrightarrow> do_msg_queue_send k c (Some p) (Some msg) =
     bind_res (send_body (pid ctx) msg mq) (\<lambda>(r, mq'). Inr (r, put_queue k qa mq'))"
  using queue_fdD(1,2,3,8) [of k c p ctx qa mq] by (auto simp: do_msg_queue_send_def with_queue_def)

lemma rcv_on:
  "queue_fd k c p ctx qa mq \<Longrightarrow> do_msg_queue_rcv k c (Some p) True =
     bind_res (rcv_body (pid ctx) mq) (\<lambda>(r, out, mq'). Inr (r, out, put_queue k qa mq'))"
  using queue_fdD(1,2,3,8) [of k c p ctx qa mq] by (auto simp: do_msg_queue_rcv_def with_queue_def)

lemma count_on:
  "queue_fd k c p ctx qa mq \<Longrightarrow> do_get_msg_count k c (Some p) =
     bind_res (count_messages (pid ctx) mq) (\<lambda>n. Inr (n, k))"
  using queue_fdD(1,2,3,8) [of k c p ctx qa mq] by (auto simp: do_get_msg_count_def with_queue_def)

lemma block_on:
  "queue_fd k c p ctx qa mq \<Longrightarrow> 0 \<le> pd \<Longrightarrow> do_msg_queue_block k c (Some p) pd =
     bind_res (block_body (pid ctx) pd mq) (\<lambda>(r, mq'). Inr (r, put_queue k qa mq'))"
  using queue_fdD(1,2,3) [of k c p ctx qa mq] by (auto simp: do_msg_queue_block_def with_queue_def)

lemma recipients_abstract:
  assumes "mq_ok mq" "pd \<noteq> BROADCAST_PID"
  shows "set (recipients pd mq) = {a \<in> set (members mq). a \<noteq> pd \<and> (a, pd) \<notin> blocks mq}"
  unfolding recipients_spec(1) [OF assms(1)]
  using blocks_iff [OF assms(1) _ assms(2)] by (auto simp: in_set_conv_nth)

text \<open>A queue of three members with one message, and a process that has it open.\<close>

definition zero_msg :: message where
  "zero_msg = \<lparr>from_pid = 0, to_pid = 0, msg_txt = ''''\<rparr>"

definition hello :: message where
  "hello = \<lparr>from_pid = 2, to_pid = 1, msg_txt = ''hello''\<rparr>"

definition sample_mq :: msg_queue_info where
  "sample_mq = \<lparr>member_count = 3, member_pid = [1, 2, 3, 0], msg_count = 1,
     msg_buffer = hello # replicate (MAX_MESSAGES - 1) zero_msg,
     block_process = replicate (MAX_MEMBERS * MAX_MEMBERS) (-1) @ [0, 0, 0]\<rparr>"

definition queue_ctx :: exec_context where
  "queue_ctx = sample_ctx\<lparr>files := (files sample_ctx)[5 := Some 12]\<rparr>"

lemma queue_ctx_pid [simp]: "pid queue_ctx = 1"
  by (simp add: queue_ctx_def sample_files)

definition queue_kernel :: kernel where
  "queue_kernel = sample_kernel\<lparr>fheap := [10 \<mapsto> sample_file, 12 \<mapsto> sample_file\<lparr>fops := no_fops, msg_queue := Some 30\<rparr>],
     qheap := [30 \<mapsto> sample_mq], ctxs := [1 \<mapsto> queue_ctx]\<rparr>"

lemma sample_members: "members sample_mq = [1, 2, 3]" "messages sample_mq = [hello]"
  by (simp_all add: members_def messages_def sample_mq_def k_const)

lemma sample_rows: "i < MAX_MEMBERS \<Longrightarrow> block_row sample_mq i = replicate MAX_MEMBERS (-1)"
  using block_index [of i] by (auto simp: list_eq_iff_nth_eq nth_block_row sample_mq_def nth_append)

lemma sample_queue_inv: "queue_inv sample_mq"
  by (auto simp: queue_inv_def mq_ok_def rows_ok_def sample_rows sample_members)
    (simp_all add: sample_mq_def k_const)

lemma sample_blocks: "blocks sample_mq = {}"
  using sample_rows row_blocks_replicate [of sample_mq] by (auto simp: blocks_def sample_members k_const)

lemma sample_queue_fd: "queue_fd queue_kernel 1 12 queue_ctx 30 sample_mq"
  by (simp add: queue_fd_def queue_kernel_def sample_queue_inv sample_members BROADCAST_PID_def)

section \<open>Order\<close>




section \<open>Sending\<close>



text \<open>
  A message to another member that nobody's row refuses is appended unchanged and \<open>1\<close> is
  returned.
\<close>

theorem unicast_contract:
  assumes fd: "queue_fd k c p ctx qa mq" and i: "i < length (members mq)" "members mq ! i = to_pid msg"
    and msg: "from_pid msg = pid ctx" "to_pid msg \<noteq> pid ctx" "to_pid msg \<noteq> BROADCAST_PID"
    and free: "\<forall>j < MAX_PROCESSES. word_of_int (block_process mq ! (i * MAX_MEMBERS + j)) \<noteq> pid ctx"
    and room: "length (messages mq) < MAX_MESSAGES"
  shows "\<exists>mq'. do_msg_queue_send k c (Some p) (Some msg) = Inr (1, put_queue k qa mq') \<and>
    messages mq' = messages mq @ [msg] \<and> members mq' = members mq \<and> blocks mq' = blocks mq \<and> queue_inv mq'"
proof -
  note q = queue_fdD [OF fd]
  obtain mq' where mq': "unicast (pid ctx) msg mq = Inr (1, mq')" "members mq' = members mq"
    "messages mq' = messages mq @ [msg]" "blocks mq' = blocks mq"
    by (rule unicast_delivers [OF q(5) i free room])
  have s: "send_body (pid ctx) msg mq = Inr (1, mq')" using mq'(1) msg by (simp add: send_body_def)
  show ?thesis
    using send_on [OF fd, of msg] s mq' send_body_inv [OF q(4) s] by (intro exI [of _ mq']) simp
qed

theorem unicast_contract_witness:
  "\<exists>mq'. do_msg_queue_send queue_kernel 1 (Some 12) (Some \<lparr>from_pid = 1, to_pid = 3, msg_txt = ''hi''\<rparr>) =
     Inr (1, put_queue queue_kernel 30 mq') \<and>
     messages mq' = [hello, \<lparr>from_pid = 1, to_pid = 3, msg_txt = ''hi''\<rparr>]"
proof -
  let ?msg = "\<lparr>from_pid = 1, to_pid = 3, msg_txt = ''hi''\<rparr>"
  have "\<forall>j < MAX_PROCESSES. word_of_int (block_process sample_mq ! (2 * MAX_MEMBERS + j)) \<noteq> (1 :: u32)"
    by (auto simp: sample_mq_def k_const nth_append)
  from unicast_contract [OF sample_queue_fd, of 2 ?msg, unfolded queue_ctx_pid, OF _ _ _ _ _ this]
  show ?thesis by (auto simp: sample_members BROADCAST_PID_def k_const)
qed

text \<open>
  A message to a member that has blocked the sender is refused with \<open>-EINVAL\<close>, and nothing
  changes.
\<close>

theorem blocked_sender_refused:
  assumes fd: "queue_fd k c p ctx qa mq" and b: "(to_pid msg, pid ctx) \<in> blocks mq"
    and to: "to_pid msg \<noteq> BROADCAST_PID"
  shows "do_msg_queue_send k c (Some p) (Some msg) = Inr (-EINVAL, k)"
proof -
  note q = queue_fdD [OF fd]
  obtain i where "i < length (members mq)" "members mq ! i = to_pid msg" "row_blocks mq i (pid ctx)"
    using b by (auto simp: blocks_def)
  from unicast_blocked [OF q(5) this] to send_on [OF fd, of msg] put_queue_same [OF q(3)]
  show ?thesis by (simp add: send_body_def)
qed

text \<open>
  Bug: the row of the block table is read \<open>MAX_PROCESSES\<close> wide, so that a message is refused
  when the member after the recipient has blocked the sender in one of its first three entries.
\<close>

theorem neighbour_block_refuses:
  assumes fd: "queue_fd k c p ctx qa mq" and i: "i < length (members mq)" "members mq ! i = to_pid msg"
    and to: "to_pid msg \<noteq> BROADCAST_PID" and j: "j < MAX_PROCESSES - MAX_MEMBERS"
    and row: "word_of_int (block_process mq ! (Suc i * MAX_MEMBERS + j)) = pid ctx"
  shows "do_msg_queue_send k c (Some p) (Some msg) = Inr (-EINVAL, k)"
proof -
  note q = queue_fdD [OF fd]
  from unicast_overread [OF q(5) i j row] to send_on [OF fd, of msg] put_queue_same [OF q(3)]
  show ?thesis by (simp add: send_body_def)
qed

text \<open>Member 3 of the sample queue has blocked process 1.\<close>

definition blocking_mq :: msg_queue_info where
  "blocking_mq = sample_mq\<lparr>block_process := (block_process sample_mq)[8 := 1]\<rparr>"

definition blocking_kernel :: kernel where
  "blocking_kernel = queue_kernel\<lparr>qheap := [30 \<mapsto> blocking_mq]\<rparr>"

lemma blocking_members: "members blocking_mq = [1, 2, 3]"
  using sample_members by (simp add: blocking_mq_def members_def)

lemma blocking_row:
  assumes "i < MAX_MEMBERS"
  shows "block_row blocking_mq i = (if i = 2 then (replicate MAX_MEMBERS (-1))[0 := 1] else replicate MAX_MEMBERS (-1))"
  using block_row_update [of sample_mq 2 0 1] sample_queue_inv sample_rows assms
  by (simp add: blocking_mq_def queue_inv_def k_const)

lemma blocking_queue_fd:
  "queue_fd blocking_kernel 1 12 queue_ctx 30 blocking_mq"
proof -
  have "mq_ok blocking_mq" using sample_queue_inv
    by (simp add: queue_inv_def mq_ok_def blocking_members sample_members) (simp add: blocking_mq_def)
  moreover have "unat (member_count blocking_mq) = 3" by (simp add: blocking_mq_def sample_mq_def)
  then have "rows_ok blocking_mq" by (auto simp: rows_ok_def blocking_row)
  ultimately show ?thesis
    using sample_queue_fd by (simp add: queue_fd_def blocking_kernel_def blocking_members sample_members queue_inv_def)
qed

theorem blocked_sender_refused_witness:
  "do_msg_queue_send blocking_kernel 1 (Some 12) (Some \<lparr>from_pid = 1, to_pid = 3, msg_txt = ''hi''\<rparr>) =
     Inr (-EINVAL, blocking_kernel)"
proof -
  have "row_blocks blocking_mq 2 1" by (simp add: row_blocks_def blocking_row k_const set_update_memI [THEN rev_bexI])
  then have "(3, 1) \<in> blocks blocking_mq"
    by (auto simp: blocks_def blocking_members BROADCAST_PID_def intro!: exI [of _ 2])
  then show ?thesis
    using blocked_sender_refused [OF blocking_queue_fd, of "\<lparr>from_pid = 1, to_pid = 3, msg_txt = ''hi''\<rparr>"]
    by (simp add: BROADCAST_PID_def)
qed

theorem neighbour_block_refuses_witness:
  "(2, 1) \<notin> blocks blocking_mq \<and>
   do_msg_queue_send blocking_kernel 1 (Some 12) (Some \<lparr>from_pid = 1, to_pid = 2, msg_txt = ''hi''\<rparr>) =
     Inr (-EINVAL, blocking_kernel)"
proof
  show "(2, 1) \<notin> blocks blocking_mq"
  proof
    assume "(2, 1) \<in> blocks blocking_mq"
    then obtain i where i: "i < length [1, 2, 3 :: u32]" "[1, 2, 3] ! i = (2 :: u32)" "row_blocks blocking_mq i 1"
      unfolding blocks_def blocking_members by blast
    then have "i = 1" by (auto simp: less_Suc_eq numeral_3_eq_3)
    with i(3) show False by (simp add: row_blocks_def blocking_row k_const)
  qed
  have "block_process blocking_mq ! 8 = 1" by (simp add: blocking_mq_def sample_mq_def k_const)
  then show "do_msg_queue_send blocking_kernel 1 (Some 12) (Some \<lparr>from_pid = 1, to_pid = 2, msg_txt = ''hi''\<rparr>) =
     Inr (-EINVAL, blocking_kernel)"
    using neighbour_block_refuses [OF blocking_queue_fd, of 1 "\<lparr>from_pid = 1, to_pid = 2, msg_txt = ''hi''\<rparr>" 0]
    by (simp add: blocking_members BROADCAST_PID_def k_const)
qed


section \<open>Receiving\<close>

text \<open>
  C18: A receive delivers the oldest message addressed to the caller, removes it and nothing else,
  and returns \<open>1\<close>; it returns \<open>0\<close> exactly when there is none. The count call returns the number
  of messages that receives will deliver.
\<close>

theorem receive_contract:
  assumes fd: "queue_fd k c p ctx qa mq"
  shows "do_get_msg_count k c (Some p) = Inr (int (length (addressed (pid ctx) (messages mq))), k) \<and>
    (case addressed (pid ctx) (messages mq) of
       [] \<Rightarrow> do_msg_queue_rcv k c (Some p) True = Inr (0, None, k)
     | m # ms \<Rightarrow> \<exists>mq'. do_msg_queue_rcv k c (Some p) True = Inr (1, Some m, put_queue k qa mq') \<and>
         (\<exists>xs ys. messages mq = xs @ m # ys \<and> messages mq' = xs @ ys) \<and>
         (\<forall>pd. addressed pd (messages mq') = (if pd = pid ctx then ms else addressed pd (messages mq))) \<and>
         members mq' = members mq \<and> queue_inv mq')"
proof -
  note q = queue_fdD [OF fd]
  note o = mq_okD [OF q(5)]
  have "count_messages (pid ctx) mq = Inr (int (length (addressed (pid ctx) (messages mq))))"
    using o by (simp add: count_messages_def addressed_def messages_def)
  then have count: "do_get_msg_count k c (Some p) = Inr (int (length (addressed (pid ctx) (messages mq))), k)"
    by (simp add: count_on [OF fd])
  from q(5) show ?thesis
  proof (cases rule: rcv_body_cases [of mq "pid ctx"])
    case empty
    then have none: "addressed (pid ctx) (messages mq) = []" by (auto simp: addressed_def filter_empty_conv)
    show ?thesis
      using count empty none rcv_on [OF fd] put_queue_same [OF q(3)] by simp
  next
    case (got xs m ys mq')
    note g = mq.get_addressed [OF q(5) got(1)]
    define ms where "ms = addressed (pid ctx) (messages mq')"
    have ms: "addressed (pid ctx) (messages mq) = m # ms" using g by (simp add: ms_def)
    have r: "do_msg_queue_rcv k c (Some p) True = Inr (1, Some m, put_queue k qa mq')"
      using rcv_on [OF fd] got(1) by simp
    have "\<exists>mq'. do_msg_queue_rcv k c (Some p) True = Inr (1, Some m, put_queue k qa mq') \<and>
         (\<exists>xs ys. messages mq = xs @ m # ys \<and> messages mq' = xs @ ys) \<and>
         (\<forall>pd. addressed pd (messages mq') =
            (if pd = pid ctx then ms else addressed pd (messages mq))) \<and>
         members mq' = members mq \<and> queue_inv mq'"
    proof (intro exI [of _ mq'] conjI allI r)
      show "\<exists>xs ys. messages mq = xs @ m # ys \<and> messages mq' = xs @ ys" using got by blast
      show "addressed pd (messages mq') =
            (if pd = pid ctx then ms else addressed pd (messages mq))" for pd
        using g [of pd] by (simp add: ms_def)
      show "queue_inv mq'" by (rule rcv_body_inv [OF q(4) got(1)])
      show "members mq' = members mq" using got by simp
    qed
    with count show ?thesis unfolding ms by simp
  qed
qed

theorem receive_contract_witness:
  "\<exists>mq'. do_msg_queue_rcv queue_kernel 1 (Some 12) True = Inr (1, Some hello, put_queue queue_kernel 30 mq') \<and>
     messages mq' = []"
proof -
  have "addressed (pid queue_ctx) (messages sample_mq) = [hello]"
    by (simp add: addressed_def sample_members hello_def)
  with receive_contract [OF sample_queue_fd] show ?thesis
    by (auto simp: sample_members Cons_eq_append_conv)
qed

section \<open>Blocking, leaving, joining\<close>

text \<open>
  A successful block adds exactly the pair of the caller and the blocked member; the call
  succeeds only for another member, and a refused call changes nothing.
\<close>

theorem block_contract:
  assumes fd: "queue_fd k c p ctx qa mq" and pd: "0 \<le> pd" "pd < 2 ^ 31"
    and eq: "do_msg_queue_block k c (Some p) pd = Inr (r, k')"
  shows "(r = -EINVAL \<and> k' = k) \<or>
    (r = 0 \<and> word_of_int pd \<in> set (members mq) \<and> word_of_int pd \<noteq> pid ctx \<and>
     (\<exists>mq'. k' = put_queue k qa mq' \<and> blocks mq' = insert (pid ctx, word_of_int pd) (blocks mq) \<and>
        members mq' = members mq \<and> messages mq' = messages mq \<and> queue_inv mq'))"
proof -
  note q = queue_fdD [OF fd]
  obtain mq' where b: "block_body (pid ctx) pd mq = Inr (r, mq')" "k' = put_queue k qa mq'"
    using eq by (auto simp: block_on [OF fd pd(1)] bind_res_Inr)
  have "uint (word_of_int pd :: u32) < uint BROADCAST_PID"
    using pd by (subst uint_u32_of_int) (simp_all add: BROADCAST_PID_def)
  then have nb: "(word_of_int pd :: u32) \<noteq> BROADCAST_PID" by auto
  from q(5) b(1) show ?thesis
  proof (cases rule: block_body_cases)
    case refused
    with b(2) put_queue_same [OF q(3)] show ?thesis by simp
  next
    case (blocks i)
    have "MsgQueue.blocks mq' = insert (pid ctx, word_of_int pd) (MsgQueue.blocks mq)"
      using block_body_blocks(4) [OF q(5) _ nb] b(1) blocks(1) by simp
    with b(2) blocks(1,4,5,7,8) block_body_inv [OF q(4) b(1)] show ?thesis
      by (intro disjI2) auto
  qed
qed


theorem block_contract_witness:
  "\<exists>mq'. do_msg_queue_block queue_kernel 1 (Some 12) 3 = Inr (0, put_queue queue_kernel 30 mq') \<and>
     blocks mq' = {(1, 3)}"
proof -
  have ok: "mq_ok sample_mq" using sample_queue_inv by (simp add: queue_inv_def)
  have f: "find_member sample_mq 1 = Inr (Some 0)" "find_member sample_mq 3 = Inr (Some 2)"
    by (simp_all add: find_member_eq [OF ok] sample_members upt_conv_Cons)
  have "block_row sample_mq 0 = replicate MAX_MEMBERS (-1)" by (simp add: sample_rows k_const)
  then obtain mq' where b: "block_body 1 3 sample_mq = Inr (0, mq')"
    by (simp add: block_body_def last_member_eq [OF ok] f k_const upt_conv_Cons)
  then have eq: "do_msg_queue_block queue_kernel 1 (Some 12) 3 = Inr (0, put_queue queue_kernel 30 mq')"
    using block_on [OF sample_queue_fd, of 3] by simp
  from block_contract [OF sample_queue_fd _ _ eq] eq show ?thesis
    by (auto simp: sample_blocks EINVAL_def)
qed

text \<open>What a successful close does, in terms of the abstract queue.\<close>

lemma close_abstract:
  assumes ok: "queues_ok k" and eq: "do_msg_queue_close k c fd = Inr (0, k')"
  shows "\<exists>ctx p f qa mq. ctxs k c = Some ctx \<and> get_fd k c fd = Inr (Some p) \<and> fheap k p = Some f \<and>
    msg_queue f = Some qa \<and> qheap k qa = Some mq \<and> pid ctx \<in> set (members mq) \<and>
    ctxs k' = (ctxs k)(c \<mapsto> ctx\<lparr>files := (files ctx)[nat fd := None]\<rparr>) \<and>
    (\<forall>qa'. qa' \<noteq> qa \<longrightarrow> qheap k' qa' = qheap k qa') \<and>
    (if members mq = [pid ctx] then qheap k' qa = None \<and> fheap k' = (fheap k)(p := None)
     else fheap k' = fheap k \<and> (\<exists>mq'. qheap k' qa = Some mq' \<and>
       members mq' = remove1 (pid ctx) (members mq) \<and>
       messages mq' = filter (\<lambda>msg. to_pid msg \<noteq> pid ctx) (messages mq) \<and>
       blocks mq' = {(a, b) \<in> blocks mq. a \<noteq> pid ctx \<and> b \<noteq> pid ctx}))"
  using ok eq
proof (cases rule: close_cases)
  case refused
  then show ?thesis by (simp add: EINVAL_def)
next
  case (left ctx p f qa mq i)
  note inv = queue_invD [OF left(9)]
  have one: "members mq = [pid ctx] \<longleftrightarrow> length (members mq) = 1"
    using left(10,11) by (cases "members mq") auto
  have "remove1 (pid ctx) (members mq) = take i (members mq) @ drop (Suc i) (members mq)"
  proof -
    have m: "members mq = take i (members mq) @ pid ctx # drop (Suc i) (members mq)"
      using id_take_nth_drop [OF left(10)] left(11) by simp
    have "distinct (take i (members mq) @ pid ctx # drop (Suc i) (members mq))"
      unfolding m [symmetric] by (rule mq_okD(3) [OF inv(1)])
    then have "pid ctx \<notin> set (take i (members mq))" by simp
    with m show ?thesis by (metis remove1_append remove1.simps(2))
  qed
  then have l: "members (leave_queue (pid ctx) i mq) = remove1 (pid ctx) (members mq)"
    "messages (leave_queue (pid ctx) i mq) = filter (\<lambda>msg. to_pid msg \<noteq> pid ctx) (messages mq)"
    "blocks (leave_queue (pid ctx) i mq) = {(a, b) \<in> blocks mq. a \<noteq> pid ctx \<and> b \<noteq> pid ctx}"
    using leave_members [OF inv(1) left(10)] leave_blocks [OF inv left(10,11)] by simp_all
  have g: "get_fd k c fd = Inr (Some p)" "pid ctx \<in> set (members mq)"
    using left by (auto simp: in_set_conv_nth)
  show ?thesis
    by (intro exI [of _ ctx] exI [of _ p] exI [of _ f] exI [of _ qa] exI [of _ mq])
      (use left(2,6,7,8,12,13,14) g l one in simp)
qed

text \<open>
  C28: Closing a queue removes the caller, the messages addressed to it and the pairs it occurs in,
  and nothing else; the last member's close frees the queue and the file object. The descriptor is
  closed, and no other.
\<close>

theorem close_contract:
  assumes ok: "queues_ok k" and eq: "do_msg_queue_close k c fd = Inr (0, k')"
  shows "\<exists>ctx p f qa mq. ctxs k c = Some ctx \<and> get_fd k c fd = Inr (Some p) \<and> fheap k p = Some f \<and>
    msg_queue f = Some qa \<and> qheap k qa = Some mq \<and> pid ctx \<in> set (members mq) \<and>
    ctxs k' = (ctxs k)(c \<mapsto> ctx\<lparr>files := (files ctx)[nat fd := None]\<rparr>) \<and>
    (\<forall>qa'. qa' \<noteq> qa \<longrightarrow> qheap k' qa' = qheap k qa') \<and>
    (if members mq = [pid ctx] then qheap k' qa = None \<and> fheap k' = (fheap k)(p := None)
     else fheap k' = fheap k \<and> (\<exists>mq'. qheap k' qa = Some mq' \<and>
       members mq' = remove1 (pid ctx) (members mq) \<and>
       messages mq' = filter (\<lambda>msg. to_pid msg \<noteq> pid ctx) (messages mq) \<and>
       blocks mq' = {(a, b) \<in> blocks mq. a \<noteq> pid ctx \<and> b \<noteq> pid ctx}))"
  by (rule close_abstract [OF ok eq])

lemma queue_get_fd: "get_fd queue_kernel 1 5 = Inr (Some 12)"
  using sample_files by (simp add: queue_kernel_def queue_ctx_def k_const)

lemma queue_kernel_queues_ok: "queues_ok queue_kernel"
  using sample_queue_inv by (simp add: queues_ok_def queue_kernel_def)

theorem close_contract_witness:
  "\<exists>k' mq'. do_msg_queue_close queue_kernel 1 5 = Inr (0, k') \<and> qheap k' 30 = Some mq' \<and>
     members mq' = [2, 3] \<and> messages mq' = []"
proof -
  have ok: "mq_ok sample_mq" using sample_queue_inv by (simp add: queue_inv_def)
  have f: "find_member sample_mq 1 = Inr (Some 0)"
    by (simp add: find_member_eq [OF ok] sample_members upt_conv_Cons)
  have mc: "member_count (leave_queue 1 0 sample_mq) \<noteq> 0"
    by (simp add: leave_queue_def Let_def sample_mq_def split: prod.split)
  obtain k' where k': "do_msg_queue_close queue_kernel 1 5 = Inr (0, k')"
    unfolding do_msg_queue_close_def queue_get_fd
    using f mc sample_files by (auto simp: with_queue_def queue_kernel_def Let_def queue_ctx_def put_queue_def k_const)
  from close_contract [OF queue_kernel_queues_ok k'] queue_get_fd
  obtain qa mq mq' where "msg_queue (sample_file\<lparr>fops := no_fops, msg_queue := Some 30\<rparr>) = Some qa"
    "qheap queue_kernel qa = Some mq" "qheap k' qa = Some mq'" "members mq' = remove1 1 (members mq)"
    "messages mq' = filter (\<lambda>msg. to_pid msg \<noteq> 1) (messages mq)"
    by (auto simp: queue_kernel_def sample_members split: if_splits)
  with k' show ?thesis
    by (auto simp: queue_kernel_def sample_members hello_def)
qed





definition child_ctx :: exec_context where
  "child_ctx = queue_ctx\<lparr>pid := 4, ppid := 1\<rparr>"

definition child_kernel :: kernel where
  "child_kernel = queue_kernel\<lparr>ctxs := [1 \<mapsto> queue_ctx, 4 \<mapsto> child_ctx]\<rparr>"

lemma child_files: "files child_ctx = [None, None, None, Some 10, None, Some 12] @ replicate 10 None"
  by (simp add: child_ctx_def queue_ctx_def sample_ctx_def k_const eval_nat_numeral)

lemma child_queues: "List.map_filter (queue_of child_kernel) (files child_ctx) = [30]"
proof -
  have "List.map_filter (queue_of child_kernel) (replicate n None) = []" for n
    by (induction n) (simp_all add: map_filter_simps queue_of_def)
  then show ?thesis
    unfolding child_files
    by (simp add: map_filter_def queue_of_def child_kernel_def queue_kernel_def)
qed



definition full_mq :: msg_queue_info where
  "full_mq = sample_mq\<lparr>member_count := 4, member_pid := [1, 2, 3, 4]\<rparr>"


end
