(* ===== verification/Debugger.thy ===== *)
theory Debugger
  imports UserMemory
begin

text \<open>
  The debugger support of the kernel, \<^verbatim>\<open>Assignment4/debug.c\<close> and \<^verbatim>\<open>debug.h\<close>
  (\<^verbatim>\<open>Assignment3/mmap.c\<close> is the same file): the breakpoint list, the breakpoint handler
  with its walk up the stack frames, and the hand-over between debugger and debuggee.

  The C list behind \<open>head\<close> is a list here, first node first. Contexts are named by their pid, as
  \<open>get_ctx_by_pid\<close> finds them. \<open>os_alloc\<close> is outside \<^verbatim>\<open>src/\<close>: an operation that allocates takes
  whether it got memory. User memory is the flat memory of the prelude, all of it mapped.
\<close>

section \<open>State\<close>

definition MAX_BACKTRACE :: nat where "MAX_BACKTRACE = 64"
definition MAX_BREAKPOINTS :: nat where "MAX_BREAKPOINTS = 8"
definition INT3_OPCODE :: u8 where "INT3_OPCODE = 0xCC"
definition PUSHRBP_OPCODE :: u8 where "PUSHRBP_OPCODE = 0x55"
definition END_ADDR :: u64 where "END_ADDR = 0x10000003B"
definition CHILD_EXIT :: u64 where "CHILD_EXIT = 0"

named_theorems dbg_const "the sizes and opcodes of debug.h as numerals"

declare MAX_BACKTRACE_def [dbg_const] MAX_BREAKPOINTS_def [dbg_const] INT3_OPCODE_def [dbg_const]
  PUSHRBP_OPCODE_def [dbg_const] END_ADDR_def [dbg_const] CHILD_EXIT_def [dbg_const]

record breakpoint_info =
  bp_num :: u32
  bp_status :: u32
  bp_addr :: u64

record debug_info =
  head :: "breakpoint_info list"
  bp_size :: int
  breakpt_num :: int
  backtrace_info :: "u64 list"

record registers =
  r15 :: u64
  r14 :: u64
  r13 :: u64
  r12 :: u64
  r11 :: u64
  r10 :: u64
  r9 :: u64
  r8 :: u64
  rbp :: u64
  rdi :: u64
  rsi :: u64
  rdx :: u64
  rcx :: u64
  rbx :: u64
  rax :: u64
  entry_rip :: u64
  entry_cs :: u64
  entry_rflags :: u64
  entry_rsp :: u64
  entry_ss :: u64

record dbg_context =
  d_pid :: u32
  d_ppid :: u32
  d_state :: process_state
  d_regs :: registers
  dbg :: "debug_info option"

text \<open>\<open>scheduled\<close> is the context last handed to \<open>schedule\<close>.\<close>

record dbg_kernel =
  d_mem :: memory
  d_ctxs :: "u32 \<rightharpoonup> dbg_context"
  scheduled :: "u32 option"

definition d_ctx :: "dbg_kernel \<Rightarrow> u32 \<Rightarrow> dbg_context res" where
  "d_ctx k c = (case d_ctxs k c of None \<Rightarrow> Inl NullDeref | Some ctx \<Rightarrow> Inr ctx)"

definition put_ctx :: "dbg_kernel \<Rightarrow> u32 \<Rightarrow> dbg_context \<Rightarrow> dbg_kernel" where
  "put_ctx k c ctx = k\<lparr>d_ctxs := (d_ctxs k)(c \<mapsto> ctx)\<rparr>"

definition poke :: "u64 \<Rightarrow> u8 \<Rightarrow> dbg_kernel \<Rightarrow> dbg_kernel" where
  "poke a b k = k\<lparr>d_mem := (d_mem k)(a := b)\<rparr>"

section \<open>The breakpoint list\<close>

text \<open>The memory got is cleared.\<close>

definition alloc_debug_info :: "bool \<Rightarrow> debug_info option" where
  "alloc_debug_info got =
     (if got then Some \<lparr>head = [], bp_size = 0, breakpt_num = 0, backtrace_info = replicate MAX_BACKTRACE 0\<rparr>
      else None)"

definition alloc_breakpoint_info :: "bool \<Rightarrow> breakpoint_info option" where
  "alloc_breakpoint_info got = (if got then Some \<lparr>bp_num = 0, bp_status = 0, bp_addr = 0\<rparr> else None)"

declare alloc_debug_info_def [simp] alloc_breakpoint_info_def [simp]

definition do_become_debugger :: "bool \<Rightarrow> dbg_kernel \<Rightarrow> u32 \<Rightarrow> (int \<times> dbg_kernel) res" where
  "do_become_debugger got k c =
     bind_res (d_ctx k c) (\<lambda>ctx.
       case alloc_debug_info got of
         None \<Rightarrow> Inr (-1, put_ctx k c (ctx\<lparr>dbg := None\<rparr>))
       | Some d \<Rightarrow>
           Inr (0, put_ctx k c (ctx\<lparr>dbg := Some (d\<lparr>head := [], bp_size := 0, breakpt_num := 0\<rparr>)\<rparr>)))"

text \<open>
  The loops that look for a node by its address: the list with the node's status set, and the
  list without the node, or \<open>None\<close> when there is no such node.
\<close>

primrec set_status :: "u64 \<Rightarrow> u32 \<Rightarrow> breakpoint_info list \<Rightarrow> breakpoint_info list option" where
  "set_status a s [] = None"
| "set_status a s (b # bs) =
     (if bp_addr b = a then Some (b\<lparr>bp_status := s\<rparr> # bs)
      else map_option ((#) b) (set_status a s bs))"

primrec unlink :: "u64 \<Rightarrow> breakpoint_info list \<Rightarrow> breakpoint_info list option" where
  "unlink a [] = None"
| "unlink a (b # bs) =
     (if bp_addr b = a then Some bs else map_option ((#) b) (unlink a bs))"

text \<open>The parts of the handlers that work on the memory and on the debugger's own data.\<close>

definition set_bp :: "bool \<Rightarrow> u64 \<Rightarrow> memory \<times> debug_info \<Rightarrow> int \<times> memory \<times> debug_info" where
  "set_bp got a st =
     (let (m, d) = st
      in case set_status a 1 (head d) of
           Some bs \<Rightarrow> (0, m(a := INT3_OPCODE), d\<lparr>head := bs\<rparr>)
         | None \<Rightarrow>
             if bp_size d \<ge> int MAX_BREAKPOINTS then (-1, m, d)
             else (case alloc_breakpoint_info got of
                     None \<Rightarrow> (-1, m, d)
                   | Some b0 \<Rightarrow>
                       let n = breakpt_num d + 1;
                           b = b0\<lparr>bp_num := word_of_int n, bp_status := 1, bp_addr := a\<rparr>
                       in (0, m(a := INT3_OPCODE),
                           d\<lparr>breakpt_num := n, head := b # head d, bp_size := bp_size d + 1\<rparr>)))"

definition remove_bp :: "u64 \<Rightarrow> memory \<times> debug_info \<Rightarrow> int \<times> memory \<times> debug_info" where
  "remove_bp a st =
     (let (m, d) = st
      in case unlink a (head d) of
           Some bs \<Rightarrow> (0, m(a := PUSHRBP_OPCODE), d\<lparr>head := bs, bp_size := bp_size d - 1\<rparr>)
         | None \<Rightarrow> (-1, m, d))"

definition enable_bp :: "u64 \<Rightarrow> memory \<times> debug_info \<Rightarrow> int \<times> memory \<times> debug_info" where
  "enable_bp a st =
     (let (m, d) = st
      in case set_status a 1 (head d) of
           Some bs \<Rightarrow> (0, m(a := INT3_OPCODE), d\<lparr>head := bs\<rparr>)
         | None \<Rightarrow> (-1, m, d))"

definition disable_bp :: "u64 \<Rightarrow> memory \<times> debug_info \<Rightarrow> int \<times> memory \<times> debug_info" where
  "disable_bp a st =
     (let (m, d) = st
      in case set_status a 0 (head d) of
           Some bs \<Rightarrow> (0, m(a := PUSHRBP_OPCODE), d\<lparr>head := bs\<rparr>)
         | None \<Rightarrow> (-1, m, d))"

definition on_dbg ::
    "(memory \<times> debug_info \<Rightarrow> int \<times> memory \<times> debug_info) \<Rightarrow> dbg_kernel \<Rightarrow> u32 \<Rightarrow> (int \<times> dbg_kernel) res" where
  "on_dbg f k c =
     bind_res (d_ctx k c) (\<lambda>ctx.
       case dbg ctx of
         None \<Rightarrow> Inr (-1, k)
       | Some d \<Rightarrow>
           let (r, m, d') = f (d_mem k, d)
           in Inr (r, (put_ctx k c (ctx\<lparr>dbg := Some d'\<rparr>))\<lparr>d_mem := m\<rparr>))"

definition do_set_breakpoint :: "bool \<Rightarrow> dbg_kernel \<Rightarrow> u32 \<Rightarrow> u64 \<Rightarrow> (int \<times> dbg_kernel) res" where
  "do_set_breakpoint got k c a = on_dbg (set_bp got a) k c"

definition do_remove_breakpoint :: "dbg_kernel \<Rightarrow> u32 \<Rightarrow> u64 \<Rightarrow> (int \<times> dbg_kernel) res" where
  "do_remove_breakpoint k c a = on_dbg (remove_bp a) k c"

definition do_enable_breakpoint :: "dbg_kernel \<Rightarrow> u32 \<Rightarrow> u64 \<Rightarrow> (int \<times> dbg_kernel) res" where
  "do_enable_breakpoint k c a = on_dbg (enable_bp a) k c"

definition do_disable_breakpoint :: "dbg_kernel \<Rightarrow> u32 \<Rightarrow> u64 \<Rightarrow> (int \<times> dbg_kernel) res" where
  "do_disable_breakpoint k c a = on_dbg (disable_bp a) k c"

text \<open>
  \<open>do_info_breakpoints\<close> fills the user's array from the back, at \<open>size - idx - 1\<close>. \<open>ubp\<close> is that
  array (\<open>None\<close> for NULL); an index outside it is a fault.
\<close>

primrec fill_info ::
    "int \<Rightarrow> breakpoint_info list \<Rightarrow> nat \<Rightarrow> breakpoint_info list \<Rightarrow> breakpoint_info list res" where
  "fill_info sz [] idx ubp = Inr ubp"
| "fill_info sz (b # bs) idx ubp =
     (let i = sz - int idx - 1
      in if 0 \<le> i \<and> i < int (length ubp) then fill_info sz bs (Suc idx) (ubp[nat i := b])
         else Inl OutOfBounds)"

definition do_info_breakpoints ::
    "dbg_kernel \<Rightarrow> u32 \<Rightarrow> breakpoint_info list option \<Rightarrow> (int \<times> breakpoint_info list option) res" where
  "do_info_breakpoints k c ubp =
     (case ubp of
        None \<Rightarrow> Inr (-1, ubp)
      | Some us \<Rightarrow>
          bind_res (d_ctx k c) (\<lambda>ctx.
            case dbg ctx of
              None \<Rightarrow> Inr (-1, ubp)
            | Some d \<Rightarrow> bind_res (fill_info (bp_size d) (head d) 0 us) (\<lambda>us'. Inr (bp_size d, Some us'))))"

section \<open>The breakpoint handler\<close>

text \<open>
  The walk up the frames, with \<open>n = MAX_BACKTRACE - idx\<close> entries left: \<open>rb\<close> is
  \<open>rbp_address\<close>, \<open>ad\<close> the return address found beside it.
\<close>

primrec bt_loop :: "memory \<Rightarrow> nat \<Rightarrow> nat \<Rightarrow> u64 \<Rightarrow> u64 \<Rightarrow> u64 list \<Rightarrow> nat \<times> u64 list" where
  "bt_loop m 0 idx rb ad bt = (idx, bt)"
| "bt_loop m (Suc n) idx rb ad bt =
     (if ad = END_ADDR then (idx, bt)
      else let rb' = load64 m rb
           in bt_loop m n (Suc idx) rb' (load64 m (rb' + 8)) (bt[idx := ad]))"

definition fill_backtrace :: "memory \<Rightarrow> u64 \<Rightarrow> u64 \<Rightarrow> u64 list \<Rightarrow> u64 list" where
  "fill_backtrace m rip rsp bt =
     (let (idx, bt') = bt_loop m (MAX_BACKTRACE - 1) 1 rsp (load64 m (rsp + 8)) (bt[0 := rip - 1])
      in if idx < MAX_BACKTRACE then bt'[idx := END_ADDR] else bt')"

definition int3_handler :: "dbg_kernel \<Rightarrow> u32 \<Rightarrow> (int \<times> dbg_kernel) res" where
  "int3_handler k c =
     bind_res (d_ctx k c) (\<lambda>ctx.
       case d_ctxs k (d_ppid ctx) of
         None \<Rightarrow> Inr (-1, k)
       | Some parent \<Rightarrow>
           (case dbg parent of
              None \<Rightarrow> Inr (-1, k)
            | Some d \<Rightarrow>
                let rg = d_regs ctx;
                    rsp = entry_rsp rg - 8;
                    m = store64 (d_mem k) rsp (rbp rg);
                    k1 = put_ctx (k\<lparr>d_mem := m\<rparr>) c (ctx\<lparr>d_regs := rg\<lparr>entry_rsp := rsp\<rparr>, d_state := WAITING\<rparr>);
                    d' = d\<lparr>backtrace_info := fill_backtrace m (entry_rip rg) rsp (backtrace_info d)\<rparr>
                in bind_res (d_ctx k1 (d_ppid ctx)) (\<lambda>par.
                     Inr (0, (put_ctx k1 (d_ppid ctx)
                                (par\<lparr>d_state := READY, dbg := Some d',
                                     d_regs := (d_regs par)\<lparr>rax := entry_rip rg - 1\<rparr>\<rparr>))
                               \<lparr>scheduled := Some (d_ppid ctx)\<rparr>))))"

definition do_backtrace :: "dbg_kernel \<Rightarrow> u32 \<Rightarrow> bool \<Rightarrow> (int \<times> u64 list) res" where
  "do_backtrace k c bt_buf =
     bind_res (d_ctx k c) (\<lambda>ctx.
       case dbg ctx of
         None \<Rightarrow> Inr (-1, [])
       | Some d \<Rightarrow>
           if \<not> bt_buf then Inr (-1, [])
           else let bt = takeWhile (\<lambda>a. a \<noteq> END_ADDR) (take MAX_BACKTRACE (backtrace_info d))
                in Inr (int (length bt), bt))"

section \<open>Debugger and debuggee\<close>

definition debugger_on_fork :: "dbg_context \<Rightarrow> dbg_context" where
  "debugger_on_fork ctx = ctx\<lparr>dbg := None, d_state := WAITING\<rparr>"

definition debugger_on_exit :: "dbg_kernel \<Rightarrow> u32 \<Rightarrow> dbg_kernel res" where
  "debugger_on_exit k c =
     bind_res (d_ctx k c) (\<lambda>ctx.
       let k1 = put_ctx k c (ctx\<lparr>dbg := None\<rparr>)
       in case d_ctxs k1 (d_ppid ctx) of
            None \<Rightarrow> Inr k1
          | Some parent \<Rightarrow>
              if dbg parent = None then Inr k1
              else Inr (put_ctx k1 (d_ppid ctx)
                     (parent\<lparr>d_state := READY, d_regs := (d_regs parent)\<lparr>rax := CHILD_EXIT\<rparr>\<rparr>)))"

text \<open>The first live context, by pid from 1, whose parent is \<open>pd\<close>, with \<open>n\<close> pids left.\<close>

primrec child_from :: "dbg_kernel \<Rightarrow> u32 \<Rightarrow> nat \<Rightarrow> nat \<Rightarrow> u32 option res" where
  "child_from k pd ctr 0 = Inr None"
| "child_from k pd ctr (Suc n) =
     bind_res (d_ctx k (of_nat ctr)) (\<lambda>x.
       if d_state x \<noteq> UNUSED \<and> d_ppid x = pd then Inr (Some (of_nat ctr))
       else child_from k pd (Suc ctr) n)"

definition find_child :: "dbg_kernel \<Rightarrow> u32 \<Rightarrow> u32 option res" where
  "find_child k pd = child_from k pd 1 (MAX_PROCESSES - 1)"

definition do_info_registers :: "dbg_kernel \<Rightarrow> u32 \<Rightarrow> (int \<times> registers option) res" where
  "do_info_registers k c =
     bind_res (d_ctx k c) (\<lambda>ctx.
     bind_res (find_child k (d_pid ctx)) (\<lambda>ch.
       case ch of
         None \<Rightarrow> Inr (-1, None)
       | Some cc \<Rightarrow>
           bind_res (d_ctx k cc) (\<lambda>child.
             let rg = d_regs child
             in Inr (0, Some (rg\<lparr>entry_rip := entry_rip rg - 1, entry_rsp := entry_rsp rg + 8\<rparr>)))))"

definition do_wait_and_continue :: "dbg_kernel \<Rightarrow> u32 \<Rightarrow> (int \<times> dbg_kernel) res" where
  "do_wait_and_continue k c =
     bind_res (d_ctx k c) (\<lambda>ctx.
       if dbg ctx = None then Inr (-1, k)
       else bind_res (find_child k (d_pid ctx)) (\<lambda>ch.
         case ch of
           None \<Rightarrow> Inr (-1, k)
         | Some cc \<Rightarrow>
             let k1 = put_ctx k c (ctx\<lparr>d_state := WAITING\<rparr>)
             in bind_res (d_ctx k1 cc) (\<lambda>child.
                  let k2 = put_ctx k1 cc (child\<lparr>d_state := READY\<rparr>)
                  in bind_res (d_ctx k2 c) (\<lambda>ctx2.
                       Inr (-1, (put_ctx k2 c (ctx2\<lparr>d_regs := (d_regs ctx2)\<lparr>rax := -1\<rparr>\<rparr>))
                                 \<lparr>scheduled := Some cc\<rparr>)))))"

section \<open>The contract of the breakpoint table\<close>

text \<open>
  Abstractly the debugger holds a finite map from addresses to whether the breakpoint there is
  enabled, with at most \<open>MAX_BREAKPOINTS\<close> entries. The contract is stated over any implementation
  of the four operations; a client that runs a sequence of them sees the abstract machine.
\<close>

datatype bp_cmd = Set u64 | Remove u64 | Enable u64 | Disable u64

fun abs_cmd :: "bp_cmd \<Rightarrow> (u64 \<rightharpoonup> bool) \<Rightarrow> int \<times> (u64 \<rightharpoonup> bool)" where
  "abs_cmd (Set a) t =
     (if t a \<noteq> None \<or> card (dom t) < MAX_BREAKPOINTS then (0, t(a \<mapsto> True)) else (-1, t))"
| "abs_cmd (Remove a) t = (if t a \<noteq> None then (0, t(a := None)) else (-1, t))"
| "abs_cmd (Enable a) t = (if t a \<noteq> None then (0, t(a \<mapsto> True)) else (-1, t))"
| "abs_cmd (Disable a) t = (if t a \<noteq> None then (0, t(a \<mapsto> False)) else (-1, t))"

primrec run_cmds :: "('c \<Rightarrow> 's \<Rightarrow> int \<times> 's) \<Rightarrow> 'c list \<Rightarrow> 's \<Rightarrow> int list \<times> 's" where
  "run_cmds f [] s = ([], s)"
| "run_cmds f (c # cs) s =
     (let (r, s') = f c s; (rs, s'') = run_cmds f cs s' in (r # rs, s''))"

locale breakpoint_table =
  fixes exec :: "bp_cmd \<Rightarrow> 's \<Rightarrow> int \<times> 's"
    and table :: "'s \<Rightarrow> u64 \<rightharpoonup> bool"
    and invar :: "'s \<Rightarrow> bool"
  assumes exec_law: "invar s \<Longrightarrow> exec c s = (r, s') \<Longrightarrow> invar s' \<and> abs_cmd c (table s) = (r, table s')"
    and capacity: "invar s \<Longrightarrow> finite (dom (table s)) \<and> card (dom (table s)) \<le> MAX_BREAKPOINTS"
begin

lemma run_refines:
  assumes "invar s" "run_cmds exec cs s = (rs, s')"
  shows "run_cmds abs_cmd cs (table s) = (rs, table s')" "invar s'"
proof -
  have "run_cmds abs_cmd cs (table s) = (rs, table s') \<and> invar s'"
    using assms
  proof (induction cs arbitrary: s rs s')
    case (Cons c cs)
    obtain r s1 where s1: "exec c s = (r, s1)" by fastforce
    obtain rs1 s2 where s2: "run_cmds exec cs s1 = (rs1, s2)" by fastforce
    from exec_law [OF Cons.prems(1) s1] have "invar s1" "abs_cmd c (table s) = (r, table s1)" by simp_all
    with Cons.IH [OF _ s2] Cons.prems(2) s1 s2 show ?case by auto
  qed simp
  then show "run_cmds abs_cmd cs (table s) = (rs, table s')" "invar s'" by simp_all
qed

lemma never_full:
  assumes "invar s" "run_cmds exec cs s = (rs, s')"
  shows "card (dom (table s')) \<le> MAX_BREAKPOINTS"
  using capacity run_refines(2) [OF assms] by blast

end

section \<open>The list provides it\<close>

definition opcode :: "bool \<Rightarrow> u8" where
  "opcode e = (if e then INT3_OPCODE else PUSHRBP_OPCODE)"

definition table_of :: "breakpoint_info list \<Rightarrow> u64 \<rightharpoonup> bool" where
  "table_of bs = map_of (map (\<lambda>b. (bp_addr b, bp_status b = 1)) bs)"

definition bp_inv :: "memory \<times> debug_info \<Rightarrow> bool" where
  "bp_inv st \<longleftrightarrow> (let (m, d) = st in
     distinct (map bp_addr (head d)) \<and> bp_size d = int (length (head d)) \<and>
     length (head d) \<le> MAX_BREAKPOINTS \<and>
     (\<forall>a e. table_of (head d) a = Some e \<longrightarrow> m a = opcode e))"

fun bp_exec :: "bp_cmd \<Rightarrow> memory \<times> debug_info \<Rightarrow> int \<times> memory \<times> debug_info" where
  "bp_exec (Set a) st = set_bp True a st"
| "bp_exec (Remove a) st = remove_bp a st"
| "bp_exec (Enable a) st = enable_bp a st"
| "bp_exec (Disable a) st = disable_bp a st"

lemma table_of_simps [simp]:
  "table_of [] = Map.empty"
  "table_of (b # bs) = (table_of bs)(bp_addr b \<mapsto> bp_status b = 1)"
  by (simp_all add: table_of_def)

lemma dom_table_of: "dom (table_of bs) = bp_addr ` set bs"
  by (simp add: table_of_def dom_map_of_conv_image_fst image_image)

lemma table_of_None: "table_of bs a = None \<longleftrightarrow> a \<notin> bp_addr ` set bs"
  using dom_table_of [of bs] by blast

lemma card_table_of: "distinct (map bp_addr bs) \<Longrightarrow> card (dom (table_of bs)) = length bs"
  by (simp add: dom_table_of distinct_card flip: set_map)

lemma set_status_None: "set_status a s bs = None \<longleftrightarrow> table_of bs a = None"
  by (induction bs) auto

lemma set_status_Some:
  "set_status a s bs = Some bs' \<Longrightarrow>
   map bp_addr bs' = map bp_addr bs \<and> map bp_num bs' = map bp_num bs \<and>
   table_of bs' = (table_of bs)(a \<mapsto> s = 1)"
  by (induction bs arbitrary: bs') (auto split: if_splits simp: fun_upd_twist)

lemma unlink_None: "unlink a bs = None \<longleftrightarrow> table_of bs a = None"
  by (induction bs) auto

lemma unlink_Some:
  "unlink a bs = Some bs' \<Longrightarrow>
   \<exists>xs b ys. bs = xs @ b # ys \<and> bs' = xs @ ys \<and> bp_addr b = a \<and> (\<forall>x\<in>set xs. bp_addr x \<noteq> a)"
proof (induction bs arbitrary: bs')
  case (Cons b bs)
  show ?case
  proof (cases "bp_addr b = a")
    case True
    with Cons.prems show ?thesis by (intro exI [of _ "[]"]) auto
  next
    case False
    with Cons.prems obtain bs1 where "unlink a bs = Some bs1" "bs' = b # bs1" by auto
    with Cons.IH [of bs1] obtain xs c ys where "bs = xs @ c # ys" "bs1 = xs @ ys" "bp_addr c = a"
      "\<forall>x\<in>set xs. bp_addr x \<noteq> a" by blast
    with False \<open>bs' = b # bs1\<close> show ?thesis by (intro exI [of _ "b # xs"]) auto
  qed
qed simp

lemma table_of_app_None: "\<forall>x\<in>set xs. bp_addr x \<noteq> a \<Longrightarrow> table_of (xs @ ys) a = table_of ys a"
  by (induction xs) auto

lemma table_unlink:
  "unlink a bs = Some bs' \<Longrightarrow> distinct (map bp_addr bs) \<Longrightarrow> table_of bs' = (table_of bs)(a := None)"
proof (induction bs arbitrary: bs')
  case (Cons b bs)
  then show ?case
    by (auto simp: table_of_None fun_upd_twist split: if_splits)
qed simp

lemma bp_invD:
  assumes "bp_inv (m, d)"
  shows "distinct (map bp_addr (head d))" "bp_size d = int (length (head d))"
    "length (head d) \<le> MAX_BREAKPOINTS" "table_of (head d) a = Some e \<Longrightarrow> m a = opcode e"
  using assms by (auto simp: bp_inv_def)

text \<open>What a change of one entry has to come with.\<close>

lemma bp_inv_update:
  assumes "bp_inv (m, d)" "distinct (map bp_addr (head d'))" "bp_size d' = int (length (head d'))"
    "length (head d') \<le> MAX_BREAKPOINTS" "table_of (head d') = (table_of (head d))(a := e)"
    "\<forall>x. e = Some x \<longrightarrow> m' a = opcode x" "\<forall>b. b \<noteq> a \<longrightarrow> m' b = m b"
  shows "bp_inv (m', d')"
  using assms bp_invD(4) [OF assms(1)] by (auto simp: bp_inv_def split: if_splits)

lemma bp_exec_law:
  assumes inv: "bp_inv s" and eq: "bp_exec c s = (r, s')"
  shows "bp_inv s' \<and> abs_cmd c (table_of (head (snd s))) = (r, table_of (head (snd s')))"
proof -
  obtain m d where s: "s = (m, d)" by fastforce
  note i = bp_invD [OF inv [unfolded s]]
  have st: "bp_inv (m(a := opcode (v = 1)), d\<lparr>head := bs\<rparr>) \<and> table_of bs = (table_of (head d))(a \<mapsto> v = 1)"
    if "set_status a v (head d) = Some bs" for a v bs
  proof -
    note ss = set_status_Some [OF that]
    have "length bs = length (head d)" by (rule map_eq_imp_length_eq [OF conjunct1 [OF ss]])
    with ss i(1-3) have "bp_inv (m(a := opcode (v = 1)), d\<lparr>head := bs\<rparr>)"
      by (intro bp_inv_update [OF inv [unfolded s], of _ a "Some (v = 1)"]) simp_all
    with ss show ?thesis by simp
  qed
  have op: "opcode True = INT3_OPCODE" "opcode False = PUSHRBP_OPCODE" by (simp_all add: opcode_def)
  have card: "card (dom (table_of (head d))) = length (head d)" by (rule card_table_of [OF i(1)])
  show ?thesis
  proof (cases c)
    case (Set a)
    show ?thesis
    proof (cases "set_status a 1 (head d)")
      case None
      let ?n = "breakpt_num d + 1"
      let ?d = "d\<lparr>breakpt_num := ?n, head := \<lparr>bp_num = word_of_int ?n, bp_status = 1, bp_addr = a\<rparr> # head d,
                  bp_size := bp_size d + 1\<rparr>"
      have new: "table_of (head d) a = None" "a \<notin> bp_addr ` set (head d)"
        using None by (simp_all add: set_status_None table_of_None)
      then have "bp_inv (m(a := INT3_OPCODE), ?d)" if "length (head d) < MAX_BREAKPOINTS"
        using i(1-3) that op
        by (intro bp_inv_update [OF inv [unfolded s], of _ a "Some True"]) simp_all
      with new None Set eq inv i(1-3) card show ?thesis
        by (auto simp: s set_bp_def Let_def split: if_splits)
    next
      case (Some bs)
      from Set st [OF Some] eq Some set_status_None [of a 1 "head d"] show ?thesis
        by (auto simp: s set_bp_def op)
    qed
  next
    case (Remove a)
    show ?thesis
    proof (cases "unlink a (head d)")
      case None
      with Remove eq inv show ?thesis by (auto simp: s remove_bp_def unlink_None)
    next
      case (Some bs)
      note t = table_unlink [OF Some i(1)]
      obtain xs b ys where b: "head d = xs @ b # ys" "bs = xs @ ys" using unlink_Some [OF Some] by blast
      have "bp_inv (m(a := PUSHRBP_OPCODE), d\<lparr>head := bs, bp_size := bp_size d - 1\<rparr>)"
        using i(1-3) b t by (intro bp_inv_update [OF inv [unfolded s], of _ a None]) auto
      with Remove eq Some t unlink_None [of a "head d"] show ?thesis by (auto simp: s remove_bp_def)
    qed
  next
    case (Enable a)
    show ?thesis
    proof (cases "set_status a 1 (head d)")
      case None
      with Enable eq inv show ?thesis by (auto simp: s enable_bp_def set_status_None)
    next
      case (Some bs)
      from Enable st [OF Some] eq Some set_status_None [of a 1 "head d"] show ?thesis
        by (auto simp: s enable_bp_def op)
    qed
  next
    case (Disable a)
    show ?thesis
    proof (cases "set_status a 0 (head d)")
      case None
      with Disable eq inv show ?thesis by (auto simp: s disable_bp_def set_status_None)
    next
      case (Some bs)
      from Disable st [OF Some] eq Some set_status_None [of a 0 "head d"] show ?thesis
        by (auto simp: s disable_bp_def op)
    qed
  qed
qed

interpretation bp: breakpoint_table bp_exec "\<lambda>s. table_of (head (snd s))" bp_inv
proof unfold_locales
  fix s c r s'
  assume "bp_inv s" "bp_exec c s = (r, s')"
  then show "bp_inv s' \<and> abs_cmd c (table_of (head (snd s))) = (r, table_of (head (snd s')))"
    by (rule bp_exec_law)
next
  fix s assume "bp_inv s"
  then show "finite (dom (table_of (head (snd s)))) \<and> card (dom (table_of (head (snd s)))) \<le> MAX_BREAKPOINTS"
    using card_table_of [of "head (snd s)"] by (cases s) (simp add: bp_inv_def dom_table_of)
qed

text \<open>The slot a push takes does not meet the word above it.\<close>

lemma push_apart: "mem_range (a - 8) 8 \<inter> mem_range a 8 = {}"
proof -
  have False if "i < 8" "j < 8" "a - 8 + of_nat i = (a :: u64) + of_nat j" for i j :: nat
  proof -
    from that(3) have "(of_nat i :: u64) = of_nat (j + 8)" by (simp add: algebra_simps)
    with that(1,2) have "i = j + 8" by (subst (asm) of_nat_u64_inj) simp_all
    with that(1) show False by simp
  qed
  then show ?thesis by (auto simp: mem_range_def)
qed

section \<open>The backtrace\<close>

text \<open>
  The frames of a stack: from frame pointer \<open>rb\<close> on, the return addresses \<open>rs\<close>, until
  \<open>END_ADDR\<close>. \<open>frame_ptrs\<close> are the frame pointers met on the way.
\<close>

fun frames :: "memory \<Rightarrow> u64 \<Rightarrow> u64 list \<Rightarrow> bool" where
  "frames m rb [] \<longleftrightarrow> load64 m (rb + 8) = END_ADDR"
| "frames m rb (r # rs) \<longleftrightarrow> load64 m (rb + 8) = r \<and> r \<noteq> END_ADDR \<and> frames m (load64 m rb) rs"

fun frame_ptrs :: "memory \<Rightarrow> u64 \<Rightarrow> u64 list \<Rightarrow> u64 list" where
  "frame_ptrs m rb [] = [rb]"
| "frame_ptrs m rb (r # rs) = rb # frame_ptrs m (load64 m rb) rs"

lemma frames_no_end: "frames m rb rs \<Longrightarrow> END_ADDR \<notin> set rs"
  by (induction m rb rs rule: frames.induct) auto

lemma mem_range_16: "mem_range f 8 \<subseteq> mem_range f 16" "mem_range (f + 8) 8 \<subseteq> mem_range f 16"
proof -
  show "mem_range f 8 \<subseteq> mem_range f 16" by (rule mem_range_mono) simp
  show "mem_range (f + 8) 8 \<subseteq> mem_range f 16"
  proof
    fix x assume "x \<in> mem_range (f + 8) 8"
    then obtain i where "i < 8" "x = f + 8 + of_nat i" by (auto simp: mem_range_def)
    then have "x = f + of_nat (8 + i)" "8 + i < 16" by simp_all
    then show "x \<in> mem_range f 16" using mem_range_off by blast
  qed
qed

lemma frames_store:
  assumes "frames m rb rs" "\<forall>f \<in> set (frame_ptrs m rb rs). mem_range a 8 \<inter> mem_range f 16 = {}"
  shows "frames (store64 m a v) rb rs"
  using assms
proof (induction m rb rs rule: frames.induct)
  case (1 m rb)
  then have "mem_range a 8 \<inter> mem_range (rb + 8) 8 = {}" using mem_range_16(2) [of rb] by auto
  with 1 show ?case by (simp add: load_store_other)
next
  case (2 m rb r rs)
  then have "mem_range a 8 \<inter> mem_range (rb + 8) 8 = {}" "mem_range a 8 \<inter> mem_range rb 8 = {}"
    using mem_range_16 [of rb] by auto
  with 2 show ?case by (simp add: load_store_other)
qed

lemma overwrite_step:
  "i < length bt \<Longrightarrow> overwrite (bt[i := r]) (Suc i) rs = overwrite bt i (r # rs)"
  by (simp add: overwrite_def take_Suc_conv_app_nth)

lemma bt_loop_frames:
  assumes "frames m rb rs" "idx + n = length bt"
  shows "bt_loop m n idx rb (load64 m (rb + 8)) bt = (idx + min n (length rs), overwrite bt idx (take n rs))"
  using assms
proof (induction n arbitrary: idx rb rs bt)
  case 0
  then show ?case by simp
next
  case (Suc n)
  show ?case
  proof (cases rs)
    case Nil
    with Suc.prems show ?thesis by simp
  next
    case (Cons r rs')
    with Suc.prems have fr: "load64 m (rb + 8) = r" "r \<noteq> END_ADDR" "frames m (load64 m rb) rs'" by simp_all
    have "bt_loop m n (Suc idx) (load64 m rb) (load64 m (load64 m rb + 8)) (bt[idx := r]) =
        (Suc idx + min n (length rs'), overwrite (bt[idx := r]) (Suc idx) (take n rs'))"
      using Suc.prems(2) by (intro Suc.IH fr(3)) simp
    with fr Cons Suc.prems(2) show ?thesis by (simp add: Let_def overwrite_step)
  qed
qed

text \<open>What the handler leaves for \<open>do_backtrace\<close>: the breakpoint and the return addresses.\<close>

lemma fill_backtrace_trace:
  assumes fr: "frames m rsp rs" and len: "length bt = MAX_BACKTRACE" and rip: "rip - 1 \<noteq> END_ADDR"
  shows "takeWhile (\<lambda>a. a \<noteq> END_ADDR) (take MAX_BACKTRACE (fill_backtrace m rip rsp bt)) =
         take MAX_BACKTRACE ((rip - 1) # rs)"
    and "length (fill_backtrace m rip rsp bt) = MAX_BACKTRACE"
proof -
  let ?n = "MAX_BACKTRACE - 1"
  let ?bt = "overwrite (bt[0 := rip - 1]) 1 (take ?n rs)"
  have loop: "bt_loop m ?n 1 rsp (load64 m (rsp + 8)) (bt[0 := rip - 1]) = (1 + min ?n (length rs), ?bt)"
    using len by (intro bt_loop_frames fr) (simp add: dbg_const)
  obtain x xs where bt: "bt = x # xs" "length xs = ?n" using len by (cases bt) (simp_all add: dbg_const)
  have ow: "?bt = (rip - 1) # take ?n rs @ drop (min ?n (length rs)) xs"
    using bt by (simp add: overwrite_def min.commute)
  note ne = frames_no_end [OF fr]
  have fb: "fill_backtrace m rip rsp bt =
      (if Suc (min ?n (length rs)) < MAX_BACKTRACE then ?bt[Suc (min ?n (length rs)) := END_ADDR] else ?bt)"
    unfolding fill_backtrace_def loop Let_def prod.case plus_1_eq_Suc ..
  show "length (fill_backtrace m rip rsp bt) = MAX_BACKTRACE"
    unfolding fb ow using bt(2) by (simp add: dbg_const)
  show "takeWhile (\<lambda>a. a \<noteq> END_ADDR) (take MAX_BACKTRACE (fill_backtrace m rip rsp bt)) =
         take MAX_BACKTRACE ((rip - 1) # rs)"
  proof (cases "length rs < ?n")
    case True
    then obtain y ys where d: "drop (length rs) xs = y # ys" "length ys = ?n - length rs - 1"
      using bt(2) by (cases "drop (length rs) xs") (auto dest: arg_cong [of _ _ length])
    have "fill_backtrace m rip rsp bt = ((rip - 1) # rs @ y # ys)[Suc (length rs) := END_ADDR]"
      using True d less_diff_conv [of "length rs" MAX_BACKTRACE 1] unfolding fb ow by simp
    also have "\<dots> = (rip - 1) # rs @ END_ADDR # ys" by (simp add: list_update_append)
    finally have f: "fill_backtrace m rip rsp bt = ((rip - 1) # rs) @ END_ADDR # ys" by simp
    have "takeWhile (\<lambda>a. a \<noteq> END_ADDR) (((rip - 1) # rs) @ END_ADDR # take j ys) = (rip - 1) # rs" for j
      using ne rip by (subst takeWhile_append2) auto
    moreover have "take MAX_BACKTRACE (((rip - 1) # rs) @ END_ADDR # ys) =
        ((rip - 1) # rs) @ END_ADDR # take (MAX_BACKTRACE - length rs - 2) ys"
      using True by (simp add: dbg_const take_Cons')
    moreover have "take MAX_BACKTRACE ((rip - 1) # rs) = (rip - 1) # rs" using True by simp
    ultimately show ?thesis unfolding f by (simp only:)
  next
    case False
    then have "fill_backtrace m rip rsp bt = (rip - 1) # take ?n rs"
      using bt(2) unfolding fb ow by (simp add: dbg_const)
    moreover have "take MAX_BACKTRACE ((rip - 1) # rs) = (rip - 1) # take ?n rs"
      by (simp add: dbg_const)
    moreover have "takeWhile (\<lambda>a. a \<noteq> END_ADDR) ((rip - 1) # take ?n rs) = (rip - 1) # take ?n rs"
      using ne rip by (subst takeWhile_eq_all_conv) (auto dest: in_set_takeD)
    ultimately show ?thesis using False by (simp only: take_Cons' take_take) (simp add: dbg_const)
  qed
qed

section \<open>A breakpoint hit, seen from the debugger\<close>

lemma d_ctx_Inr: "d_ctx k c = Inr ctx \<longleftrightarrow> d_ctxs k c = Some ctx"
  by (simp add: d_ctx_def split: option.splits)

lemma d_ctx_Some [simp]: "d_ctxs k c = Some ctx \<Longrightarrow> d_ctx k c = Inr ctx"
  by (simp add: d_ctx_Inr)

lemma put_ctx_simps [simp]:
  "d_ctxs (put_ctx k c ctx) = (d_ctxs k)(c \<mapsto> ctx)" "d_mem (put_ctx k c ctx) = d_mem k"
  "scheduled (put_ctx k c ctx) = scheduled k"
  by (simp_all add: put_ctx_def)

text \<open>
  The stack of a process stopped at the first instruction of a function: the return address is
  on top, the caller's frames follow from \<open>rbp\<close>, and none of them uses the word below \<open>rsp\<close>.
\<close>

definition call_stack :: "memory \<Rightarrow> registers \<Rightarrow> u64 list \<Rightarrow> bool" where
  "call_stack m rg rs \<longleftrightarrow> (\<exists>r0 rs'. rs = r0 # rs' \<and> load64 m (entry_rsp rg) = r0 \<and> r0 \<noteq> END_ADDR \<and>
     frames m (rbp rg) rs' \<and>
     (\<forall>f \<in> set (frame_ptrs m (rbp rg) rs'). mem_range (entry_rsp rg - 8) 8 \<inter> mem_range f 16 = {}))"

lemma call_stack_pushed:
  assumes "call_stack m rg rs"
  shows "frames (store64 m (entry_rsp rg - 8) (rbp rg)) (entry_rsp rg - 8) rs"
proof -
  obtain r0 rs' where rs: "rs = r0 # rs'" "load64 m (entry_rsp rg) = r0" "r0 \<noteq> END_ADDR"
    "frames m (rbp rg) rs'"
    "\<forall>f \<in> set (frame_ptrs m (rbp rg) rs'). mem_range (entry_rsp rg - 8) 8 \<inter> mem_range f 16 = {}"
    using assms by (auto simp: call_stack_def)
  have "load64 (store64 m (entry_rsp rg - 8) (rbp rg)) (entry_rsp rg) = r0"
    using load_store_other [OF push_apart] rs(2) by simp
  with rs frames_store [OF rs(4,5)] show ?thesis by (simp add: load_store)
qed

lemma int3_hit:
  assumes c: "d_ctxs k c = Some ctx" and p: "d_ppid ctx \<noteq> c" "d_ctxs k (d_ppid ctx) = Some par"
    and d: "dbg par = Some d" "length (backtrace_info d) = MAX_BACKTRACE"
    and st: "call_stack (d_mem k) (d_regs ctx) rs" and rip: "entry_rip (d_regs ctx) - 1 \<noteq> END_ADDR"
  obtains k' ctx' par' where "int3_handler k c = Inr (0, k')"
    "d_ctxs k' = (d_ctxs k)(c \<mapsto> ctx', d_ppid ctx \<mapsto> par')" "scheduled k' = Some (d_ppid ctx)"
    "d_state ctx' = WAITING" "d_state par' = READY" "rax (d_regs par') = entry_rip (d_regs ctx) - 1"
    "d_regs ctx' = (d_regs ctx)\<lparr>entry_rsp := entry_rsp (d_regs ctx) - 8\<rparr>" "d_ppid ctx' = d_ppid ctx"
    "d_pid ctx' = d_pid ctx" "d_pid par' = d_pid par" "d_ppid par' = d_ppid par"
    "d_mem k' = store64 (d_mem k) (entry_rsp (d_regs ctx) - 8) (rbp (d_regs ctx))"
    "do_backtrace k' (d_ppid ctx) True =
       Inr (int (min MAX_BACKTRACE (Suc (length rs))),
            take MAX_BACKTRACE ((entry_rip (d_regs ctx) - 1) # rs))"
    "length (backtrace_info (the (dbg par'))) = MAX_BACKTRACE" "dbg par' \<noteq> None"
    "head (the (dbg par')) = head d" "bp_size (the (dbg par')) = bp_size d"
proof -
  let ?rg = "d_regs ctx" and ?pp = "d_ppid ctx"
  let ?rsp = "entry_rsp ?rg - 8"
  let ?m = "store64 (d_mem k) ?rsp (rbp ?rg)"
  let ?d = "d\<lparr>backtrace_info := fill_backtrace ?m (entry_rip ?rg) ?rsp (backtrace_info d)\<rparr>"
  let ?ctx = "ctx\<lparr>d_regs := ?rg\<lparr>entry_rsp := ?rsp\<rparr>, d_state := WAITING\<rparr>"
  let ?par = "par\<lparr>d_state := READY, dbg := Some ?d, d_regs := (d_regs par)\<lparr>rax := entry_rip ?rg - 1\<rparr>\<rparr>"
  let ?k = "(put_ctx (put_ctx (k\<lparr>d_mem := ?m\<rparr>) c ?ctx) ?pp ?par)\<lparr>scheduled := Some ?pp\<rparr>"
  note ft = fill_backtrace_trace [OF call_stack_pushed [OF st] d(2) rip]
  have "int3_handler k c = Inr (0, ?k)"
    using c p d by (simp add: int3_handler_def Let_def)
  moreover have "do_backtrace ?k ?pp True = Inr (int (min MAX_BACKTRACE (Suc (length rs))),
            take MAX_BACKTRACE ((entry_rip ?rg - 1) # rs))"
    using ft(1) by (simp add: do_backtrace_def Let_def min.commute)
  ultimately show ?thesis using ft(2) p(1) by (intro that [of ?k ?ctx ?par]) (simp_all add: fun_upd_twist)
qed

text \<open>The child a debugger works with: the first live context, by pid, whose parent it is.\<close>

lemma child_from_eq:
  assumes "\<forall>j. i \<le> j \<and> j < i + n \<longrightarrow> (\<exists>x. d_ctxs k (of_nat j) = Some x)"
  shows "child_from k pd i n = Inr (map_option of_nat
    (find (\<lambda>j. d_state (the (d_ctxs k (of_nat j))) \<noteq> UNUSED \<and> d_ppid (the (d_ctxs k (of_nat j))) = pd) [i..<i + n]))"
  using assms
proof (induction n arbitrary: i)
  case (Suc n)
  obtain x where x: "d_ctxs k (of_nat i) = Some x" using Suc.prems [rule_format, of i] by auto
  have "child_from k pd (Suc i) n = Inr (map_option of_nat
    (find (\<lambda>j. d_state (the (d_ctxs k (of_nat j))) \<noteq> UNUSED \<and> d_ppid (the (d_ctxs k (of_nat j))) = pd)
      [Suc i..<Suc i + n]))"
    using Suc.prems by (intro Suc.IH) auto
  moreover have "[i..<i + Suc n] = i # [Suc i..<Suc i + n]" by (simp add: upt_conv_Cons del: upt_Suc)
  ultimately show ?case using x by (simp del: upt_Suc)
qed simp

definition kin :: "dbg_kernel \<Rightarrow> u32 \<Rightarrow> (bool \<times> u32) option" where
  "kin k j = map_option (\<lambda>x. (d_state x \<noteq> UNUSED, d_ppid x)) (d_ctxs k j)"

lemma find_child_cong:
  assumes "kin k' = kin k"
  shows "find_child k' pd = find_child k pd"
proof -
  have same: "map_option (\<lambda>x. (d_state x \<noteq> UNUSED, d_ppid x)) (d_ctxs k' j) =
      map_option (\<lambda>x. (d_state x \<noteq> UNUSED, d_ppid x)) (d_ctxs k j)" for j
    using fun_cong [OF assms, of j] by (simp add: kin_def)
  have "child_from k' pd i n = child_from k pd i n" for i n
  proof (induction n arbitrary: i)
    case (Suc n)
    then show ?case
      using same [of "of_nat i"]
      by (cases "d_ctxs k' (of_nat i)"; cases "d_ctxs k (of_nat i)") (auto simp: d_ctx_def)
  qed simp
  then show ?thesis by (simp add: find_child_def)
qed

text \<open>A debugger \<open>pd\<close> with its debuggee \<open>pc\<close>: exactly one of the two may run.\<close>

definition session :: "dbg_kernel \<Rightarrow> u32 \<Rightarrow> u32 \<Rightarrow> dbg_context \<Rightarrow> debug_info \<Rightarrow> dbg_context \<Rightarrow> bool" where
  "session k pd pc cd d cc \<longleftrightarrow>
     d_ctxs k pd = Some cd \<and> d_pid cd = pd \<and> dbg cd = Some d \<and>
     d_ctxs k pc = Some cc \<and> d_ppid cc = pd \<and> pd \<noteq> pc \<and> find_child k pd = Inr (Some pc) \<and>
     length (backtrace_info d) = MAX_BACKTRACE \<and> bp_inv (d_mem k, d)"

definition alternate :: "process_state \<Rightarrow> process_state \<Rightarrow> bool" where
  "alternate a b \<longleftrightarrow> a = READY \<and> b = WAITING \<or> a = WAITING \<and> b = READY"

definition session_ok :: "dbg_kernel \<Rightarrow> u32 \<Rightarrow> u32 \<Rightarrow> bool" where
  "session_ok k pd pc \<longleftrightarrow>
     (\<exists>cd d cc. session k pd pc cd d cc \<and> alternate (d_state cd) (d_state cc))"

lemma session_okI:
  "session k pd pc cd d cc \<Longrightarrow> alternate (d_state cd) (d_state cc) \<Longrightarrow> session_ok k pd pc"
  unfolding session_ok_def by blast

definition bp_addrs :: "dbg_kernel \<Rightarrow> u32 \<Rightarrow> u64 set" where
  "bp_addrs k pd = (case d_ctxs k pd of None \<Rightarrow> {} | Some cd \<Rightarrow>
     (case dbg cd of None \<Rightarrow> {} | Some d \<Rightarrow> bp_addr ` set (head d)))"

lemma bp_inv_frame:
  assumes "bp_inv (m, d)" "\<forall>a \<in> bp_addr ` set (head d). m' a = m a" "head d' = head d" "bp_size d' = bp_size d"
  shows "bp_inv (m', d')"
proof -
  have "m' a = opcode e" if "table_of (head d) a = Some e" for a e
  proof -
    have "a \<in> bp_addr ` set (head d)" using that dom_table_of [of "head d"] by blast
    with assms(2) have "m' a = m a" by blast
    with bp_invD(4) [OF assms(1) that] show ?thesis by simp
  qed
  with assms(1,3,4) show ?thesis by (simp add: bp_inv_def)
qed

lemma sessionD:
  assumes "session k pd pc cd d cc"
  shows "d_ctxs k pd = Some cd" "d_pid cd = pd" "dbg cd = Some d" "d_ctxs k pc = Some cc"
    "d_ppid cc = pd" "pd \<noteq> pc" "find_child k pd = Inr (Some pc)"
    "length (backtrace_info d) = MAX_BACKTRACE" "bp_inv (d_mem k, d)"
  using assms by (simp_all add: session_def)

lemma wait_session:
  assumes s: "session k pd pc cd d cc" and st: "alternate (d_state cd) (d_state cc)"
    and eq: "do_wait_and_continue k pd = Inr (r, k')"
  obtains cd' cc' where "session k' pd pc cd' d cc'" "d_state cd' = WAITING" "d_state cc' = READY"
    "scheduled k' = Some pc" "d_mem k' = d_mem k" "d_regs cc' = d_regs cc"
proof -
  note sd = sessionD [OF s]
  let ?cd = "cd\<lparr>d_state := WAITING, d_regs := (d_regs cd)\<lparr>rax := -1\<rparr>\<rparr>"
  let ?cc = "cc\<lparr>d_state := READY\<rparr>"
  have k': "k' = (put_ctx (put_ctx (put_ctx k pd (cd\<lparr>d_state := WAITING\<rparr>)) pc ?cc) pd ?cd)\<lparr>scheduled := Some pc\<rparr>"
    using eq sd by (auto simp: do_wait_and_continue_def Let_def)
  have "kin k' = kin k"
    using sd st by (auto simp: kin_def k' alternate_def fun_eq_iff)
  from find_child_cong [OF this, of pd] have "find_child k' pd = Inr (Some pc)" using sd(7) by simp
  then have "session k' pd pc ?cd d ?cc"
    using sd(1-6,8,9) unfolding session_def by (simp add: k')
  then show ?thesis by (rule that) (simp_all add: k')
qed

lemma hit_session:
  assumes s: "session k pd pc cd d cc" and st: "alternate (d_state cd) (d_state cc)"
    and stack: "call_stack (d_mem k) (d_regs cc) rs" and rip: "entry_rip (d_regs cc) - 1 \<noteq> END_ADDR"
    and apart: "mem_range (entry_rsp (d_regs cc) - 8) 8 \<inter> bp_addrs k pd = {}"
  obtains k' cd' d' cc' where "int3_handler k pc = Inr (0, k')" "session k' pd pc cd' d' cc'"
    "d_state cd' = READY" "d_state cc' = WAITING" "scheduled k' = Some pd"
    "rax (d_regs cd') = entry_rip (d_regs cc) - 1"
    "do_backtrace k' pd True = Inr (int (min MAX_BACKTRACE (Suc (length rs))),
            take MAX_BACKTRACE ((entry_rip (d_regs cc) - 1) # rs))"
    "do_info_registers k' pd = Inr (0, Some ((d_regs cc)\<lparr>entry_rip := entry_rip (d_regs cc) - 1\<rparr>))"
proof -
  note sd = sessionD [OF s]
  have p: "d_ppid cc \<noteq> pc" "d_ctxs k (d_ppid cc) = Some cd" using sd by auto
  obtain k' cc' cd' where hit: "int3_handler k pc = Inr (0, k')"
    "d_ctxs k' = (d_ctxs k)(pc \<mapsto> cc', d_ppid cc \<mapsto> cd')" "scheduled k' = Some (d_ppid cc)"
    "d_state cc' = WAITING" "d_state cd' = READY" "rax (d_regs cd') = entry_rip (d_regs cc) - 1"
    "d_regs cc' = (d_regs cc)\<lparr>entry_rsp := entry_rsp (d_regs cc) - 8\<rparr>" "d_ppid cc' = d_ppid cc"
    "d_pid cc' = d_pid cc" "d_pid cd' = d_pid cd" "d_ppid cd' = d_ppid cd"
    "d_mem k' = store64 (d_mem k) (entry_rsp (d_regs cc) - 8) (rbp (d_regs cc))"
    "do_backtrace k' (d_ppid cc) True =
       Inr (int (min MAX_BACKTRACE (Suc (length rs))),
            take MAX_BACKTRACE ((entry_rip (d_regs cc) - 1) # rs))"
    "length (backtrace_info (the (dbg cd'))) = MAX_BACKTRACE" "dbg cd' \<noteq> None"
    "head (the (dbg cd')) = head d" "bp_size (the (dbg cd')) = bp_size d"
    by (rule int3_hit [OF sd(4) p sd(3,8) stack rip])
  then obtain d' where d': "dbg cd' = Some d'" by auto
  have kin: "kin k' = kin k"
    using sd(1,4,5,6) st hit(2,4,5,8,11) by (auto simp: kin_def alternate_def fun_eq_iff)
  have fc: "find_child k' pd = Inr (Some pc)" using find_child_cong [OF kin, of pd] sd(7) by simp
  have cs: "d_ctxs k' pd = Some cd'" "d_ctxs k' pc = Some cc'" using hit(2) sd(5,6) by simp_all
  have "\<forall>a \<in> bp_addr ` set (head d). d_mem k' a = d_mem k a"
  proof
    fix a assume "a \<in> bp_addr ` set (head d)"
    then have "a \<in> bp_addrs k pd" using sd(1,3) by (simp add: bp_addrs_def)
    with apart have "a \<notin> mem_range (entry_rsp (d_regs cc) - 8) 8" by blast
    then show "d_mem k' a = d_mem k a" unfolding hit(12) by (rule store_frame)
  qed
  then have "bp_inv (d_mem k', d')"
    using hit(16,17) d' by (auto intro: bp_inv_frame [OF sd(9)])
  then have "session k' pd pc cd' d' cc'"
    using sd(2,5,6) hit(8,10,14) d' fc cs by (simp add: session_def)
  moreover have "do_info_registers k' pd = Inr (0, Some ((d_regs cc)\<lparr>entry_rip := entry_rip (d_regs cc) - 1\<rparr>))"
    using sd(2) hit(7,10) fc cs by (simp add: do_info_registers_def Let_def)
  ultimately show ?thesis
    using hit(1,3,4,5,6,13) unfolding sd(5) by (intro that [of k' cd' d' cc']) assumption+
qed

section \<open>The handlers on a session\<close>

lemma on_dbg_eq:
  assumes "d_ctxs k c = Some ctx" "dbg ctx = Some d" "f (d_mem k, d) = (r, m, d')"
  shows "on_dbg f k c = Inr (r, (put_ctx k c (ctx\<lparr>dbg := Some d'\<rparr>))\<lparr>d_mem := m\<rparr>)"
  using assms by (simp add: on_dbg_def)

text \<open>The system calls for one command of the table.\<close>

fun bp_call :: "bp_cmd \<Rightarrow> dbg_kernel \<Rightarrow> u32 \<Rightarrow> (int \<times> dbg_kernel) res" where
  "bp_call (Set a) k c = do_set_breakpoint True k c a"
| "bp_call (Remove a) k c = do_remove_breakpoint k c a"
| "bp_call (Enable a) k c = do_enable_breakpoint k c a"
| "bp_call (Disable a) k c = do_disable_breakpoint k c a"

lemma bp_call_exec: "bp_call cmd k c = on_dbg (bp_exec cmd) k c"
proof -
  have "bp_exec cmd = (case cmd of Set a \<Rightarrow> set_bp True a | Remove a \<Rightarrow> remove_bp a
      | Enable a \<Rightarrow> enable_bp a | Disable a \<Rightarrow> disable_bp a)"
    by (cases cmd) (simp_all add: fun_eq_iff)
  then show ?thesis
    by (cases cmd) (simp_all add: do_set_breakpoint_def do_remove_breakpoint_def
        do_enable_breakpoint_def do_disable_breakpoint_def)
qed

lemma exec_keeps_backtrace:
  "bp_exec c (m, d) = (r, m', d') \<Longrightarrow> backtrace_info d' = backtrace_info d"
  by (cases c) (auto simp: set_bp_def remove_bp_def enable_bp_def disable_bp_def Let_def
      split: option.splits if_splits)

lemma call_session:
  assumes s: "session k pd pc cd d cc" and eq: "bp_call cmd k pd = Inr (r, k')"
  obtains d' where "session k' pd pc (cd\<lparr>dbg := Some d'\<rparr>) d' cc"
    "abs_cmd cmd (table_of (head d)) = (r, table_of (head d'))"
proof -
  note sd = sessionD [OF s]
  obtain r1 m' d' where ex: "bp_exec cmd (d_mem k, d) = (r1, m', d')" by (metis prod_cases3)
  from eq have k': "r = r1" "k' = (put_ctx k pd (cd\<lparr>dbg := Some d'\<rparr>))\<lparr>d_mem := m'\<rparr>"
    unfolding bp_call_exec on_dbg_eq [where f = "bp_exec cmd", OF sd(1,3) ex] by auto
  from bp_exec_law [OF sd(9) ex] have law: "bp_inv (m', d')"
    "abs_cmd cmd (table_of (head d)) = (r1, table_of (head d'))" by simp_all
  have "kin k' = kin k" using sd(1) by (auto simp: kin_def k'(2) fun_eq_iff)
  from find_child_cong [OF this, of pd] have "session k' pd pc (cd\<lparr>dbg := Some d'\<rparr>) d' cc"
    using sd law exec_keeps_backtrace [OF ex] by (simp add: session_def k'(2))
  then show ?thesis using law(2) k'(1) by (intro that) simp_all
qed

section \<open>Debugger and debuggee take turns\<close>

text \<open>
  The steps of a session: the debugger, when it runs, works on its breakpoints or waits for the
  debuggee; the debuggee, when it runs, computes (changing its registers and memory other than the
  bytes under a breakpoint) or hits a breakpoint.
\<close>

inductive dbg_step :: "u32 \<Rightarrow> u32 \<Rightarrow> dbg_kernel \<Rightarrow> dbg_kernel \<Rightarrow> bool" for pd pc where
  command: "d_ctxs k pd = Some cd \<Longrightarrow> d_state cd = READY \<Longrightarrow>
     bp_call cmd k pd = Inr (r, k') \<Longrightarrow> dbg_step pd pc k k'"
| wait: "d_ctxs k pd = Some cd \<Longrightarrow> d_state cd = READY \<Longrightarrow>
     do_wait_and_continue k pd = Inr (r, k') \<Longrightarrow> dbg_step pd pc k k'"
| compute: "d_ctxs k pc = Some cc \<Longrightarrow> d_state cc = READY \<Longrightarrow> \<forall>a \<in> bp_addrs k pd. m a = d_mem k a \<Longrightarrow>
     dbg_step pd pc k ((put_ctx k pc (cc\<lparr>d_regs := rg\<rparr>))\<lparr>d_mem := m\<rparr>)"
| hit: "d_ctxs k pc = Some cc \<Longrightarrow> d_state cc = READY \<Longrightarrow> call_stack (d_mem k) (d_regs cc) rs \<Longrightarrow>
     entry_rip (d_regs cc) - 1 \<noteq> END_ADDR \<Longrightarrow>
     mem_range (entry_rsp (d_regs cc) - 8) 8 \<inter> bp_addrs k pd = {} \<Longrightarrow>
     int3_handler k pc = Inr (r, k') \<Longrightarrow> dbg_step pd pc k k'"

inductive_cases dbg_stepE: "dbg_step pd pc k k'"

lemma dbg_step_ok:
  assumes step: "dbg_step pd pc k k'" and ok: "session_ok k pd pc"
  shows "session_ok k' pd pc"
proof -
  obtain cd d cc where s: "session k pd pc cd d cc" and st: "alternate (d_state cd) (d_state cc)"
    using ok by (auto simp: session_ok_def)
  note sd = sessionD [OF s]
  from step show ?thesis
  proof (cases rule: dbg_step.cases)
    case (command cd' cmd r)
    obtain d' where "session k' pd pc (cd\<lparr>dbg := Some d'\<rparr>) d' cc"
      by (rule call_session [OF s command(3)])
    from session_okI [OF this] st show ?thesis by simp
  next
    case (wait cd' r)
    obtain cd1 cc1 where w: "session k' pd pc cd1 d cc1" "d_state cd1 = WAITING" "d_state cc1 = READY"
      by (rule wait_session [OF s st wait(3)])
    from session_okI [OF w(1)] w(2,3) show ?thesis by (simp add: alternate_def)
  next
    case (compute cc' m rg)
    have cc': "cc' = cc" using compute(2) sd(4) by simp
    have k': "k' = (put_ctx k pc (cc\<lparr>d_regs := rg\<rparr>))\<lparr>d_mem := m\<rparr>" using compute(1) cc' by simp
    have "kin k' = kin k" using sd(4) by (auto simp: kin_def k' fun_eq_iff)
    note fc = find_child_cong [OF this, of pd]
    have "\<forall>a \<in> bp_addr ` set (head d). m a = d_mem k a"
      using compute(4) sd(1,3) by (simp add: bp_addrs_def)
    then have "bp_inv (m, d)" by (rule bp_inv_frame [OF sd(9)]) simp_all
    then have "session k' pd pc cd d (cc\<lparr>d_regs := rg\<rparr>)"
      using sd(1-8) fc by (simp add: session_def k')
    from session_okI [OF this] st show ?thesis by simp
  next
    case (hit cc' rs r)
    have cc': "cc' = cc" using hit(1) sd(4) by simp
    obtain k1 cd1 d1 cc1 where h: "int3_handler k pc = Inr (0, k1)" "session k1 pd pc cd1 d1 cc1"
      "d_state cd1 = READY" "d_state cc1 = WAITING"
      using hit_session [OF s st hit(3,4,5) [unfolded cc']] by metis
    from session_okI [OF h(2)] h(1,3,4) hit(6) show ?thesis by (simp add: alternate_def)
  qed
qed

lemma dbg_reachable_ok:
  assumes "(dbg_step pd pc)\<^sup>*\<^sup>* k k'" "session_ok k pd pc"
  shows "session_ok k' pd pc"
  using assms by (induction rule: rtranclp_induct) (auto intro: dbg_step_ok)

section \<open>Listing the breakpoints\<close>

text \<open>The numbers of the nodes fall from the head on; the user's array gets them the other way round.\<close>

lemma fill_info_eq:
  assumes "idx + length bs = n" "n \<le> length ubp"
  shows "fill_info (int n) bs idx ubp = Inr (overwrite ubp 0 (rev bs @ drop (length bs) (take n ubp)))"
  using assms
proof (induction bs arbitrary: idx ubp)
  case Nil
  then show ?case by (simp add: overwrite_def)
next
  case (Cons b bs)
  let ?i = "n - idx - 1"
  have i: "?i = length bs" "?i < n" "?i < length ubp" "int n - int idx - 1 = int ?i" using Cons.prems by auto
  have "fill_info (int n) bs (Suc idx) (ubp[?i := b]) =
      Inr (overwrite (ubp[?i := b]) 0 (rev bs @ drop (length bs) (take n (ubp[?i := b]))))"
    using Cons.prems by (intro Cons.IH) simp_all
  moreover have "drop (length bs) (take n (ubp[?i := b])) = b # drop (Suc (length bs)) (take n ubp)"
    using i by (simp add: take_update_swap Cons_nth_drop_Suc [symmetric] drop_update_cancel)
  moreover have "drop n (ubp[?i := b]) = drop n ubp" using i(2) by (simp add: drop_update_cancel)
  ultimately show ?case using i Cons.prems by (simp add: Let_def overwrite_def)
qed

definition nums_ok :: "debug_info \<Rightarrow> bool" where
  "nums_ok d \<longleftrightarrow> sorted_wrt (>) (map (\<lambda>b. uint (bp_num b)) (head d)) \<and>
     (\<forall>b \<in> set (head d). uint (bp_num b) \<le> breakpt_num d) \<and> 0 \<le> breakpt_num d"

lemma sorted_wrt_unlink:
  assumes "unlink a bs = Some bs'" "sorted_wrt P (map f bs)"
  shows "sorted_wrt P (map f bs')"
proof -
  obtain xs b ys where "bs = xs @ b # ys" "bs' = xs @ ys" using unlink_Some [OF assms(1)] by blast
  with assms(2) show ?thesis by (simp add: sorted_wrt_append)
qed

lemma le_imp_le_add_1: "(x :: int) \<le> y \<Longrightarrow> x \<le> y + 1"
  by simp

lemma nums_exec:
  assumes ok: "nums_ok d" and small: "breakpt_num d + 1 < 2 ^ 31" and eq: "bp_exec c (m, d) = (r, m', d')"
  shows "nums_ok d'"
proof -
  have keep: "nums_ok (d\<lparr>head := bs\<rparr>)" if "set_status a v (head d) = Some bs" for a v bs
  proof -
    have nums: "map bp_num bs = map bp_num (head d)" using set_status_Some [OF that] by simp
    have uints: "map (\<lambda>b. uint (bp_num b)) xs = map uint (map bp_num xs)" for xs by simp
    have "uint (bp_num b) \<le> breakpt_num d" if "b \<in> set bs" for b
    proof -
      have "bp_num b \<in> set (map bp_num (head d))" using that unfolding nums [symmetric] by simp
      with ok show ?thesis by (auto simp: nums_ok_def)
    qed
    with ok show ?thesis by (simp add: nums_ok_def uints nums del: map_map)
  qed
  show ?thesis
  proof (cases c)
    case (Set a)
    have "uint (word_of_int (breakpt_num d + 1) :: u32) = breakpt_num d + 1"
      using ok small by (intro uint_u32_of_int) (simp_all add: nums_ok_def)
    moreover have "\<forall>b \<in> set (head d). uint (bp_num b) \<le> breakpt_num d + 1"
      using ok by (meson le_imp_le_add_1 nums_ok_def)
    ultimately show ?thesis
      using ok Set eq keep by (auto simp: set_bp_def Let_def nums_ok_def split: option.splits if_splits)
  next
    case (Remove a)
    show ?thesis
    proof (cases "unlink a (head d)")
      case (Some bs)
      from unlink_Some [OF Some] have "set bs \<subseteq> set (head d)" by auto
      with ok Remove eq Some sorted_wrt_unlink [OF Some] show ?thesis
        by (auto simp: remove_bp_def nums_ok_def)
    qed (use ok Remove eq in \<open>simp add: remove_bp_def\<close>)
  next
    case (Enable a)
    with ok eq keep show ?thesis by (auto simp: enable_bp_def split: option.splits)
  next
    case (Disable a)
    with ok eq keep show ?thesis by (auto simp: disable_bp_def split: option.splits)
  qed
qed

end
