(* ===== verification/DebuggerProperties.thy ===== *)
theory DebuggerProperties
  imports Debugger
begin

text \<open>
  What the debugger calls promise, as properties of \<^verbatim>\<open>Assignment4/debug.c\<close>: the breakpoint list
  against an abstract table, what the debugger sees after a hit, who runs when, and the listing.
\<close>

section \<open>A session\<close>

text \<open>
  A debugger (pid 1) with one breakpoint, waiting for its child (pid 2), which has just run into it;
  the return address is on top of its stack, and its caller is the outermost frame.
\<close>

definition sample_bp :: breakpoint_info where
  "sample_bp = \<lparr>bp_num = 1, bp_status = 1, bp_addr = 0x100000010\<rparr>"

definition sample_info :: debug_info where
  "sample_info = \<lparr>head = [sample_bp], bp_size = 1, breakpt_num = 1, backtrace_info = replicate MAX_BACKTRACE 0\<rparr>"

definition sample_regs :: registers where
  "sample_regs = \<lparr>r15 = 0, r14 = 0, r13 = 0, r12 = 0, r11 = 0, r10 = 0, r9 = 0, r8 = 0, rbp = 0x2000,
     rdi = 0, rsi = 0, rdx = 0, rcx = 0, rbx = 0, rax = 0, entry_rip = 0x100000011, entry_cs = 0,
     entry_rflags = 0, entry_rsp = 0x1000, entry_ss = 0\<rparr>"

definition sample_debugger :: dbg_context where
  "sample_debugger = \<lparr>d_pid = 1, d_ppid = 0, d_state = WAITING, d_regs = sample_regs, dbg = Some sample_info\<rparr>"

definition sample_debuggee :: dbg_context where
  "sample_debuggee = \<lparr>d_pid = 2, d_ppid = 1, d_state = READY, d_regs = sample_regs, dbg = None\<rparr>"

definition idle_context :: dbg_context where
  "idle_context = \<lparr>d_pid = 0, d_ppid = 0, d_state = UNUSED, d_regs = sample_regs, dbg = None\<rparr>"

definition sample_stack :: memory where
  "sample_stack = store64 (store64 (\<lambda>_. INT3_OPCODE) 0x1000 0x100000050) 0x2008 END_ADDR"

definition sample_dbg :: dbg_kernel where
  "sample_dbg = \<lparr>d_mem = sample_stack,
     d_ctxs = (\<lambda>_. Some idle_context)(1 \<mapsto> sample_debugger, 2 \<mapsto> sample_debuggee), scheduled = None\<rparr>"

lemma far_apart:
  assumes "uint a + int n \<le> uint b" "uint b + int k \<le> 2 ^ 64"
  shows "mem_range a n \<inter> mem_range b k = {}" "mem_range b k \<inter> mem_range a n = {}"
proof -
  have "uint a + int n \<le> 2 ^ 64" using assms by linarith
  then show "mem_range a n \<inter> mem_range b k = {}" "mem_range b k \<inter> mem_range a n = {}"
    using assms by (auto simp: mem_range_interval)
qed

lemma sample_stack_loads:
  "load64 sample_stack 0x1000 = 0x100000050" "load64 sample_stack 0x2008 = END_ADDR"
proof -
  have "mem_range (0x2008 :: u64) 8 \<inter> mem_range 0x1000 8 = {}" by (rule far_apart(2)) simp_all
  then show "load64 sample_stack 0x1000 = 0x100000050"
    by (simp add: sample_stack_def load_store_other load_store)
  show "load64 sample_stack 0x2008 = END_ADDR" by (simp add: sample_stack_def load_store)
qed

lemma sample_call_stack: "call_stack sample_stack sample_regs [0x100000050]"
proof -
  have "mem_range (0xFF8 :: u64) 8 \<inter> mem_range 0x2000 16 = {}" by (rule far_apart(1)) simp_all
  then show ?thesis
    using sample_stack_loads by (simp add: call_stack_def sample_regs_def END_ADDR_def)
qed

lemma sample_bp_byte: "sample_stack 0x100000010 = INT3_OPCODE"
proof -
  have "(0x100000010 :: u64) \<notin> mem_range 0x2008 8" "(0x100000010 :: u64) \<notin> mem_range 0x1000 8"
    by (simp_all add: mem_range_interval)
  then show ?thesis by (simp add: sample_stack_def store_frame)
qed

lemma sample_session: "session sample_dbg 1 2 sample_debugger sample_info sample_debuggee"
proof -
  obtain n where "MAX_PROCESSES - 1 = Suc (Suc n)" using that [of 4] by (simp add: k_const)
  then have "find_child sample_dbg 1 = Inr (Some 2)"
    by (simp add: find_child_def d_ctx_def sample_dbg_def sample_debugger_def sample_debuggee_def)
  moreover have "bp_inv (sample_stack, sample_info)"
    using sample_bp_byte by (auto simp: bp_inv_def sample_info_def sample_bp_def opcode_def MAX_BREAKPOINTS_def split: if_splits)
  ultimately show ?thesis
    by (simp add: session_def) (simp add: sample_dbg_def sample_debugger_def sample_debuggee_def sample_info_def)
qed

lemma sample_alternate: "alternate (d_state sample_debugger) (d_state sample_debuggee)"
  by (simp add: alternate_def sample_debugger_def sample_debuggee_def)

section \<open>The breakpoint table\<close>

text \<open>
  C20: Any sequence of set, remove, enable and disable calls on the breakpoint list returns what
  the abstract table of enabled flags returns and ends in the same table, with the bytes under the
  breakpoints matching and never more than \<open>MAX_BREAKPOINTS\<close> entries.
\<close>

theorem commands_refine_table:
  assumes "bp_inv s" "run_cmds bp_exec cs s = (rs, s')"
  shows "run_cmds abs_cmd cs (table_of (head (snd s))) = (rs, table_of (head (snd s'))) \<and> bp_inv s' \<and>
    card (dom (table_of (head (snd s')))) \<le> MAX_BREAKPOINTS"
  using bp.run_refines [OF assms] bp.never_full [OF assms] by simp

theorem commands_refine_table_witness:
  "\<exists>rs s'. run_cmds bp_exec [Set 64, Disable 64, Remove 80] (sample_stack, sample_info) = (rs, s') \<and>
     rs = [0, 0, -1] \<and> table_of (head (snd s')) = [0x100000010 \<mapsto> True, 64 \<mapsto> False]"
proof -
  let ?cs = "[Set 64, Disable 64, Remove 80]"
  have inv: "bp_inv (sample_stack, sample_info)"
    using sample_session by (simp add: session_def) (simp add: sample_dbg_def)
  obtain rs s' where run: "run_cmds bp_exec ?cs (sample_stack, sample_info) = (rs, s')" by (rule prod.exhaust)
  have "table_of (head sample_info) = [0x100000010 \<mapsto> True]" by (simp add: sample_info_def sample_bp_def)
  with commands_refine_table [OF inv run]
  have "run_cmds abs_cmd ?cs [0x100000010 \<mapsto> True] = (rs, table_of (head (snd s')))" by simp
  then have "rs = [0, 0, -1]" "table_of (head (snd s')) = [0x100000010 \<mapsto> True, 64 \<mapsto> False]"
    by (auto simp: MAX_BREAKPOINTS_def ex_bool_eq)
  with run show ?thesis by blast
qed

section \<open>A hit\<close>

text \<open>
  C21: When the debuggee hits a breakpoint, the debugger is scheduled and gets the breakpoint's
  address; backtrace gives that address and the return addresses of the stack, at most
  \<open>MAX_BACKTRACE\<close> of them; info registers gives the registers as they were at the breakpoint.
\<close>

theorem hit_reports_breakpoint:
  assumes "session k pd pc cd d cc" "alternate (d_state cd) (d_state cc)"
    and "call_stack (d_mem k) (d_regs cc) rs" "entry_rip (d_regs cc) - 1 \<noteq> END_ADDR"
    and "mem_range (entry_rsp (d_regs cc) - 8) 8 \<inter> bp_addrs k pd = {}"
  shows "\<exists>k' cd' d' cc'. int3_handler k pc = Inr (0, k') \<and> session k' pd pc cd' d' cc' \<and>
    d_state cd' = READY \<and> d_state cc' = WAITING \<and> scheduled k' = Some pd \<and>
    rax (d_regs cd') = entry_rip (d_regs cc) - 1 \<and>
    do_backtrace k' pd True = Inr (int (min MAX_BACKTRACE (Suc (length rs))),
      take MAX_BACKTRACE ((entry_rip (d_regs cc) - 1) # rs)) \<and>
    do_info_registers k' pd = Inr (0, Some ((d_regs cc)\<lparr>entry_rip := entry_rip (d_regs cc) - 1\<rparr>))"
  by (rule hit_session [OF assms]) blast

lemma sample_hit_apart: "mem_range (entry_rsp sample_regs - 8) 8 \<inter> bp_addrs sample_dbg 1 = {}"
proof -
  have "(0x100000010 :: u64) \<notin> mem_range 0xFF8 8" by (simp add: mem_range_interval)
  then show ?thesis
    by (simp add: bp_addrs_def sample_dbg_def sample_debugger_def sample_info_def sample_bp_def sample_regs_def)
qed

theorem hit_reports_breakpoint_witness:
  "\<exists>k'. int3_handler sample_dbg 2 = Inr (0, k') \<and> scheduled k' = Some 1 \<and>
     do_backtrace k' 1 True = Inr (2, [0x100000010, 0x100000050])"
proof -
  have r: "d_regs sample_debuggee = sample_regs" "entry_rip sample_regs = 0x100000011" "d_mem sample_dbg = sample_stack"
    by (simp_all add: sample_debuggee_def sample_regs_def sample_dbg_def)
  from hit_reports_breakpoint [OF sample_session sample_alternate, unfolded r, OF sample_call_stack _ sample_hit_apart]
  show ?thesis by (auto simp: END_ADDR_def MAX_BACKTRACE_def)
qed


section \<open>Taking turns\<close>

text \<open>
  C22: In every state reachable by the steps of debugger and debuggee, exactly one of the two may
  run, the debuggee is still the child the debugger finds, and the breakpoint list is in order.
\<close>

theorem turns_alternate:
  assumes "(dbg_step pd pc)\<^sup>*\<^sup>* k k'" "session_ok k pd pc"
  shows "session_ok k' pd pc"
  by (rule dbg_reachable_ok [OF assms])

theorem turns_alternate_witness:
  "\<exists>k'. int3_handler sample_dbg 2 = Inr (0, k') \<and> session_ok k' 1 2"
proof -
  have cc: "d_ctxs sample_dbg 2 = Some sample_debuggee" "d_state sample_debuggee = READY"
    by (simp_all add: sample_dbg_def sample_debuggee_def)
  have st: "call_stack (d_mem sample_dbg) (d_regs sample_debuggee) [0x100000050]"
    "entry_rip (d_regs sample_debuggee) - 1 \<noteq> END_ADDR"
    "mem_range (entry_rsp (d_regs sample_debuggee) - 8) 8 \<inter> bp_addrs sample_dbg 1 = {}"
    using sample_call_stack sample_hit_apart
    by (simp_all add: sample_dbg_def sample_debuggee_def) (simp add: sample_regs_def END_ADDR_def)
  obtain k' where k': "int3_handler sample_dbg 2 = Inr (0, k')"
    by (rule hit_session [OF sample_session sample_alternate st])
  have "dbg_step 1 2 sample_dbg k'" by (rule dbg_step.hit [OF cc st k'])
  then have "(dbg_step 1 2)\<^sup>*\<^sup>* sample_dbg k'" by (rule r_into_rtranclp)
  from turns_alternate [OF this session_okI [OF sample_session sample_alternate]] k' show ?thesis by blast
qed

text \<open>
  C35: When the debugger waits, its child is scheduled and made ready and it is put to sleep;
  when a process exits, a parent that is a debugger is made ready with \<open>CHILD_EXIT\<close> as the
  result of its wait; a forked child starts asleep and without debugger data.
\<close>

theorem wait_and_exit_contract:
  assumes s: "session k pd pc cd d cc" and st: "alternate (d_state cd) (d_state cc)"
  shows "(\<exists>k' cd' cc'. do_wait_and_continue k pd = Inr (-1, k') \<and> scheduled k' = Some pc \<and>
      d_ctxs k' pd = Some cd' \<and> d_state cd' = WAITING \<and> d_ctxs k' pc = Some cc' \<and> d_state cc' = READY \<and>
      d_regs cc' = d_regs cc) \<and>
    (\<exists>k' cd'. debugger_on_exit k pc = Inr k' \<and> d_ctxs k' pd = Some cd' \<and> d_state cd' = READY \<and>
      rax (d_regs cd') = CHILD_EXIT \<and> dbg cd' = dbg cd) \<and>
    d_state (debugger_on_fork cc) = WAITING \<and> dbg (debugger_on_fork cc) = None"
proof -
  note sd = sessionD [OF s]
  obtain k' where w: "do_wait_and_continue k pd = Inr (-1, k')"
    using sd by (simp add: do_wait_and_continue_def Let_def)
  obtain cd' cc' where "session k' pd pc cd' d cc'" "d_state cd' = WAITING" "d_state cc' = READY"
    "scheduled k' = Some pc" "d_mem k' = d_mem k" "d_regs cc' = d_regs cc"
    by (rule wait_session [OF s st w])
  with w sessionD(1,4) [OF this(1)]
  have "\<exists>k' cd' cc'. do_wait_and_continue k pd = Inr (-1, k') \<and> scheduled k' = Some pc \<and>
      d_ctxs k' pd = Some cd' \<and> d_state cd' = WAITING \<and> d_ctxs k' pc = Some cc' \<and> d_state cc' = READY \<and>
      d_regs cc' = d_regs cc" by blast
  moreover have "\<exists>k' cd'. debugger_on_exit k pc = Inr k' \<and> d_ctxs k' pd = Some cd' \<and> d_state cd' = READY \<and>
      rax (d_regs cd') = CHILD_EXIT \<and> dbg cd' = dbg cd"
    using sd by (simp add: debugger_on_exit_def Let_def)
  ultimately show ?thesis by (simp add: debugger_on_fork_def)
qed

theorem wait_and_exit_contract_witness:
  "\<exists>k'. debugger_on_exit sample_dbg 2 = Inr k' \<and> map_option d_state (d_ctxs k' 1) = Some READY"
  using wait_and_exit_contract [OF sample_session sample_alternate] by auto

section \<open>Listing\<close>

text \<open>
  Info breakpoints writes the breakpoints from the oldest to the newest into the user's array,
  leaves the rest of the array alone and returns their number; the numbers rise.
\<close>

theorem info_lists_in_order:
  assumes s: "session k pd pc cd d cc" and nums: "nums_ok d" and room: "length (head d) \<le> length us"
  shows "do_info_breakpoints k pd (Some us) =
      Inr (int (length (head d)), Some (rev (head d) @ drop (length (head d)) us)) \<and>
    sorted_wrt (<) (map (\<lambda>b. uint (bp_num b)) (rev (head d)))"
proof
  note sd = sessionD [OF s]
  have sz: "bp_size d = int (length (head d))" by (rule bp_invD(2) [OF sd(9)])
  have "fill_info (int (length (head d))) (head d) 0 us = Inr (rev (head d) @ drop (length (head d)) us)"
    using fill_info_eq [of 0 "head d" "length (head d)" us] room by (simp add: overwrite_def)
  then show "do_info_breakpoints k pd (Some us) =
      Inr (int (length (head d)), Some (rev (head d) @ drop (length (head d)) us))"
    using sd(1,3) sz by (simp add: do_info_breakpoints_def)
  show "sorted_wrt (<) (map (\<lambda>b. uint (bp_num b)) (rev (head d)))"
    using nums by (simp add: nums_ok_def rev_map [symmetric] sorted_wrt_rev)
qed

theorem info_lists_in_order_witness:
  "do_info_breakpoints sample_dbg 1 (Some [sample_bp\<lparr>bp_num := 7\<rparr>, sample_bp\<lparr>bp_num := 8\<rparr>]) =
     Inr (1, Some [sample_bp, sample_bp\<lparr>bp_num := 8\<rparr>])"
proof -
  have "nums_ok sample_info" by (simp add: nums_ok_def sample_info_def sample_bp_def)
  from info_lists_in_order [OF sample_session this, of "[sample_bp\<lparr>bp_num := 7\<rparr>, sample_bp\<lparr>bp_num := 8\<rparr>]"] show ?thesis
    by (simp add: sample_info_def)
qed

text \<open>
  A breakpoint's number is never given out again: every command keeps the numbers of the list
  falling from the newest on, below the counter.
\<close>

theorem numbers_not_reused:
  assumes "nums_ok d" "breakpt_num d + 1 < 2 ^ 31" "bp_exec c (m, d) = (r, m', d')"
  shows "nums_ok d' \<and> breakpt_num d \<le> breakpt_num d' \<and>
    (\<forall>b \<in> set (head d'). bp_num b \<in> bp_num ` set (head d) \<or> uint (bp_num b) = breakpt_num d + 1)"
proof (intro conjI ballI)
  show "nums_ok d'" by (rule nums_exec [OF assms])
  have st: "bp_num b \<in> bp_num ` set (head d)" if "set_status a v (head d) = Some bs" "b \<in> set bs" for a v bs b
  proof -
    have "bp_num ` set bs = bp_num ` set (head d)" using set_status_Some [OF that(1)] by (metis image_set)
    with that(2) show ?thesis by blast
  qed
  have u: "uint (word_of_int (breakpt_num d + 1) :: u32) = breakpt_num d + 1"
    using assms(1,2) by (intro uint_u32_of_int) (simp_all add: nums_ok_def)
  show "breakpt_num d \<le> breakpt_num d'"
    using assms(3) by (cases c) (auto simp: set_bp_def remove_bp_def enable_bp_def disable_bp_def Let_def
      split: option.splits if_splits)
  fix b assume b: "b \<in> set (head d')"
  have "bp_num b \<in> bp_num ` set (head d) \<or> bp_num b = word_of_int (breakpt_num d + 1)"
  proof (cases c)
    case (Remove a)
    show ?thesis
    proof (cases "unlink a (head d)")
      case None
      with assms(3) b Remove show ?thesis by (simp add: remove_bp_def)
    next
      case (Some bs)
      from unlink_Some [OF Some] have "set bs \<subseteq> set (head d)" by auto
      with assms(3) b Remove Some show ?thesis by (auto simp: remove_bp_def)
    qed
  qed (use assms(3) b st in \<open>auto simp: set_bp_def enable_bp_def disable_bp_def Let_def
      split: option.splits if_splits\<close>)
  with u show "bp_num b \<in> bp_num ` set (head d) \<or> uint (bp_num b) = breakpt_num d + 1" by auto
qed

theorem numbers_not_reused_witness:
  "\<exists>m' d'. bp_exec (Set 64) (sample_stack, sample_info) = (0, m', d') \<and> nums_ok d' \<and> breakpt_num d' = 2"
proof -
  have n: "nums_ok sample_info" by (simp add: nums_ok_def sample_info_def sample_bp_def)
  obtain m' d' where e: "bp_exec (Set 64) (sample_stack, sample_info) = (0, m', d')" "breakpt_num d' = 2"
    by (simp add: set_bp_def sample_info_def sample_bp_def Let_def MAX_BREAKPOINTS_def)
  from numbers_not_reused [OF n _ e(1)] e show ?thesis by (auto simp: sample_info_def)
qed

text \<open>
  A backtrace asked for before any breakpoint was hit returns \<open>MAX_BACKTRACE\<close> zeros, not an
  empty list: the fresh buffer holds no end marker.
\<close>

theorem backtrace_before_hit:
  assumes "d_ctxs k pd = Some ctx" "do_become_debugger True k pd = Inr (r, k')"
  shows "r = 0 \<and> do_backtrace k' pd True = Inr (int MAX_BACKTRACE, replicate MAX_BACKTRACE 0)"
proof -
  have "takeWhile (\<lambda>a. a \<noteq> END_ADDR) (replicate MAX_BACKTRACE 0) = replicate MAX_BACKTRACE 0"
    by (simp add: takeWhile_eq_all_conv END_ADDR_def)
  with assms show ?thesis by (auto simp: do_become_debugger_def do_backtrace_def Let_def)
qed

theorem backtrace_before_hit_witness:
  "\<exists>k'. do_become_debugger True sample_dbg 3 = Inr (0, k') \<and> do_backtrace k' 3 True = Inr (64, replicate 64 0)"
proof -
  have c: "d_ctxs sample_dbg 3 = Some idle_context" by (simp add: sample_dbg_def)
  then obtain k' where k': "do_become_debugger True sample_dbg 3 = Inr (0, k')"
    by (simp add: do_become_debugger_def Let_def)
  from backtrace_before_hit [OF c k'] k' show ?thesis by (simp add: MAX_BACKTRACE_def)
qed

end
