(* ===== verification/UserHeader.thy ===== *)
theory UserHeader
  imports KernelState
begin

text \<open>
  The call numbers a user program is compiled with, \<^verbatim>\<open>Assignment2/user/ulib.h\<close>: a table of its own,
  which has to agree with the kernel's in \<^verbatim>\<open>include/entry.h\<close>.
\<close>

section \<open>Call numbers\<close>

named_theorems user_nr "the call numbers of ulib.h as numerals"

definition SYSCALL_EXIT_user :: int where "SYSCALL_EXIT_user = 1"
definition SYSCALL_GETPID_user :: int where "SYSCALL_GETPID_user = 2"
definition SYSCALL_EXPAND_user :: int where "SYSCALL_EXPAND_user = 4"
definition SYSCALL_SHRINK_user :: int where "SYSCALL_SHRINK_user = 5"
definition SYSCALL_ALARM_user :: int where "SYSCALL_ALARM_user = 6"
definition SYSCALL_SLEEP_user :: int where "SYSCALL_SLEEP_user = 7"
definition SYSCALL_SIGNAL_user :: int where "SYSCALL_SIGNAL_user = 8"
definition SYSCALL_CLONE_user :: int where "SYSCALL_CLONE_user = 9"
definition SYSCALL_FORK_user :: int where "SYSCALL_FORK_user = 10"
definition SYSCALL_STATS_user :: int where "SYSCALL_STATS_user = 11"
definition SYSCALL_CONFIGURE_user :: int where "SYSCALL_CONFIGURE_user = 12"
definition SYSCALL_PHYS_INFO_user :: int where "SYSCALL_PHYS_INFO_user = 13"
definition SYSCALL_DUMP_PTT_user :: int where "SYSCALL_DUMP_PTT_user = 14"
definition SYSCALL_CFORK_user :: int where "SYSCALL_CFORK_user = 15"
definition SYSCALL_MMAP_user :: int where "SYSCALL_MMAP_user = 16"
definition SYSCALL_MUNMAP_user :: int where "SYSCALL_MUNMAP_user = 17"
definition SYSCALL_MPROTECT_user :: int where "SYSCALL_MPROTECT_user = 18"
definition SYSCALL_PMAP_user :: int where "SYSCALL_PMAP_user = 19"
definition SYSCALL_VFORK_user :: int where "SYSCALL_VFORK_user = 20"
definition SYSCALL_GET_USER_P_user :: int where "SYSCALL_GET_USER_P_user = 21"
definition SYSCALL_GET_COW_F_user :: int where "SYSCALL_GET_COW_F_user = 22"
definition SYSCALL_OPEN_user :: int where "SYSCALL_OPEN_user = 23"
definition SYSCALL_READ_user :: int where "SYSCALL_READ_user = 24"
definition SYSCALL_WRITE_user :: int where "SYSCALL_WRITE_user = 25"
definition SYSCALL_PIPE_user :: int where "SYSCALL_PIPE_user = 26"
definition SYSCALL_DUP_user :: int where "SYSCALL_DUP_user = 27"
definition SYSCALL_DUP2_user :: int where "SYSCALL_DUP2_user = 28"
definition SYSCALL_CLOSE_user :: int where "SYSCALL_CLOSE_user = 29"
definition SYSCALL_LSEEK_user :: int where "SYSCALL_LSEEK_user = 30"
definition SYSCALL_SENDFILE_user :: int where "SYSCALL_SENDFILE_user = 38"
definition SYSCALL_CREATE_MSG_QUEUE_user :: int where "SYSCALL_CREATE_MSG_QUEUE_user = 31"
definition SYSCALL_GET_MEMBER_INFO_user :: int where "SYSCALL_GET_MEMBER_INFO_user = 32"
definition SYSCALL_GET_MSG_COUNT_user :: int where "SYSCALL_GET_MSG_COUNT_user = 33"
definition SYSCALL_MSG_QUEUE_BLOCK_user :: int where "SYSCALL_MSG_QUEUE_BLOCK_user = 34"
definition SYSCALL_MSG_QUEUE_RCV_user :: int where "SYSCALL_MSG_QUEUE_RCV_user = 35"
definition SYSCALL_MSG_QUEUE_SEND_user :: int where "SYSCALL_MSG_QUEUE_SEND_user = 36"
definition SYSCALL_MSG_QUEUE_CLOSE_user :: int where "SYSCALL_MSG_QUEUE_CLOSE_user = 37"

declare
  SYSCALL_EXIT_user_def [user_nr] SYSCALL_GETPID_user_def [user_nr] SYSCALL_EXPAND_user_def [user_nr]
  SYSCALL_SHRINK_user_def [user_nr] SYSCALL_ALARM_user_def [user_nr] SYSCALL_SLEEP_user_def [user_nr]
  SYSCALL_SIGNAL_user_def [user_nr] SYSCALL_CLONE_user_def [user_nr] SYSCALL_FORK_user_def [user_nr]
  SYSCALL_STATS_user_def [user_nr] SYSCALL_CONFIGURE_user_def [user_nr] SYSCALL_PHYS_INFO_user_def [user_nr]
  SYSCALL_DUMP_PTT_user_def [user_nr] SYSCALL_CFORK_user_def [user_nr] SYSCALL_MMAP_user_def [user_nr]
  SYSCALL_MUNMAP_user_def [user_nr] SYSCALL_MPROTECT_user_def [user_nr] SYSCALL_PMAP_user_def [user_nr]
  SYSCALL_VFORK_user_def [user_nr] SYSCALL_GET_USER_P_user_def [user_nr] SYSCALL_GET_COW_F_user_def [user_nr]
  SYSCALL_OPEN_user_def [user_nr] SYSCALL_READ_user_def [user_nr] SYSCALL_WRITE_user_def [user_nr]
  SYSCALL_PIPE_user_def [user_nr] SYSCALL_DUP_user_def [user_nr] SYSCALL_DUP2_user_def [user_nr]
  SYSCALL_CLOSE_user_def [user_nr] SYSCALL_LSEEK_user_def [user_nr] SYSCALL_SENDFILE_user_def [user_nr]
  SYSCALL_CREATE_MSG_QUEUE_user_def [user_nr] SYSCALL_GET_MEMBER_INFO_user_def [user_nr] SYSCALL_GET_MSG_COUNT_user_def [user_nr]
  SYSCALL_MSG_QUEUE_BLOCK_user_def [user_nr] SYSCALL_MSG_QUEUE_RCV_user_def [user_nr] SYSCALL_MSG_QUEUE_SEND_user_def [user_nr]
  SYSCALL_MSG_QUEUE_CLOSE_user_def [user_nr]

section \<open>Open flags\<close>

definition O_CREAT_user :: u32 where "O_CREAT_user = 8"

end
