(* ===== verification/UserLib.thy ===== *)
theory UserLib
  imports KernelSteps UserHeader
begin

text \<open>
  The user library of \<^verbatim>\<open>Assignment2/user/lib.c\<close>: the wrappers that put a call number and its
  arguments into the registers and trap into the kernel, the formatted output, and string
  comparison. A wrapper is run against the dispatcher of \<open>Syscalls\<close>, so that the lemmas here are
  about a user program's view of the kernel.
\<close>

section \<open>The trap\<close>

text \<open>
  The environment of the kernel, the slot of the calling process, and what the parameter registers
  hold when a wrapper does not set them (the kernel gets them all). The entry code between the
  \<^verbatim>\<open>int $0x80\<close> and \<open>do_syscall\<close> is not under \<^verbatim>\<open>src/\<close>.
\<close>

record user =
  env_of :: env
  slot :: nat
  stale :: "nat \<Rightarrow> u64"

type_synonym sysret = "(int option \<times> kernel) res"

definition trap :: "user \<Rightarrow> int \<Rightarrow> u64 \<Rightarrow> u64 \<Rightarrow> u64 \<Rightarrow> u64 \<Rightarrow> kernel \<Rightarrow> sysret" where
  "trap u nr p1 p2 p3 p4 k = do_syscall (env_of u) k (slot u) nr p1 p2 p3 p4"

definition syscall0 :: "user \<Rightarrow> int \<Rightarrow> kernel \<Rightarrow> sysret" where
  "syscall0 u nr k = trap u nr (stale u 1) (stale u 2) (stale u 3) (stale u 4) k"

definition syscall1 :: "user \<Rightarrow> int \<Rightarrow> u64 \<Rightarrow> kernel \<Rightarrow> sysret" where
  "syscall1 u nr arg1 k = trap u nr arg1 (stale u 2) (stale u 3) (stale u 4) k"

definition syscall2 :: "user \<Rightarrow> int \<Rightarrow> u64 \<Rightarrow> u64 \<Rightarrow> kernel \<Rightarrow> sysret" where
  "syscall2 u nr arg1 arg2 k = trap u nr arg1 arg2 (stale u 3) (stale u 4) k"

definition syscall3 :: "user \<Rightarrow> int \<Rightarrow> u64 \<Rightarrow> u64 \<Rightarrow> u64 \<Rightarrow> kernel \<Rightarrow> sysret" where
  "syscall3 u nr arg1 arg2 arg3 k = trap u nr arg1 arg2 arg3 (stale u 4) k"

definition syscall4 :: "user \<Rightarrow> int \<Rightarrow> u64 \<Rightarrow> u64 \<Rightarrow> u64 \<Rightarrow> u64 \<Rightarrow> kernel \<Rightarrow> sysret" where
  "syscall4 u nr arg1 arg2 arg3 arg4 k = trap u nr arg1 arg2 arg3 arg4 k"

lemmas syscall_defs = trap_def syscall0_def syscall1_def syscall2_def syscall3_def syscall4_def

text \<open>A wrapper that returns \<open>int\<close> drops the upper half of the \<open>long\<close>.\<close>

definition int_result :: "sysret \<Rightarrow> sysret" where
  "int_result r = bind_res r (\<lambda>(v, k). Inr (map_option (\<lambda>x. sint (word_of_int x :: u32)) v, k))"

section \<open>The wrappers\<close>

definition lib_exit :: "user \<Rightarrow> int \<Rightarrow> kernel \<Rightarrow> sysret" where
  "lib_exit u code k = syscall1 u SYSCALL_EXIT_user (of_int code) k"

definition lib_getpid :: "user \<Rightarrow> kernel \<Rightarrow> sysret" where
  "lib_getpid u k = syscall0 u SYSCALL_GETPID_user k"

definition lib_fork :: "user \<Rightarrow> kernel \<Rightarrow> sysret" where
  "lib_fork u k = syscall0 u SYSCALL_FORK_user k"

definition lib_cfork :: "user \<Rightarrow> kernel \<Rightarrow> sysret" where
  "lib_cfork u k = syscall0 u SYSCALL_CFORK_user k"

definition lib_vfork :: "user \<Rightarrow> kernel \<Rightarrow> sysret" where
  "lib_vfork u k = syscall0 u SYSCALL_VFORK_user k"

definition lib_physinfo :: "user \<Rightarrow> kernel \<Rightarrow> sysret" where
  "lib_physinfo u k = syscall0 u SYSCALL_PHYS_INFO_user k"

definition lib_get_stats :: "user \<Rightarrow> kernel \<Rightarrow> sysret" where
  "lib_get_stats u k = syscall0 u SYSCALL_STATS_user k"

definition lib_get_user_page_stats :: "user \<Rightarrow> kernel \<Rightarrow> sysret" where
  "lib_get_user_page_stats u k = syscall0 u SYSCALL_GET_USER_P_user k"

definition lib_get_cow_fault_stats :: "user \<Rightarrow> kernel \<Rightarrow> sysret" where
  "lib_get_cow_fault_stats u k = syscall0 u SYSCALL_GET_COW_F_user k"

definition lib_configure :: "user \<Rightarrow> u64 \<Rightarrow> kernel \<Rightarrow> sysret" where
  "lib_configure u new_config k = syscall1 u SYSCALL_CONFIGURE_user new_config k"

definition lib_dump_page_table :: "user \<Rightarrow> u64 \<Rightarrow> kernel \<Rightarrow> sysret" where
  "lib_dump_page_table u address k = syscall1 u SYSCALL_DUMP_PTT_user address k"

definition lib_signal :: "user \<Rightarrow> int \<Rightarrow> u64 \<Rightarrow> kernel \<Rightarrow> sysret" where
  "lib_signal u num handler k = syscall2 u SYSCALL_SIGNAL_user (of_int num) handler k"

definition lib_sleep :: "user \<Rightarrow> int \<Rightarrow> kernel \<Rightarrow> sysret" where
  "lib_sleep u n k = syscall1 u SYSCALL_SLEEP_user (of_int n) k"

definition lib_expand :: "user \<Rightarrow> u32 \<Rightarrow> int \<Rightarrow> kernel \<Rightarrow> sysret" where
  "lib_expand u sz flags k = syscall2 u SYSCALL_EXPAND_user (ucast sz) (of_int flags) k"

definition lib_clone :: "user \<Rightarrow> u64 \<Rightarrow> int \<Rightarrow> kernel \<Rightarrow> sysret" where
  "lib_clone u func stack_addr k = syscall2 u SYSCALL_CLONE_user func (of_int stack_addr) k"

definition lib_mmap :: "user \<Rightarrow> u64 \<Rightarrow> int \<Rightarrow> int \<Rightarrow> int \<Rightarrow> kernel \<Rightarrow> sysret" where
  "lib_mmap u addr len prot flags k = syscall4 u SYSCALL_MMAP_user addr (of_int len) (of_int prot) (of_int flags) k"

definition lib_munmap :: "user \<Rightarrow> u64 \<Rightarrow> int \<Rightarrow> kernel \<Rightarrow> sysret" where
  "lib_munmap u addr len k = int_result (syscall2 u SYSCALL_MUNMAP_user addr (of_int len) k)"

definition lib_mprotect :: "user \<Rightarrow> u64 \<Rightarrow> int \<Rightarrow> int \<Rightarrow> kernel \<Rightarrow> sysret" where
  "lib_mprotect u addr len prot k = int_result (syscall3 u SYSCALL_MPROTECT_user addr (of_int len) (of_int prot) k)"

definition lib_pmap :: "user \<Rightarrow> int \<Rightarrow> kernel \<Rightarrow> sysret" where
  "lib_pmap u details k = int_result (syscall1 u SYSCALL_PMAP_user (of_int details) k)"

definition lib_read :: "user \<Rightarrow> int \<Rightarrow> u64 \<Rightarrow> int \<Rightarrow> kernel \<Rightarrow> sysret" where
  "lib_read u fd buf count k = int_result (syscall3 u SYSCALL_READ_user (of_int fd) buf (of_int count) k)"

definition lib_write :: "user \<Rightarrow> int \<Rightarrow> u64 \<Rightarrow> int \<Rightarrow> kernel \<Rightarrow> sysret" where
  "lib_write u fd buf count k = int_result (syscall3 u SYSCALL_WRITE_user (of_int fd) buf (of_int count) k)"

definition lib_pipe :: "user \<Rightarrow> u64 \<Rightarrow> kernel \<Rightarrow> sysret" where
  "lib_pipe u fd k = int_result (syscall1 u SYSCALL_PIPE_user fd k)"

definition lib_dup :: "user \<Rightarrow> int \<Rightarrow> kernel \<Rightarrow> sysret" where
  "lib_dup u oldfd k = int_result (syscall1 u SYSCALL_DUP_user (of_int oldfd) k)"

definition lib_dup2 :: "user \<Rightarrow> int \<Rightarrow> int \<Rightarrow> kernel \<Rightarrow> sysret" where
  "lib_dup2 u oldfd newfd k = int_result (syscall2 u SYSCALL_DUP2_user (of_int oldfd) (of_int newfd) k)"

definition lib_close :: "user \<Rightarrow> int \<Rightarrow> kernel \<Rightarrow> sysret" where
  "lib_close u fd k = int_result (syscall1 u SYSCALL_CLOSE_user (of_int fd) k)"

definition lib_lseek :: "user \<Rightarrow> int \<Rightarrow> int \<Rightarrow> int \<Rightarrow> kernel \<Rightarrow> sysret" where
  "lib_lseek u fd offset wh k = syscall3 u SYSCALL_LSEEK_user (of_int fd) (of_int offset) (of_int wh) k"

definition lib_sendfile :: "user \<Rightarrow> int \<Rightarrow> int \<Rightarrow> u64 \<Rightarrow> int \<Rightarrow> kernel \<Rightarrow> sysret" where
  "lib_sendfile u outfd infd offset count k = int_result (syscall4 u SYSCALL_SENDFILE_user (of_int outfd) (of_int infd) offset (of_int count) k)"

definition lib_create_msg_queue :: "user \<Rightarrow> kernel \<Rightarrow> sysret" where
  "lib_create_msg_queue u k = int_result (syscall0 u SYSCALL_CREATE_MSG_QUEUE_user k)"

definition lib_get_member_info :: "user \<Rightarrow> int \<Rightarrow> u64 \<Rightarrow> kernel \<Rightarrow> sysret" where
  "lib_get_member_info u fd info k = int_result (syscall2 u SYSCALL_GET_MEMBER_INFO_user (of_int fd) info k)"

definition lib_msg_queue_send :: "user \<Rightarrow> int \<Rightarrow> u64 \<Rightarrow> kernel \<Rightarrow> sysret" where
  "lib_msg_queue_send u fd msg k = int_result (syscall2 u SYSCALL_MSG_QUEUE_SEND_user (of_int fd) msg k)"

definition lib_msg_queue_rcv :: "user \<Rightarrow> int \<Rightarrow> u64 \<Rightarrow> kernel \<Rightarrow> sysret" where
  "lib_msg_queue_rcv u fd msg k = int_result (syscall2 u SYSCALL_MSG_QUEUE_RCV_user (of_int fd) msg k)"

definition lib_get_msg_count :: "user \<Rightarrow> int \<Rightarrow> kernel \<Rightarrow> sysret" where
  "lib_get_msg_count u fd k = int_result (syscall1 u SYSCALL_GET_MSG_COUNT_user (of_int fd) k)"

definition lib_msg_queue_block :: "user \<Rightarrow> int \<Rightarrow> int \<Rightarrow> kernel \<Rightarrow> sysret" where
  "lib_msg_queue_block u fd pd k = int_result (syscall2 u SYSCALL_MSG_QUEUE_BLOCK_user (of_int fd) (of_int pd) k)"

definition lib_msg_queue_close :: "user \<Rightarrow> int \<Rightarrow> kernel \<Rightarrow> sysret" where
  "lib_msg_queue_close u fd k = int_result (syscall1 u SYSCALL_MSG_QUEUE_CLOSE_user (of_int fd) k)"

text \<open>
  \<open>open\<close> fetches its third argument whether or not there is one, and passes it on only when
  \<open>O_CREAT\<close> is set.
\<close>

definition lib_open :: "user \<Rightarrow> u64 \<Rightarrow> int \<Rightarrow> int \<Rightarrow> kernel \<Rightarrow> sysret" where
  "lib_open u fname flags mode k =
     int_result
       (if (of_int flags :: u32) AND O_CREAT_user = O_CREAT_user
        then syscall3 u SYSCALL_OPEN_user fname (of_int flags) (of_int mode) k
        else syscall2 u SYSCALL_OPEN_user fname (of_int flags) k)"

text \<open>The first function of a program: \<open>main\<close>, whose result is dropped, then \<open>exit(0)\<close>.\<close>

definition init_start :: "user \<Rightarrow> (kernel \<Rightarrow> (int \<times> kernel) res) \<Rightarrow> kernel \<Rightarrow> sysret" where
  "init_start u main k = bind_res (main k) (\<lambda>(retval, k1). lib_exit u 0 k1)"


section \<open>What a wrapper asks of the kernel\<close>

lemma uint_of_int_u64: "0 \<le> x \<Longrightarrow> x < 2 ^ 63 \<Longrightarrow> uint (of_int x :: u64) = x"
  by (rule uint_u64_of_int) simp_all

lemma ucast_of_int: "(ucast (of_int x :: u64) :: u32) = of_int x"
  by (rule bit_word_eqI) (simp add: bit_simps)

lemma sint_of_int_u32: "- (2 ^ 31) \<le> x \<Longrightarrow> x < 2 ^ 31 \<Longrightarrow> sint (of_int x :: u32) = x"
  by (simp add: signed_of_int signed_take_bit_int_eq_self)

lemma int_arg_of_int: "- (2 ^ 31) \<le> x \<Longrightarrow> x < 2 ^ 31 \<Longrightarrow> int_arg (of_int x) = x"
  by (simp add: int_arg_def ucast_of_int sint_of_int_u32)

lemma int_result_returns:
  "- (2 ^ 31) \<le> v \<Longrightarrow> v < 2 ^ 31 \<Longrightarrow> int_result (returns (Inr (v, k))) = Inr (Some v, k)"
  by (simp add: int_result_def returns_def sint_of_int_u32)

text \<open>The kernel when the switch begins: the registers are saved and the call is counted.\<close>

definition called :: "user \<Rightarrow> kernel \<Rightarrow> kernel" where
  "called u k = (case enter_syscall (env_of u) k (slot u) of Inl _ \<Rightarrow> k | Inr k' \<Rightarrow> k')"

lemma called_simps [simp]:
  "mem (called u k) = mem k" "sb (called u k) = sb k" "fheap (called u k) = fheap k"
  "qheap (called u k) = qheap k" "config (called u k) = config k"
  by (simp_all add: called_def enter_syscall_def ctx_at_def Let_def split: option.split)

lemma called_ctx:
  "ctxs (called u k) c = (if c = slot u \<and> ctxs k c \<noteq> None
     then Some ((the (ctxs k c))\<lparr>regs := load_regs (mem k) (entry_rbp (env_of u) k + 0x10)\<rparr>) else ctxs k c)"
  by (auto simp: called_def enter_syscall_def ctx_at_def Let_def split: option.split)

lemma called_get_fd [simp]: "get_fd (called u k) c fd = get_fd k c fd"
  by (auto simp: get_fd_def ctx_at_def called_ctx split: option.split)

lemma enter_called: "ctxs k (slot u) \<noteq> None \<Longrightarrow> enter_syscall (env_of u) k (slot u) = Inr (called u k)"
  by (auto simp: called_def enter_syscall_def Let_def)

lemma trap_called:
  "ctxs k (slot u) \<noteq> None \<Longrightarrow> trap u nr p1 p2 p3 p4 k = dispatch (env_of u) (called u k) (slot u) nr p1 p2 p3 p4"
  by (simp add: trap_def do_syscall_def enter_called)

lemma get_fd_live: "get_fd k c fd = Inr p \<Longrightarrow> ctxs k c \<noteq> None"
  by (auto simp: get_fd_Inr)

text \<open>\<open>dup\<close> has a number, a wrapper and no case in the dispatcher.\<close>

lemma lib_dup_eq: "ctxs k (slot u) \<noteq> None \<Longrightarrow> lib_dup u oldfd k = Inr (Some (-1), called u k)"
  by (simp add: lib_dup_def syscall1_def trap_called dispatch_def syscall_nr user_nr int_result_def sint_of_int_u32)

section \<open>A wrapper and the handler behind it\<close>

text \<open>
  The calls of the library as data, and two ways to perform one: by the wrapper, whose arguments pass
  through the registers and the dispatcher, and by the kernel's handler on the arguments themselves.
\<close>

datatype request =
    Req_getpid | Req_fork | Req_exit int
  | Req_open u64 int int | Req_read int u64 int | Req_write int u64 int | Req_pipe u64
  | Req_dup2 int int | Req_close int | Req_lseek int int int | Req_sendfile int int u64 int
  | Req_create | Req_info int u64 | Req_send int u64 | Req_rcv int u64 | Req_count int
  | Req_block int int | Req_leave int

fun lib_call :: "user \<Rightarrow> request \<Rightarrow> kernel \<Rightarrow> sysret" where
  "lib_call u Req_getpid k = lib_getpid u k"
| "lib_call u Req_fork k = lib_fork u k"
| "lib_call u (Req_exit code) k = lib_exit u code k"
| "lib_call u (Req_open fname flags mode) k = lib_open u fname flags mode k"
| "lib_call u (Req_read fd buf count) k = lib_read u fd buf count k"
| "lib_call u (Req_write fd buf count) k = lib_write u fd buf count k"
| "lib_call u (Req_pipe fds) k = lib_pipe u fds k"
| "lib_call u (Req_dup2 oldfd newfd) k = lib_dup2 u oldfd newfd k"
| "lib_call u (Req_close fd) k = lib_close u fd k"
| "lib_call u (Req_lseek fd offset wh) k = lib_lseek u fd offset wh k"
| "lib_call u (Req_sendfile outfd infd offset count) k = lib_sendfile u outfd infd offset count k"
| "lib_call u Req_create k = lib_create_msg_queue u k"
| "lib_call u (Req_info fd info) k = lib_get_member_info u fd info k"
| "lib_call u (Req_send fd msg) k = lib_msg_queue_send u fd msg k"
| "lib_call u (Req_rcv fd msg) k = lib_msg_queue_rcv u fd msg k"
| "lib_call u (Req_count fd) k = lib_get_msg_count u fd k"
| "lib_call u (Req_block fd pd) k = lib_msg_queue_block u fd pd k"
| "lib_call u (Req_leave fd) k = lib_msg_queue_close u fd k"

text \<open>What a handler writes to the object at \<open>a\<close>.\<close>

definition writes :: "(memory \<Rightarrow> u64 \<Rightarrow> 'a \<Rightarrow> memory) \<Rightarrow> u64 \<Rightarrow> (int \<times> 'a option \<times> kernel) res \<Rightarrow> (int \<times> kernel) res" where
  "writes store a r =
     bind_res r (\<lambda>(v, out, k). Inr (v, case out of None \<Rightarrow> k | Some x \<Rightarrow> k\<lparr>mem := store (mem k) a x\<rparr>))"

definition int_whence :: "int \<Rightarrow> whence" where
  "int_whence w = (if w = 0 then SEEK_SET else if w = 1 then SEEK_CUR else if w = 2 then SEEK_END else Other_whence)"

fun kernel_call :: "env \<Rightarrow> nat \<Rightarrow> u64 \<Rightarrow> request \<Rightarrow> kernel \<Rightarrow> (int option \<times> kernel) res" where
  "kernel_call e c r3 Req_getpid k = bind_res (ctx_at k c) (\<lambda>ctx. Inr (Some (uint (pid ctx)), k))"
| "kernel_call e c r3 Req_fork k = returns (do_fork e k c)"
| "kernel_call e c r3 (Req_exit code) k = bind_res (do_exit k c) (\<lambda>(_, k'). Inr (Some 0, k'))"
| "kernel_call e c r3 (Req_open fname flags mode) k =
     (case c_string (mem k) fname of
        None \<Rightarrow> Inl RunawayLoop
      | Some s \<Rightarrow> (let (p, page) = file_page e k;
                        m = (if (of_int flags :: u32) AND O_CREAT \<noteq> 0 then of_int mode else r3)
                    in returns (do_file_open p page k c s (of_int flags) m)))"
| "kernel_call e c r3 (Req_read fd buf count) k = returns (do_file_read (dev e) k c (of_int fd) buf (of_int count))"
| "kernel_call e c r3 (Req_write fd buf count) k = returns (do_file_write (dev e) k c (of_int fd) buf (of_int count))"
| "kernel_call e c r3 (Req_pipe fds) k = returns (do_create_pipe e k c fds)"
| "kernel_call e c r3 (Req_dup2 oldfd newfd) k = returns (do_dup2 k c oldfd newfd)"
| "kernel_call e c r3 (Req_close fd) k = do_close k c fd"
| "kernel_call e c r3 (Req_lseek fd offset wh) k = returns (do_lseek k c fd offset (int_whence wh))"
| "kernel_call e c r3 (Req_sendfile outfd infd offset count) k =
     returns (writes (\<lambda>m a x. store64 m a (word_of_int x)) offset
       (do_sendfile (buff_page e k) k c outfd infd (at_ptr (\<lambda>m a. sint (load64 m a)) (mem k) offset) count))"
| "kernel_call e c r3 Req_create k =
     (let (q, qpage) = queue_page e k; (p, page) = file_page e k
      in returns (do_create_msg_queue q qpage p page k c))"
| "kernel_call e c r3 (Req_info fd info) k = returns (writes store_info info (do_get_member_info k c (of_int fd)))"
| "kernel_call e c r3 (Req_send fd msg) k =
     returns (call_msg_queue_send k c (of_int fd) (at_ptr load_message (mem k) msg))"
| "kernel_call e c r3 (Req_rcv fd msg) k = returns (writes store_message msg (call_msg_queue_rcv k c (of_int fd) (msg \<noteq> 0)))"
| "kernel_call e c r3 (Req_count fd) k = returns (call_get_msg_count k c (of_int fd))"
| "kernel_call e c r3 (Req_block fd pd) k = returns (call_msg_queue_block k c (of_int fd) (of_int pd))"
| "kernel_call e c r3 (Req_leave fd) k = returns (do_msg_queue_close k c fd)"

text \<open>The calls whose C type is \<open>int\<close>, and the arguments C can pass.\<close>

fun long_call :: "request \<Rightarrow> bool" where
  "long_call Req_getpid = True"
| "long_call Req_fork = True"
| "long_call (Req_exit _) = True"
| "long_call (Req_lseek _ _ _) = True"
| "long_call _ = False"

definition is_int :: "int \<Rightarrow> bool" where "is_int x \<longleftrightarrow> - (2 ^ 31) \<le> x \<and> x < 2 ^ 31"
definition is_long :: "int \<Rightarrow> bool" where "is_long x \<longleftrightarrow> - (2 ^ 63) \<le> x \<and> x < 2 ^ 63"

fun args_ok :: "request \<Rightarrow> bool" where
  "args_ok (Req_dup2 oldfd newfd) \<longleftrightarrow> is_int oldfd \<and> is_int newfd"
| "args_ok (Req_close fd) \<longleftrightarrow> is_int fd"
| "args_ok (Req_lseek fd offset wh) \<longleftrightarrow> is_int fd \<and> is_long offset \<and> is_int wh"
| "args_ok (Req_sendfile outfd infd offset count) \<longleftrightarrow> is_int outfd \<and> is_int infd \<and> is_int count"
| "args_ok (Req_leave fd) \<longleftrightarrow> is_int fd"
| "args_ok _ \<longleftrightarrow> True"

lemma arg_of_int: "is_int x \<Longrightarrow> int_arg (of_int x) = x" "is_int x \<Longrightarrow> sint (ucast (of_int x :: u64) :: u32) = x"
  using int_arg_of_int [of x] by (simp_all add: is_int_def int_arg_def)

lemma long_of_int: "is_long x \<Longrightarrow> sint (of_int x :: u64) = x"
  by (simp add: is_long_def signed_of_int signed_take_bit_int_eq_self)

lemma whence_of_int: "is_int x \<Longrightarrow> whence_of (of_int x) = int_whence x"
  by (simp add: whence_of_def int_whence_def arg_of_int)

lemma returns_writes:
  "bind_res r (\<lambda>(v, out, k). Inr (Some v, case out of None \<Rightarrow> k | Some x \<Rightarrow> k\<lparr>mem := store (mem k) a x\<rparr>)) =
   returns (writes store a r)"
  by (simp add: returns_def writes_def bind_res_def split: sum.split prod.split)

lemma creat_flag: "(w :: u32) AND O_CREAT = O_CREAT \<longleftrightarrow> w AND O_CREAT \<noteq> 0"
proof -
  have "bit O_CREAT n \<longleftrightarrow> n = 3" for n
    using bit_exp_iff [where 'a = "32 word", of 3 n] by (auto simp: O_CREAT_def)
  then have "w AND O_CREAT = O_CREAT \<longleftrightarrow> bit w 3" "w AND O_CREAT = 0 \<longleftrightarrow> \<not> bit w 3"
    unfolding bit_eq_iff [of "w AND O_CREAT"] by (auto simp: bit_and_iff dest: spec [of _ 3])
  then show ?thesis by simp
qed

lemmas wrappers = lib_getpid_def lib_fork_def lib_exit_def lib_open_def lib_read_def lib_write_def lib_pipe_def
  lib_dup2_def lib_close_def lib_lseek_def lib_sendfile_def lib_create_msg_queue_def lib_get_member_info_def
  lib_msg_queue_send_def lib_msg_queue_rcv_def lib_get_msg_count_def lib_msg_queue_block_def
  lib_msg_queue_close_def syscall0_def syscall1_def syscall2_def syscall3_def syscall4_def

lemma wrapper_handler:
  assumes live: "ctxs k (slot u) \<noteq> None" and args: "args_ok r"
  shows "lib_call u r k = (if long_call r then id else int_result)
    (kernel_call (env_of u) (slot u) (stale u 3) r (called u k))"
proof -
  note call = wrappers trap_called [OF live] dispatch_def syscall_nr user_nr
  show ?thesis
  proof (cases r)
    case (Req_open fname flags mode)
    have "O_CREAT_user = O_CREAT" by (simp add: O_CREAT_user_def O_CREAT_def)
    then show ?thesis
      by (simp add: Req_open call creat_flag Let_def split: option.split)
  next
    case (Req_dup2 oldfd newfd)
    then show ?thesis using args by (simp add: call arg_of_int)
  next
    case (Req_close fd)
    then show ?thesis using args by (simp add: call arg_of_int)
  next
    case (Req_lseek fd offset wh)
    then show ?thesis using args by (simp add: call arg_of_int long_of_int whence_of_int)
  next
    case (Req_sendfile outfd infd offset count)
    note w = returns_writes [where store = "\<lambda>m a x. store64 m a (word_of_int x)", simplified]
    from Req_sendfile show ?thesis using args by (simp add: call arg_of_int call_sendfile_def w)
  next
    case (Req_leave fd)
    then show ?thesis using args by (simp add: call arg_of_int call_msg_queue_close_def)
  qed (simp_all add: call returns_writes)
qed

lemma lib_read_eq:
  assumes "get_fd k (slot u) fd = Inr (Some p)" "0 \<le> fd" "fd < int MAX_OPEN_FILES" "fheap k p = Some f"
    and "fmode f AND O_READ = O_READ" "fread (fops f) = Some Do_read_regular"
  shows "lib_read u fd buf count k = int_result (returns (do_read_regular (called u k) (Some p) buf (of_int count)))"
proof -
  have "uint (of_int fd :: u64) = fd" using assms(2,3) by (intro uint_of_int_u64) (simp_all add: k_const)
  with assms wrapper_handler [OF get_fd_live [OF assms(1)], of "Req_read fd buf count"] show ?thesis
    by (simp add: do_file_read_def ucast_of_int del: get_fd_eq)
qed

lemma lib_write_eq:
  assumes "get_fd k (slot u) fd = Inr (Some p)" "0 \<le> fd" "fd < int MAX_OPEN_FILES" "fheap k p = Some f"
    and "fmode f AND O_WRITE \<noteq> 0" "fwrite (fops f) = Some Do_write_regular"
  shows "lib_write u fd buf count k = int_result (returns (do_write_regular (called u k) (Some p) buf (of_int count)))"
proof -
  have "uint (of_int fd :: u64) = fd" using assms(2,3) by (intro uint_of_int_u64) (simp_all add: k_const)
  with assms wrapper_handler [OF get_fd_live [OF assms(1)], of "Req_write fd buf count"] show ?thesis
    by (simp add: do_file_write_def ucast_of_int del: get_fd_eq)
qed

text \<open>The offset of a seek is a \<open>long\<close>; a whence of 0 is \<open>SEEK_SET\<close>.\<close>

lemma lib_lseek_eq:
  assumes "get_fd k (slot u) fd = Inr (Some p)" "0 \<le> fd" "fd < int MAX_OPEN_FILES" "fheap k p = Some f"
    and "flseek (fops f) = Some Do_lseek_regular" "- (2 ^ 63) \<le> off" "off < 2 ^ 63"
  shows "lib_lseek u fd off 0 k = returns (do_lseek_regular (called u k) (Some p) off SEEK_SET)"
proof -
  have "args_ok (Req_lseek fd off 0)" using assms(2,3,6,7) by (simp add: is_int_def is_long_def k_const)
  from wrapper_handler [OF get_fd_live [OF assms(1)] this] assms show ?thesis
    by (simp add: do_lseek_def int_whence_def del: get_fd_eq)
qed

lemma write_keeps_fops:
  assumes "do_write_regular k (Some p) buff count = Inr (n, k')" "fheap k p = Some f"
  shows "\<exists>f'. fheap k' p = Some f' \<and> fops f' = fops f"
  using assms by (auto simp: do_write_regular_def bind_res_Inr split: option.splits if_splits)

end
