(* ===== verification/Printf.thy ===== *)
theory Printf
  imports UserLib
begin

text \<open>
  The formatted output and the string comparison of \<^verbatim>\<open>Assignment2/user/lib.c\<close>. A format and the
  output are the characters before the terminator. \<open>vuprintf\<close> does not know the size of its buffer:
  the model returns what it writes, and \<open>printf\<close> checks it against its 4096 bytes.
\<close>

section \<open>Digits\<close>

text \<open>
  \<^verbatim>\<open>while(tmp){ chars[count++] = ... tmp % base ...; tmp /= base; }\<close>: the digits of a positive number
  from the lowest on. \<open>chars\<close> has 20 entries.
\<close>

function low_digits :: "nat \<Rightarrow> nat \<Rightarrow> nat list" where
  "low_digits base tmp = (if tmp = 0 \<or> base < 2 then [] else tmp mod base # low_digits base (tmp div base))"
  by auto
termination by (relation "measure snd") auto

declare low_digits.simps [simp del]

definition CHARS :: nat where "CHARS = 20"

definition digit_char :: "nat \<Rightarrow> char" where
  "digit_char d = char_of (if d > 9 then 65 + (d - 10) else 48 + d)"

text \<open>The digits in reading order, as \<^verbatim>\<open>while(count--) buf[out++] = chars[count];\<close> copies them.\<close>

definition digits :: "nat \<Rightarrow> nat \<Rightarrow> string res" where
  "digits base tmp =
     (let ds = low_digits base tmp
      in if length ds > CHARS then Inl OutOfBounds else Inr (rev (map digit_char ds)))"

section \<open>Conversions\<close>

text \<open>An argument of the call. A conversion that meets an argument of another type is undefined.\<close>

datatype va_arg = Int_arg int | Long_arg int | Str_arg "string option"

text \<open>\<^verbatim>\<open>tmp=-tmp\<close> overflows on the least number.\<close>

definition negate :: "int \<Rightarrow> int \<Rightarrow> int res" where
  "negate least num = (if num = least then Inl SignedOverflow else Inr (- num))"

definition conv_d :: "int \<Rightarrow> string res" where
  "conv_d num =
     (if num = 0 then Inr ''0''
      else if num < 0 then
        bind_res (negate (- (2 ^ 31)) num) (\<lambda>tmp.
        bind_res (digits 10 (nat tmp)) (\<lambda>ds. Inr (CHR ''-'' # ds)))
      else digits 10 (nat num))"

definition conv_x :: "int \<Rightarrow> string res" where
  "conv_x num =
     (if num = 0 then Inr ''0x0''
      else if num < 0 then
        bind_res (negate (- (2 ^ 63)) num) (\<lambda>tmp.
        bind_res (digits 16 (nat tmp)) (\<lambda>ds. Inr (''-0x'' @ ds)))
      else bind_res (digits 16 (nat num)) (\<lambda>ds. Inr (''0x'' @ ds)))"

definition conv_c :: "int \<Rightarrow> string" where
  "conv_c num = [char_of (nat (num mod 256))]"

definition conv_s :: "string option \<Rightarrow> string" where
  "conv_s str = (case str of None \<Rightarrow> '''' | Some s \<Rightarrow> s)"

text \<open>The \<^verbatim>\<open>switch(ch)\<close>: the output of one conversion and the arguments left.\<close>

fun convert :: "char \<Rightarrow> va_arg list \<Rightarrow> (string \<times> va_arg list) res" where
  "convert ch args =
     (if ch = CHR ''c'' then
        (case args of Int_arg n # rest \<Rightarrow> Inr (conv_c n, rest) | _ \<Rightarrow> Inl OutOfBounds)
      else if ch = CHR ''d'' \<or> ch = CHR ''u'' then
        (case args of Int_arg n # rest \<Rightarrow> bind_res (conv_d n) (\<lambda>s. Inr (s, rest)) | _ \<Rightarrow> Inl OutOfBounds)
      else if ch = CHR ''x'' then
        (case args of Long_arg n # rest \<Rightarrow> bind_res (conv_x n) (\<lambda>s. Inr (s, rest)) | _ \<Rightarrow> Inl OutOfBounds)
      else if ch = CHR ''s'' then
        (case args of Str_arg s # rest \<Rightarrow> Inr (conv_s s, rest) | _ \<Rightarrow> Inl OutOfBounds)
      else Inr ([ch], args))"

text \<open>
  A format that ends in \<open>%\<close> takes its terminator for the conversion and goes on reading behind it.
\<close>

fun vuprintf :: "string \<Rightarrow> va_arg list \<Rightarrow> string res" where
  "vuprintf [] args = Inr []"
| "vuprintf (ch # fmt) args =
     (if ch \<noteq> CHR ''%'' then bind_res (vuprintf fmt args) (\<lambda>out. Inr (ch # out))
      else case fmt of
             [] \<Rightarrow> Inl OutOfBounds
           | cv # fmt' \<Rightarrow>
               bind_res (convert cv args) (\<lambda>(s, rest).
               bind_res (vuprintf fmt' rest) (\<lambda>out. Inr (s @ out))))"

definition BUFF_SIZE :: nat where "BUFF_SIZE = 4096"

text \<open>\<open>zero\<close> clears the buffer; the bytes of the output go to its front.\<close>

definition zero_buf :: "memory \<Rightarrow> u64 \<Rightarrow> nat \<Rightarrow> memory" where
  "zero_buf m ptr n = fold (\<lambda>i m. m(ptr + of_nat i := 0)) [0..<n] m"

definition store_chars :: "memory \<Rightarrow> u64 \<Rightarrow> string \<Rightarrow> memory" where
  "store_chars m ptr s = fold (\<lambda>i m. m(ptr + of_nat i := of_nat (of_char (s ! i)))) [0..<length s] m"

text \<open>\<open>buff\<close> is where the local array of \<open>printf\<close> lies.\<close>

definition lib_printf :: "user \<Rightarrow> u64 \<Rightarrow> string \<Rightarrow> va_arg list \<Rightarrow> kernel \<Rightarrow> sysret" where
  "lib_printf u buff format args k =
     bind_res (vuprintf format args) (\<lambda>out.
       if length out > BUFF_SIZE then Inl OutOfBounds
       else let retval = int (length out);
                m = store_chars (zero_buf (mem k) buff BUFF_SIZE) buff out
            in bind_res (lib_write u 1 buff retval (k\<lparr>mem := m\<rparr>)) (\<lambda>(_, k'). Inr (Some retval, k')))"

section \<open>Comparison\<close>

text \<open>The suffixes where the loop stops: at the end of a string or at the first difference.\<close>

fun skip_equal :: "string \<Rightarrow> string \<Rightarrow> string \<times> string" where
  "skip_equal (s # ss) (d # ds) = (if s = d then skip_equal ss ds else (s # ss, d # ds))"
| "skip_equal s d = (s, d)"

definition ustrcmp :: "string \<Rightarrow> string \<Rightarrow> int" where
  "ustrcmp s d = (case skip_equal s d of ([], []) \<Rightarrow> 0 | _ \<Rightarrow> -1)"

section \<open>Reading numbers back\<close>

definition num_of :: "nat \<Rightarrow> nat list \<Rightarrow> nat" where
  "num_of base ds = fold (\<lambda>d n. n * base + d) ds 0"

definition char_digit :: "char \<Rightarrow> nat" where
  "char_digit ch = (let n = of_char ch in if n \<ge> 65 then n - 55 else n - 48)"

definition parse_num :: "nat \<Rightarrow> string \<Rightarrow> nat" where
  "parse_num base s = num_of base (map char_digit s)"

definition parse_int :: "string \<Rightarrow> int" where
  "parse_int s = (case s of [] \<Rightarrow> 0
     | ch # rest \<Rightarrow> if ch = CHR ''-'' then - int (parse_num 10 rest) else int (parse_num 10 s))"

lemma num_of_rev: "num_of base (rev (low_digits base n)) = n" if "2 \<le> base"
proof (induction n rule: less_induct)
  case (less n)
  show ?case
  proof (cases "n = 0")
    case True
    then show ?thesis by (simp add: low_digits.simps num_of_def)
  next
    case False
    then have "num_of base (rev (low_digits base (n div base))) = n div base"
      using that by (intro less.IH) (simp add: div_less_dividend)
    moreover have "low_digits base n = n mod base # low_digits base (n div base)"
      using False that by (subst low_digits.simps) simp
    ultimately show ?thesis by (simp add: num_of_def)
  qed
qed

lemma low_digits_bound: "2 \<le> base \<Longrightarrow> d \<in> set (low_digits base n) \<Longrightarrow> d < base"
proof (induction base n rule: low_digits.induct)
  case (1 base n)
  then show ?case by (subst (asm) (2) low_digits.simps) (auto split: if_splits)
qed

lemma length_low_digits: "2 \<le> base \<Longrightarrow> n < base ^ k \<Longrightarrow> length (low_digits base n) \<le> k"
proof (induction k arbitrary: n)
  case 0
  then show ?case by (simp add: low_digits.simps)
next
  case (Suc k)
  then have "n div base < base ^ k" by (simp add: less_mult_imp_div_less mult.commute)
  with Suc show ?case by (subst low_digits.simps) simp
qed

lemma low_digits_Nil: "2 \<le> base \<Longrightarrow> low_digits base n = [] \<longleftrightarrow> n = 0"
  by (subst low_digits.simps) simp

lemma char_digit_char: "d < 16 \<Longrightarrow> char_digit (digit_char d) = d"
  by (simp add: char_digit_def digit_char_def Let_def)

lemma digit_not_minus: "d < 16 \<Longrightarrow> digit_char d \<noteq> CHR ''-''"
proof
  assume "d < 16" "digit_char d = CHR ''-''"
  then have "(of_char (digit_char d) :: nat) = of_char CHR ''-''" by simp
  with \<open>d < 16\<close> show False by (simp add: digit_char_def split: if_splits)
qed

lemma digits_ok:
  assumes "2 \<le> base" "base \<le> 16" "n < base ^ CHARS"
  obtains s where "digits base n = Inr s" "parse_num base s = n" "length s \<le> CHARS"
    "\<forall>ch \<in> set s. ch \<noteq> CHR ''-''" "s = [] \<longleftrightarrow> n = 0"
proof -
  let ?ds = "low_digits base n"
  have len: "length ?ds \<le> CHARS" by (rule length_low_digits [OF assms(1,3)])
  have d: "d < 16" if "d \<in> set ?ds" for d using low_digits_bound [OF assms(1) that] assms(2) by simp
  have "map (char_digit \<circ> digit_char) ?ds = map id ?ds"
    by (rule map_cong) (simp_all add: d char_digit_char)
  then have "parse_num base (rev (map digit_char ?ds)) = n"
    using num_of_rev [OF assms(1), of n] by (simp add: parse_num_def rev_map [symmetric])
  moreover have "\<forall>ch \<in> set (map digit_char ?ds). ch \<noteq> CHR ''-''"
    using d digit_not_minus by auto
  ultimately show ?thesis
    using that [of "rev (map digit_char ?ds)"] len low_digits_Nil [OF assms(1), of n]
    by (simp add: digits_def)
qed

lemma conv_d_ok:
  assumes "- (2 ^ 31) < n" "n < 2 ^ 31"
  obtains s where "conv_d n = Inr s" "parse_int s = n" "length s \<le> CHARS + 1" "s \<noteq> []"
proof (cases "n = 0")
  case True
  then show ?thesis
    by (intro that [of "''0''"]) (simp_all add: conv_d_def parse_int_def parse_num_def num_of_def char_digit_def CHARS_def)
next
  case False
  have "nat \<bar>n\<bar> < 10 ^ CHARS" using assms by (simp add: CHARS_def nat_less_iff)
  then obtain s where s: "digits 10 (nat \<bar>n\<bar>) = Inr s" "parse_num 10 s = nat \<bar>n\<bar>" "length s \<le> CHARS"
    "\<forall>ch \<in> set s. ch \<noteq> CHR ''-''" "s \<noteq> []"
    using digits_ok [of 10 "nat \<bar>n\<bar>"] False by auto
  show ?thesis
  proof (cases "n < 0")
    case True
    with s assms False show ?thesis
      by (intro that [of "CHR ''-'' # s"]) (simp_all add: conv_d_def negate_def parse_int_def)
  next
    case False
    obtain ch rest where sr: "s = ch # rest" using s(5) by (cases s) auto
    then have "ch \<noteq> CHR ''-''" using s(4) by simp
    then have "parse_int s = int (parse_num 10 s)" by (simp add: parse_int_def sr)
    moreover have "conv_d n = Inr s" using False \<open>n \<noteq> 0\<close> s(1) by (simp add: conv_d_def)
    ultimately show ?thesis using s(2,3,5) False by (intro that [of s]) simp_all
  qed
qed

text \<open>Text without a conversion is copied, before whatever follows.\<close>

lemma vuprintf_text:
  "CHR ''%'' \<notin> set t \<Longrightarrow> vuprintf (t @ fmt) args = bind_res (vuprintf fmt args) (\<lambda>out. Inr (t @ out))"
  by (induction t) (auto simp: bind_res_def split: sum.split)

lemma vuprintf_conv:
  "vuprintf (CHR ''%'' # cv # fmt) args =
     bind_res (convert cv args) (\<lambda>(s, rest). bind_res (vuprintf fmt rest) (\<lambda>out. Inr (s @ out)))"
  by simp

lemma skip_equal_Nil: "skip_equal s d = ([], []) \<longleftrightarrow> s = d"
  by (induction s d rule: skip_equal.induct) auto

lemma ustrcmp_eq: "ustrcmp s d = (if s = d then 0 else -1)"
  using skip_equal_Nil [of s d] by (auto simp: ustrcmp_def split: prod.splits list.splits)

end
