(* ===== verification/LibProperties.thy ===== *)
theory LibProperties
  imports FileProperties Printf
begin

text \<open>
  Properties of the user library against the kernel: what a user program that calls the wrappers of
  \<^verbatim>\<open>Assignment2/user/lib.c\<close> sees.
\<close>

section \<open>Files\<close>

text \<open>
  C23: What a user program writes it reads back: a write through a descriptor, a seek to where the
  write began and a read of the same count return the count, the position and the count, and the
  second buffer then holds what the first one held.
\<close>

theorem user_write_read_roundtrip:
  assumes fd: "get_fd k (slot u) fd = Inr (Some p)" "0 \<le> fd" "fd < int MAX_OPEN_FILES"
    and f: "open_regular k p i f" and mode: "fmode f AND O_WRITE \<noteq> 0" "fmode f AND O_READ = O_READ"
    and ops: "fread (fops f) = Some Do_read_regular" "fwrite (fops f) = Some Do_write_regular"
      "flseek (fops f) = Some Do_lseek_regular"
    and fit: "0 \<le> count" "uint (offp f) + count \<le> int FILE_SIZE"
    and src: "buffer_apart k src (nat count)" and dst: "2 ^ 31 \<le> uint dst" "uint dst + count \<le> 2 ^ 64"
  shows "\<exists>k1 k2 k3. lib_write u fd src count k = Inr (Some count, k1) \<and>
    lib_lseek u fd (uint (offp f)) 0 k1 = Inr (Some (uint (offp f)), k2) \<and>
    lib_read u fd dst count k2 = Inr (Some count, k3) \<and>
    read_bytes (mem k3) dst (nat count) = read_bytes (mem k) src (nat count)"
proof -
  have "count \<le> int FILE_SIZE" using fit uint_u32_bounds(1) [of "offp f"] by linarith
  then have small: "count < 2 ^ 31" by (simp add: fs_const)
  have cu: "uint (of_int count :: u32) = count" using fit(1) small by (intro uint_u32_of_int) simp_all
  then have cn: "unat (of_int count :: u32) = nat count" by (simp add: nat_uint_eq [symmetric])
  have ou: "uint (offp f) \<le> int FILE_SIZE" by (rule open_regularD(7) [OF f])
  have o: "- (2 ^ 63) \<le> uint (offp f)" by (rule order_trans [OF _ uint_u32_bounds(1)]) simp
  have o': "uint (offp f) < 2 ^ 63" using ou by (simp add: fs_const)
  have m: "fmode f AND O_READ \<noteq> 0" using mode(2) by (simp add: O_READ_def)
  have "int (unat (offp f)) + int (unat (of_int count :: u32)) \<le> int FILE_SIZE" using fit cu by simp
  then have fit': "unat (offp f) + unat (of_int count :: u32) \<le> FILE_SIZE" by linarith
  let ?g = "called u"
  have g: "\<And>k. same_files k (?g k)" by (simp add: same_files_def)
  have f0: "open_regular (?g k) p i f" using f by (simp add: same_files_open [OF g])
  have src0: "buffer_apart (?g k) src (nat count)" using src by (simp add: buffer_apart_def)
  obtain k1 f1 k2 k3 where k: "do_write_regular (?g k) (Some p) src (of_int count) = Inr (count, k1)"
    "do_lseek_regular (?g k1) (Some p) (uint (offp f)) SEEK_SET = Inr (uint (offp f), k2)"
    "do_read_regular (?g k2) (Some p) dst (of_int count) = Inr (count, k3)"
    "read_bytes (mem k3) dst (nat count) = read_bytes (mem (?g k)) src (nat count)"
    "fheap k1 p = Some f1" "fmode f1 = fmode f" "fheap k2 p = Some (f1\<lparr>offp := offp f\<rparr>)"
    "ctxs k1 = ctxs (?g k)" "ctxs k2 = ctxs (?g k1)"
    by (rule write_seek_read [OF f0 mode(1) m fit', of src dst ?g, unfolded cu cn, OF src0 dst g])
  have fops: "fops f1 = fops f" using write_keeps_fops [OF k(1)] open_regularD(2) [OF f] k(5) by auto
  have "get_fd k1 (slot u) fd = get_fd (?g k) (slot u) fd" "get_fd k2 (slot u) fd = get_fd (?g k1) (slot u) fd"
    using k(8,9) by (simp_all only: get_fd_def ctx_at_def)
  then have g: "get_fd k1 (slot u) fd = Inr (Some p)" "get_fd k2 (slot u) fd = Inr (Some p)"
    using fd(1) by simp_all
  have "lib_write u fd src count k = Inr (Some count, k1)"
    using lib_write_eq [OF fd open_regularD(2) [OF f] mode(1) ops(2)] k(1) small fit(1)
    by (simp add: int_result_returns)
  moreover have "lib_lseek u fd (uint (offp f)) 0 k1 = Inr (Some (uint (offp f)), k2)"
    using lib_lseek_eq [OF g(1) fd(2,3) k(5) _ o o'] fops ops(3) k(2) by (simp add: returns_def)
  moreover have "lib_read u fd dst count k2 = Inr (Some count, k3)"
    using lib_read_eq [OF g(2) fd(2,3) k(7), where buf = dst and count = count] fops ops(1) mode(2) k(3,6) small fit(1)
    by (simp add: int_result_returns)
  ultimately show ?thesis using k(4) by auto
qed

text \<open>A user process in slot 1; nothing outside the kernel does anything.\<close>

definition sample_env :: env where
  "sample_env = \<lparr>dev = sample_device, file_page = (\<lambda>_. (20, zero_page)),
     queue_page = (\<lambda>_. (Some 40, blank_queue)), buff_page = (\<lambda>_. user_buf),
     get_new_ctx = (\<lambda>_. (2, 2)), copy_mm = (\<lambda>_ _ k. k), setup_child_context = (\<lambda>_ k. k),
     entry_rbp = (\<lambda>_. 0x7f0000), create_pipe = (\<lambda>_ _ k. Inr (-1, k)),
     other_syscall = (\<lambda>_ _ _ _ _ _ k. Inr (-1, k))\<rparr>"

definition sample_user :: user where
  "sample_user = \<lparr>env_of = sample_env, slot = 1, stale = (\<lambda>_. 0)\<rparr>"

theorem user_write_read_roundtrip_witness:
  "\<exists>k1 k2 k3. lib_write sample_user 3 user_buf 7 sample_kernel = Inr (Some 7, k1) \<and>
    lib_lseek sample_user 3 2 0 k1 = Inr (Some 2, k2) \<and>
    lib_read sample_user 3 (user_buf + 512) 7 k2 = Inr (Some 7, k3) \<and>
    read_bytes (mem k3) (user_buf + 512) 7 = read_bytes (\<lambda>a. ucast a) user_buf 7"
proof -
  have fd: "get_fd sample_kernel (slot sample_user) 3 = Inr (Some 10)"
    by (simp add: sample_user_def sample_files k_const)
  have ops: "fread (fops sample_file) = Some Do_read_regular" "fwrite (fops sample_file) = Some Do_write_regular"
      "flseek (fops sample_file) = Some Do_lseek_regular" by (simp_all add: sample_file_def)
  from user_write_read_roundtrip [OF fd _ _ sample_open _ _ ops, of 7 user_buf "user_buf + 512"]
  show ?thesis using sample_apart [of 7]
    by (simp add: sample_modes fs_const k_const user_buf_def)
qed

text \<open>The library's dup always fails: its call number has no case in the dispatcher.\<close>

theorem user_dup_fails: "ctxs k (slot u) \<noteq> None \<Longrightarrow> lib_dup u oldfd k = Inr (Some (-1), called u k)"
  by (rule lib_dup_eq)

section \<open>Formatted output\<close>

text \<open>
  C40: Formatting an integer with \<open>%d\<close> between two texts copies the texts and writes the number so
  that reading it back gives the number, in at most 21 characters; only the least \<open>int\<close>, whose
  negation overflows, is excluded.
\<close>

theorem format_int_roundtrip:
  assumes "- (2 ^ 31) < n" "n < 2 ^ 31" "CHR ''%'' \<notin> set t" "CHR ''%'' \<notin> set t'"
  shows "\<exists>s. vuprintf (t @ CHR ''%'' # CHR ''d'' # t') [Int_arg n] = Inr (t @ s @ t') \<and>
    parse_int s = n \<and> s \<noteq> [] \<and> length s \<le> 21"
proof -
  obtain s where s: "conv_d n = Inr s" "parse_int s = n" "length s \<le> CHARS + 1" "s \<noteq> []"
    by (rule conv_d_ok [OF assms(1,2)])
  have "vuprintf t' [] = Inr t'" using vuprintf_text [OF assms(4), of "[]" "[]"] by simp
  then have "vuprintf (CHR ''%'' # CHR ''d'' # t') [Int_arg n] = Inr (s @ t')"
    using s(1) by (simp add: vuprintf_conv)
  with vuprintf_text [OF assms(3), of "CHR ''%'' # CHR ''d'' # t'" "[Int_arg n]"] s show ?thesis
    by (simp add: CHARS_def)
qed

theorem format_int_roundtrip_witness:
  "\<exists>s. vuprintf ''pid %d.'' [Int_arg (-42)] = Inr (''pid '' @ s @ ''.'') \<and> parse_int s = -42"
  using format_int_roundtrip [of "-42" "''pid ''" "''.''"] by auto

end
