(* ===== verification/Processes.thy ===== *)
theory Processes
  imports Prelude
begin

text \<open>
  What the programs of \<^verbatim>\<open>Assignment1\<close> share. They are ordinary processes: what a system call returns is
  an argument of the model, and a program may stop early in several ways.
\<close>

section \<open>How a program stops\<close>

text \<open>A program exits, becomes another program, waits for input that never comes, or does what C does
  not define.\<close>

datatype stop = Exit int | Exec string | Blocked | Fault fault

type_synonym 'a run = "stop + 'a"

definition bind_run :: "'a run \<Rightarrow> ('a \<Rightarrow> 'b run) \<Rightarrow> 'b run" where
  "bind_run r f = (case r of Inl e \<Rightarrow> Inl e | Inr x \<Rightarrow> f x)"

lemma bind_run_simps [simp]:
  "bind_run (Inl e) f = Inl e" "bind_run (Inr x) f = f x"
  by (simp_all add: bind_run_def)

lemma bind_run_Inr: "bind_run r f = Inr y \<longleftrightarrow> (\<exists>x. r = Inr x \<and> f x = Inr y)"
  by (auto simp: bind_run_def split: sum.splits)

text \<open>A loop of calls, each of which must not return a negative number.\<close>

definition all_ok :: "(nat \<Rightarrow> int) \<Rightarrow> nat \<Rightarrow> unit run" where
  "all_ok ret n = (if \<exists>i \<in> set [0..<n]. ret i < 0 then Inl (Exit (-1)) else Inr ())"

text \<open>What \<^verbatim>\<open>read(fd, &c, 1)\<close> does.\<close>

datatype read_result = Failed | Eof | Got char

end
