(* ===== verification/Umpire.thy ===== *)
theory Umpire
  imports Processes
begin

text \<open>
  The rock paper scissors programs of \<^verbatim>\<open>Assignment1/Part2\<close>: the umpire of two players
  (\<^verbatim>\<open>2.1/umpire.c\<close>), the tournament (\<^verbatim>\<open>2.2/umpire2.c\<close>, \<^verbatim>\<open>2.2/gameUtils.c\<close>) and the player
  (\<^verbatim>\<open>player.c\<close>). The programs talk to the operating system and to other processes; a record of what
  each system call returns is their argument. Numbers are printed and read with the C library.
\<close>

section \<open>The umpire of two players\<close>

fun score_round :: "char \<Rightarrow> char \<Rightarrow> int \<times> int \<Rightarrow> int \<times> int" where
  "score_round a b (score1, score2) =
     (if a = CHR ''0'' \<and> b = CHR ''1'' \<or> a = CHR ''1'' \<and> b = CHR ''2'' \<or> a = CHR ''2'' \<and> b = CHR ''0''
      then (score1, score2 + 1)
      else if b = CHR ''0'' \<and> a = CHR ''1'' \<or> b = CHR ''1'' \<and> a = CHR ''2'' \<or> b = CHR ''2'' \<and> a = CHR ''0''
      then (score1 + 1, score2)
      else (score1, score2))"

definition score :: "char list \<Rightarrow> char list \<Rightarrow> int \<times> int" where
  "score p1 p2 = fold (\<lambda>i. score_round (p1 ! i) (p2 ! i)) [0..<10] (0, 0)"

text \<open>
  The calls of one player's part, by their number in it; \<open>garbage\<close> is what the local variable of
  the read loop holds when the read returns nothing.
\<close>

record player_calls =
  write_ret :: "nat \<Rightarrow> int"
  fork_ret :: int
  dup2_ret :: "nat \<Rightarrow> int"
  exec_ok :: bool
  read_ret :: "nat \<Rightarrow> read_result"
  garbage :: "nat \<Rightarrow> char"

definition child_process :: "player_calls \<Rightarrow> string \<Rightarrow> 'a run" where
  "child_process os prog =
     bind_run (all_ok (dup2_ret os) 2) (\<lambda>_. if exec_ok os then Inl (Exec prog) else Inl (Exit (-1)))"

primrec read_moves :: "player_calls \<Rightarrow> nat list \<Rightarrow> char list run" where
  "read_moves os [] = Inr []"
| "read_moves os (i # is) =
     (case read_ret os i of
        Failed \<Rightarrow> Inl (Exit (-1))
      | Eof \<Rightarrow> bind_run (read_moves os is) (\<lambda>cs. Inr (garbage os i # cs))
      | Got c \<Rightarrow> bind_run (read_moves os is) (\<lambda>cs. Inr (c # cs)))"

definition play_part :: "player_calls \<Rightarrow> string \<Rightarrow> char list run" where
  "play_part os prog =
     bind_run (all_ok (write_ret os) 10) (\<lambda>_.
       if fork_ret os < 0 then Inl (Exit (-1))
       else if fork_ret os = 0 then child_process os prog
       else read_moves os [0..<10])"

text \<open>\<open>pipe_ret\<close> are the results of the four calls of \<open>pipe\<close>. The result is the two numbers printed.\<close>

definition umpire :: "string list \<Rightarrow> (nat \<Rightarrow> int) \<Rightarrow> player_calls \<Rightarrow> player_calls \<Rightarrow> (int \<times> int) run" where
  "umpire argv pipe_ret os1 os2 =
     (if length argv < 3 then Inl (Exit (-1))
      else bind_run (all_ok pipe_ret 4) (\<lambda>_.
           bind_run (play_part os1 (argv ! 1)) (\<lambda>p1.
           bind_run (play_part os2 (argv ! 2)) (\<lambda>p2. Inr (score p1 p2)))))"

section \<open>The player\<close>

definition TOTAL_MOVES :: nat where "TOTAL_MOVES = 3"

definition chooseMove :: "nat \<Rightarrow> char" where
  "chooseMove rand = char_of (48 + rand mod TOTAL_MOVES)"

text \<open>
  One message as \<open>read\<close> delivers it (\<open>None\<close> is an error, an empty one the end), at most three bytes
  into the front of \<open>goBuf\<close>. The result is the moves written and the exit status. \<open>rands\<close> are the
  numbers \<open>rand\<close> returns and \<open>sent_ok\<close> says whether the write succeeds.
\<close>

fun player_loop ::
    "(nat \<Rightarrow> nat) \<Rightarrow> (nat \<Rightarrow> bool) \<Rightarrow> string \<Rightarrow> nat \<Rightarrow> string option list \<Rightarrow> char list \<times> int" where
  "player_loop rands sent_ok goBuf i [] = ([], 0)"
| "player_loop rands sent_ok goBuf i (None # ms) = ([], -1)"
| "player_loop rands sent_ok goBuf i (Some msg # ms) =
     (let n = length (take 3 msg);
          buf = take 3 msg @ drop n goBuf
      in if n = 0 then ([], 0)
         else if take 2 buf \<noteq> ''GO'' then ([], -1)
         else if \<not> sent_ok i then ([], -1)
         else let (moves, status) = player_loop rands sent_ok buf (Suc i) ms
              in (chooseMove (rands i) # moves, status))"

section \<open>The tournament: input\<close>

text \<open>
  The input is read byte by byte; \<open>err\<close> says that reading ends with an error and not with the end
  of the file. A line goes into an array of \<open>room\<close> bytes, its newline is replaced by the terminator.
\<close>

fun read_line :: "bool \<Rightarrow> nat \<Rightarrow> string \<Rightarrow> (string \<times> string) run" where
  "read_line err room [] =
     (if err then Inl (Exit (-1)) else if room = 0 then Inl (Fault OutOfBounds) else Inr ([], []))"
| "read_line err room (c # cs) =
     (if room = 0 then Inl (Fault OutOfBounds)
      else if c = CHR 0x0A then Inr ([], cs)
      else bind_run (read_line err (room - 1) cs) (\<lambda>(l, rest). Inr (c # l, rest)))"

primrec read_lines :: "bool \<Rightarrow> nat \<Rightarrow> nat \<Rightarrow> string \<Rightarrow> (string list \<times> string) run" where
  "read_lines err room 0 inp = Inr ([], inp)"
| "read_lines err room (Suc n) inp =
     bind_run (read_line err room inp) (\<lambda>(l, rest).
     bind_run (read_lines err room n rest) (\<lambda>(ls, rest'). Inr (l # ls, rest')))"

text \<open>\<open>atoi\<close>: white space, a sign, digits; the rest is ignored. A number past \<open>int\<close> is not modelled.\<close>

definition is_digit :: "char \<Rightarrow> bool" where
  "is_digit c \<longleftrightarrow> CHR ''0'' = c \<or> (of_char c :: nat) \<in> set [49..<58]"

definition digits_value :: "string \<Rightarrow> int" where
  "digits_value s = fold (\<lambda>c n. n * 10 + (int (of_char c) - 48)) (takeWhile is_digit s) 0"

definition atoi :: "string \<Rightarrow> int" where
  "atoi s =
     (let t = dropWhile (\<lambda>c. c = CHR '' '' \<or> (of_char c :: nat) \<in> set [9..<14]) s
      in case t of
           [] \<Rightarrow> 0
         | c # cs \<Rightarrow> if c = CHR ''-'' then - digits_value cs
                     else if c = CHR ''+'' then digits_value cs else digits_value t)"

text \<open>The number of rounds and the name of the input file.\<close>

definition arguments :: "string list \<Rightarrow> (int \<times> string) run" where
  "arguments argv =
     (let argc = length argv
      in if argc \<le> 1 \<or> argc = 3 \<or> argc > 4 then Inl (Exit (-1))
         else let nround = (if argc = 4 \<and> take 2 (argv ! 1) = ''-r'' then atoi (argv ! 2) else 10)
              in Inr (nround, if argc = 2 then argv ! 1 else argv ! 3))"

section \<open>The tournament: rounds\<close>

definition getWalkOver :: "nat \<Rightarrow> nat" where
  "getWalkOver numActivePlayers = 1"

text \<open>\<open>record\<close> holds the moves: \<open>moves pid rnd\<close>.\<close>

definition match_round :: "(nat \<Rightarrow> nat \<Rightarrow> char) \<Rightarrow> nat \<Rightarrow> nat \<Rightarrow> nat \<Rightarrow> int \<times> int \<Rightarrow> int \<times> int" where
  "match_round moves pid1 pid2 rnd s =
     (let (score1, score2) = s; a = moves pid1 rnd; b = moves pid2 rnd
      in if a = CHR ''1'' \<and> b = CHR ''0'' \<or> a = CHR ''2'' \<and> b = CHR ''1'' \<or> a = CHR ''0'' \<and> b = CHR ''2''
         then (score1 + 1, score2)
         else if a = CHR ''0'' \<and> b = CHR ''1'' \<or> a = CHR ''1'' \<and> b = CHR ''2'' \<or> a = CHR ''2'' \<and> b = CHR ''0''
         then (score1, score2 + 1)
         else (score1, score2))"

text \<open>The player who is out: the second one on a tie.\<close>

definition loser :: "(nat \<Rightarrow> nat \<Rightarrow> char) \<Rightarrow> nat \<Rightarrow> nat \<Rightarrow> nat \<Rightarrow> nat" where
  "loser moves nround pid1 pid2 =
     (let (score1, score2) = fold (match_round moves pid1 pid2) [0..<nround] (0, 0)
      in if score1 = score2 then pid2 else if score1 > score2 then pid2 else pid1)"

text \<open>
  The loop over the pairs, on the entries of \<open>activePlayer\<close> from \<open>pair\<close> on. \<open>wid\<close> is the result of
  \<open>getWalkOver\<close>, or \<open>-1\<close>; the code compares it with the players' ids.
\<close>

fun pair_loop ::
    "int \<Rightarrow> (nat \<Rightarrow> nat \<Rightarrow> nat) \<Rightarrow> nat list \<Rightarrow> bool list \<times> int \<Rightarrow> (bool list \<times> int) run" where
  "pair_loop wid lose [] st = Inr st"
| "pair_loop wid lose (a # rest) st =
     (if wid = int a then pair_loop wid lose rest st
      else case rest of
             [] \<Rightarrow> Inl (Fault OutOfBounds)
           | b # rest' \<Rightarrow>
               if wid = int b then
                 (case rest' of
                    [] \<Rightarrow> Inl (Fault OutOfBounds)
                  | c # rest'' \<Rightarrow>
                      pair_loop wid lose rest'' ((fst st)[lose a c := False], snd st - 1))
               else pair_loop wid lose rest' ((fst st)[lose a b := False], snd st - 1))"

definition active_ids :: "bool list \<Rightarrow> nat list" where
  "active_ids active = filter (\<lambda>i. active ! i) [0..<length active]"

text \<open>
  The messages to a player and the answers, by player and round: a failed write or read ends the
  program. \<open>cchar\<close> keeps its value when a read returns nothing. The result is the row of moves and
  \<open>cchar\<close>.
\<close>

record round_calls =
  go_ret :: "nat \<Rightarrow> nat \<Rightarrow> int"
  move_ret :: "nat \<Rightarrow> nat \<Rightarrow> read_result"

primrec play_rounds ::
    "round_calls \<Rightarrow> nat \<Rightarrow> nat list \<Rightarrow> char \<Rightarrow> (nat \<Rightarrow> char) \<Rightarrow> ((nat \<Rightarrow> char) \<times> char) run" where
  "play_rounds os i [] cchar row = Inr (row, cchar)"
| "play_rounds os i (k # ks) cchar row =
     (if go_ret os i k < 0 then Inl (Exit (-1))
      else case move_ret os i k of
             Failed \<Rightarrow> Inl (Exit (-1))
           | Eof \<Rightarrow> play_rounds os i ks cchar (row(k := cchar))
           | Got c \<Rightarrow> play_rounds os i ks c (row(k := c)))"

text \<open>
  The loop over the active players. Behind each row the code writes a terminator, which nobody
  reads: it lands at the front of the next row, before that row is filled, and for the last player
  behind the array, where it is harmless only if the compiler has left some padding.
\<close>

primrec collect ::
    "round_calls \<Rightarrow> nat \<Rightarrow> nat \<Rightarrow> nat \<Rightarrow> nat list \<Rightarrow> char \<Rightarrow> (nat \<Rightarrow> nat \<Rightarrow> char) \<Rightarrow>
     ((nat \<Rightarrow> nat \<Rightarrow> char) \<times> char) run" where
  "collect os padding nplayers nround [] cchar rec = Inr (rec, cchar)"
| "collect os padding nplayers nround (i # is) cchar rec =
     bind_run (play_rounds os i [0..<nround] cchar (rec i)) (\<lambda>(row, cchar').
       if Suc i = nplayers \<and> padding = 0 then Inl (Fault OutOfBounds)
       else collect os padding nplayers nround is cchar' (rec(i := row)))"

text \<open>
  One turn of the loop. The array of moves starts with whatever the stack holds, \<open>junk\<close>; an array
  without rounds is undefined.
\<close>

definition tournament_round ::
    "(nat \<Rightarrow> nat) \<Rightarrow> nat \<Rightarrow> round_calls \<Rightarrow> (nat \<Rightarrow> nat \<Rightarrow> char) \<Rightarrow> int \<Rightarrow> bool list \<times> int \<Rightarrow> char \<Rightarrow>
     ((bool list \<times> int) \<times> char) run" where
  "tournament_round walkover padding os junk nround st cchar =
     (let (active, nactive) = st; ids = active_ids active
      in if nround \<le> 0 then Inl (Fault OutOfBounds)
         else bind_run (collect os padding (length active) (nat nround) ids cchar junk) (\<lambda>(rec, cchar').
           let wid = (if nactive mod 2 \<noteq> 0 then int (walkover (nat nactive)) else -1)
           in bind_run (pair_loop wid (loser rec (nat nround)) ids st) (\<lambda>st'. Inr (st', cchar'))))"

text \<open>
  \<^verbatim>\<open>while(nactive!=1)\<close>, with \<open>fuel\<close> turns allowed; \<open>os r\<close> are the calls of turn \<open>r\<close>. The result starts
  with the lines of players printed, one per turn.
\<close>

primrec tournament ::
    "(nat \<Rightarrow> nat) \<Rightarrow> nat \<Rightarrow> (nat \<Rightarrow> round_calls) \<Rightarrow> (nat \<Rightarrow> nat \<Rightarrow> nat \<Rightarrow> char) \<Rightarrow> int \<Rightarrow> nat \<Rightarrow> nat \<Rightarrow>
     bool list \<times> int \<Rightarrow> char \<Rightarrow> (nat list list \<times> bool list \<times> int) run" where
  "tournament walkover padding os junk nround 0 r st cchar =
     (if snd st = 1 then Inr ([], st) else Inl (Fault RunawayLoop))"
| "tournament walkover padding os junk nround (Suc fuel) r st cchar =
     (if snd st = 1 then Inr ([], st)
      else bind_run (tournament_round walkover padding (os r) (junk r) nround st cchar) (\<lambda>(st', cchar').
           bind_run (tournament walkover padding os junk nround fuel (Suc r) st' cchar') (\<lambda>(lines, st'').
             Inr (active_ids (fst st) # lines, st''))))"

text \<open>
  The processes of the players: the parent goes on whether or not the fork fails; a child (result 0)
  becomes the player.
\<close>

primrec start_players :: "(nat \<Rightarrow> player_calls) \<Rightarrow> string list \<Rightarrow> nat list \<Rightarrow> unit run" where
  "start_players calls executables [] = Inr ()"
| "start_players calls executables (i # is) =
     (if fork_ret (calls i) = 0 then child_process (calls i) (executables ! i)
      else start_players calls executables is)"

text \<open>
  The main program: the arguments, the input file (\<open>None\<close> when it cannot be opened, else its bytes and
  whether reading it ends with an error), the pipes and processes, the tournament. \<open>cchar\<close> is the byte
  read last. The result is the lines of players and the winner printed at the end.
\<close>

definition umpire2 ::
    "(nat \<Rightarrow> nat) \<Rightarrow> nat \<Rightarrow> string list \<Rightarrow> (string \<Rightarrow> (string \<times> bool) option) \<Rightarrow> (nat \<Rightarrow> int) \<Rightarrow>
     (nat \<Rightarrow> player_calls) \<Rightarrow> (nat \<Rightarrow> round_calls) \<Rightarrow> (nat \<Rightarrow> nat \<Rightarrow> nat \<Rightarrow> char) \<Rightarrow> char \<Rightarrow> nat \<Rightarrow>
     (nat list list \<times> nat option) run" where
  "umpire2 walkover padding argv files pipe_ret calls os junk cchar fuel =
     bind_run (arguments argv) (\<lambda>(nround, infile).
       case files infile of
         None \<Rightarrow> Inl (Exit (-1))
       | Some (inp, err) \<Rightarrow>
           bind_run (read_line err 64 inp) (\<lambda>(l, rest).
             let nplayers = atoi l
             in if nplayers \<le> 0 then Inl (Fault OutOfBounds)
                else let n = nat nplayers
                in bind_run (read_lines err 101 n rest) (\<lambda>(executables, _).
                   bind_run (all_ok pipe_ret (2 * n)) (\<lambda>_.
                   bind_run (start_players calls executables [0..<n]) (\<lambda>_.
                   bind_run (tournament walkover padding os junk nround fuel 0 (replicate n True, int n) cchar) (\<lambda>(lines, st).
                     Inr (lines, find (\<lambda>i. fst st ! i) [0..<n])))))))"

section \<open>Scores\<close>

text \<open>Paper beats rock, scissors beat paper, rock beats scissors.\<close>

definition beats :: "char \<Rightarrow> char \<Rightarrow> bool" where
  "beats a b \<longleftrightarrow> (a, b) \<in> {(CHR ''1'', CHR ''0''), (CHR ''2'', CHR ''1''), (CHR ''0'', CHR ''2'')}"

lemma beats_asym: "beats a b \<Longrightarrow> \<not> beats b a"
  by (auto simp: beats_def)

lemma beats_iff:
  "beats a b \<longleftrightarrow> a = CHR ''1'' \<and> b = CHR ''0'' \<or> a = CHR ''2'' \<and> b = CHR ''1'' \<or> a = CHR ''0'' \<and> b = CHR ''2''"
  by (simp only: beats_def insert_iff empty_iff prod.inject simp_thms)

lemma score_by_beats:
  "(if beats b a then (s1, s2 + 1) else if beats a b then (s1 + 1, s2) else (s1, s2 :: int)) =
     (s1 + of_bool (beats a b) :: int, s2 + of_bool (beats b a))"
  using beats_asym [of a b] by (cases "beats a b"; cases "beats b a") simp_all

lemma score_round_eq:
  "score_round a b (s1, s2) = (s1 + of_bool (beats a b), s2 + of_bool (beats b a))"
proof -
  have "score_round a b (s1, s2) =
      (if beats b a then (s1, s2 + 1) else if beats a b then (s1 + 1, s2) else (s1, s2))"
    unfolding score_round.simps beats_iff by (intro if_cong refl) blast+
  then show ?thesis by (simp only: score_by_beats)
qed

lemma score_fold:
  "fold (\<lambda>i. score_round (p1 ! i) (p2 ! i)) is (s1, s2) =
     (s1 + int (length (filter (\<lambda>i. beats (p1 ! i) (p2 ! i)) is)),
      s2 + int (length (filter (\<lambda>i. beats (p2 ! i) (p1 ! i)) is)))"
proof (induction "is" arbitrary: s1 s2)
  case (Cons i "is")
  then show ?case by (simp add: score_round_eq del: score_round.simps)
qed simp

lemma score_eq:
  "score p1 p2 = (int (length (filter (\<lambda>i. beats (p1 ! i) (p2 ! i)) [0..<10])),
                  int (length (filter (\<lambda>i. beats (p2 ! i) (p1 ! i)) [0..<10])))"
  by (simp only: score_def score_fold add_0)

lemma length_filter_disjoint:
  "(\<And>x. P x \<Longrightarrow> \<not> Q x) \<Longrightarrow> length (filter P xs) + length (filter Q xs) \<le> length xs"
proof (induction xs)
  case (Cons x xs)
  then have "length (filter P xs) + length (filter Q xs) \<le> length xs" by blast
  with Cons.prems [of x] show ?case by auto
qed simp

lemma read_moves_Got:
  "\<forall>i \<in> set is. read_ret os i = Got (m i) \<Longrightarrow> read_moves os is = Inr (map m is)"
  by (induction "is") auto

lemma match_round_eq:
  "match_round moves a b rnd (s1, s2) =
     (s1 + of_bool (beats (moves a rnd) (moves b rnd)), s2 + of_bool (beats (moves b rnd) (moves a rnd)))"
proof -
  have "match_round moves a b rnd (s1, s2) =
      (if beats (moves a rnd) (moves b rnd) then (s1 + 1, s2)
       else if beats (moves b rnd) (moves a rnd) then (s1, s2 + 1) else (s1, s2))"
    unfolding match_round_def beats_iff Let_def prod.case by (intro if_cong refl) blast+
  then show ?thesis
    using beats_asym [of "moves a rnd" "moves b rnd"]
    by (cases "beats (moves a rnd) (moves b rnd)"; cases "beats (moves b rnd) (moves a rnd)") simp_all
qed

lemma match_fold:
  "fold (match_round moves a b) rs (s1, s2) =
     (s1 + int (length (filter (\<lambda>r. beats (moves a r) (moves b r)) rs)),
      s2 + int (length (filter (\<lambda>r. beats (moves b r) (moves a r)) rs)))"
  by (induction rs arbitrary: s1 s2) (auto simp: match_round_eq)

lemma loser_eq:
  "loser moves n a b =
     (if length (filter (\<lambda>r. beats (moves b r) (moves a r)) [0..<n]) \<le>
         length (filter (\<lambda>r. beats (moves a r) (moves b r)) [0..<n]) then b else a)"
  by (simp add: loser_def match_fold)

section \<open>One turn of the tournament\<close>

text \<open>
  A pairing works out when there is an even number of players and no walkover among them, or an odd
  number and a walkover: then half of the players go on, rounded up.
\<close>

definition pairs_up :: "int \<Rightarrow> nat list \<Rightarrow> bool" where
  "pairs_up wid ids \<longleftrightarrow> (even (length ids) \<longleftrightarrow> wid \<notin> int ` set ids)"

lemma filter_active_frame:
  "(\<And>i. i \<in> set ids \<Longrightarrow> active' ! i = active ! i) \<Longrightarrow> filter (\<lambda>i. active' ! i) ids = filter (\<lambda>i. active ! i) ids"
  by (rule filter_cong) auto


text \<open>What a turn leaves: half of the players are out, the others and the walkover are untouched.\<close>

definition paired :: "int \<Rightarrow> nat list \<Rightarrow> bool list \<times> int \<Rightarrow> bool list \<times> int \<Rightarrow> bool" where
  "paired wid ids st st' \<longleftrightarrow>
     length (fst st') = length (fst st) \<and>
     snd st' = snd st - int (length ids div 2) \<and>
     (\<forall>i. i \<notin> set ids \<longrightarrow> fst st' ! i = fst st ! i) \<and>
     (\<forall>i \<in> set ids. int i = wid \<longrightarrow> fst st' ! i) \<and>
     length (filter (\<lambda>i. fst st' ! i) ids) + length ids div 2 = length ids"

lemma pairedD:
  assumes "paired wid ids st st'"
  shows "length (fst st') = length (fst st)" "snd st' = snd st - int (length ids div 2)"
    "\<And>i. i \<notin> set ids \<Longrightarrow> fst st' ! i = fst st ! i"
    "\<And>i. i \<in> set ids \<Longrightarrow> int i = wid \<Longrightarrow> fst st' ! i"
    "length (filter (\<lambda>i. fst st' ! i) ids) + length ids div 2 = length ids"
  using assms by (auto simp: paired_def)

lemma paired_refl: "paired wid [] st st"
  by (simp add: paired_def)

lemma paired_insert:
  assumes p: "paired wid (xs @ ys) st st'" and "w \<notin> set (xs @ ys)" "fst st ! w" "even (length (xs @ ys))"
  shows "paired wid (xs @ w # ys) st st'"
proof -
  have w: "fst st' ! w" using assms(2,3) pairedD(3) [OF p] by simp
  have d: "Suc (length xs + length ys) div 2 = (length xs + length ys) div 2"
    using assms(4) by simp
  have f: "length (filter (\<lambda>i. fst st' ! i) (xs @ w # ys)) + length (xs @ w # ys) div 2 = length (xs @ w # ys)"
    using pairedD(5) [OF p] w d by simp
  have e: "\<forall>i. i \<notin> set (xs @ w # ys) \<longrightarrow> fst st' ! i = fst st ! i"
    using pairedD(3) [OF p] by simp
  have g: "\<forall>i \<in> set (xs @ w # ys). int i = wid \<longrightarrow> fst st' ! i"
    using pairedD(4) [OF p] w by auto
  show ?thesis unfolding paired_def using pairedD(1,2) [OF p] e f g d by simp
qed

lemma paired_pair:
  assumes p: "paired wid ids (active[k := False], n - 1) st'"
    and k: "k = a \<or> k = b" and ab: "a \<noteq> b" "a < length active" "b < length active" "active ! a" "active ! b"
    and nin: "a \<notin> set ids" "b \<notin> set ids" and wid: "wid \<noteq> int a" "wid \<noteq> int b"
  shows "paired wid (a # b # ids) (active, n) st'"
proof -
  have e: "\<And>i. i \<notin> set ids \<Longrightarrow> fst st' ! i = active[k := False] ! i"
    using pairedD(3) [OF p] by simp
  have one: "length (filter (\<lambda>i. fst st' ! i) [a, b]) = 1"
    using k ab e [OF nin(1)] e [OF nin(2)] by (auto simp: nth_list_update)
  have f: "length (filter (\<lambda>i. fst st' ! i) (a # b # ids)) + length (a # b # ids) div 2 = length (a # b # ids)"
    using pairedD(5) [OF p] one by (auto split: if_splits)
  have g: "\<forall>i. i \<notin> set (a # b # ids) \<longrightarrow> fst st' ! i = active ! i"
    using e k by (auto simp: nth_list_update)
  show ?thesis unfolding paired_def using pairedD(1,2,4) [OF p] f g wid by simp
qed

text \<open>The pairing relies on a match having one of its two players as the loser.\<close>

locale knockout =
  fixes lose :: "nat \<Rightarrow> nat \<Rightarrow> nat"
  assumes lose_one: "lose a b = a \<or> lose a b = b"
begin

lemma pair_loop_paired:
  assumes "distinct ids" "pairs_up wid ids"
    and "\<forall>i \<in> set ids. i < length (fst st) \<and> fst st ! i"
  shows "\<exists>st'. pair_loop wid lose ids st = Inr st' \<and> paired wid ids st st'"
  using lose_one assms
proof (induction wid lose ids st rule: pair_loop.induct)
  case (1 wid lose st)
  then show ?case using paired_refl by auto
next
  case (2 wid lose a rest st)
  let ?out = "\<lambda>x y. ((fst st)[lose x y := False], snd st - 1)"
  consider (walk) "wid = int a" | (single) "wid \<noteq> int a" "rest = []"
    | (next_walk) b rest' where "wid \<noteq> int a" "rest = b # rest'" "wid = int b"
    | (pair) b rest' where "wid \<noteq> int a" "rest = b # rest'" "wid \<noteq> int b"
    by (cases rest) auto
  then show ?case
  proof cases
    case walk
    then have "pairs_up wid rest" "even (length rest)" using 2(5,6) by (auto simp: pairs_up_def)
    then obtain st' where st': "pair_loop wid lose rest st = Inr st'" "paired wid rest st st'"
      using 2(1) [OF walk] 2(4,5,7) by auto
    then have "paired wid (a # rest) st st'"
      using paired_insert [of wid "[]" rest st st' a] 2(5,7) \<open>even (length rest)\<close> by simp
    then show ?thesis using st' walk by simp
  next
    case single
    then show ?thesis using 2(6) by (simp add: pairs_up_def)
  next
    case next_walk
    then obtain c rest'' where r': "rest' = c # rest''" using 2(6) by (cases rest') (auto simp: pairs_up_def)
    have even: "even (length rest'')" "wid \<notin> int ` set rest''"
      using 2(5,6) next_walk r' by (auto simp: pairs_up_def)
    have act: "\<forall>i \<in> set rest''. i < length (fst (?out a c)) \<and> fst (?out a c) ! i"
      using 2(5,7) next_walk r' 2(4) [of a c] by (auto simp: nth_list_update)
    obtain st' where st': "pair_loop wid lose rest'' (?out a c) = Inr st'" "paired wid rest'' (?out a c) st'"
      using 2(2) [OF next_walk(1,2) next_walk(3) r'] even act 2(4,5) next_walk r' by (auto simp: pairs_up_def)
    have "paired wid (a # c # rest'') st st'"
      using paired_pair [OF st'(2), of a c] 2(4) 2(5,7) next_walk r' by auto
    then have "paired wid (a # b # c # rest'') st st'"
      using paired_insert [of wid "[a]" "c # rest''" st st' b] even 2(5,7) next_walk r' by simp
    then show ?thesis using st' next_walk r' by simp
  next
    case pair
    have act: "\<forall>i \<in> set rest'. i < length (fst (?out a b)) \<and> fst (?out a b) ! i"
      using 2(5,7) pair 2(4) [of a b] by (auto simp: nth_list_update)
    have "pairs_up wid rest'" using 2(6) pair by (auto simp: pairs_up_def)
    then obtain st' where st': "pair_loop wid lose rest' (?out a b) = Inr st'" "paired wid rest' (?out a b) st'"
      using 2(3) [OF pair] act 2(4,5) pair by auto
    have "paired wid (a # b # rest') st st'"
      using paired_pair [OF st'(2), of a b] 2(4) 2(5,7) pair by auto
    then show ?thesis using st' pair by simp
  qed
qed


end

interpretation match: knockout "loser moves n" for moves n
  by unfold_locales (simp add: loser_eq)

text \<open>When the pairing does not work out, the code reads past the list of the active players.\<close>

lemma pair_loop_stuck:
  assumes "distinct ids" "\<not> pairs_up wid ids"
  shows "pair_loop wid lose ids st = Inl (Fault OutOfBounds)"
  using assms
proof (induction wid lose ids st rule: pair_loop.induct)
  case (1 wid lose st)
  then show ?case by (simp add: pairs_up_def)
next
  case (2 wid lose a rest st)
  show ?case
  proof (cases "wid = int a")
    case True
    then have "\<not> pairs_up wid rest" using 2(4,5) by (auto simp: pairs_up_def)
    then show ?thesis using 2(1) [OF True] 2(4) True by simp
  next
    case a: False
    show ?thesis
    proof (cases rest)
      case rest: (Cons b rest')
      show ?thesis
      proof (cases "wid = int b")
        case b: True
        show ?thesis
        proof (cases rest')
          case (Cons c rest'')
          then have "\<not> pairs_up wid rest''" using 2(4,5) a b rest by (auto simp: pairs_up_def)
          then show ?thesis using 2(2) [OF a rest b Cons] 2(4) a b rest Cons by simp
        qed (use a b rest in simp)
      next
        case b: False
        then have "\<not> pairs_up wid rest'" using 2(5) a rest by (auto simp: pairs_up_def)
        then show ?thesis using 2(3) [OF a rest b] 2(4) a b rest by simp
      qed
    qed (use a in simp)
  qed
qed

lemma active_ids_props:
  "distinct (active_ids active)" "i \<in> set (active_ids active) \<longleftrightarrow> i < length active \<and> active ! i"
  by (auto simp: active_ids_def)

lemma active_ids_paired:
  assumes "paired wid (active_ids (fst st)) st st'"
  shows "active_ids (fst st') = filter (\<lambda>i. fst st' ! i) (active_ids (fst st))"
proof -
  have "fst st ! i" if "i < length (fst st)" "fst st' ! i" for i
    using that pairedD(3) [OF assms, of i] by (cases "i \<in> set (active_ids (fst st))") (auto simp: active_ids_props)
  then have "\<forall>i \<in> set [0..<length (fst st)]. (fst st ! i \<and> fst st' ! i) = (fst st' ! i)"
    by auto
  then show ?thesis
    unfolding active_ids_def pairedD(1) [OF assms] filter_filter by (metis (mono_tags, lifting) filter_cong)
qed

text \<open>\<open>nactive\<close> counts the active players.\<close>

definition counts :: "bool list \<times> int \<Rightarrow> nat \<Rightarrow> bool" where
  "counts st m \<longleftrightarrow> length (active_ids (fst st)) = m \<and> snd st = int m"

lemma counts_paired:
  assumes "paired wid (active_ids (fst st)) st st'" "counts st m"
  shows "counts st' (m - m div 2)"
  using pairedD(2,5) [OF assms(1)] assms(2) by (simp add: counts_def active_ids_paired [OF assms(1)])

definition calls_succeed :: "round_calls \<Rightarrow> bool" where
  "calls_succeed os \<longleftrightarrow> (\<forall>i k. 0 \<le> go_ret os i k \<and> move_ret os i k \<noteq> Failed)"

lemma play_rounds_ok:
  "calls_succeed os \<Longrightarrow> \<exists>row' c'. play_rounds os i ks c row = Inr (row', c')"
proof (induction ks arbitrary: c row)
  case (Cons k ks)
  have ok: "\<not> go_ret os i k < 0" "move_ret os i k \<noteq> Failed"
    using Cons.prems by (auto simp: calls_succeed_def not_less)
  show ?case using Cons.IH [OF Cons.prems] ok by (cases "move_ret os i k") simp_all
qed simp

lemma collect_ok:
  "calls_succeed os \<Longrightarrow> 0 < padding \<Longrightarrow> \<exists>rec' c'. collect os padding n nround is c rec = Inr (rec', c')"
proof (induction "is" arbitrary: c rec)
  case (Cons i "is")
  obtain row c' where "play_rounds os i [0..<nround] c (rec i) = Inr (row, c')"
    using play_rounds_ok [OF Cons.prems(1)] by blast
  then show ?case using Cons.IH [OF Cons.prems] Cons.prems(2) by simp
qed simp

lemma collect_no_padding:
  "calls_succeed os \<Longrightarrow> n - 1 \<in> set is \<Longrightarrow> 0 < n \<Longrightarrow> collect os 0 n nround is c rec = Inl (Fault OutOfBounds)"
proof (induction "is" arbitrary: c rec)
  case (Cons i "is")
  obtain row c' where "play_rounds os i [0..<nround] c (rec i) = Inr (row, c')"
    using play_rounds_ok [OF Cons.prems(1)] by blast
  then show ?case using Cons.IH [OF Cons.prems(1)] Cons.prems(2,3) by auto
qed simp

definition walkover_id :: "(nat \<Rightarrow> nat) \<Rightarrow> nat \<Rightarrow> int" where
  "walkover_id walkover m = (if odd m then int (walkover m) else -1)"

lemma pairs_up_walkover:
  "pairs_up (walkover_id walkover (length ids)) ids \<longleftrightarrow> even (length ids) \<or> walkover (length ids) \<in> set ids"
  by (auto simp: pairs_up_def walkover_id_def)


lemma wid_eq:
  "(if int m mod 2 \<noteq> 0 then int (walkover (nat (int m))) else -1) = walkover_id walkover m"
proof -
  have "int m mod 2 \<noteq> 0 \<longleftrightarrow> odd m" by presburger
  then show ?thesis by (simp only: walkover_id_def nat_int)
qed

text \<open>A turn: it works out exactly when the pairing does.\<close>

lemma tournament_round_cases:
  assumes st: "counts st m" and ok: "0 < nround" "calls_succeed os" and padding: "0 < padding"
  shows "if even m \<or> walkover m \<in> set (active_ids (fst st))
    then \<exists>st' c'. tournament_round walkover padding os junk nround st c = Inr (st', c') \<and>
                  paired (walkover_id walkover m) (active_ids (fst st)) st st'
    else tournament_round walkover padding os junk nround st c = Inl (Fault OutOfBounds)"
proof -
  obtain active where s: "st = (active, int m)" "length (active_ids active) = m"
    using st by (cases st) (auto simp: counts_def)
  obtain rec' c' where col: "collect os padding (length active) (nat nround) (active_ids active) c junk = Inr (rec', c')"
    using collect_ok [OF ok(2) padding] by blast
  let ?wid = "walkover_id walkover m" and ?ids = "active_ids active"
  have turn: "tournament_round walkover padding os junk nround st c =
      bind_run (pair_loop ?wid (loser rec' (nat nround)) ?ids st) (\<lambda>st'. Inr (st', c'))"
    unfolding tournament_round_def s(1) prod.case Let_def col bind_run_simps(2) wid_eq using ok(1) by simp
  show ?thesis
  proof (cases "pairs_up ?wid ?ids")
    case True
    have cond: "even m \<or> walkover m \<in> set (active_ids (fst st))"
      using True s by (simp add: pairs_up_walkover [of walkover ?ids, unfolded s(2)])
    obtain st' where "pair_loop ?wid (loser rec' (nat nround)) ?ids st = Inr st'" "paired ?wid ?ids st st'"
      using match.pair_loop_paired [where moves = rec' and n = "nat nround" and st = st, OF active_ids_props(1) True] s
      by (auto simp: active_ids_props)
    then show ?thesis using cond turn s by simp
  next
    case False
    have cond: "\<not> (even m \<or> walkover m \<in> set (active_ids (fst st)))"
      using False s by (simp add: pairs_up_walkover [of walkover ?ids, unfolded s(2)])
    then show ?thesis
      using turn pair_loop_stuck [OF active_ids_props(1) False] by simp
  qed
qed


section \<open>The whole tournament\<close>

lemma counts_ids: "counts st m \<Longrightarrow> snd st = 1 \<longleftrightarrow> m = 1"
  by (auto simp: counts_def)

lemma active_ids_paired_subset:
  "paired wid (active_ids (fst st)) st st' \<Longrightarrow> set (active_ids (fst st')) \<subseteq> set (active_ids (fst st))"
  by (auto simp: active_ids_paired)

lemma tournament_one: "snd st = 1 \<Longrightarrow> tournament walkover padding os junk nround fuel r st c = Inr ([], st)"
  by (cases fuel) simp_all

text \<open>The end of a tournament: a single player of those who started is left.\<close>

definition decided :: "bool list \<times> int \<Rightarrow> bool list \<times> int \<Rightarrow> bool" where
  "decided st st' \<longleftrightarrow>
     counts st' 1 \<and> length (fst st') = length (fst st) \<and> set (active_ids (fst st')) \<subseteq> set (active_ids (fst st))"

lemma decided_paired:
  assumes "paired wid (active_ids (fst st)) st st1" "decided st1 st2"
  shows "decided st st2"
  using assms(2) pairedD(1) [OF assms(1)] active_ids_paired_subset [OF assms(1)]
  unfolding decided_def by (auto dest: subset_trans)

lemma tournament_ends:
  assumes "counts st m" "1 \<le> m" "m \<le> Suc fuel" "0 < nround" "\<forall>r. calls_succeed (os r)" "0 < padding"
  shows "tournament walkover padding os junk nround fuel r st c = Inl (Fault OutOfBounds) \<or>
    (\<exists>lines st'. tournament walkover padding os junk nround fuel r st c = Inr (lines, st') \<and> decided st st')"
  using assms(1-3)
proof (induction fuel arbitrary: r st c m)
  case 0
  then show ?case by (simp add: counts_ids decided_def)
next
  case (Suc fuel)
  show ?case
  proof (cases "m = 1")
    case True
    then show ?thesis using Suc.prems(1) by (simp add: counts_ids decided_def)
  next
    case False
    have more: "snd st \<noteq> 1" using False Suc.prems(1) by (simp add: counts_ids)
    show ?thesis
    proof (cases "even m \<or> walkover m \<in> set (active_ids (fst st))")
      case True
      then obtain st1 c1 where turn: "tournament_round walkover padding (os r) (junk r) nround st c = Inr (st1, c1)"
        and p: "paired (walkover_id walkover m) (active_ids (fst st)) st st1"
        using tournament_round_cases [OF Suc.prems(1) assms(4) _ assms(6), of "os r" walkover "junk r" c] assms(5) by auto
      have "1 \<le> m - m div 2" "m - m div 2 \<le> Suc fuel" using Suc.prems(2,3) False by auto
      from Suc.IH [OF counts_paired [OF p Suc.prems(1)] this, of "Suc r" c1] show ?thesis
        using more turn decided_paired [OF p] by auto
    next
      case False
      then have "tournament_round walkover padding (os r) (junk r) nround st c = Inl (Fault OutOfBounds)"
        using tournament_round_cases [OF Suc.prems(1) assms(4) _ assms(6), of "os r" walkover "junk r" c] assms(5) by auto
      then show ?thesis using more by simp
    qed
  qed
qed

lemma tournament_power:
  assumes "counts st (2 ^ k)" "k \<le> fuel" "0 < nround" "\<forall>r. calls_succeed (os r)" "0 < padding"
  shows "\<exists>lines st'. tournament walkover padding os junk nround fuel r st c = Inr (lines, st') \<and>
    decided st st' \<and> map length lines = map (\<lambda>j. 2 ^ (k - j)) [0..<k]"
  using assms(1,2)
proof (induction k arbitrary: fuel r st c)
  case 0
  then show ?case by (simp add: tournament_one counts_ids decided_def)
next
  case (Suc k)
  have "(2 :: nat) * 2 ^ k \<noteq> 1" by presburger
  then have more: "snd st \<noteq> 1" using Suc.prems(1) by (simp add: counts_ids)
  obtain fuel' where fuel: "fuel = Suc fuel'" "k \<le> fuel'" using Suc.prems(2) by (cases fuel) auto
  obtain st1 c1 where turn: "tournament_round walkover padding (os r) (junk r) nround st c = Inr (st1, c1)"
    and p: "paired (walkover_id walkover (2 ^ Suc k)) (active_ids (fst st)) st st1"
    using tournament_round_cases [OF Suc.prems(1) assms(3) _ assms(5), of "os r" walkover "junk r" c] assms(4) by auto
  have c1: "counts st1 (2 ^ k)" using counts_paired [OF p Suc.prems(1)] by simp
  obtain lines st' where rest: "tournament walkover padding os junk nround fuel' (Suc r) st1 c1 = Inr (lines, st')"
      "decided st1 st'" "map length lines = map (\<lambda>j. 2 ^ (k - j)) [0..<k]"
    using Suc.IH [OF c1 fuel(2)] by blast
  have "map length (active_ids (fst st) # lines) = map (\<lambda>j. 2 ^ (Suc k - j)) (0 # map Suc [0..<k])"
    using Suc.prems(1) rest(3) by (simp add: counts_def)
  also have "0 # map Suc [0..<k] = [0..<Suc k]"
    by (simp only: map_Suc_upt upt_conv_Cons [of 0 "Suc k"] zero_less_Suc)
  finally have lines: "map length (active_ids (fst st) # lines) = map (\<lambda>j. 2 ^ (Suc k - j)) [0..<Suc k]" .
  have "tournament walkover padding os junk nround fuel r st c = Inr (active_ids (fst st) # lines, st')"
    using more fuel turn rest(1) by simp
  then show ?case using lines decided_paired [OF p rest(2)] by blast
qed

section \<open>Reading the players\<close>

lemma read_line_text:
  "CHR 0x0A \<notin> set l \<Longrightarrow> length l < room \<Longrightarrow> read_line err room (l @ CHR 0x0A # rest) = Inr (l, rest)"
  by (induction l arbitrary: room) auto

lemma read_lines_text:
  assumes "\<forall>l \<in> set ls. CHR 0x0A \<notin> set l \<and> length l < room"
  shows "read_lines err room (length ls) (concat (map (\<lambda>l. l @ [CHR 0x0A]) ls) @ rest) = Inr (ls, rest)"
  using assms
proof (induction ls)
  case (Cons l ls)
  then show ?case using read_line_text [of l room err "concat (map (\<lambda>l. l @ [CHR 0x0A]) ls) @ rest"] by simp
qed simp

lemma start_players_parent:
  "\<forall>i \<in> set is. fork_ret (calls i) \<noteq> 0 \<Longrightarrow> start_players calls executables is = Inr ()"
  by (induction "is") auto

lemma counts_all: "counts (replicate n True, int n) n"
proof -
  have "active_ids (replicate n True) = [0..<n]"
    unfolding active_ids_def by (rule filter_True [THEN trans]) simp_all
  then show ?thesis by (simp add: counts_def)
qed

lemma decided_find:
  assumes "decided (replicate n True, int n) st'"
  shows "\<exists>w < n. find (\<lambda>i. fst st' ! i) [0..<n] = Some w \<and> active_ids (fst st') = [w]"
proof -
  have len: "length (fst st') = n" "length (active_ids (fst st')) = 1"
    using assms by (simp_all add: decided_def counts_def)
  then obtain w where w: "active_ids (fst st') = [w]" by (auto simp: length_Suc_conv)
  then have "filter (\<lambda>i. fst st' ! i) [0..<n] = [w]" using len(1) by (simp add: active_ids_def)
  moreover have "find P xs = (case filter P xs of [] \<Rightarrow> None | y # ys \<Rightarrow> Some y)" for P and xs :: "nat list"
    by (induction xs) auto
  moreover have "w < n" using w active_ids_props(2) [of w "fst st'"] len(1) by simp
  ultimately show ?thesis using w by auto
qed


section \<open>The player\<close>

lemma chooseMove_legal: "chooseMove r \<in> {CHR ''0'', CHR ''1'', CHR ''2''}"
proof -
  have "r mod 3 = 0 \<or> r mod 3 = 1 \<or> r mod 3 = 2" by auto
  moreover have "char_of (48 :: nat) = CHR ''0''" "char_of (49 :: nat) = CHR ''1''" "char_of (50 :: nat) = CHR ''2''"
    by code_simp+
  ultimately show ?thesis by (auto simp: chooseMove_def TOTAL_MOVES_def)
qed

text \<open>A player plays rock, paper or scissors, once per message at most.\<close>

lemma player_moves_legal:
  "set (fst (player_loop rands sent_ok goBuf i ms)) \<subseteq> {CHR ''0'', CHR ''1'', CHR ''2''} \<and>
   length (fst (player_loop rands sent_ok goBuf i ms)) \<le> length ms"
proof (induction rands sent_ok goBuf i ms rule: player_loop.induct)
  case (3 rands sent_ok goBuf i msg ms)
  then show ?case using chooseMove_legal [of "rands i"] by (auto simp: Let_def split_beta)
qed simp_all

end
