(* ===== verification/UmpireProperties.thy ===== *)
theory UmpireProperties
  imports Umpire
begin

text \<open>
  What the rock paper scissors programs promise: the umpire prints how often each player won, and
  the tournament of \<^verbatim>\<open>umpire2.c\<close>, from its arguments and its input file to the winner it prints.
\<close>

section \<open>The setting of the tournament\<close>

text \<open>The input file: the number of players and the path of each, a line each.\<close>

definition players_file :: "string \<Rightarrow> string list \<Rightarrow> string" where
  "players_file l exes = l @ CHR 0x0A # concat (map (\<lambda>e. e @ [CHR 0x0A]) exes)"

definition valid_players :: "string \<Rightarrow> string list \<Rightarrow> bool" where
  "valid_players l exes \<longleftrightarrow>
     CHR 0x0A \<notin> set l \<and> length l < 64 \<and> atoi l = int (length exes) \<and> exes \<noteq> [] \<and>
     (\<forall>e \<in> set exes. CHR 0x0A \<notin> set e \<and> length e \<le> 100)"

definition processes_start :: "(nat \<Rightarrow> int) \<Rightarrow> (nat \<Rightarrow> player_calls) \<Rightarrow> nat \<Rightarrow> bool" where
  "processes_start pipe_ret calls n \<longleftrightarrow>
     (\<forall>i \<in> set [0..<2 * n]. 0 \<le> pipe_ret i) \<and> (\<forall>i \<in> set [0..<n]. fork_ret (calls i) \<noteq> 0)"

lemma all_ok_Inr: "\<forall>i \<in> set [0..<n]. 0 \<le> ret i \<Longrightarrow> all_ok ret n = Inr ()"
  by (auto simp: all_ok_def)

lemma umpire2_start:
  assumes "arguments argv = Inr (nround, infile)" "files infile = Some (players_file l exes, err)"
    and "valid_players l exes" "processes_start pipe_ret calls (length exes)"
  shows "umpire2 walkover padding argv files pipe_ret calls os junk cchar fuel =
    bind_run (tournament walkover padding os junk nround fuel 0 (replicate (length exes) True, int (length exes)) cchar)
      (\<lambda>(lines, st). Inr (lines, find (\<lambda>i. fst st ! i) [0..<length exes]))"
proof -
  have l: "read_line err 64 (players_file l exes) = Inr (l, concat (map (\<lambda>e. e @ [CHR 0x0A]) exes))"
    using assms(3) unfolding players_file_def valid_players_def by (intro read_line_text) simp_all
  have es: "read_lines err 101 (length exes) (concat (map (\<lambda>e. e @ [CHR 0x0A]) exes)) = Inr (exes, [])"
    using read_lines_text [of exes 101 err "[]"] assms(3) by (force simp: valid_players_def)
  have n: "atoi l = int (length exes)" "\<not> int (length exes) \<le> 0"
    using assms(3) by (auto simp: valid_players_def)
  have p: "all_ok pipe_ret (2 * length exes) = Inr ()"
      "start_players calls exes [0..<length exes] = Inr ()"
    using assms(4) unfolding processes_start_def by (auto intro: all_ok_Inr start_players_parent)
  show ?thesis
    unfolding umpire2_def assms(1,2) bind_run_simps prod.case option.case l Let_def n(1) nat_int es p
    using n(2) by simp
qed

section \<open>Properties\<close>

definition wins :: "(nat \<Rightarrow> char) \<Rightarrow> (nat \<Rightarrow> char) \<Rightarrow> nat" where
  "wins m m' = length (filter (\<lambda>i. beats (m i) (m' i)) [0..<10])"

lemma score_wins: "score (map m1 [0..<10]) (map m2 [0..<10]) = (int (wins m1 m2), int (wins m2 m1))"
proof -
  have nth: "map m [0..<10] ! i = m i" if "i \<in> set [0..<10]" for m :: "nat \<Rightarrow> char" and i
    using that by (simp only: set_upt atLeastLessThan_iff nth_map length_upt nth_upt add_0 diff_zero)
  have f: "filter (\<lambda>i. beats (map p [0..<10] ! i) (map q [0..<10] ! i)) [0..<10] =
      filter (\<lambda>i. beats (p i) (q i)) [0..<10]" for p q
    by (rule filter_cong [OF refl]) (simp only: nth)
  show ?thesis unfolding score_eq f wins_def ..
qed

text \<open>
  C34: The umpire of two players, when every system call succeeds, prints how many of the ten rounds
  the first player won and how many the second one; together these are at most ten.
\<close>

theorem umpire_scores:
  assumes "3 \<le> length argv" "\<forall>i. 0 \<le> pipe_ret i" "\<forall>i. 0 \<le> write_ret os1 i" "\<forall>i. 0 \<le> write_ret os2 i"
    and "0 < fork_ret os1" "0 < fork_ret os2"
    and "\<forall>i. read_ret os1 i = Got (m1 i)" "\<forall>i. read_ret os2 i = Got (m2 i)"
  shows "umpire argv pipe_ret os1 os2 = Inr (int (wins m1 m2), int (wins m2 m1)) \<and>
    wins m1 m2 + wins m2 m1 \<le> 10"
proof
  have part: "play_part os prog = Inr (map m [0..<10])"
    if "\<forall>i. 0 \<le> write_ret os i" "0 < fork_ret os" "\<forall>i. read_ret os i = Got (m i)" for os prog m
    using that read_moves_Got [of "[0..<10]" os m] all_ok_Inr [of 10 "write_ret os"]
    unfolding play_part_def by (simp del: upt_rec_numeral)
  have "umpire argv pipe_ret os1 os2 = Inr (score (map m1 [0..<10]) (map m2 [0..<10]))"
    using assms(1) all_ok_Inr [of 4 pipe_ret] assms(2)
    unfolding umpire_def part [OF assms(3,5,7)] part [OF assms(4,6,8)]
    by (simp del: upt_rec_numeral)
  then show "umpire argv pipe_ret os1 os2 = Inr (int (wins m1 m2), int (wins m2 m1))"
    by (simp only: score_wins)
  have "wins m1 m2 + wins m2 m1 \<le> length [0..<10]"
    unfolding wins_def by (rule length_filter_disjoint) (rule beats_asym)
  then show "wins m1 m2 + wins m2 m1 \<le> 10" by (simp only: length_upt diff_zero)
qed

definition winning_calls :: player_calls where
  "winning_calls = \<lparr>write_ret = \<lambda>_. 3, fork_ret = 7, dup2_ret = \<lambda>_. 0, exec_ok = True,
     read_ret = \<lambda>_. Got CHR ''1'', garbage = \<lambda>_. CHR ''x''\<rparr>"

definition losing_calls :: player_calls where
  "losing_calls = winning_calls \<lparr>read_ret := \<lambda>_. Got CHR ''0''\<rparr>"

theorem umpire_scores_witness:
  "umpire [''umpire'', ''p1'', ''p2''] (\<lambda>_. 0) winning_calls losing_calls =
     Inr (int (wins (\<lambda>_. CHR ''1'') (\<lambda>_. CHR ''0'')), int (wins (\<lambda>_. CHR ''0'') (\<lambda>_. CHR ''1'')))"
  using umpire_scores [of "[''umpire'', ''p1'', ''p2'']" "\<lambda>_. 0" winning_calls losing_calls
      "\<lambda>_. CHR ''1''" "\<lambda>_. CHR ''0''"]
  by (simp add: winning_calls_def losing_calls_def)



text \<open>
  The walkover number is compared with the players' ids, which count from 0, although it stands for
  a position from 1: an odd number of players with a walkover for the last one, which
  \<^verbatim>\<open>gameUtils.c\<close> allows, reads past the list of active players in the first turn.
\<close>

theorem last_walkover_overruns:
  assumes "arguments argv = Inr (nround, infile)" "files infile = Some (players_file l exes, err)"
    and "valid_players l exes" "processes_start pipe_ret calls (length exes)"
    and "0 < nround" "\<forall>r. calls_succeed (os r)" "0 < padding" "odd (length exes)" "1 < length exes" "0 < fuel"
    and "walkover (length exes) = length exes"
  shows "umpire2 walkover padding argv files pipe_ret calls os junk cchar fuel = Inl (Fault OutOfBounds)"
proof -
  let ?st = "(replicate (length exes) True, int (length exes))"
  have "walkover (length exes) \<notin> set (active_ids (fst ?st))"
    using assms(11) by (simp add: active_ids_props)
  then have "tournament_round walkover padding (os 0) (junk 0) nround ?st cchar = Inl (Fault OutOfBounds)"
    using tournament_round_cases [OF counts_all assms(5) _ assms(7), of "os 0" "length exes" walkover "junk 0" cchar] assms(6,8)
    by auto
  moreover obtain f where "fuel = Suc f" using assms(10) by (cases fuel) auto
  ultimately show ?thesis
    unfolding umpire2_start [where files = files, OF assms(1-4)] using assms(9) by simp
qed

text \<open>Without padding behind the array of moves the terminator of its last row is written outside it.\<close>

lemma record_terminator_overruns:
  assumes "arguments argv = Inr (nround, infile)" "files infile = Some (players_file l exes, err)"
    and "valid_players l exes" "processes_start pipe_ret calls (length exes)"
    and "0 < nround" "\<forall>r. calls_succeed (os r)" "1 < length exes" "0 < fuel"
  shows "umpire2 walkover 0 argv files pipe_ret calls os junk cchar fuel = Inl (Fault OutOfBounds)"
proof -
  let ?st = "(replicate (length exes) True, int (length exes))"
  have "length exes - 1 \<in> set (active_ids (fst ?st))" using assms(7) by (simp add: active_ids_props)
  then have "tournament_round walkover 0 (os 0) (junk 0) nround ?st cchar = Inl (Fault OutOfBounds)"
    using collect_no_padding [of "os 0" "length exes" "active_ids (fst ?st)"] assms(5,6) order_less_trans [OF zero_less_one assms(7)]
    by (simp add: tournament_round_def Let_def)
  moreover obtain f where "fuel = Suc f" using assms(8) by (cases fuel) auto
  ultimately show ?thesis
    unfolding umpire2_start [where files = files, OF assms(1-4)] using assms(7) by simp
qed

section \<open>Samples\<close>

definition sample_args :: "string list" where
  "sample_args = [''umpire2'', ''-r'', ''2'', ''players'']"

definition sample_round :: round_calls where
  "sample_round = \<lparr>go_ret = \<lambda>_ _. 3, move_ret = \<lambda>_ _. Got CHR ''1''\<rparr>"

lemma sample_arguments: "arguments sample_args = Inr (2, ''players'')"
  by code_simp

lemma sample_setting:
  "valid_players ''2'' [''a'', ''b'']" "valid_players ''3'' [''a'', ''b'', ''c'']"
  "processes_start (\<lambda>_. 0) (\<lambda>_. winning_calls) n" "calls_succeed sample_round"
proof -
  have "atoi ''2'' = 2" "atoi ''3'' = 3" by code_simp+
  then show "valid_players ''2'' [''a'', ''b'']" "valid_players ''3'' [''a'', ''b'', ''c'']"
    by (simp_all add: valid_players_def)
qed (auto simp: processes_start_def winning_calls_def calls_succeed_def sample_round_def)



theorem last_walkover_overruns_witness:
  "umpire2 (\<lambda>n. n) 1 sample_args (\<lambda>_. Some (players_file ''3'' [''a'', ''b'', ''c''], False)) (\<lambda>_. 0)
     (\<lambda>_. winning_calls) (\<lambda>_. sample_round) (\<lambda>_ _ _. CHR ''x'') CHR ''x'' 3 = Inl (Fault OutOfBounds)"
  using last_walkover_overruns [OF sample_arguments _ sample_setting(2,3), of "\<lambda>_. Some (players_file ''3'' [''a'', ''b'', ''c''], False)"
      False "\<lambda>_. sample_round" 1 3 "\<lambda>n. n" "\<lambda>_ _ _. CHR ''x''" "CHR ''x''"] sample_setting(4)
  by simp

end
