(* ===== verification/ExecCommand.thy ===== *)
theory ExecCommand
  imports Processes
begin

text \<open>
  The two command runners of \<^verbatim>\<open>Assignment1/Part1\<close>: \<^verbatim>\<open>1.1/executeCommand.c\<close> runs one command found
  through the directories of \<^verbatim>\<open>CS330_PATH\<close>, \<^verbatim>\<open>1.2/executeInParallel.c\<close> runs the commands of a file and
  collects what they print. What \<open>execv\<close> makes of a program is an argument of the model. Both
  programs append to arrays that are too short by design; \<open>slack\<close> is the number of bytes behind such
  an array that the compiler or the allocator leaves unused.
\<close>

section \<open>strtok\<close>

text \<open>
  \<open>strtok\<close> with one delimiter: the token found in \<open>s\<close>, if any, and the text it saves for the next
  call with NULL.
\<close>

definition strtok :: "char \<Rightarrow> string \<Rightarrow> string option \<times> string" where
  "strtok d s =
     (let t = dropWhile (\<lambda>c. c = d) s
      in if t = [] then (None, [])
         else (Some (takeWhile (\<lambda>c. c \<noteq> d) t), tl (dropWhile (\<lambda>c. c \<noteq> d) t)))"

lemma strtok_shorter: "strtok d s = (Some t, s') \<Longrightarrow> length s' < length s"
proof -
  assume "strtok d s = (Some t, s')"
  then have "dropWhile (\<lambda>c. c = d) s \<noteq> []" "s' = tl (dropWhile (\<lambda>c. c \<noteq> d) (dropWhile (\<lambda>c. c = d) s))"
    by (auto simp: strtok_def Let_def split: if_splits)
  moreover have "length (dropWhile (\<lambda>c. c \<noteq> d) (dropWhile (\<lambda>c. c = d) s)) \<le> length s"
    using length_dropWhile_le order_trans by blast
  moreover have "s \<noteq> []" using calculation(1) by auto
  ultimately show "length s' < length s" by (cases s) auto
qed

text \<open>The loop that splits a text: the tokens and the text saved when \<open>strtok\<close> returns NULL.\<close>

function tokens :: "char \<Rightarrow> string \<Rightarrow> string list \<times> string" where
  "tokens d s =
     (case strtok d s of
        (None, s') \<Rightarrow> ([], s')
      | (Some t, s') \<Rightarrow> let (ts, saved) = tokens d s' in (t # ts, saved))"
  by auto
termination by (relation "measure (\<lambda>(d, s). length s)") (auto dest: strtok_shorter [OF sym])

declare tokens.simps [simp del]

section \<open>One command\<close>

definition unable :: string where "unable = ''UNABLE TO EXECUTE'' @ [CHR 0x0A]"

text \<open>
  The child of one directory. \<open>exec p argv\<close> is \<open>None\<close> when \<open>execv\<close> fails and else the exit status
  that \<open>wait\<close> reports of the program. \<open>tok\<close> is an array for the directory without its slash.
\<close>

definition run_child ::
    "(string \<Rightarrow> string list \<Rightarrow> int option) \<Rightarrow> nat \<Rightarrow> string \<Rightarrow> string list \<Rightarrow> int run" where
  "run_child exec slack dir argv =
     (case argv of
        [] \<Rightarrow> Inl (Fault NullDeref)
      | a # _ \<Rightarrow>
          if length dir + 1 + length a + 1 > length dir + 1 + slack then Inl (Fault OutOfBounds)
          else case exec (dir @ ''/'' @ a) argv of None \<Rightarrow> Inr 255 | Some status \<Rightarrow> Inr status)"

text \<open>
  The loop over the directories: \<open>token\<close> is the current one, \<open>saved\<close> what \<open>strtok\<close> has saved, \<open>fork_ok\<close>
  whether each fork succeeds. The result is what is printed and the value returned.
\<close>

function search_path ::
    "(string \<Rightarrow> string list \<Rightarrow> int option) \<Rightarrow> nat \<Rightarrow> (nat \<Rightarrow> bool) \<Rightarrow> string list \<Rightarrow> nat \<Rightarrow>
     string option \<Rightarrow> string \<Rightarrow> (string \<times> int) run" where
  "search_path exec slack fork_ok argv i None saved = Inr (unable, -1)"
| "search_path exec slack fork_ok argv i (Some dir) saved =
     (if slack = 0 then Inl (Fault OutOfBounds)
      else if \<not> fork_ok i then Inl (Exit (-1))
      else bind_run (run_child exec slack dir argv) (\<lambda>status.
        if status = 0 then Inr ([], 0)
        else search_path exec slack fork_ok argv (Suc i) (fst (strtok CHR '':'' saved)) (snd (strtok CHR '':'' saved))))"
  by pat_completeness auto
termination
proof (relation "measure (\<lambda>(exec, slack, fork_ok, argv, i, token, saved).
    case token of None \<Rightarrow> 0 | Some _ \<Rightarrow> Suc (length saved))", goal_cases)
  case (2 exec slack fork_ok argv i dir saved status)
  obtain t s where "strtok CHR '':'' saved = (t, s)" by (rule prod.exhaust)
  then show ?case using strtok_shorter [of _ saved _ s] by (auto split: option.splits)
qed simp

text \<open>\<open>paths\<close> is the value of \<^verbatim>\<open>CS330_PATH\<close>. The words of the command are split before the loop starts.\<close>

definition executeCommand ::
    "(string \<Rightarrow> string list \<Rightarrow> int option) \<Rightarrow> nat \<Rightarrow> (nat \<Rightarrow> bool) \<Rightarrow> string option \<Rightarrow> string \<Rightarrow>
     (string \<times> int) run" where
  "executeCommand exec slack fork_ok paths cmd =
     (case paths of
        None \<Rightarrow> Inl (Fault NullDeref)
      | Some p \<Rightarrow>
          let (token, _) = strtok CHR '':'' p;
              (argv, saved) = tokens CHR '' '' cmd
          in search_path exec slack fork_ok argv 0 token saved)"

section \<open>Commands in parallel\<close>

text \<open>Each directory is stored with a slash; the array it is built in is a byte too short.\<close>

definition split_paths :: "nat \<Rightarrow> string \<Rightarrow> string list run" where
  "split_paths slack paths =
     (if paths = [] then Inl (Fault OutOfBounds)
      else let (ts, _) = tokens CHR '':'' paths
           in if ts \<noteq> [] \<and> slack = 0 then Inl (Fault OutOfBounds)
              else Inr (map (\<lambda>t. t @ ''/'') ts))"

definition CM_SZ :: nat where "CM_SZ = 50"

definition MX_BF_SZ :: nat where "MX_BF_SZ = 2049"

text \<open>
  The commands. \<open>inp\<close> is the text of the input file and \<open>junk\<close> what the array held before, both read
  as bytes; the code puts no terminator behind the text.
\<close>

definition input_text :: "string \<Rightarrow> string \<Rightarrow> string run" where
  "input_text inp junk =
     (let str = take MX_BF_SZ (take MX_BF_SZ inp @ drop (length inp) junk)
      in if CHR 0x00 \<in> set str then Inr (takeWhile (\<lambda>c. c \<noteq> CHR 0x00) str) else Inl (Fault OutOfBounds))"

definition commands :: "string \<Rightarrow> string list run" where
  "commands text =
     (let (cmds, _) = tokens CHR 0x0A text
      in if length cmds > CM_SZ then Inl (Fault OutOfBounds) else Inr cmds)"

text \<open>
  A child tries the directories in order and becomes the first program it can run; \<open>exec p argv\<close> is
  what that program prints. The copy of the directory has no room for the name.
\<close>

fun child_output ::
    "(string \<Rightarrow> string list \<Rightarrow> string option) \<Rightarrow> nat \<Rightarrow> string list \<Rightarrow> string list \<Rightarrow> string run" where
  "child_output exec slack [] argv = Inr unable"
| "child_output exec slack (p # ps) argv =
     (case argv of
        [] \<Rightarrow> Inl (Fault NullDeref)
      | a # _ \<Rightarrow>
          if length a > slack then Inl (Fault OutOfBounds)
          else case exec (p @ a) argv of Some out \<Rightarrow> Inr out | None \<Rightarrow> child_output exec slack ps argv)"

text \<open>
  The loop that starts the commands: a pipe and a process for each. The result lists what the
  children print into their pipes.
\<close>

record spawn_calls =
  pipe_ok :: bool
  forked :: bool
  dup2_ok :: bool

fun start_commands ::
    "(string \<Rightarrow> string list \<Rightarrow> string option) \<Rightarrow> nat \<Rightarrow> string list \<Rightarrow> (nat \<Rightarrow> spawn_calls) \<Rightarrow> nat \<Rightarrow>
     string list \<Rightarrow> string list run" where
  "start_commands exec slack paths os i [] = Inr []"
| "start_commands exec slack paths os i (cmd # cmds) =
     (let (argv, _) = tokens CHR '' '' cmd
      in if \<not> pipe_ok (os i) then Inl (Exit (-1))
         else if \<not> forked (os i) then Inl (Exit (-1))
         else bind_run (if dup2_ok (os i) then child_output exec slack paths argv else Inr []) (\<lambda>out.
              bind_run (start_commands exec slack paths os (Suc i) cmds) (\<lambda>outs. Inr (out # outs))))"

text \<open>
  The loop over one pipe. \<open>reads\<close> are the results of the reads, \<open>None\<close> for an error; with no further
  one the read blocks, since the program holds the writing end of the pipe itself. \<open>written\<close> says
  whether a write to the output file succeeds. A full buffer gets its terminator behind its end.
\<close>

fun drain :: "nat \<Rightarrow> bool \<Rightarrow> string option list \<Rightarrow> int \<Rightarrow> (string \<times> int) run" where
  "drain slack written [] status = Inl Blocked"
| "drain slack written (None # rs) status = Inl (Exit (-1))"
| "drain slack written (Some r # rs) status =
     (let buff = take 4096 r; buffsz = length buff
      in if buffsz \<ge> 4096 \<and> slack = 0 then Inl (Fault OutOfBounds)
         else let status' = (if status = 0 then (if takeWhile (\<lambda>c. c \<noteq> CHR 0x00) buff = unable then -1 else 0) else status)
              in if \<not> written then Inl (Exit (-1))
                 else if buffsz \<ge> 4096
                 then bind_run (drain slack written rs status') (\<lambda>(out, st). Inr (buff @ out, st))
                 else Inr (buff, status'))"

fun drain_all :: "nat \<Rightarrow> bool \<Rightarrow> string option list list \<Rightarrow> int \<Rightarrow> (string \<times> int) run" where
  "drain_all slack written [] status = Inr ([], status)"
| "drain_all slack written (rs # rss) status =
     bind_run (drain slack written rs status) (\<lambda>(out, st).
     bind_run (drain_all slack written rss st) (\<lambda>(outs, st'). Inr (out @ outs, st')))"

text \<open>
  The main program. \<open>inp\<close> is \<open>None\<close> when the input file cannot be opened and \<open>Some None\<close> when reading
  it fails; \<open>pipes\<close> says how the pipes deliver what the children print. The result is what is written
  to the output file, from its front, and the value returned.
\<close>

definition execute_in_parallel ::
    "(string \<Rightarrow> string list \<Rightarrow> string option) \<Rightarrow> nat \<Rightarrow> string option \<Rightarrow> string option option \<Rightarrow> string \<Rightarrow>
     bool \<Rightarrow> (nat \<Rightarrow> spawn_calls) \<Rightarrow> (string list \<Rightarrow> string option list list) \<Rightarrow> bool \<Rightarrow> (string \<times> int) run" where
  "execute_in_parallel exec slack paths inp junk out_ok os pipes written =
     (case paths of
        None \<Rightarrow> Inl (Exit (-1))
      | Some p \<Rightarrow>
          bind_run (split_paths slack p) (\<lambda>path.
          case inp of
            None \<Rightarrow> Inl (Exit (-1))
          | Some None \<Rightarrow> Inl (Exit (-1))
          | Some (Some text) \<Rightarrow>
              bind_run (input_text text junk) (\<lambda>str.
              bind_run (commands str) (\<lambda>cmds.
              if \<not> out_ok then Inl (Exit (-1))
              else if cmds = [] then Inl (Fault OutOfBounds)
              else bind_run (start_commands exec slack path os 0 cmds) (\<lambda>outs. drain_all slack written (pipes outs) 0)))))"


section \<open>Splitting\<close>

lemma until_absent:
  assumes "d \<notin> set w"
  shows "takeWhile (\<lambda>c. c \<noteq> d) w = w" "dropWhile (\<lambda>c. c \<noteq> d) w = []"
    "takeWhile (\<lambda>c. c \<noteq> d) (w @ d # s) = w" "dropWhile (\<lambda>c. c \<noteq> d) (w @ d # s) = d # s"
  using assms by (induction w) auto

lemma skip_front:
  "w \<noteq> [] \<Longrightarrow> d \<notin> set w \<Longrightarrow> dropWhile (\<lambda>c. c = d) (w @ s) = w @ s"
  by (cases w) auto

lemma filter_skip: "filter (\<lambda>c. c \<noteq> d) (dropWhile (\<lambda>c. c = d) s) = filter (\<lambda>c. c \<noteq> d) s"
  by (induction s) auto

lemma filter_behind:
  "filter (\<lambda>c. c \<noteq> d) (tl (dropWhile (\<lambda>c. c \<noteq> d) s)) = filter (\<lambda>c. c \<noteq> d) (dropWhile (\<lambda>c. c \<noteq> d) s)"
  by (induction s) auto

lemma filter_front: "filter (\<lambda>c. c \<noteq> d) (takeWhile (\<lambda>c. c \<noteq> d) s) = takeWhile (\<lambda>c. c \<noteq> d) s"
  by (induction s) auto

lemma strtok_None: "strtok d s = (None, s') \<longleftrightarrow> set s \<subseteq> {d} \<and> s' = []"
  by (auto simp: strtok_def Let_def dropWhile_eq_Nil_conv split: if_splits)

lemma strtok_Some:
  assumes "strtok d s = (Some t, s')"
  shows "t \<noteq> []" "d \<notin> set t" "filter (\<lambda>c. c \<noteq> d) s = t @ filter (\<lambda>c. c \<noteq> d) s'"
    "length t + length s' \<le> length s"
proof -
  let ?u = "dropWhile (\<lambda>c. c = d) s"
  have u: "?u \<noteq> []" "t = takeWhile (\<lambda>c. c \<noteq> d) ?u" "s' = tl (dropWhile (\<lambda>c. c \<noteq> d) ?u)"
    using assms by (auto simp: strtok_def Let_def split: if_splits)
  have hd: "hd ?u \<noteq> d" using u(1) hd_dropWhile [of "\<lambda>c. c = d" s] by auto
  show "t \<noteq> []" using u(1,2) hd by (cases ?u) auto
  show nd: "d \<notin> set t" using u(2) by (auto dest: set_takeWhileD)
  have "filter (\<lambda>c. c \<noteq> d) s = filter (\<lambda>c. c \<noteq> d) (takeWhile (\<lambda>c. c \<noteq> d) ?u @ dropWhile (\<lambda>c. c \<noteq> d) ?u)"
    by (simp only: takeWhile_dropWhile_id filter_skip)
  then show "filter (\<lambda>c. c \<noteq> d) s = t @ filter (\<lambda>c. c \<noteq> d) s'"
    by (simp only: filter_append filter_front filter_behind u(2,3))
  have "length t + length (dropWhile (\<lambda>c. c \<noteq> d) ?u) = length ?u"
    unfolding u(2) by (simp only: length_append [symmetric] takeWhile_dropWhile_id)
  moreover have "length ?u \<le> length s" by (rule length_dropWhile_le)
  ultimately show "length t + length s' \<le> length s" using u(3) by simp
qed

lemma tokens_None: "strtok d s = (None, s') \<Longrightarrow> tokens d s = ([], [])"
  using strtok_None [of d s s'] by (subst tokens.simps) simp

lemma tokens_Some: "strtok d s = (Some t, s') \<Longrightarrow> tokens d s = (t # fst (tokens d s'), snd (tokens d s'))"
  by (subst tokens.simps) (simp add: split_beta)

text \<open>The words of a text, in order: nothing but delimiters is lost, and nothing is left to split.\<close>

lemma tokens_spec:
  "snd (tokens d s) = [] \<and> concat (fst (tokens d s)) = filter (\<lambda>c. c \<noteq> d) s \<and>
   (\<forall>t \<in> set (fst (tokens d s)). t \<noteq> [] \<and> d \<notin> set t) \<and> length (fst (tokens d s)) \<le> length s"
proof (induction d s rule: tokens.induct)
  case (1 d s)
  obtain tok s' where st: "strtok d s = (tok, s')" by (rule prod.exhaust)
  show ?case
  proof (cases tok)
    case None
    then have "filter (\<lambda>c. c \<noteq> d) s = []" using st by (auto simp: strtok_None filter_empty_conv)
    then show ?thesis using None st by (simp add: tokens_None)
  next
    case (Some t)
    note st' = st [unfolded Some]
    have len: "length s' < length s" by (rule strtok_shorter [OF st'])
    show ?thesis
      using 1 [OF st' [symmetric] refl] strtok_Some(1-3) [OF st'] len
      by (simp add: tokens_Some [OF st'] Suc_le_eq)
  qed
qed

lemma strtok_word: "w \<noteq> [] \<Longrightarrow> d \<notin> set w \<Longrightarrow> strtok d (w @ d # s) = (Some w, s)"
  by (simp add: strtok_def Let_def skip_front until_absent)

lemma strtok_last_word: "w \<noteq> [] \<Longrightarrow> d \<notin> set w \<Longrightarrow> strtok d w = (Some w, [])"
  using skip_front [of w d "[]"] by (simp add: strtok_def Let_def until_absent)

lemma tokens_words:
  "(\<And>w. w \<in> set ws \<Longrightarrow> w \<noteq> [] \<and> d \<notin> set w) \<Longrightarrow> tokens d (concat (map (\<lambda>w. w @ [d]) ws)) = (ws, [])"
proof (induction ws)
  case Nil
  show ?case by (simp add: tokens_None [of d "[]" "[]"] strtok_None)
next
  case (Cons w ws)
  have "strtok d (concat (map (\<lambda>w. w @ [d]) (w # ws))) = (Some w, concat (map (\<lambda>w. w @ [d]) ws))"
    using Cons.prems [of w] strtok_word [of w d] by simp
  then show ?case using Cons by (simp add: tokens_Some)
qed

section \<open>The first program found\<close>

text \<open>What a child prints: the output of the command in the first directory that has it.\<close>

definition first_program :: "(string \<Rightarrow> string list \<Rightarrow> string option) \<Rightarrow> string list \<Rightarrow> string list \<Rightarrow> string" where
  "first_program exec dirs argv =
     (case List.map_filter (\<lambda>dir. exec (dir @ ''/'' @ hd argv) argv) dirs of [] \<Rightarrow> unable | out # _ \<Rightarrow> out)"

lemma child_output_first:
  "argv \<noteq> [] \<Longrightarrow> length (hd argv) \<le> slack \<Longrightarrow>
   child_output exec slack (map (\<lambda>t. t @ ''/'') dirs) argv = Inr (first_program exec dirs argv)"
proof (induction dirs)
  case Nil
  show ?case by (simp add: first_program_def map_filter_def)
next
  case (Cons dir dirs)
  then show ?case
    by (cases argv; cases "exec (dir @ ''/'' @ hd argv) argv") (auto simp: first_program_def map_filter_simps)
qed

definition runnable :: "nat \<Rightarrow> string \<Rightarrow> bool" where
  "runnable slack cmd \<longleftrightarrow>
     fst (tokens CHR '' '' cmd) \<noteq> [] \<and> length (hd (fst (tokens CHR '' '' cmd))) \<le> slack"

lemma start_commands_ok:
  assumes "\<forall>i. pipe_ok (os i) \<and> forked (os i) \<and> dup2_ok (os i)" "\<forall>cmd \<in> set cmds. runnable slack cmd"
  shows "start_commands exec slack (map (\<lambda>t. t @ ''/'') dirs) os i cmds =
    Inr (map (\<lambda>cmd. first_program exec dirs (fst (tokens CHR '' '' cmd))) cmds)"
  using assms(2)
proof (induction cmds arbitrary: i)
  case (Cons cmd cmds)
  obtain argv saved where argv: "tokens CHR '' '' cmd = (argv, saved)" by (rule prod.exhaust)
  have "child_output exec slack (map (\<lambda>t. t @ ''/'') dirs) argv = Inr (first_program exec dirs argv)"
    using Cons.prems argv by (intro child_output_first) (auto simp: runnable_def)
  then show ?case using Cons assms(1) by (simp add: argv)
qed simp

definition short_outputs :: "string list \<Rightarrow> bool" where
  "short_outputs outs \<longleftrightarrow> (\<forall>out \<in> set outs. length out < 4096 \<and> CHR 0x00 \<notin> set out)"

lemma drain_all_ok:
  "short_outputs outs \<Longrightarrow> st = 0 \<or> st = -1 \<Longrightarrow>
   drain_all slack True (map (\<lambda>out. [Some out]) outs) st =
     Inr (concat outs, if st = 0 \<and> unable \<notin> set outs then 0 else -1)"
proof (induction outs arbitrary: st)
  case (Cons out outs)
  let ?st = "if st = 0 then if out = unable then -1 else 0 else st"
  have "takeWhile (\<lambda>c. c \<noteq> CHR 0x00) out = out" "length out < 4096"
    using Cons.prems(1) by (simp_all add: short_outputs_def until_absent)
  then have d: "drain slack True [Some out] st = Inr (out, ?st)"
    by (simp add: Let_def del: takeWhile_eq_all_conv)
  have "short_outputs outs" "?st = 0 \<or> ?st = -1" using Cons.prems by (auto simp: short_outputs_def)
  from Cons.IH [OF this] show ?case
    unfolding list.map drain_all.simps d bind_run_simps prod.case using Cons.prems(2) by auto
qed auto

lemma input_text_ok:
  assumes "CHR 0x00 \<notin> set inp" "length inp < MX_BF_SZ" "length inp < length junk" "junk ! length inp = CHR 0x00"
  shows "input_text inp junk = Inr inp"
proof -
  obtain j where d: "drop (length inp) junk = CHR 0x00 # j"
    using assms(3,4) by (metis Cons_nth_drop_Suc)
  obtain n where n: "MX_BF_SZ = Suc (length inp + n)"
    using assms(2) less_iff_Suc_add by auto
  have "take MX_BF_SZ (take MX_BF_SZ inp @ drop (length inp) junk) = inp @ CHR 0x00 # take n j"
    unfolding d n by (simp add: take_Cons')
  moreover have "takeWhile (\<lambda>c. c \<noteq> CHR 0x00) (inp @ CHR 0x00 # take n j) = inp"
    using assms(1) by (rule until_absent)
  ultimately show ?thesis by (simp add: input_text_def Let_def)
qed

end
