(* ===== verification/ExecProperties.thy ===== *)
theory ExecProperties
  imports ExecCommand
begin

text \<open>What the command runners of \<^verbatim>\<open>Assignment1/Part1\<close> do with a path, a command and a file of commands.\<close>

text \<open>
  A text made of words, each followed by the delimiter, splits into exactly these words; in any
  text the tokens are never empty, lose nothing but delimiters and are at most as many as its
  characters, which is what the arrays of the callers have room for.
\<close>

theorem split_contract:
  "((\<forall>w \<in> set ws. w \<noteq> [] \<and> d \<notin> set w) \<longrightarrow> tokens d (concat (map (\<lambda>w. w @ [d]) ws)) = (ws, [])) \<and>
   concat (fst (tokens d s)) = filter (\<lambda>c. c \<noteq> d) s \<and> [] \<notin> set (fst (tokens d s)) \<and>
   length (fst (tokens d s)) \<le> length s"
  using tokens_words [of ws d] tokens_spec [of d s] by blast

theorem split_contract_witness:
  "tokens CHR '' '' ''ls -l '' = ([''ls'', ''-l''], [])"
  using split_contract [of "[''ls'', ''-l'']" "CHR '' ''" "[]"] by simp





text \<open>Without slack behind its arrays no command is run at all.\<close>

lemma no_slack_overruns:
  "dir \<noteq> [] \<Longrightarrow> CHR '':'' \<notin> set dir \<Longrightarrow>
   executeCommand exec 0 fork_ok (Some (dir @ '':'' @ rest)) cmd = Inl (Fault OutOfBounds)"
  using strtok_word [of dir "CHR '':''" rest] by (simp add: executeCommand_def split_beta)

text \<open>A full buffer is terminated behind its end.\<close>

lemma full_read_overruns:
  "4096 \<le> length out \<Longrightarrow> drain 0 written (Some out # rs) st = Inl (Fault OutOfBounds)"
  by (simp add: Let_def min_def)

end
