(* ===== verification/InitProgram.thy ===== *)
theory InitProgram
  imports QueueProperties Printf
begin

text \<open>
  The first user program, \<^verbatim>\<open>user/init.c\<close>, on the model of the kernel: a process creates a message queue
  and forks, and parent and child exchange a message and its acknowledgement while their system calls
  interleave in any order. A step is a system call of one of them, with the code around it; at the end
  of \<open>main\<close> a process exits and leaves its queues (\<open>do_msg_queue_cleanup\<close>; the rest of \<open>do_exit\<close> concerns
  the standard streams and is left out). The wrappers of \<^verbatim>\<open>lib.c\<close> only pass the arguments on.
\<close>

section \<open>The two processes\<close>

text \<open>Where the parent and the child are in \<open>main\<close>, after the fork.\<close>

datatype parent_pc = P_info | P_send | P_poll | P_rcv | P_exit | P_done
datatype child_pc = C_poll | C_info | C_rcv | C_send | C_exit | C_done

text \<open>The kernel, the positions, and the local variables of each process: \<open>info.member_count\<close> and \<open>msg\<close>.\<close>

record exchange =
  xk :: kernel
  ppc :: parent_pc
  cpc :: child_pc
  pinfo :: u32
  cinfo :: u32
  pmsg :: message
  cmsg :: message
  printed :: string

text \<open>\<^verbatim>\<open>msg.msg_txt[0] = ...\<close> up to the terminator; the rest of the array stays.\<close>

definition put_text :: "string \<Rightarrow> string \<Rightarrow> string" where
  "put_text t txt = t @ CHR 0x00 # drop (Suc (length t)) txt"

definition seen_members :: "(u32 \<times> u32 list) option \<Rightarrow> u32 \<Rightarrow> u32" where
  "seen_members info old = (case info of None \<Rightarrow> old | Some (n, _) \<Rightarrow> n)"

definition newline :: string where "newline = [CHR 0x0A]"

lemma plain_text: "CHR ''%'' \<notin> set t \<Longrightarrow> vuprintf (t @ newline) [] = Inr (t @ newline)"
  by (subst vuprintf_text) (simp_all add: newline_def)

lemma text_line:
  assumes "CHR ''%'' \<notin> set t"
  shows "vuprintf (t @ ''%s'' @ newline) [Str_arg (Some w)] = Inr (t @ w @ newline)"
  using assms by (subst vuprintf_text) (simp_all add: newline_def conv_s_def)

text \<open>A process in slot \<open>c\<close> with the queue at \<open>fd\<close>; \<open>pd\<close> is what fork returned.\<close>

definition parent_step :: "nat \<Rightarrow> u64 \<Rightarrow> int \<Rightarrow> exchange \<Rightarrow> exchange res" where
  "parent_step c fd pd s =
     (case ppc s of
        P_info \<Rightarrow>
          bind_res (do_get_member_info (xk s) c fd) (\<lambda>(st, info, k).
          bind_res (vuprintf (''Members after fork: %d'' @ newline) [Int_arg (sint (seen_members info (pinfo s)))]) (\<lambda>out.
            Inr (s\<lparr>xk := k, pinfo := seen_members info (pinfo s), printed := printed s @ out, ppc := P_send\<rparr>)))
      | P_send \<Rightarrow>
          bind_res (ctx_at (xk s) c) (\<lambda>ctx.
            let msg = \<lparr>from_pid = pid ctx, to_pid = word_of_int pd, msg_txt = put_text ''MSG'' (msg_txt (pmsg s))\<rparr>
            in bind_res (call_msg_queue_send (xk s) c fd (Some msg)) (\<lambda>(st, k).
                 Inr (s\<lparr>xk := k, pmsg := msg, ppc := P_poll\<rparr>)))
      | P_poll \<Rightarrow>
          bind_res (call_get_msg_count (xk s) c fd) (\<lambda>(n, k).
            Inr (s\<lparr>xk := k, ppc := if n = 0 then P_poll else P_rcv\<rparr>))
      | P_rcv \<Rightarrow>
          bind_res (call_msg_queue_rcv (xk s) c fd True) (\<lambda>(st, out, k).
            Inr (s\<lparr>xk := k, pmsg := (case out of None \<Rightarrow> pmsg s | Some m \<Rightarrow> m), ppc := P_exit\<rparr>))
      | P_exit \<Rightarrow>
          bind_res (do_msg_queue_cleanup (xk s) c) (\<lambda>k. Inr (s\<lparr>xk := k, ppc := P_done\<rparr>))
      | P_done \<Rightarrow> Inr s)"

definition child_step :: "nat \<Rightarrow> u64 \<Rightarrow> exchange \<Rightarrow> exchange res" where
  "child_step c fd s =
     (case cpc s of
        C_poll \<Rightarrow>
          bind_res (call_get_msg_count (xk s) c fd) (\<lambda>(n, k).
            Inr (s\<lparr>xk := k, cpc := if n = 0 then C_poll else C_info\<rparr>))
      | C_info \<Rightarrow>
          bind_res (do_get_member_info (xk s) c fd) (\<lambda>(st, info, k).
            Inr (s\<lparr>xk := k, cinfo := seen_members info (cinfo s), cpc := C_rcv\<rparr>))
      | C_rcv \<Rightarrow>
          bind_res (call_msg_queue_rcv (xk s) c fd True) (\<lambda>(st, out, k).
            Inr (s\<lparr>xk := k, cmsg := (case out of None \<Rightarrow> cmsg s | Some m \<Rightarrow> m), cpc := C_send\<rparr>))
      | C_send \<Rightarrow>
          bind_res (ctx_at (xk s) c) (\<lambda>ctx.
            let msg = \<lparr>from_pid = pid ctx, to_pid = from_pid (cmsg s), msg_txt = put_text ''ACK'' (msg_txt (cmsg s))\<rparr>
            in bind_res (call_msg_queue_send (xk s) c fd (Some msg)) (\<lambda>(st, k).
                 Inr (s\<lparr>xk := k, cmsg := msg, cpc := C_exit\<rparr>)))
      | C_exit \<Rightarrow>
          bind_res (do_msg_queue_cleanup (xk s) c) (\<lambda>k. Inr (s\<lparr>xk := k, cpc := C_done\<rparr>))
      | C_done \<Rightarrow> Inr s)"

text \<open>
  The part before the processes part, by the process in slot \<open>c\<close>. The result is the descriptor, the
  result of the fork and both processes, or \<open>None\<close> when the fork has not made a child.
\<close>

definition init_prologue ::
    "env \<Rightarrow> kernel \<Rightarrow> nat \<Rightarrow> exchange \<Rightarrow> (u64 \<times> int \<times> exchange) option res" where
  "init_prologue e k c s0 =
     (let (q, qpage) = queue_page e k; (p, page) = file_page e k
      in bind_res (do_create_msg_queue q qpage p page k c) (\<lambda>(fd, k1).
         bind_res (do_get_member_info k1 c (word_of_int fd)) (\<lambda>(st, info, k2).
         bind_res (vuprintf (''Members before fork: %d'' @ newline) [Int_arg (sint (seen_members info (pinfo s0)))]) (\<lambda>out.
         bind_res (do_fork e k2 c) (\<lambda>(pd, k3).
           if pd \<le> 0 then Inr None
           else let n = seen_members info (pinfo s0)
                in Inr (Some (word_of_int fd, pd,
                     s0\<lparr>xk := k3, ppc := P_info, cpc := C_poll, pinfo := n, cinfo := n,
                        cmsg := pmsg s0, printed := printed s0 @ out\<rparr>)))))))"

inductive init_step :: "nat \<Rightarrow> nat \<Rightarrow> u64 \<Rightarrow> int \<Rightarrow> exchange \<Rightarrow> exchange \<Rightarrow> bool" for cp cc fd pd where
  parent: "ppc s \<noteq> P_done \<Longrightarrow> parent_step cp fd pd s = Inr s' \<Longrightarrow> init_step cp cc fd pd s s'"
| child: "cpc s \<noteq> C_done \<Longrightarrow> child_step cc fd s = Inr s' \<Longrightarrow> init_step cp cc fd pd s s'"


section \<open>The queue as the two processes see it\<close>

text \<open>Who takes part: the slots of the processes, the descriptor, its file object and queue, the pids.\<close>

record parties =
  pslot :: nat
  cslot :: nat
  qfd :: nat
  qfile :: nat
  qaddr :: nat
  parent_pid :: u32
  child_pid :: u32

definition valid_parties :: "parties \<Rightarrow> bool" where
  "valid_parties g \<longleftrightarrow> pslot g \<noteq> cslot g \<and> qfd g < MAX_OPEN_FILES \<and> parent_pid g \<noteq> child_pid g \<and>
     parent_pid g \<noteq> BROADCAST_PID \<and> child_pid g \<noteq> BROADCAST_PID"

definition fd_word :: "parties \<Rightarrow> u64" where "fd_word g = of_nat (qfd g)"

text \<open>The process in slot \<open>c\<close> has the queue open at the descriptor and no other queue.\<close>

definition other_file :: "parties \<Rightarrow> kernel \<Rightarrow> nat option \<Rightarrow> bool" where
  "other_file g k fp \<longleftrightarrow>
     (case fp of None \<Rightarrow> True
      | Some p \<Rightarrow> p \<noteq> qfile g \<and> (\<exists>f. fheap k p = Some f \<and> msg_queue f = None))"

definition attends :: "parties \<Rightarrow> kernel \<Rightarrow> nat \<Rightarrow> u32 \<Rightarrow> bool" where
  "attends g k c pd \<longleftrightarrow>
     (\<exists>f. fheap k (qfile g) = Some f \<and> msg_queue f = Some (qaddr g)) \<and>
     (\<exists>ctx. ctxs k c = Some ctx \<and> pid ctx = pd \<and> files ctx ! qfd g = Some (qfile g) \<and>
        (\<forall>i < MAX_OPEN_FILES. i \<noteq> qfd g \<longrightarrow> other_file g k (files ctx ! i)))"

definition mail :: "parties \<Rightarrow> kernel \<Rightarrow> u32 list \<Rightarrow> message list \<Rightarrow> bool" where
  "mail g k who ms \<longleftrightarrow> queues_ok k \<and>
     (\<exists>mq. qheap k (qaddr g) = Some mq \<and> members mq = who \<and> messages mq = ms \<and> blocks mq = {})"

lemma attends_cong:
  "fheap k' = fheap k \<Longrightarrow> ctxs k' c = ctxs k c \<Longrightarrow> attends g k' c pd = attends g k c pd"
  by (simp add: attends_def other_file_def [abs_def])

lemma mailD:
  assumes "mail g k who ms"
  obtains mq where "qheap k (qaddr g) = Some mq" "members mq = who" "messages mq = ms" "blocks mq = {}"
    "queues_ok k" "queue_inv mq" "mq_ok mq"
  using assms by (auto simp: mail_def dest: queues_okD intro: queue_invD(1))

lemma mail_put:
  "queues_ok k \<Longrightarrow> queue_inv mq \<Longrightarrow> members mq = who \<Longrightarrow> messages mq = ms \<Longrightarrow> blocks mq = {} \<Longrightarrow>
   mail g (put_queue k (qaddr g) mq) who ms"
  by (simp add: mail_def queues_ok_put)

lemma uint_fd: "valid_parties g \<Longrightarrow> uint (fd_word g) = int (qfd g)"
  using uint_word_of_int [of "int (qfd g)", where 'a = 64]
  by (simp add: fd_word_def valid_parties_def k_const)

lemma attends_fd:
  assumes g: "valid_parties g" and a: "attends g k c pd"
  shows "get_fd k c (uint (fd_word g)) = Inr (Some (qfile g))"
  using a g by (auto simp: attends_def uint_fd [OF g] valid_parties_def)

lemma attends_queue_fd:
  assumes "valid_parties g" "attends g k c pd" "mail g k who ms" "pd \<in> set who" "pd \<noteq> BROADCAST_PID"
  obtains ctx mq where "queue_fd k c (qfile g) ctx (qaddr g) mq" "pid ctx = pd" "members mq = who"
    "messages mq = ms" "blocks mq = {}" "ctxs k c = Some ctx"
proof -
  obtain ctx where ctx: "ctxs k c = Some ctx" "pid ctx = pd" using assms(2) by (auto simp: attends_def)
  obtain mq where mq: "qheap k (qaddr g) = Some mq" "members mq = who" "messages mq = ms" "blocks mq = {}"
      "queue_inv mq"
    using assms(3) by (rule mailD)
  have "queue_fd k c (qfile g) ctx (qaddr g) mq"
    using assms(2,4,5) ctx mq unfolding queue_fd_def attends_def by auto
  with ctx mq that show ?thesis by blast
qed

section \<open>The calls\<close>

text \<open>With nobody blocked a message passes, also where the code reads into the next row of the table.\<close>

lemma nobody_blocked:
  assumes inv: "queue_inv mq" and none: "blocks mq = {}" and i: "i < length (members mq)" "Suc i < MAX_MEMBERS"
    and pd: "pd \<noteq> BROADCAST_PID"
  shows "\<forall>j < MAX_PROCESSES. word_of_int (block_process mq ! (i * MAX_MEMBERS + j)) \<noteq> pd"
proof (intro allI impI)
  fix j assume j: "j < MAX_PROCESSES"
  note ok = queue_invD(1) [OF inv]
  have row: "word_of_int x \<noteq> pd" if x: "r < MAX_MEMBERS" "x \<in> set (block_row mq r)" for r x
  proof (cases "r < length (members mq)")
    case True
    then have "\<not> row_blocks mq r pd" using none pd by (auto simp: blocks_def)
    then show ?thesis using x(2) by (auto simp: row_blocks_def)
  next
    case False
    then have "x = -1" using queue_invD(2) [OF inv] x mq_okD(8) [OF ok] by (auto simp: rows_ok_def)
    then show ?thesis using word_minus_1 pd by metis
  qed
  have in_row: "block_process mq ! (r * MAX_MEMBERS + l) \<in> set (block_row mq r)" if "l < MAX_MEMBERS" for r l
    using that by (auto simp: block_row_def)
  show "word_of_int (block_process mq ! (i * MAX_MEMBERS + j)) \<noteq> pd"
  proof (cases "j < MAX_MEMBERS")
    case True
    then show ?thesis using row [of i] in_row i(2) by simp
  next
    case False
    then have "i * MAX_MEMBERS + j = Suc i * MAX_MEMBERS + (j - MAX_MEMBERS)" "j - MAX_MEMBERS < MAX_MEMBERS"
      using j by (simp_all add: k_const)
    then show ?thesis using row [OF i(2)] in_row by metis
  qed
qed

lemma info_call:
  assumes "valid_parties g" "attends g k c pd" "mail g k who ms"
  shows "\<exists>pids. do_get_member_info k c (fd_word g) = Inr (0, Some (of_nat (length who), pids), k)"
proof -
  obtain mq where mq: "qheap k (qaddr g) = Some mq" "members mq = who" "mq_ok mq"
    using assms(3) by (rule mailD)
  have "member_count mq = of_nat (length who)"
    using mq_okD(8) [OF mq(3)] mq(2) by simp
  with assms(2) mq(1) show ?thesis
    unfolding do_get_member_info_def with_fd_def attends_fd [OF assms(1,2)]
    by (auto simp: attends_def do_msg_queue_get_member_info_def with_queue_def)
qed

lemma count_call:
  assumes g: "valid_parties g" "attends g k c pd" "mail g k who ms" "pd \<in> set who" "pd \<noteq> BROADCAST_PID"
  shows "call_get_msg_count k c (fd_word g) = Inr (int (length (addressed pd ms)), k)"
proof -
  obtain ctx mq where q: "queue_fd k c (qfile g) ctx (qaddr g) mq" "pid ctx = pd" "messages mq = ms"
    using g by (rule attends_queue_fd)
  have "count_messages pd mq = Inr (int (length (addressed pd ms)))"
    using mq_okD [OF queue_fdD(5) [OF q(1)]] q(3) by (auto simp: count_messages_def addressed_def messages_def)
  then show ?thesis
    unfolding call_get_msg_count_def with_fd_def attends_fd [OF g(1,2)] using count_on [OF q(1)] q(2) by simp
qed

lemma rcv_call:
  assumes g: "valid_parties g" "attends g k c pd" "mail g k who [m]" "pd \<in> set who" "pd \<noteq> BROADCAST_PID"
    and m: "to_pid m = pd"
  shows "\<exists>mq. call_msg_queue_rcv k c (fd_word g) True = Inr (1, Some m, put_queue k (qaddr g) mq) \<and>
    mail g (put_queue k (qaddr g) mq) who []"
proof -
  obtain ctx mq where q: "queue_fd k c (qfile g) ctx (qaddr g) mq" "pid ctx = pd" "members mq = who"
      "messages mq = [m]" "blocks mq = {}"
    using g by (rule attends_queue_fd)
  from queue_fdD(5) [OF q(1)] show ?thesis
  proof (cases rule: rcv_body_cases [of mq pd])
    case empty
    then show ?thesis using q(4) m by simp
  next
    case (got xs x ys mq')
    then have x: "x = m" "messages mq' = []" using q(4) by (auto simp: Cons_eq_append_conv)
    have "queue_inv mq'" using rcv_body_inv [OF queue_fdD(4) [OF q(1)] got(1)] .
    then have "mail g (put_queue k (qaddr g) mq') who []"
      using got(7,8) x(2) q(3,5) blocks_frame [of mq' mq] g(3) by (intro mail_put) (auto simp: mail_def)
    then show ?thesis
      unfolding call_msg_queue_rcv_def with_fd_def attends_fd [OF g(1,2)]
      using rcv_on [OF q(1)] got(1) q(2) x(1) by auto
  qed
qed

lemma send_call:
  assumes g: "valid_parties g" "attends g k c (from_pid m)" "mail g k who []" "from_pid m \<in> set who"
      "from_pid m \<noteq> BROADCAST_PID"
    and to: "to_pid m \<in> set who" "to_pid m \<noteq> from_pid m" "to_pid m \<noteq> BROADCAST_PID" "length who \<le> 2"
  shows "\<exists>mq. call_msg_queue_send k c (fd_word g) (Some m) = Inr (1, put_queue k (qaddr g) mq) \<and>
    mail g (put_queue k (qaddr g) mq) who [m]"
proof -
  obtain ctx mq where q: "queue_fd k c (qfile g) ctx (qaddr g) mq" "pid ctx = from_pid m" "members mq = who"
      "messages mq = []" "blocks mq = {}"
    using g by (rule attends_queue_fd)
  note inv = queue_fdD(4) [OF q(1)]
  obtain i where i: "i < length (members mq)" "members mq ! i = to_pid m"
    using to(1) q(3) by (auto simp: in_set_conv_nth)
  have "Suc i < MAX_MEMBERS" using i(1) to(4) q(3) by (simp add: k_const)
  from nobody_blocked [OF inv q(5) i(1) this g(5)]
  obtain mq' where mq': "unicast (from_pid m) m mq = Inr (1, mq')" "members mq' = members mq"
      "messages mq' = messages mq @ [m]" "blocks mq' = blocks mq"
    using unicast_delivers [OF queue_fdD(5) [OF q(1)] i] q(4) by (metis k_const(3) list.size(3) zero_less_numeral)
  have s: "send_body (from_pid m) m mq = Inr (1, mq')" using mq'(1) to(2,3) by (simp add: send_body_def)
  have "mail g (put_queue k (qaddr g) mq') who [m]"
    using mq' q(3-5) g(3) send_body_inv [OF inv s] by (intro mail_put) (auto simp: mail_def)
  then show ?thesis
    unfolding call_msg_queue_send_def with_fd_def attends_fd [OF g(1,2)] using send_on [OF q(1)] s q(2) by auto
qed


section \<open>Leaving\<close>

lemma upt_split: "i < n \<Longrightarrow> [0..<n] = [0..<i] @ i # [Suc i..<n]"
proof -
  assume "i < n"
  then obtain d where "n = i + Suc d" using less_iff_Suc_add by auto
  then show ?thesis using upt_add_eq_append [of 0 i "Suc d"] by (simp add: upt_conv_Cons)
qed

lemma cleanup_skip:
  assumes "ctxs k c = Some ctx" "\<forall>i \<in> set fds. i < MAX_OPEN_FILES \<and> other_file g k (files ctx ! i)"
  shows "cleanup_loop k c (fds @ rest) = cleanup_loop k c rest"
  using assms(2)
proof (induction fds)
  case (Cons i fds)
  then have "get_fd k c (int i) = Inr (files ctx ! i)" "other_file g k (files ctx ! i)"
    using assms(1) by simp_all
  then show ?case using Cons by (auto simp: with_queue_def other_file_def split: option.splits)
qed simp

lemma close_call:
  assumes g: "valid_parties g" "attends g k c pd" "mail g k who ms" "pd \<in> set who" "pd \<noteq> BROADCAST_PID"
  shows "\<exists>k'. do_msg_queue_close k c (int (qfd g)) = Inr (0, k')"
proof -
  obtain ctx mq where q: "queue_fd k c (qfile g) ctx (qaddr g) mq" "pid ctx = pd"
    using g by (rule attends_queue_fd)
  obtain f i where f: "fheap k (qfile g) = Some f" "msg_queue f = Some (qaddr g)"
      "find_member mq (pid ctx) = Inr (Some i)"
    using queue_fdD(2,8) [OF q(1)] by blast
  have fd: "get_fd k c (int (qfd g)) = Inr (Some (qfile g))"
    using attends_fd [OF g(1,2)] uint_fd [OF g(1)] by simp
  have s: "\<exists>k2. set_fd k1 c (int (qfd g)) None = Inr k2" if "ctxs k1 = ctxs k" for k1
    using that queue_fdD(1) [OF q(1)] g(1) by (simp add: set_fd_def ctx_at_def valid_parties_def)
  show ?thesis
    using queue_fdD(1,3) [OF q(1)] f fd s
    by (auto simp: do_msg_queue_close_def with_queue_def Let_def free_file_object_def bind_res_Inr split: if_splits)
qed

text \<open>The first process to exit leaves the other one behind, the last one takes the queue along.\<close>

lemma leave_call:
  assumes g: "valid_parties g" "attends g k c pd" "mail g k who ms" "pd \<in> set who" "pd \<noteq> BROADCAST_PID"
  shows "\<exists>k'. do_msg_queue_cleanup k c = Inr k' \<and> (\<forall>c'. c' \<noteq> c \<longrightarrow> ctxs k' c' = ctxs k c') \<and>
    (if who = [pd] then qheap k' (qaddr g) = None \<and> fheap k' (qfile g) = None
     else fheap k' = fheap k \<and> mail g k' (remove1 pd who) (filter (\<lambda>m. to_pid m \<noteq> pd) ms))"
proof -
  obtain k' where k': "do_msg_queue_close k c (int (qfd g)) = Inr (0, k')" using close_call [OF g] by blast
  obtain ctx mq where q: "queue_fd k c (qfile g) ctx (qaddr g) mq" "pid ctx = pd" "members mq = who"
      "messages mq = ms" "blocks mq = {}" "ctxs k c = Some ctx"
    using g by (rule attends_queue_fd)
  have ok: "queues_ok k" using g(3) by (simp add: mail_def)
  have fd: "get_fd k c (int (qfd g)) = Inr (Some (qfile g))" "qfd g < MAX_OPEN_FILES"
    using attends_fd [OF g(1,2)] uint_fd [OF g(1)] g(1) by (simp_all add: valid_parties_def)
  have others: "\<forall>i < MAX_OPEN_FILES. i \<noteq> qfd g \<longrightarrow> other_file g k (files ctx ! i)"
    using g(2) q(6) by (auto simp: attends_def)
  obtain ctx' p f qa mq' where c: "ctxs k c = Some ctx'" "get_fd k c (int (qfd g)) = Inr (Some p)"
      "fheap k p = Some f" "msg_queue f = Some qa" "qheap k qa = Some mq'"
      "ctxs k' = (ctxs k)(c \<mapsto> ctx'\<lparr>files := (files ctx')[nat (int (qfd g)) := None]\<rparr>)"
      "if members mq' = [pid ctx'] then qheap k' qa = None \<and> fheap k' = (fheap k)(p := None)
       else fheap k' = fheap k \<and> (\<exists>mq2. qheap k' qa = Some mq2 \<and> members mq2 = remove1 (pid ctx') (members mq') \<and>
         messages mq2 = filter (\<lambda>msg. to_pid msg \<noteq> pid ctx') (messages mq') \<and>
         blocks mq2 = {(a, b) \<in> blocks mq'. a \<noteq> pid ctx' \<and> b \<noteq> pid ctx'})"
    using close_abstract [OF ok k'] by blast
  have p: "ctx' = ctx" "p = qfile g" using c(1,2) q(6) fd(1) by simp_all
  have a: "qa = qaddr g" using g(2) c(3,4) p(2) by (auto simp: attends_def)
  then have mq': "mq' = mq" using c(5) queue_fdD(3) [OF q(1)] by simp
  have after: "other_file g k' (files ctx ! i)" if "i < MAX_OPEN_FILES" "i \<noteq> qfd g" for i
    using others that c(7) p(2) by (auto simp: other_file_def split: option.splits if_splits)
  have "cleanup_loop k c ([0..<qfd g] @ qfd g # [Suc (qfd g)..<MAX_OPEN_FILES]) =
      cleanup_loop k c (qfd g # [Suc (qfd g)..<MAX_OPEN_FILES])"
    using others fd(2) by (intro cleanup_skip [where g = g, OF q(6)]) auto
  also have "\<dots> = cleanup_loop k' c ([Suc (qfd g)..<MAX_OPEN_FILES] @ [])"
    using k' fd(1) c(3,4,5) p(2) a by (simp add: with_queue_def)
  also have "\<dots> = cleanup_loop k' c []"
    using after c(6) p(1) by (intro cleanup_skip [of k' c "ctx\<lparr>files := (files ctx)[qfd g := None]\<rparr>" _ g]) auto
  also have "[0..<qfd g] @ qfd g # [Suc (qfd g)..<MAX_OPEN_FILES] = [0..<MAX_OPEN_FILES]"
    by (rule upt_split [OF fd(2), symmetric])
  finally have clean: "do_msg_queue_cleanup k c = Inr k'" by (simp add: do_msg_queue_cleanup_def)
  have rest: "\<forall>c'. c' \<noteq> c \<longrightarrow> ctxs k' c' = ctxs k c'" using c(6) by simp
  have res: "if who = [pd] then qheap k' (qaddr g) = None \<and> fheap k' (qfile g) = None
     else fheap k' = fheap k \<and> mail g k' (remove1 pd who) (filter (\<lambda>m. to_pid m \<noteq> pd) ms)"
    using c(7) close_keeps [OF ok k'] unfolding p a mq' q(2-5) mail_def by auto
  show ?thesis using clean rest res by blast
qed


section \<open>The exchange\<close>

definition parent_msg :: "parties \<Rightarrow> string \<Rightarrow> message" where
  "parent_msg g t = \<lparr>from_pid = parent_pid g, to_pid = child_pid g, msg_txt = put_text ''MSG'' t\<rparr>"

definition ack :: "parties \<Rightarrow> string \<Rightarrow> message" where
  "ack g t = \<lparr>from_pid = child_pid g, to_pid = parent_pid g, msg_txt = put_text ''ACK'' (put_text ''MSG'' t)\<rparr>"

text \<open>
  Who is in the queue and what is in it, by the positions of the processes; the positions left out do
  not occur together.
\<close>

fun expected :: "parties \<Rightarrow> string \<Rightarrow> parent_pc \<Rightarrow> child_pc \<Rightarrow> (u32 list \<times> message list) option" where
  "expected g t P_info C_poll = Some ([parent_pid g, child_pid g], [])"
| "expected g t P_send C_poll = Some ([parent_pid g, child_pid g], [])"
| "expected g t P_poll C_poll = Some ([parent_pid g, child_pid g], [parent_msg g t])"
| "expected g t P_poll C_info = Some ([parent_pid g, child_pid g], [parent_msg g t])"
| "expected g t P_poll C_rcv = Some ([parent_pid g, child_pid g], [parent_msg g t])"
| "expected g t P_poll C_send = Some ([parent_pid g, child_pid g], [])"
| "expected g t P_poll C_exit = Some ([parent_pid g, child_pid g], [ack g t])"
| "expected g t P_rcv C_exit = Some ([parent_pid g, child_pid g], [ack g t])"
| "expected g t P_poll C_done = Some ([parent_pid g], [ack g t])"
| "expected g t P_rcv C_done = Some ([parent_pid g], [ack g t])"
| "expected g t P_exit C_exit = Some ([parent_pid g, child_pid g], [])"
| "expected g t P_exit C_done = Some ([parent_pid g], [])"
| "expected g t P_done C_exit = Some ([child_pid g], [])"
| "expected g t P_done C_done = Some ([], [])"
| "expected g t _ _ = None"

definition queue_gone :: "parties \<Rightarrow> kernel \<Rightarrow> bool" where
  "queue_gone g k \<longleftrightarrow> qheap k (qaddr g) = None \<and> fheap k (qfile g) = None"

text \<open>The kernel as far as the exchange goes, with the members and messages of the queue.\<close>

definition attended :: "parties \<Rightarrow> kernel \<Rightarrow> u32 list \<Rightarrow> message list \<Rightarrow> bool" where
  "attended g k who ms \<longleftrightarrow>
     (parent_pid g \<in> set who \<longrightarrow> attends g k (pslot g) (parent_pid g)) \<and>
     (child_pid g \<in> set who \<longrightarrow> attends g k (cslot g) (child_pid g)) \<and>
     (if who = [] then queue_gone g k else mail g k who ms)"

text \<open>The local variables: the text before the first message is \<open>t\<close>, the output so far \<open>out\<close>.\<close>

definition locals_ok :: "parties \<Rightarrow> string \<Rightarrow> string \<Rightarrow> exchange \<Rightarrow> bool" where
  "locals_ok g t out s \<longleftrightarrow>
     (ppc s = P_info \<or> ppc s = P_send \<longrightarrow> msg_txt (pmsg s) = t) \<and>
     (ppc s = P_exit \<or> ppc s = P_done \<longrightarrow> pmsg s = ack g t) \<and>
     (cpc s = C_send \<longrightarrow> cmsg s = parent_msg g t) \<and>
     printed s = (if ppc s = P_info then out else out @ ''Members after fork: 2'' @ newline)"

definition exchange_inv :: "parties \<Rightarrow> string \<Rightarrow> string \<Rightarrow> exchange \<Rightarrow> bool" where
  "exchange_inv g t out s \<longleftrightarrow> locals_ok g t out s \<and>
     (\<exists>who ms. expected g t (ppc s) (cpc s) = Some (who, ms) \<and> attended g (xk s) who ms)"

text \<open>Every call that is not a poll in vain brings the exchange forward.\<close>

fun parent_todo :: "parent_pc \<Rightarrow> nat" where
  "parent_todo P_info = 5" | "parent_todo P_send = 4" | "parent_todo P_poll = 3"
| "parent_todo P_rcv = 2" | "parent_todo P_exit = 1" | "parent_todo P_done = 0"

fun child_todo :: "child_pc \<Rightarrow> nat" where
  "child_todo C_poll = 5" | "child_todo C_info = 4" | "child_todo C_rcv = 3"
| "child_todo C_send = 2" | "child_todo C_exit = 1" | "child_todo C_done = 0"

definition todo :: "exchange \<Rightarrow> nat" where
  "todo s = parent_todo (ppc s) + child_todo (cpc s)"

lemma expected_cases:
  assumes "expected g t p c = Some (who, ms)"
  obtains "p = P_info \<or> p = P_send" "c = C_poll" "who = [parent_pid g, child_pid g]" "ms = []"
  | "p = P_poll" "c = C_poll \<or> c = C_info \<or> c = C_rcv" "who = [parent_pid g, child_pid g]" "ms = [parent_msg g t]"
  | "p = P_poll" "c = C_send" "who = [parent_pid g, child_pid g]" "ms = []"
  | "p = P_poll \<or> p = P_rcv" "c = C_exit" "who = [parent_pid g, child_pid g]" "ms = [ack g t]"
  | "p = P_poll \<or> p = P_rcv" "c = C_done" "who = [parent_pid g]" "ms = [ack g t]"
  | "p = P_exit" "c = C_exit" "who = [parent_pid g, child_pid g]" "ms = []"
  | "p = P_exit" "c = C_done" "who = [parent_pid g]" "ms = []"
  | "p = P_done" "c = C_exit" "who = [child_pid g]" "ms = []"
  | "p = P_done" "c = C_done" "who = []" "ms = []"
  using assms by (cases p; cases c) auto

lemma attendedD:
  assumes "attended g k who ms"
  shows "parent_pid g \<in> set who \<Longrightarrow> attends g k (pslot g) (parent_pid g)"
    "child_pid g \<in> set who \<Longrightarrow> attends g k (cslot g) (child_pid g)"
    "who \<noteq> [] \<Longrightarrow> mail g k who ms" "who = [] \<Longrightarrow> queue_gone g k"
  using assms by (auto simp: attended_def)

lemma attended_put:
  assumes "attended g k who ms" "who \<noteq> []" "mail g (put_queue k (qaddr g) mq) who ms'"
  shows "attended g (put_queue k (qaddr g) mq) who ms'"
  using assms attends_cong [of "put_queue k (qaddr g) mq" k] by (auto simp: attended_def)

lemma attended_leave:
  assumes g: "valid_parties g" and a: "attended g k who ms" "distinct who" "set who \<subseteq> {parent_pid g, child_pid g}"
    and who: "pd \<in> set who" and pd: "(pd, c) = (parent_pid g, pslot g) \<or> (pd, c) = (child_pid g, cslot g)"
  shows "\<exists>k'. do_msg_queue_cleanup k c = Inr k' \<and>
    attended g k' (remove1 pd who) (filter (\<lambda>m. to_pid m \<noteq> pd) ms)"
proof -
  have at: "attends g k c pd" "mail g k who ms" "pd \<noteq> BROADCAST_PID"
    using attendedD(1,2) [OF a(1)] attendedD(3) [OF a(1)] who pd g by (cases who; auto simp: valid_parties_def)+
  obtain k' where k': "do_msg_queue_cleanup k c = Inr k'" "\<forall>c'. c' \<noteq> c \<longrightarrow> ctxs k' c' = ctxs k c'"
      "if who = [pd] then qheap k' (qaddr g) = None \<and> fheap k' (qfile g) = None
       else fheap k' = fheap k \<and> mail g k' (remove1 pd who) (filter (\<lambda>m. to_pid m \<noteq> pd) ms)"
    using leave_call [OF g at(1,2) who at(3)] by blast
  have "attended g k' (remove1 pd who) (filter (\<lambda>m. to_pid m \<noteq> pd) ms)"
  proof (cases "who = [pd]")
    case True
    then show ?thesis using k'(3) by (simp add: attended_def queue_gone_def)
  next
    case False
    have ne: "remove1 pd who \<noteq> []"
      using False a(2) who by (metis in_set_remove1 list.exhaust list.set_intros list.simps(15) remove1.simps(2)
          insertE list.set(1) empty_iff)
    have keep: "attends g k' c' pd'" if "attends g k c' pd'" "c' \<noteq> c" for c' pd'
      using that k'(2,3) False attends_cong [of k' k c' g pd'] by simp
    have "pd \<notin> set (remove1 pd who)" using a(2) by simp
    then show ?thesis
      using k'(3) False ne pd g keep attendedD(1,2) [OF a(1)] a(2)
      by (auto simp: attended_def valid_parties_def)
  qed
  then show ?thesis using k'(1) by blast
qed


section \<open>A step keeps the exchange on its way\<close>

lemma members_text:
  "vuprintf (''Members after fork: %d'' @ newline) [Int_arg 2] = Inr (''Members after fork: 2'' @ newline)"
  "vuprintf (''Members before fork: %d'' @ newline) [Int_arg 1] = Inr (''Members before fork: 1'' @ newline)"
  by code_simp+

lemma pids_differ: "valid_parties g \<Longrightarrow> parent_pid g \<noteq> child_pid g" "valid_parties g \<Longrightarrow> child_pid g \<noteq> parent_pid g"
  by (auto simp: valid_parties_def)

lemma msg_fields [simp]:
  "from_pid (parent_msg g t) = parent_pid g" "to_pid (parent_msg g t) = child_pid g"
  "msg_txt (parent_msg g t) = put_text ''MSG'' t" "from_pid (ack g t) = child_pid g" "to_pid (ack g t) = parent_pid g"
  by (simp_all add: parent_msg_def ack_def)

lemma attended_both:
  assumes "valid_parties g" "attended g k [parent_pid g, child_pid g] ms"
  shows "attends g k (pslot g) (parent_pid g)" "attends g k (cslot g) (child_pid g)"
    "mail g k [parent_pid g, child_pid g] ms"
  using attendedD [OF assms(2)] by simp_all

lemma attends_pid: "attends g k c pd \<Longrightarrow> \<exists>ctx. ctx_at k c = Inr ctx \<and> pid ctx = pd"
  by (auto simp: attends_def)

text \<open>A process is idle at its end and while it polls before the message it waits for is sent.\<close>

definition parent_idle :: "exchange \<Rightarrow> bool" where
  "parent_idle s \<longleftrightarrow> ppc s = P_done \<or> ppc s = P_poll \<and> cpc s \<noteq> C_exit \<and> cpc s \<noteq> C_done"

definition child_idle :: "exchange \<Rightarrow> bool" where
  "child_idle s \<longleftrightarrow> cpc s = C_done \<or> cpc s = C_poll \<and> (ppc s = P_info \<or> ppc s = P_send)"

definition keeps :: "parties \<Rightarrow> string \<Rightarrow> string \<Rightarrow> exchange \<Rightarrow> bool \<Rightarrow> exchange res \<Rightarrow> bool" where
  "keeps g t out s idle r \<longleftrightarrow>
     (\<exists>s'. r = Inr s' \<and> exchange_inv g t out s' \<and> (todo s' < todo s \<or> idle \<and> s' = s))"

lemma keepsI:
  "r = Inr s' \<Longrightarrow> exchange_inv g t out s' \<Longrightarrow> todo s' < todo s \<or> idle \<and> s' = s \<Longrightarrow> keeps g t out s idle r"
  by (auto simp: keeps_def)

lemma exchange_invI:
  "locals_ok g t out s \<Longrightarrow> expected g t (ppc s) (cpc s) = Some (who, ms) \<Longrightarrow> attended g (xk s) who ms \<Longrightarrow>
   exchange_inv g t out s"
  by (auto simp: exchange_inv_def)

lemma no_broadcast: "valid_parties g \<Longrightarrow> parent_pid g \<noteq> BROADCAST_PID" "valid_parties g \<Longrightarrow> child_pid g \<noteq> BROADCAST_PID"
  by (simp_all add: valid_parties_def)

lemma parent_info_keeps:
  assumes g: "valid_parties g" and inv: "exchange_inv g t out s" and p: "ppc s = P_info"
  shows "keeps g t out s (parent_idle s) (parent_step (pslot g) (fd_word g) (uint (child_pid g)) s)"
proof -
  obtain who ms where e: "expected g t (ppc s) (cpc s) = Some (who, ms)" "attended g (xk s) who ms" "locals_ok g t out s"
    using inv by (auto simp: exchange_inv_def)
  from e(1) have c: "cpc s = C_poll" "who = [parent_pid g, child_pid g]" "ms = []"
    using p by (cases rule: expected_cases; simp)+
  note at = attended_both [OF g e(2) [unfolded c(2,3)]]
  obtain pids where i: "do_get_member_info (xk s) (pslot g) (fd_word g) = Inr (0, Some (2, pids), xk s)"
    using info_call [OF g at(1,3)] by auto
  show ?thesis
  proof (rule keepsI)
    show "parent_step (pslot g) (fd_word g) (uint (child_pid g)) s =
        Inr (s\<lparr>pinfo := 2, printed := printed s @ ''Members after fork: 2'' @ newline, ppc := P_send\<rparr>)"
      using members_text(1) by (simp add: parent_step_def p i seen_members_def del: vuprintf.simps append.simps)
    show "exchange_inv g t out (s\<lparr>pinfo := 2, printed := printed s @ ''Members after fork: 2'' @ newline, ppc := P_send\<rparr>)"
      using e c p by (intro exchange_invI [where who = who and ms = ms]) (simp_all add: locals_ok_def)
  qed (simp add: todo_def p)
qed


lemma parent_send_keeps:
  assumes g: "valid_parties g" and inv: "exchange_inv g t out s" and p: "ppc s = P_send"
  shows "keeps g t out s (parent_idle s) (parent_step (pslot g) (fd_word g) (uint (child_pid g)) s)"
proof -
  obtain who ms where e: "expected g t (ppc s) (cpc s) = Some (who, ms)" "attended g (xk s) who ms" "locals_ok g t out s"
    using inv by (auto simp: exchange_inv_def)
  from e(1) have c: "cpc s = C_poll" "who = [parent_pid g, child_pid g]" "ms = []"
    using p by (cases rule: expected_cases; simp)+
  note at = attended_both [OF g e(2) [unfolded c(2,3)]]
  obtain ctx where ctx: "ctx_at (xk s) (pslot g) = Inr ctx" "pid ctx = parent_pid g"
    using attends_pid [OF at(1)] by blast
  obtain mq where sent: "call_msg_queue_send (xk s) (pslot g) (fd_word g) (Some (parent_msg g t)) =
        Inr (1, put_queue (xk s) (qaddr g) mq)"
      "mail g (put_queue (xk s) (qaddr g) mq) who [parent_msg g t]"
    using send_call [OF g _ at(3), of "pslot g" "parent_msg g t"] at(1) c(2) no_broadcast [OF g] pids_differ [OF g] by auto
  have msg: "\<lparr>from_pid = pid ctx, to_pid = word_of_int (uint (child_pid g)), msg_txt = put_text ''MSG'' (msg_txt (pmsg s))\<rparr> =
      parent_msg g t"
    using ctx(2) e(3) p by (simp add: parent_msg_def locals_ok_def)
  show ?thesis
  proof (rule keepsI)
    show "parent_step (pslot g) (fd_word g) (uint (child_pid g)) s =
        Inr (s\<lparr>xk := put_queue (xk s) (qaddr g) mq, pmsg := parent_msg g t, ppc := P_poll\<rparr>)"
      unfolding parent_step_def p parent_pc.case ctx(1) bind_res_simps Let_def msg sent(1) by simp
    show "exchange_inv g t out (s\<lparr>xk := put_queue (xk s) (qaddr g) mq, pmsg := parent_msg g t, ppc := P_poll\<rparr>)"
      using e c p attended_put [OF e(2) _ sent(2)]
      by (intro exchange_invI [where who = who and ms = "[parent_msg g t]"]) (simp_all add: locals_ok_def)
  qed (simp add: todo_def p)
qed

lemma parent_poll_keeps:
  assumes g: "valid_parties g" and inv: "exchange_inv g t out s" and p: "ppc s = P_poll"
  shows "keeps g t out s (parent_idle s) (parent_step (pslot g) (fd_word g) (uint (child_pid g)) s)"
proof -
  obtain who ms where e: "expected g t (ppc s) (cpc s) = Some (who, ms)" "attended g (xk s) who ms" "locals_ok g t out s"
    using inv by (auto simp: exchange_inv_def)
  have w: "parent_pid g \<in> set who" "who \<noteq> []"
    using e(1) p by (cases rule: expected_cases; simp)+
  have count: "call_get_msg_count (xk s) (pslot g) (fd_word g) = Inr (int (length (addressed (parent_pid g) ms)), xk s)"
    using count_call [OF g attendedD(1) [OF e(2) w(1)] attendedD(3) [OF e(2) w(2)] w(1) no_broadcast(1) [OF g]] .
  show ?thesis
  proof (cases "addressed (parent_pid g) ms = []")
    case True
    have "parent_idle s"
      using e(1) p True by (cases rule: expected_cases) (auto simp: addressed_def parent_idle_def)
    then show ?thesis
      using True inv count p by (intro keepsI [of _ s]) (simp_all add: parent_step_def)
  next
    case False
    have more: "expected g t P_rcv (cpc s) = Some (who, ms)"
      using e(1) p False pids_differ [OF g] by (cases rule: expected_cases) (auto simp: addressed_def)
    show ?thesis
    proof (rule keepsI)
      show "parent_step (pslot g) (fd_word g) (uint (child_pid g)) s = Inr (s\<lparr>ppc := P_rcv\<rparr>)"
        using count p False by (simp add: parent_step_def)
      show "exchange_inv g t out (s\<lparr>ppc := P_rcv\<rparr>)"
        using e p more by (intro exchange_invI [where who = who and ms = ms]) (simp_all add: locals_ok_def)
    qed (simp add: todo_def p)
  qed
qed

lemma parent_rcv_keeps:
  assumes g: "valid_parties g" and inv: "exchange_inv g t out s" and p: "ppc s = P_rcv"
  shows "keeps g t out s (parent_idle s) (parent_step (pslot g) (fd_word g) (uint (child_pid g)) s)"
proof -
  obtain who ms where e: "expected g t (ppc s) (cpc s) = Some (who, ms)" "attended g (xk s) who ms" "locals_ok g t out s"
    using inv by (auto simp: exchange_inv_def)
  have w: "parent_pid g \<in> set who" "who \<noteq> []" "ms = [ack g t]" "expected g t P_exit (cpc s) = Some (who, [])"
    using e(1) p by (cases rule: expected_cases; auto)+
  have "mail g (xk s) who [ack g t]" using attendedD(3) [OF e(2) w(2)] w(3) by simp
  then obtain mq where rcv: "call_msg_queue_rcv (xk s) (pslot g) (fd_word g) True =
        Inr (1, Some (ack g t), put_queue (xk s) (qaddr g) mq)"
      "mail g (put_queue (xk s) (qaddr g) mq) who []"
    using rcv_call [OF g attendedD(1) [OF e(2) w(1)] _ w(1) no_broadcast(1) [OF g]] by fastforce
  show ?thesis
  proof (rule keepsI)
    show "parent_step (pslot g) (fd_word g) (uint (child_pid g)) s =
        Inr (s\<lparr>xk := put_queue (xk s) (qaddr g) mq, pmsg := ack g t, ppc := P_exit\<rparr>)"
      using rcv(1) by (simp add: parent_step_def p)
    show "exchange_inv g t out (s\<lparr>xk := put_queue (xk s) (qaddr g) mq, pmsg := ack g t, ppc := P_exit\<rparr>)"
      using e p w(4) attended_put [OF e(2) w(2) rcv(2)]
      by (intro exchange_invI [where who = who and ms = "[]"]) (simp_all add: locals_ok_def)
  qed (simp add: todo_def p)
qed

lemma parent_exit_keeps:
  assumes g: "valid_parties g" and inv: "exchange_inv g t out s" and p: "ppc s = P_exit"
  shows "keeps g t out s (parent_idle s) (parent_step (pslot g) (fd_word g) (uint (child_pid g)) s)"
proof -
  obtain who ms where e: "expected g t (ppc s) (cpc s) = Some (who, ms)" "attended g (xk s) who ms" "locals_ok g t out s"
    using inv by (auto simp: exchange_inv_def)
  have w: "parent_pid g \<in> set who" "ms = []" "distinct who" "set who \<subseteq> {parent_pid g, child_pid g}"
      "expected g t P_done (cpc s) = Some (remove1 (parent_pid g) who, [])"
    using e(1) p pids_differ [OF g] by (cases rule: expected_cases; auto)+
  obtain k' where k': "do_msg_queue_cleanup (xk s) (pslot g) = Inr k'" "attended g k' (remove1 (parent_pid g) who) []"
    using attended_leave [OF g e(2) w(3,4,1), of "pslot g"] w(2) by auto
  show ?thesis
  proof (rule keepsI)
    show "parent_step (pslot g) (fd_word g) (uint (child_pid g)) s = Inr (s\<lparr>xk := k', ppc := P_done\<rparr>)"
      using k'(1) by (simp add: parent_step_def p)
    show "exchange_inv g t out (s\<lparr>xk := k', ppc := P_done\<rparr>)"
      using e p w(5) k'(2) by (intro exchange_invI [where who = "remove1 (parent_pid g) who" and ms = "[]"])
        (simp_all add: locals_ok_def)
  qed (simp add: todo_def p)
qed

lemma parent_keeps:
  assumes "valid_parties g" "exchange_inv g t out s"
  shows "keeps g t out s (parent_idle s) (parent_step (pslot g) (fd_word g) (uint (child_pid g)) s)"
proof (cases "ppc s")
  case P_done
  then show ?thesis using assms(2) by (intro keepsI [of _ s]) (simp_all add: parent_step_def parent_idle_def)
qed (simp_all add: assms parent_info_keeps parent_send_keeps parent_poll_keeps parent_rcv_keeps parent_exit_keeps)


lemma child_poll_keeps:
  assumes g: "valid_parties g" and inv: "exchange_inv g t out s" and p: "cpc s = C_poll"
  shows "keeps g t out s (child_idle s) (child_step (cslot g) (fd_word g) s)"
proof -
  obtain who ms where e: "expected g t (ppc s) (cpc s) = Some (who, ms)" "attended g (xk s) who ms" "locals_ok g t out s"
    using inv by (auto simp: exchange_inv_def)
  have w: "child_pid g \<in> set who" "who \<noteq> []"
    using e(1) p by (cases rule: expected_cases; simp)+
  have count: "call_get_msg_count (xk s) (cslot g) (fd_word g) = Inr (int (length (addressed (child_pid g) ms)), xk s)"
    using count_call [OF g attendedD(2) [OF e(2) w(1)] attendedD(3) [OF e(2) w(2)] w(1) no_broadcast(2) [OF g]] .
  show ?thesis
  proof (cases "addressed (child_pid g) ms = []")
    case True
    have "child_idle s"
      using e(1) p True by (cases rule: expected_cases) (auto simp: addressed_def child_idle_def)
    then show ?thesis
      using True inv count p by (intro keepsI [of _ s]) (simp_all add: child_step_def)
  next
    case False
    have more: "expected g t (ppc s) C_info = Some (who, ms)"
      using e(1) p False by (cases rule: expected_cases) (auto simp: addressed_def)
    show ?thesis
    proof (rule keepsI)
      show "child_step (cslot g) (fd_word g) s = Inr (s\<lparr>cpc := C_info\<rparr>)"
        using count p False by (simp add: child_step_def)
      show "exchange_inv g t out (s\<lparr>cpc := C_info\<rparr>)"
        using e p more by (intro exchange_invI [where who = who and ms = ms]) (simp_all add: locals_ok_def)
    qed (simp add: todo_def p)
  qed
qed

lemma child_info_keeps:
  assumes g: "valid_parties g" and inv: "exchange_inv g t out s" and p: "cpc s = C_info"
  shows "keeps g t out s (child_idle s) (child_step (cslot g) (fd_word g) s)"
proof -
  obtain who ms where e: "expected g t (ppc s) (cpc s) = Some (who, ms)" "attended g (xk s) who ms" "locals_ok g t out s"
    using inv by (auto simp: exchange_inv_def)
  have w: "child_pid g \<in> set who" "who \<noteq> []" "expected g t (ppc s) C_rcv = Some (who, ms)"
    using e(1) p by (cases rule: expected_cases; auto)+
  obtain pids where i: "do_get_member_info (xk s) (cslot g) (fd_word g) = Inr (0, Some (of_nat (length who), pids), xk s)"
    using info_call [OF g attendedD(2) [OF e(2) w(1)] attendedD(3) [OF e(2) w(2)]] by blast
  show ?thesis
  proof (rule keepsI)
    show "child_step (cslot g) (fd_word g) s = Inr (s\<lparr>cinfo := of_nat (length who), cpc := C_rcv\<rparr>)"
      by (simp add: child_step_def p i seen_members_def)
    show "exchange_inv g t out (s\<lparr>cinfo := of_nat (length who), cpc := C_rcv\<rparr>)"
      using e p w by (intro exchange_invI [where who = who and ms = ms]) (simp_all add: locals_ok_def)
  qed (simp add: todo_def p)
qed

lemma child_rcv_keeps:
  assumes g: "valid_parties g" and inv: "exchange_inv g t out s" and p: "cpc s = C_rcv"
  shows "keeps g t out s (child_idle s) (child_step (cslot g) (fd_word g) s)"
proof -
  obtain who ms where e: "expected g t (ppc s) (cpc s) = Some (who, ms)" "attended g (xk s) who ms" "locals_ok g t out s"
    using inv by (auto simp: exchange_inv_def)
  have w: "child_pid g \<in> set who" "who \<noteq> []" "ms = [parent_msg g t]" "expected g t (ppc s) C_send = Some (who, [])"
    using e(1) p by (cases rule: expected_cases; auto)+
  have "mail g (xk s) who [parent_msg g t]" using attendedD(3) [OF e(2) w(2)] w(3) by simp
  then obtain mq where rcv: "call_msg_queue_rcv (xk s) (cslot g) (fd_word g) True =
        Inr (1, Some (parent_msg g t), put_queue (xk s) (qaddr g) mq)"
      "mail g (put_queue (xk s) (qaddr g) mq) who []"
    using rcv_call [OF g attendedD(2) [OF e(2) w(1)] _ w(1) no_broadcast(2) [OF g]] by fastforce
  show ?thesis
  proof (rule keepsI)
    show "child_step (cslot g) (fd_word g) s =
        Inr (s\<lparr>xk := put_queue (xk s) (qaddr g) mq, cmsg := parent_msg g t, cpc := C_send\<rparr>)"
      using rcv(1) by (simp add: child_step_def p)
    show "exchange_inv g t out (s\<lparr>xk := put_queue (xk s) (qaddr g) mq, cmsg := parent_msg g t, cpc := C_send\<rparr>)"
      using e p w(4) attended_put [OF e(2) w(2) rcv(2)]
      by (intro exchange_invI [where who = who and ms = "[]"]) (simp_all add: locals_ok_def)
  qed (simp add: todo_def p)
qed

lemma child_send_keeps:
  assumes g: "valid_parties g" and inv: "exchange_inv g t out s" and p: "cpc s = C_send"
  shows "keeps g t out s (child_idle s) (child_step (cslot g) (fd_word g) s)"
proof -
  obtain who ms where e: "expected g t (ppc s) (cpc s) = Some (who, ms)" "attended g (xk s) who ms" "locals_ok g t out s"
    using inv by (auto simp: exchange_inv_def)
  from e(1) have c: "ppc s = P_poll" "who = [parent_pid g, child_pid g]" "ms = []"
    using p by (cases rule: expected_cases; simp)+
  note at = attended_both [OF g e(2) [unfolded c(2,3)]]
  obtain ctx where ctx: "ctx_at (xk s) (cslot g) = Inr ctx" "pid ctx = child_pid g"
    using attends_pid [OF at(2)] by blast
  obtain mq where sent: "call_msg_queue_send (xk s) (cslot g) (fd_word g) (Some (ack g t)) =
        Inr (1, put_queue (xk s) (qaddr g) mq)"
      "mail g (put_queue (xk s) (qaddr g) mq) who [ack g t]"
    using send_call [OF g _ at(3), of "cslot g" "ack g t"] at(2) c(2) no_broadcast [OF g] pids_differ [OF g] by auto
  have msg: "\<lparr>from_pid = pid ctx, to_pid = from_pid (cmsg s), msg_txt = put_text ''ACK'' (msg_txt (cmsg s))\<rparr> = ack g t"
    using ctx(2) e(3) p by (simp add: ack_def locals_ok_def)
  show ?thesis
  proof (rule keepsI)
    show "child_step (cslot g) (fd_word g) s = Inr (s\<lparr>xk := put_queue (xk s) (qaddr g) mq, cmsg := ack g t, cpc := C_exit\<rparr>)"
      unfolding child_step_def p child_pc.case ctx(1) bind_res_simps Let_def msg sent(1) by simp
    show "exchange_inv g t out (s\<lparr>xk := put_queue (xk s) (qaddr g) mq, cmsg := ack g t, cpc := C_exit\<rparr>)"
      using e c p attended_put [OF e(2) _ sent(2)]
      by (intro exchange_invI [where who = who and ms = "[ack g t]"]) (simp_all add: locals_ok_def)
  qed (simp add: todo_def p)
qed

lemma child_exit_keeps:
  assumes g: "valid_parties g" and inv: "exchange_inv g t out s" and p: "cpc s = C_exit"
  shows "keeps g t out s (child_idle s) (child_step (cslot g) (fd_word g) s)"
proof -
  obtain who ms where e: "expected g t (ppc s) (cpc s) = Some (who, ms)" "attended g (xk s) who ms" "locals_ok g t out s"
    using inv by (auto simp: exchange_inv_def)
  have w: "child_pid g \<in> set who" "filter (\<lambda>m. to_pid m \<noteq> child_pid g) ms = ms" "distinct who"
      "set who \<subseteq> {parent_pid g, child_pid g}" "expected g t (ppc s) C_done = Some (remove1 (child_pid g) who, ms)"
    using e(1) p pids_differ [OF g] by (cases rule: expected_cases; auto)+
  obtain k' where k': "do_msg_queue_cleanup (xk s) (cslot g) = Inr k'" "attended g k' (remove1 (child_pid g) who) ms"
    using attended_leave [OF g e(2) w(3,4,1), of "cslot g"] w(2) by auto
  show ?thesis
  proof (rule keepsI)
    show "child_step (cslot g) (fd_word g) s = Inr (s\<lparr>xk := k', cpc := C_done\<rparr>)"
      using k'(1) by (simp add: child_step_def p)
    show "exchange_inv g t out (s\<lparr>xk := k', cpc := C_done\<rparr>)"
      using e p w(5) k'(2) by (intro exchange_invI [where who = "remove1 (child_pid g) who" and ms = ms])
        (simp_all add: locals_ok_def)
  qed (simp add: todo_def p)
qed

lemma child_keeps:
  assumes "valid_parties g" "exchange_inv g t out s"
  shows "keeps g t out s (child_idle s) (child_step (cslot g) (fd_word g) s)"
proof (cases "cpc s")
  case C_done
  then show ?thesis using assms(2) by (intro keepsI [of _ s]) (simp_all add: child_step_def child_idle_def)
qed (simp_all add: assms child_poll_keeps child_info_keeps child_rcv_keeps child_send_keeps child_exit_keeps)

section \<open>Runs\<close>

definition exchange_step :: "parties \<Rightarrow> exchange \<Rightarrow> exchange \<Rightarrow> bool" where
  "exchange_step g = init_step (pslot g) (cslot g) (fd_word g) (uint (child_pid g))"

lemma step_keeps:
  "exchange_step g s s' \<Longrightarrow> valid_parties g \<Longrightarrow> exchange_inv g t out s \<Longrightarrow> exchange_inv g t out s'"
  using parent_keeps [of g t out s] child_keeps [of g t out s]
  by (auto simp: exchange_step_def keeps_def elim!: init_step.cases)

lemma run_keeps:
  "(exchange_step g)\<^sup>*\<^sup>* s s' \<Longrightarrow> valid_parties g \<Longrightarrow> exchange_inv g t out s \<Longrightarrow> exchange_inv g t out s'"
  by (induction rule: rtranclp_induct) (blast intro: step_keeps)+

lemma exchange_forward:
  assumes g: "valid_parties g" and inv: "exchange_inv g t out s" and more: "todo s \<noteq> 0"
  shows "\<exists>s'. exchange_step g s s' \<and> todo s' < todo s"
proof -
  obtain who ms where "expected g t (ppc s) (cpc s) = Some (who, ms)" using inv by (auto simp: exchange_inv_def)
  then have "\<not> parent_idle s \<or> \<not> child_idle s"
    by (cases rule: expected_cases) (use more in \<open>auto simp: parent_idle_def child_idle_def todo_def\<close>)
  then show ?thesis
  proof
    assume idle: "\<not> parent_idle s"
    then obtain s' where "parent_step (pslot g) (fd_word g) (uint (child_pid g)) s = Inr s'" "todo s' < todo s"
      using parent_keeps [OF g inv] by (auto simp: keeps_def)
    moreover have "ppc s \<noteq> P_done" using idle by (auto simp: parent_idle_def)
    ultimately show ?thesis by (auto simp: exchange_step_def intro: init_step.parent)
  next
    assume idle: "\<not> child_idle s"
    then obtain s' where "child_step (cslot g) (fd_word g) s = Inr s'" "todo s' < todo s"
      using child_keeps [OF g inv] by (auto simp: keeps_def)
    moreover have "cpc s \<noteq> C_done" using idle by (auto simp: child_idle_def)
    ultimately show ?thesis by (auto simp: exchange_step_def intro: init_step.child)
  qed
qed

lemma exchange_finishes:
  assumes g: "valid_parties g" and inv: "exchange_inv g t out s"
  shows "\<exists>s'. (exchange_step g)\<^sup>*\<^sup>* s s' \<and> todo s' = 0"
  using inv
proof (induction "todo s" arbitrary: s rule: less_induct)
  case less
  show ?case
  proof (cases "todo s = 0")
    case False
    then obtain s1 where s1: "exchange_step g s s1" "todo s1 < todo s" using exchange_forward [OF g less.prems] by blast
    then obtain s' where "(exchange_step g)\<^sup>*\<^sup>* s1 s'" "todo s' = 0"
      using less.hyps step_keeps [OF s1(1) g less.prems] by blast
    then show ?thesis using s1(1) by (blast intro: converse_rtranclp_into_rtranclp)
  qed blast
qed

lemma todo_0: "todo s = 0 \<longleftrightarrow> ppc s = P_done \<and> cpc s = C_done"
  by (cases "ppc s"; cases "cpc s") (simp_all add: todo_def)

section \<open>Creating the queue and the child\<close>

text \<open>
  What the start needs: a free descriptor, no queue open yet, pages from the allocators, a fresh slot
  and pid for the child, and functions outside \<^verbatim>\<open>src/\<close> that leave the tables alone when they copy the
  address space.
\<close>

definition same_tables :: "kernel \<Rightarrow> kernel \<Rightarrow> bool" where
  "same_tables k k' \<longleftrightarrow> ctxs k' = ctxs k \<and> fheap k' = fheap k \<and> qheap k' = qheap k"

definition can_start :: "parties \<Rightarrow> env \<Rightarrow> kernel \<Rightarrow> bool" where
  "can_start g e k \<longleftrightarrow> valid_parties g \<and> queues_ok k \<and> 0 < uint (child_pid g) \<and>
     (\<exists>ctx. ctxs k (pslot g) = Some ctx \<and> pid ctx = parent_pid g \<and> length (files ctx) = MAX_OPEN_FILES \<and>
        free_fd ctx = Some (qfd g) \<and> (\<forall>i < MAX_OPEN_FILES. other_file g k (files ctx ! i))) \<and>
     fst (file_page e k) = qfile g \<and> fst (queue_page e k) = Some (qaddr g) \<and>
     length (member_pid (snd (queue_page e k))) = MAX_MEMBERS \<and>
     length (msg_buffer (snd (queue_page e k))) = MAX_MESSAGES \<and>
     length (block_process (snd (queue_page e k))) = MAX_MEMBERS * MAX_MEMBERS + 3 \<and>
     (\<forall>k. get_new_ctx e k = (cslot g, child_pid g)) \<and>
     (\<forall>k. same_tables k (copy_mm e (cslot g) (pslot g) k)) \<and> (\<forall>k. same_tables k (setup_child_context e (cslot g) k))"

lemma create_call:
  assumes st: "can_start g e k"
  obtains k1 where "do_create_msg_queue (fst (queue_page e k)) (snd (queue_page e k)) (fst (file_page e k))
      (snd (file_page e k)) k (pslot g) = Inr (int (qfd g), k1)"
    "attends g k1 (pslot g) (parent_pid g)" "mail g k1 [parent_pid g] []"
    "\<exists>ctx. ctxs k1 (pslot g) = Some ctx \<and> length (files ctx) = MAX_OPEN_FILES"
proof -
  obtain ctx where ctx: "ctxs k (pslot g) = Some ctx" "pid ctx = parent_pid g" "length (files ctx) = MAX_OPEN_FILES"
      "free_fd ctx = Some (qfd g)" "\<forall>i < MAX_OPEN_FILES. other_file g k (files ctx ! i)"
    using st by (auto simp: can_start_def)
  obtain page qpage where pages: "file_page e k = (qfile g, page)" "queue_page e k = (Some (qaddr g), qpage)"
    using st by (cases "file_page e k"; cases "queue_page e k") (auto simp: can_start_def)
  have q: "length (member_pid qpage) = MAX_MEMBERS" "length (msg_buffer qpage) = MAX_MESSAGES"
      "length (block_process qpage) = MAX_MEMBERS * MAX_MEMBERS + 3" "queues_ok k" "qfd g < MAX_OPEN_FILES"
    using st pages by (auto simp: can_start_def valid_parties_def)
  obtain r k1 where eq: "do_create_msg_queue (Some (qaddr g)) qpage (qfile g) page k (pslot g) = Inr (r, k1)"
    using ctx(1,4) q(5) by (auto simp: do_create_msg_queue_def Let_def set_fd_def ctx_at_def alloc_file_def bind_res_Inr)
  show ?thesis
  proof (cases rule: create_cases [OF eq])
    case 1
    then show ?thesis using eq ctx(1,4) q(5)
      by (simp add: do_create_msg_queue_def Let_def set_fd_def ctx_at_def alloc_file_def ENOMEM_def)
  next
    case (2 ctx' qa fd)
    have same: "ctx' = ctx" "qa = qaddr g" "fd = qfd g" using 2(1,2,4) ctx by simp_all
    note after = 2(5-8) [unfolded same]
    have "attends g k1 (pslot g) (parent_pid g)"
      using after(2,3,4) ctx(2,3,5) q(5)
      by (auto simp: attends_def other_file_def split: option.splits)
    moreover have "mail g k1 [parent_pid g] []"
      using create_keeps [OF q(4,1-3) eq] after(2) init_queue_ok [OF q(1-3)] ctx(2) by (auto simp: mail_def)
    ultimately show ?thesis using that eq after(1,4) pages ctx(3) by simp
  qed
qed


lemma map_filter_queue:
  assumes "length fps = MAX_OPEN_FILES" "fps ! qfd g = Some (qfile g)" "qfd g < MAX_OPEN_FILES"
    and "fheap k (qfile g) = Some f" "msg_queue f = Some (qaddr g)"
    and "\<forall>i < MAX_OPEN_FILES. i \<noteq> qfd g \<longrightarrow> other_file g k (fps ! i)"
  shows "List.map_filter (queue_of k) fps = [qaddr g]"
proof -
  have none: "List.map_filter (queue_of k) xs = []" if "\<forall>fp \<in> set xs. other_file g k fp" for xs
    using that by (induction xs) (auto simp: map_filter_simps queue_of_def other_file_def split: option.splits)
  have front: "\<forall>fp \<in> set (take (qfd g) fps). other_file g k fp"
    using assms(1,3,6) by (auto simp: in_set_conv_nth)
  have behind: "\<forall>fp \<in> set (drop (Suc (qfd g)) fps). other_file g k fp"
    using assms(1,3,6) by (auto simp: in_set_conv_nth)
  have "fps = take (qfd g) fps @ Some (qfile g) # drop (Suc (qfd g)) fps"
    using id_take_nth_drop [of "qfd g" fps] assms(1-3) by simp
  then have "List.map_filter (queue_of k) fps =
      List.map_filter (queue_of k) (take (qfd g) fps) @ List.map_filter (queue_of k) [Some (qfile g)] @
      List.map_filter (queue_of k) (drop (Suc (qfd g)) fps)"
    by (metis append_Cons append_Nil map_filter_def filter_append map_append)
  then show ?thesis using assms(4,5) none [OF front] none [OF behind] by (simp add: map_filter_simps queue_of_def)
qed

lemma fork_call:
  assumes st: "can_start g e k" and at: "attends g k1 (pslot g) (parent_pid g)" and ml: "mail g k1 [parent_pid g] []"
    and ctx: "ctxs k1 (pslot g) = Some ctx" "length (files ctx) = MAX_OPEN_FILES"
  shows "\<exists>k3. do_fork e k1 (pslot g) = Inr (uint (child_pid g), k3) \<and>
    attended g k3 [parent_pid g, child_pid g] []"
proof -
  note g = st [unfolded can_start_def, THEN conjunct1]
  define child where "child = ctx\<lparr>pid := child_pid g, ppid := pid ctx\<rparr>"
  define k2 where "k2 = setup_child_context e (cslot g) (copy_mm e (cslot g) (pslot g) (k1\<lparr>ctxs := (ctxs k1)(cslot g \<mapsto> child)\<rparr>))"
  have new: "get_new_ctx e k1 = (cslot g, child_pid g)" using st by (simp add: can_start_def)
  have copies: "\<And>k. same_tables k (copy_mm e (cslot g) (pslot g) k)" "\<And>k. same_tables k (setup_child_context e (cslot g) k)"
    using st by (simp_all add: can_start_def)
  have k2: "ctxs k2 = (ctxs k1)(cslot g \<mapsto> child)" "fheap k2 = fheap k1" "qheap k2 = qheap k1"
    using copies by (simp_all add: k2_def same_tables_def)
  obtain f where f: "fheap k2 (qfile g) = Some f" "msg_queue f = Some (qaddr g)" "files ctx ! qfd g = Some (qfile g)"
      "\<forall>i < MAX_OPEN_FILES. i \<noteq> qfd g \<longrightarrow> other_file g k1 (files ctx ! i)"
    using at ctx(1) k2(2) by (auto simp: attends_def)
  have others: "\<forall>i < MAX_OPEN_FILES. i \<noteq> qfd g \<longrightarrow> other_file g k2 (files ctx ! i)"
    using f(4) k2(2) by (simp add: other_file_def [abs_def])
  have fd: "qfd g < MAX_OPEN_FILES" using g by (simp add: valid_parties_def)
  have queues: "List.map_filter (queue_of k2) (files child) = [qaddr g]"
    using map_filter_queue [OF ctx(2) f(3) fd f(1,2) others] by (simp add: child_def)
  have files: "\<forall>p. Some p \<in> set (files child) \<longrightarrow> fheap k2 p \<noteq> None"
  proof (intro allI impI)
    fix p assume "Some p \<in> set (files child)"
    then obtain i where i: "i < MAX_OPEN_FILES" "files ctx ! i = Some p"
      using ctx(2) by (auto simp: child_def in_set_conv_nth)
    show "fheap k2 p \<noteq> None"
    proof (cases "i = qfd g")
      case True
      then show ?thesis using i f by simp
    next
      case False
      then show ?thesis using i others by (force simp: other_file_def)
    qed
  qed
  obtain mq where mq: "qheap k1 (qaddr g) = Some mq" "members mq = [parent_pid g]" "messages mq = []" "blocks mq = {}"
      "queues_ok k1" "queue_inv mq"
    using ml by (rule mailD)
  have join: "can_join k2 (child_pid g) (qaddr g)"
    using mq k2(3) pids_differ [OF g] by (simp add: can_join_def k_const)
  obtain k3 where k3: "add_child_loop (child_pid g) k2 (files child) = Inr k3" "only_queues k2 k3"
      "\<And>qa. if qa = qaddr g then joined (child_pid g) (qheap k2 qa) (qheap k3 qa) else qheap k3 qa = qheap k2 qa"
    using add_child_loop_joins [OF files, of "child_pid g"] join by (auto simp: queues)
  have fork: "do_fork e k1 (pslot g) = Inr (uint (child_pid g), k3)"
  proof -
    have k2': "setup_child_context e (cslot g) (copy_mm e (cslot g) (pslot g)
        (k1\<lparr>ctxs := (ctxs k1)(cslot g \<mapsto> ctx\<lparr>pid := child_pid g, ppid := pid ctx\<rparr>)\<rparr>)) = k2"
      by (simp add: k2_def child_def)
    have "ctx_at k2 (cslot g) = Inr child" using k2(1) by simp
    moreover have "pid child = child_pid g" "take MAX_OPEN_FILES (files child) = files child"
      using ctx(2) by (simp_all add: child_def)
    ultimately have "do_add_child_to_msg_queue k2 (cslot g) = Inr k3"
      using k3(1) by (simp add: do_add_child_to_msg_queue_def)
    then show ?thesis
      using ctx(1) unfolding do_fork_def new by (simp add: Let_def k2')
  qed
  have same: "ctxs k3 = ctxs k2" "fheap k3 = fheap k2"
    using k3(2) by (metis only_queues_def kernel.ext_inject kernel.surjective kernel.update_convs(4) kernel.select_convs)+
  obtain mq' where mq': "qheap k3 (qaddr g) = Some mq'" "queue_inv mq'" "members mq' = [parent_pid g, child_pid g]"
      "messages mq' = []" "blocks mq' = {}"
    using k3(3) [of "qaddr g"] mq k2(3) by (auto simp: joined_def)
  have "queues_ok k3"
    unfolding queues_ok_def
  proof (intro allI impI)
    fix qa q assume "qheap k3 qa = Some q"
    then show "queue_inv q" using k3(3) [of qa] mq'(1,2) mq(5) k2(3) by (cases "qa = qaddr g") (auto simp: queues_ok_def)
  qed
  then have "mail g k3 [parent_pid g, child_pid g] []" using mq' by (auto simp: mail_def)
  moreover have "attends g k3 (pslot g) (parent_pid g)"
    using at attends_cong [of k3 k1 "pslot g"] same k2 g by (auto simp: valid_parties_def)
  moreover have "attends g k3 (cslot g) (child_pid g)"
    using f(1-3) others same k2 unfolding attends_def by (auto simp: child_def other_file_def [abs_def])
  ultimately show ?thesis using fork by (auto simp: attended_def)
qed


lemma prologue_ok:
  assumes st: "can_start g e k"
  obtains s where "init_prologue e k (pslot g) s0 = Inr (Some (fd_word g, uint (child_pid g), s))"
    "exchange_inv g (msg_txt (pmsg s0)) (printed s0 @ ''Members before fork: 1'' @ newline) s"
proof -
  obtain k1 where k1: "do_create_msg_queue (fst (queue_page e k)) (snd (queue_page e k)) (fst (file_page e k))
      (snd (file_page e k)) k (pslot g) = Inr (int (qfd g), k1)"
    "attends g k1 (pslot g) (parent_pid g)" "mail g k1 [parent_pid g] []"
    "\<exists>ctx. ctxs k1 (pslot g) = Some ctx \<and> length (files ctx) = MAX_OPEN_FILES"
    using st by (rule create_call)
  note g = st [unfolded can_start_def, THEN conjunct1]
  obtain pids where info: "do_get_member_info k1 (pslot g) (fd_word g) = Inr (0, Some (1, pids), k1)"
    using info_call [OF g k1(2,3)] by auto
  obtain k3 where fork: "do_fork e k1 (pslot g) = Inr (uint (child_pid g), k3)"
      "attended g k3 [parent_pid g, child_pid g] []"
    using fork_call [OF st k1(2,3)] k1(4) by blast
  have fd: "word_of_int (int (qfd g)) = fd_word g" by (simp add: fd_word_def)
  have pos: "\<not> uint (child_pid g) \<le> 0" using st by (auto simp: can_start_def)
  let ?s = "s0\<lparr>xk := k3, ppc := P_info, cpc := C_poll, pinfo := 1, cinfo := 1, cmsg := pmsg s0,
      printed := printed s0 @ ''Members before fork: 1'' @ newline\<rparr>"
  have shown: "vuprintf (''Members before fork: %d'' @ newline) [Int_arg (sint (1 :: u32))] =
      Inr (''Members before fork: 1'' @ newline)"
    using members_text(2) by (simp del: vuprintf.simps append.simps)
  have "init_prologue e k (pslot g) s0 = Inr (Some (fd_word g, uint (child_pid g), ?s))"
    unfolding init_prologue_def split_beta Let_def k1(1) bind_res_simps fst_conv snd_conv fd info
      seen_members_def option.case prod.case shown fork(1) using pos by simp
  moreover have "exchange_inv g (msg_txt (pmsg s0)) (printed s0 @ ''Members before fork: 1'' @ newline) ?s"
    using fork(2) by (intro exchange_invI) (simp_all add: locals_ok_def)
  ultimately show ?thesis using that by blast
qed

end
