(* ===== verification/FileFrame.thy ===== *)
theory FileFrame
  imports Syscalls
begin

text \<open>
  What the file calls leave alone. \<open>file_frame\<close> is the contract of a predicate on kernels that the
  primitive updates of \<^verbatim>\<open>file.c\<close> keep: memory, offsets and counts of file objects, a new object, a
  freed one, an entry of a descriptor table, an inode. Every file call keeps such a predicate, whatever
  its arguments.
\<close>

section \<open>Every result\<close>

text \<open>What holds of the result of a computation, when it has one.\<close>

definition all_res :: "('a \<Rightarrow> bool) \<Rightarrow> 'a res \<Rightarrow> bool" where
  "all_res P r \<longleftrightarrow> (\<forall>x. r = Inr x \<longrightarrow> P x)"

lemma all_res_simps [simp]:
  "all_res P (Inr x) \<longleftrightarrow> P x" "all_res P (Inl e)"
  "all_res P (bind_res r f) \<longleftrightarrow> all_res (\<lambda>x. all_res P (f x)) r"
  by (cases r; simp add: all_res_def)+

lemma all_resD: "all_res P r \<Longrightarrow> r = Inr x \<Longrightarrow> P x"
  by (simp add: all_res_def)

lemma all_res_mono: "all_res P r \<Longrightarrow> (\<And>x. P x \<Longrightarrow> Q x) \<Longrightarrow> all_res Q r"
  by (simp add: all_res_def)

lemma all_res_if [simp]: "all_res P (if b then r else r') \<longleftrightarrow> (b \<longrightarrow> all_res P r) \<and> (\<not> b \<longrightarrow> all_res P r')"
  by simp

lemma all_res_acc [simp]:
  "all_res P (ctx_at k c) \<longleftrightarrow> (\<forall>ctx. ctxs k c = Some ctx \<longrightarrow> P ctx)"
  "all_res Q (file_at k p) \<longleftrightarrow> (\<forall>f. fheap k p = Some f \<longrightarrow> Q f)"
  "all_res R (queue_at k qa) \<longleftrightarrow> (\<forall>mq. qheap k qa = Some mq \<longrightarrow> R mq)"
  by (auto simp: all_res_def kernel_acc)

lemma all_res_get_fd [simp]: "all_res P (get_fd k c fd) \<longleftrightarrow> (\<forall>p. get_fd k c fd = Inr p \<longrightarrow> P p)"
  by (simp add: all_res_def)

section \<open>The inode table keeps its length\<close>

lemma length_create_inode: "all_res (\<lambda>(r, s'). length (inodes s') = length (inodes s)) (create_inode s n mode)"
  by (simp add: create_inode_def flat_create_inode_def Let_def split: if_splits)

lemma length_open_inode:
  "all_res (\<lambda>(r, s'). length (inodes s') = length (inodes s)) (open_inode s fname flags mode)"
  unfolding open_inode_def get_or_create_def
  by (auto split: option.split intro!: all_res_mono [OF length_create_inode])

section \<open>The file calls\<close>

locale file_frame =
  fixes P :: "kernel \<Rightarrow> bool" and new :: "file_obj \<Rightarrow> bool"
  assumes P_mem: "P k \<Longrightarrow> P (k\<lparr>mem := m\<rparr>)"
    and P_stats: "P k \<Longrightarrow> P (k\<lparr>stats := st\<rparr>)"
    and P_put: "P k \<Longrightarrow> fheap k p = Some f \<Longrightarrow> msg_queue f' = msg_queue f \<Longrightarrow> P (put_file k p f')"
    and P_new: "P k \<Longrightarrow> new page \<Longrightarrow> msg_queue f = msg_queue page \<Longrightarrow> P (put_file k p f)"
    and P_free: "P k \<Longrightarrow> P (k\<lparr>fheap := (fheap k)(p := None)\<rparr>)"
    and P_fd: "P k \<Longrightarrow> ctxs k c = Some ctx \<Longrightarrow>
      P (k\<lparr>ctxs := (ctxs k)(c \<mapsto> ctx\<lparr>files := (files ctx)[n := fp]\<rparr>)\<rparr>)"
    and P_sb: "P k \<Longrightarrow> length (inodes s) = length (inodes (sb k)) \<Longrightarrow> P (k\<lparr>sb := s\<rparr>)"
begin

lemma keep_free: "P k \<Longrightarrow> P (free_file_object k p)"
  unfolding free_file_object_def using P_stats [OF P_free] by simp

lemma keep_alloc: "P k \<Longrightarrow> new page \<Longrightarrow> P (alloc_file p page k)"
  unfolding alloc_file_def by (rule P_stats, rule P_new) simp_all

lemma keep_set_fd: "P k \<Longrightarrow> all_res P (set_fd k c fd p)"
  by (auto simp: all_res_def set_fd_Inr intro: P_fd)

lemma keep_drop_ref: "P k \<Longrightarrow> all_res P (drop_ref k p)"
  by (auto simp: drop_ref_def Let_def intro!: keep_free intro: P_put)

lemma keep_file_exit: "P k \<Longrightarrow> all_res P (do_file_exit k c)"
proof -
  have "P k \<Longrightarrow> all_res P (file_exit_loop k fps)" for fps
  proof (induction fps arbitrary: k)
    case (Cons fp fps)
    then show ?case by (cases fp) (auto intro: all_res_mono [OF keep_drop_ref])
  qed simp
  then show "P k \<Longrightarrow> ?thesis" by (simp add: do_file_exit_def)
qed

lemma keep_file_close: "P k \<Longrightarrow> all_res (\<lambda>(r, k'). P k') (do_file_close k fp)"
  by (cases fp) (auto simp: do_file_close_def intro: all_res_mono [OF keep_drop_ref])

lemma keep_std_close: "P k \<Longrightarrow> all_res (\<lambda>(r, k'). P k') (std_close k p)"
  by (auto simp: std_close_def intro: all_res_mono [OF keep_drop_ref])

lemma keep_open_standard_IO:
  assumes k: "P k" and new: "new page"
  shows "all_res (\<lambda>(r, k'). P k') (open_standard_IO p page k c type)"
proof -
  have "P (create_standard_IO p page k type)"
    unfolding create_standard_IO_def Let_def by (rule P_new [OF keep_alloc [OF k new] new]) simp
  then show ?thesis
    using k by (auto simp: open_standard_IO_def Let_def split: option.split
        intro!: all_res_mono [OF keep_set_fd] P_put)
qed

lemma keep_regular_open:
  assumes k: "P k" and new: "new page"
  shows "all_res (\<lambda>(r, k'). P k') (do_regular_file_open p page k c fname flags mode)"
proof -
  have "P (k\<lparr>sb := s\<rparr>) \<and> P (put_file (alloc_file p page (k\<lparr>sb := s\<rparr>)) p (page\<lparr>offp := 0, ref_count := 1,
      finode := i, fmode := md, fops := ops, ftype := ty\<rparr>))"
    if "length (inodes s) = length (inodes (sb k))" for s i md ops ty
    using P_sb [OF k that] P_new [OF keep_alloc [OF P_sb [OF k that] new] new] by simp
  then show ?thesis
    using k by (auto simp: do_regular_file_open_def Let_def split: sum.split option.split
        intro!: all_res_mono [OF length_open_inode] all_res_mono [OF keep_set_fd])
qed

lemma keep_open: "P k \<Longrightarrow> new page \<Longrightarrow> all_res (\<lambda>(r, k'). P k') (do_file_open p page k c fname flags mode)"
  by (simp add: do_file_open_def keep_open_standard_IO keep_regular_open)

lemma keep_read_regular: "P k \<Longrightarrow> all_res (\<lambda>(r, k'). P k') (do_read_regular k fp buff count)"
  by (auto simp: do_read_regular_def all_res_def [of _ "flat_read _ _ _ _ _"] split: option.split
      intro!: P_put [OF P_mem])

lemma keep_write_regular: "P k \<Longrightarrow> all_res (\<lambda>(r, k'). P k') (do_write_regular k fp buff count)"
proof -
  assume k: "P k"
  have "P (k\<lparr>mem := m, sb := (sb k)\<lparr>inodes := (inodes (sb k))[i := ino]\<rparr>\<rparr>)" for m i ino
    using P_sb [OF P_mem [OF k], of "(sb k)\<lparr>inodes := (inodes (sb k))[i := ino]\<rparr>"] by simp
  then show ?thesis
    using k by (auto simp: do_write_regular_def all_res_def [of _ "flat_write _ _ _ _ _"] split: option.split
        intro!: P_put)
qed

lemma keep_read: "P k \<Longrightarrow> all_res (\<lambda>(r, k'). P k') (do_file_read d k c fd buff count)"
  by (auto simp: do_file_read_def do_read_kbd_def keep_read_regular P_mem split: option.split read_op.split)

lemma keep_write: "P k \<Longrightarrow> all_res (\<lambda>(r, k'). P k') (do_file_write d k c fd buff count)"
  by (auto simp: do_file_write_def do_write_console_def keep_write_regular split: option.split write_op.split)

lemma keep_lseek: "P k \<Longrightarrow> all_res (\<lambda>(r, k'). P k') (do_lseek k c fd offset wh)"
  by (auto simp: do_lseek_def do_lseek_regular_def seek_to_def Let_def P_put
      split: option.split lseek_op.split whence.split)

lemma keep_dup2: "P k \<Longrightarrow> all_res (\<lambda>(r, k'). P k') (do_dup2 k c oldfd newfd)"
  by (auto simp: do_dup2_def fd_dup2_def P_put split: option.split
      intro!: all_res_mono [OF keep_file_close] all_res_mono [OF keep_set_fd])

lemma keep_close: "P k \<Longrightarrow> all_res (\<lambda>(r, k'). P k') (do_close k c fd)"
  by (auto simp: do_close_def split: option.split close_op.split
      intro!: all_res_mono [OF keep_set_fd] all_res_mono [OF keep_std_close] all_res_mono [OF keep_file_close])

lemma keep_sendfile: "P k \<Longrightarrow> all_res (\<lambda>(r, off, k'). P k') (call_sendfile buff k c outfd infd offset count)"
proof -
  assume k: "P k"
  have "all_res (\<lambda>(r, off, k'). P k') (sendfile_read buff k p fin offset n)" for p fin n
    using k by (auto simp: sendfile_read_def all_res_def [of _ "flat_read _ _ _ _ _"] P_mem split: option.split
        intro!: all_res_mono [OF keep_read_regular])
  note r = all_res_mono [OF this]
  show ?thesis using k
    by (auto simp: call_sendfile_def do_sendfile_def split: option.split
        intro!: r all_res_mono [OF keep_write_regular])
qed

end

end
