(* ===== verification/Programs.thy ===== *)
theory Programs
  imports UserLib FileFrame
begin

text \<open>
  User programs on the kernel: processes call the library of \<^verbatim>\<open>user/lib.c\<close> in any order. A step is one
  call of a wrapper, through the registers, the dispatcher and the handler; the calls are those on files
  and streams, and those that create a message queue and use it. \<open>may_request\<close> states what a program has
  to respect because the kernel does not check it. Under it no call faults and the invariants of files
  and of queues hold together in every reachable state.
\<close>

section \<open>File calls leave the queues alone\<close>

text \<open>The queues are the same, and no object points to another queue than it did.\<close>

definition quiet :: "kernel \<Rightarrow> kernel \<Rightarrow> bool" where
  "quiet k0 k \<longleftrightarrow> qheap k = qheap k0 \<and>
     (\<forall>p f. fheap k p = Some f \<longrightarrow>
        msg_queue f = None \<or> (\<exists>f0. fheap k0 p = Some f0 \<and> msg_queue f = msg_queue f0))"

lemma quiet_refl [simp]: "quiet k k"
  by (simp add: quiet_def)

interpretation quiet: file_frame "quiet k0" "\<lambda>page. msg_queue page = None" for k0
  by unfold_locales (fastforce simp: quiet_def)+

definition queue_ptrs_ok :: "kernel \<Rightarrow> bool" where
  "queue_ptrs_ok k \<longleftrightarrow> (\<forall>p f qa. fheap k p = Some f \<longrightarrow> msg_queue f = Some qa \<longrightarrow> qheap k qa \<noteq> None)"

lemma quiet_keeps: "quiet k k' \<Longrightarrow> queues_ok k \<Longrightarrow> queue_ptrs_ok k \<Longrightarrow> queues_ok k' \<and> queue_ptrs_ok k'"
  unfolding quiet_def queues_ok_def queue_ptrs_ok_def by (metis option.distinct(1))

lemma returns_all: "all_res (\<lambda>(v, k'). P k') r \<Longrightarrow> all_res (\<lambda>(v, k'). P k') (returns r)"
  by (auto simp: returns_def intro: all_res_mono)

text \<open>An exiting process without a queue on its descriptors has none to leave.\<close>

lemma cleanup_without_queue:
  assumes "\<And>fd. fd \<in> set fds \<Longrightarrow> \<exists>fp. get_fd k c (int fd) = Inr fp \<and>
    (\<forall>p. fp = Some p \<longrightarrow> (\<exists>f. fheap k p = Some f \<and> msg_queue f = None))"
  shows "cleanup_loop k c fds = Inr k"
  using assms
proof (induction fds)
  case (Cons fd fds)
  obtain fp where fp: "get_fd k c (int fd) = Inr fp"
    "\<forall>p. fp = Some p \<longrightarrow> (\<exists>f. fheap k p = Some f \<and> msg_queue f = None)"
    using Cons.prems [of fd] by auto
  have "with_queue k fp (Inr k) body = Inr k" for body
    using fp(2) by (auto simp: with_queue_def split: option.split)
  with fp(1) Cons show ?case by (simp del: get_fd_eq)
qed simp

lemma exit_quiet:
  assumes ok: "kernel_ok k" and live: "live_ctx k c ctx" and may: "may_call k ctx CExit"
  shows "all_res (\<lambda>(r, k'). quiet k k') (do_exit k c)"
proof -
  have "cleanup_loop k c [0..<MAX_OPEN_FILES] = Inr k"
  proof (rule cleanup_without_queue)
    fix fd assume "fd \<in> set [0..<MAX_OPEN_FILES]"
    then have fd: "fd_in (int fd)" "fd < MAX_OPEN_FILES" by (auto simp: fd_in_def)
    note l = live_fd [OF ok live fd(1)]
    show "\<exists>fp. get_fd k c (int fd) = Inr fp \<and> (\<forall>p. fp = Some p \<longrightarrow> (\<exists>f. fheap k p = Some f \<and> msg_queue f = None))"
      using l may fd(2) by (intro exI [of _ "files ctx ! fd"]) fastforce
  qed
  moreover have "quiet k (k1\<lparr>ctxs := cs, stats := st\<rparr>)" if "quiet k k1" for k1 cs st
    using that by (simp add: quiet_def)
  ultimately show ?thesis
    by (auto simp: do_exit_def do_msg_queue_cleanup_def Let_def intro!: all_res_mono [OF quiet.keep_file_exit])
qed

lemma file_call_quiet:
  assumes "kernel_ok k" "live_ctx k c ctx" "may_call k ctx cl" "msg_queue page = None"
  shows "all_res (\<lambda>(r, k'). quiet k k') (run_call d p page buf k c cl)"
proof (cases cl)
  case CExit
  with assms(3) exit_quiet [OF assms(1,2)] show ?thesis by (auto intro: all_res_mono)
qed (use assms in \<open>auto intro!: returns_all quiet.keep_open quiet.keep_read quiet.keep_write quiet.keep_lseek
    quiet.keep_dup2 quiet.keep_close all_res_mono [OF quiet.keep_sendfile]\<close>)

section \<open>The invariant of files and queues\<close>

definition sys_ok :: "kernel \<Rightarrow> bool" where
  "sys_ok k \<longleftrightarrow> kernel_ok k \<and> queues_ok k \<and> queue_ptrs_ok k"

lemma sys_okD:
  assumes "sys_ok k"
  shows "kernel_ok k" "queues_ok k" "queue_ptrs_ok k"
  using assms by (simp_all add: sys_ok_def)

text \<open>A queue call changes queues and the memory of the caller.\<close>

lemma sys_ok_queue:
  assumes "sys_ok k" "only_queues k k'" "queues_ok k'" "\<And>qa. qheap k qa \<noteq> None \<Longrightarrow> qheap k' qa \<noteq> None"
  shows "sys_ok (k'\<lparr>mem := m\<rparr>)" "sys_ok k'"
proof -
  have same: "ctxs k' = ctxs k" "fheap k' = fheap k" "sb k' = sb k"
    using assms(2) unfolding only_queues_def
    by (metis kernel.select_convs kernel.surjective kernel.update_convs(4))+
  have "kernel_ok k'" "kernel_ok (k'\<lparr>mem := m\<rparr>)"
    using sys_okD(1) [OF assms(1)] refs_ok_frame [of k k'] refs_ok_frame [of k "k'\<lparr>mem := m\<rparr>"]
    by (simp_all add: kernel_ok_def same)
  with assms sys_okD(3) [OF assms(1)] show "sys_ok (k'\<lparr>mem := m\<rparr>)" "sys_ok k'"
    by (simp_all add: sys_ok_def queue_ptrs_ok_def queues_ok_def same)
qed

text \<open>The queue behind a descriptor, when there is one.\<close>

lemma fd_queue_cases:
  assumes ok: "sys_ok k" and live: "live_ctx k c ctx" and fd: "fd_in fd"
  obtains (closed) "get_fd k c fd = Inr None"
  | (other) p f where "get_fd k c fd = Inr (Some p)" "fheap k p = Some f" "msg_queue f = None"
  | (queue) p qa mq f where "get_fd k c fd = Inr (Some p)" "qheap k qa = Some mq" "queue_inv mq"
      "fheap k p = Some f" "msg_queue f = Some qa"
proof (cases "files ctx ! nat fd")
  case None
  with closed live_fd(1) [OF sys_okD(1) [OF ok] live fd] show ?thesis by simp
next
  case (Some p)
  note l = live_fd [OF sys_okD(1) [OF ok] live fd]
  obtain f where f: "fheap k p = Some f" using l(2) [OF Some] by blast
  show ?thesis
  proof (cases "msg_queue f")
    case None
    with other [of p] l(1) Some f show ?thesis by simp
  next
    case (Some qa)
    have "qheap k qa \<noteq> None" using sys_okD(3) [OF ok] f Some unfolding queue_ptrs_ok_def by blast
    then obtain mq where mq: "qheap k qa = Some mq" by blast
    with queue [of p qa mq] l(1) \<open>files ctx ! nat fd = Some p\<close> f Some queues_okD [OF sys_okD(2) [OF ok] mq]
    show ?thesis by simp
  qed
qed

text \<open>The members of a queue have room for one message each.\<close>

definition room :: "kernel \<Rightarrow> nat \<Rightarrow> int \<Rightarrow> bool" where
  "room k c fd \<longleftrightarrow> (\<forall>p f qa mq. get_fd k c fd = Inr (Some p) \<longrightarrow> fheap k p = Some f \<longrightarrow>
     msg_queue f = Some qa \<longrightarrow> qheap k qa = Some mq \<longrightarrow> length (messages mq) + MAX_MEMBERS \<le> MAX_MESSAGES)"

lemma info_total:
  assumes "sys_ok k" "live_ctx k c ctx" "fd_in (uint fd)"
  shows "\<exists>r info. do_get_member_info k c fd = Inr (r, info, k)"
  using assms by (cases rule: fd_queue_cases)
    (simp_all add: do_get_member_info_def with_fd_def with_queue_def do_msg_queue_get_member_info_def)

lemma find_member_total: "queue_inv mq \<Longrightarrow> \<exists>x. find_member mq pd = Inr x"
  using find_member_eq [OF queue_invD(1)] by blast

lemma count_total:
  assumes ok: "sys_ok k" and live: "live_ctx k c ctx" and fd: "fd_in (uint fd)"
  shows "\<exists>r. call_get_msg_count k c fd = Inr (r, k)"
  using assms
proof (cases rule: fd_queue_cases)
  case (queue p qa mq f)
  obtain x where x: "find_member mq (pid ctx) = Inr x" using find_member_total [OF queue(3)] by blast
  have "nat (msg_count mq) \<le> length (msg_buffer mq)" using mq_okD [OF queue_invD(1) [OF queue(3)]] by simp
  with queue x live show ?thesis
    by (auto simp: call_get_msg_count_def with_fd_def with_queue_def do_get_msg_count_def live_ctx_def count_messages_def)
qed (simp_all add: call_get_msg_count_def with_fd_def with_queue_def do_get_msg_count_def)

lemma rcv_total:
  assumes ok: "sys_ok k" and live: "live_ctx k c ctx" and fd: "fd_in (uint fd)"
  shows "\<exists>r out k'. call_msg_queue_rcv k c fd ptr = Inr (r, out, k') \<and> (\<forall>m. sys_ok (k'\<lparr>mem := m\<rparr>)) \<and> sys_ok k'"
  using assms
proof (cases rule: fd_queue_cases)
  case (queue p qa mq f)
  obtain x where x: "find_member mq (pid ctx) = Inr x" using find_member_total [OF queue(3)] by blast
  obtain r out mq' where b: "rcv_body (pid ctx) mq = Inr (r, out, mq')"
    using rcv_body_cases [OF queue_invD(1) [OF queue(3)]] by metis
  have "sys_ok (put_queue k qa mq')" "sys_ok ((put_queue k qa mq')\<lparr>mem := m\<rparr>)" for m
    using rcv_body_inv [OF queue(3) b] queues_ok_put [OF sys_okD(2) [OF ok]]
    by (intro sys_ok_queue [OF ok]; simp)+
  moreover have "sys_ok (k\<lparr>mem := m\<rparr>)" for m by (rule sys_ok_queue [OF ok]) (simp_all add: sys_okD [OF ok])
  ultimately show ?thesis
    using queue x b live ok
    by (simp add: call_msg_queue_rcv_def with_fd_def with_queue_def do_msg_queue_rcv_def Let_def live_ctx_def)
next
  case closed
  have "sys_ok (k\<lparr>mem := m\<rparr>)" for m by (rule sys_ok_queue [OF ok]) (simp_all add: sys_okD [OF ok])
  with closed ok show ?thesis by (simp add: call_msg_queue_rcv_def with_fd_def with_queue_def)
next
  case (other p f)
  have "sys_ok (k\<lparr>mem := m\<rparr>)" for m by (rule sys_ok_queue [OF ok]) (simp_all add: sys_okD [OF ok])
  with other ok show ?thesis
    by (simp add: call_msg_queue_rcv_def with_fd_def with_queue_def do_msg_queue_rcv_def Let_def)
qed

lemma send_body_total:
  assumes inv: "queue_inv mq" and room: "length (messages mq) + MAX_MEMBERS \<le> MAX_MESSAGES"
  shows "\<exists>r mq'. send_body pd msg mq = Inr (r, mq')"
proof -
  note ok = queue_invD(1) [OF inv]
  note o = mq_okD [OF ok]
  have "\<exists>r mq'. broadcast_loop pd msg 0 (unat (member_count mq)) 0 mq = Inr (r, mq')"
    using room o by (intro broadcast_total [OF ok]) simp_all
  moreover have "\<exists>r mq'. unicast pd msg mq = Inr (r, mq')"
    using ok
  proof (cases rule: find_member_cases [of mq "to_pid msg"])
    case (present i)
    obtain b where "blocked mq i MAX_PROCESSES pd = Inr b"
      using blocked_eq [OF ok, of i MAX_PROCESSES] present(2) o by simp
    moreover obtain mq' where "append_msg msg mq = Inr mq'"
      using append_msg_total [OF ok, of msg] room by (auto simp: k_const)
    ultimately show ?thesis using present(1) by (simp add: unicast_def)
  qed (simp add: unicast_def)
  ultimately show ?thesis by (simp add: send_body_def)
qed

lemma send_total:
  assumes ok: "sys_ok k" and live: "live_ctx k c ctx" and fd: "fd_in (uint fd)" and room: "room k c (uint fd)"
  shows "\<exists>r k'. call_msg_queue_send k c fd msgp = Inr (r, k') \<and> sys_ok k'"
  using ok live fd
proof (cases rule: fd_queue_cases)
  case (queue p qa mq f)
  obtain x where x: "find_member mq (pid ctx) = Inr x" using find_member_total [OF queue(3)] by blast
  show ?thesis
  proof (cases msgp)
    case None
    with queue ok show ?thesis by (simp add: call_msg_queue_send_def with_fd_def with_queue_def do_msg_queue_send_def)
  next
    case (Some msg)
    have "length (messages mq) + MAX_MEMBERS \<le> MAX_MESSAGES" using room queue by (simp add: room_def)
    then obtain r mq' where b: "send_body (pid ctx) msg mq = Inr (r, mq')"
      using send_body_total [OF queue(3)] by blast
    have "sys_ok (put_queue k qa mq')"
      using send_body_inv [OF queue(3) b] queues_ok_put [OF sys_okD(2) [OF ok]]
      by (intro sys_ok_queue(2) [OF ok]) simp_all
    with queue x b live ok Some show ?thesis
      by (simp add: call_msg_queue_send_def with_fd_def with_queue_def do_msg_queue_send_def live_ctx_def)
  qed
qed (use ok in \<open>simp_all add: call_msg_queue_send_def with_fd_def with_queue_def do_msg_queue_send_def\<close>)

lemma block_total:
  assumes ok: "sys_ok k" and live: "live_ctx k c ctx" and fd: "fd_in (uint fd)"
  shows "\<exists>r k'. call_msg_queue_block k c fd pd = Inr (r, k') \<and> sys_ok k'"
  using assms
proof (cases rule: fd_queue_cases)
  case (queue p qa mq f)
  let ?pd = "sint (ucast pd :: u32)"
  note ok' = queue_invD(1) [OF queue(3)]
  obtain x y where "last_member mq (pid ctx) = Inr x" "last_member mq (word_of_int ?pd) = Inr y"
    using find_member_total [OF queue(3)] last_member_eq [OF ok'] by metis
  then have "\<exists>z. block_body (pid ctx) ?pd mq = Inr z"
    unfolding block_body_def by (auto split: option.split)
  then obtain r mq' where b: "block_body (pid ctx) ?pd mq = Inr (r, mq')" by auto
  have s: "sys_ok (put_queue k qa mq')"
    using block_body_inv [OF queue(3) b] queues_ok_put [OF sys_okD(2) [OF ok]]
    by (intro sys_ok_queue(2) [OF ok]) simp_all
  with queue b live ok show ?thesis
    by (simp add: call_msg_queue_block_def with_fd_def with_queue_def do_msg_queue_block_def Let_def live_ctx_def)
qed (use ok in \<open>simp_all add: call_msg_queue_block_def with_fd_def with_queue_def do_msg_queue_block_def\<close>)

text \<open>
  Creating a queue: a new object with one reference on a free descriptor, a new queue with the caller as
  its member.
\<close>

definition queue_room :: "nat option \<times> msg_queue_info \<Rightarrow> bool" where
  "queue_room qp \<longleftrightarrow> length (member_pid (snd qp)) = MAX_MEMBERS \<and> length (msg_buffer (snd qp)) = MAX_MESSAGES \<and>
     length (block_process (snd qp)) = MAX_MEMBERS * MAX_MEMBERS + 3"

lemma create_total:
  assumes ok: "sys_ok k" and live: "live_ctx k c ctx" and p: "fheap k p = None"
    and page: "length (member_pid qpage) = MAX_MEMBERS" "length (msg_buffer qpage) = MAX_MESSAGES"
      "length (block_process qpage) = MAX_MEMBERS * MAX_MEMBERS + 3"
  shows "\<exists>r k'. do_create_msg_queue q qpage p page k c = Inr (r, k') \<and> sys_ok k'"
proof -
  have ctx: "ctxs k c = Some ctx" using live by (simp add: live_ctx_def)
  have "\<exists>z. do_create_msg_queue q qpage p page k c = Inr z"
    using ctx free_fdD(1) [of ctx]
    by (auto simp: do_create_msg_queue_def Let_def alloc_file_def set_fd_def ctx_at_def split: option.split dest: free_fdD)
  then obtain r k' where eq: "do_create_msg_queue q qpage p page k c = Inr (r, k')" by auto
  have "sys_ok k'"
  proof (cases rule: create_cases [OF eq])
    case 1
    with ok show ?thesis by simp
  next
    case (2 ctx' qa fd)
    have same: "ctx' = ctx" using 2(1) ctx by simp
    let ?f = "page\<lparr>offp := 0, ref_count := 1, fops := no_fops, msg_queue := Some qa, ftype := MSG_QUEUE\<rparr>"
    note kok = sys_okD(1) [OF ok]
    note r = refs_replace [OF kernel_okD(2) [OF kok] live 2(3) 2(8) [unfolded same]]
    note fd = free_fdD [OF 2(2) [unfolded same]]
    have "counts_ok (fheap k) (refs k)" using kernel_okD(2) [OF kok] by (simp add: refs_ok_def)
    note ca = counts_alloc(2,3) [OF this p, of ?f]
    have "refs k' = (refs k)(p := 1)" using r(2) fd ca(2) by (auto simp: fun_eq_iff)
    then have "refs_ok k'" using r(1) ca(1) 2(7) by (simp add: refs_ok_def)
    moreover have "sb k' = sb k" by (rule 2(9))
    moreover have "file_inv s ?f" for s by (simp add: file_inv_def uses_regular_def no_fops_def)
    ultimately have "kernel_ok k'" using kernel_okD [OF kok] 2(7) by (auto simp: kernel_ok_def)
    moreover have "queue_ptrs_ok k'"
      using sys_okD(3) [OF ok] 2(6,7) by (auto simp: queue_ptrs_ok_def)
    ultimately show ?thesis using create_keeps [OF sys_okD(2) [OF ok] page eq] by (simp add: sys_ok_def)
  qed
  with eq show ?thesis by blast
qed

section \<open>What a program has to respect\<close>

text \<open>The file call a request asks for, by the names of \<open>KernelSteps\<close>; a stream has no offset to send from.\<close>

fun file_call_of :: "u64 \<Rightarrow> kernel \<Rightarrow> request \<Rightarrow> file_call option" where
  "file_call_of r3 k (Req_open fname flags mode) =
     map_option (\<lambda>s. COpen s (of_int flags)
       (if (of_int flags :: u32) AND O_CREAT \<noteq> 0 then of_int mode else r3)) (c_string (mem k) fname)"
| "file_call_of r3 k (Req_read fd buf count) = Some (CRead (of_int fd) buf (of_int count))"
| "file_call_of r3 k (Req_write fd buf count) = Some (CWrite (of_int fd) buf (of_int count))"
| "file_call_of r3 k (Req_lseek fd offset wh) = Some (CSeek fd offset (int_whence wh))"
| "file_call_of r3 k (Req_dup2 oldfd newfd) = Some (CDup2 oldfd newfd)"
| "file_call_of r3 k (Req_close fd) = Some (CClose fd)"
| "file_call_of r3 k (Req_sendfile outfd infd offset count) =
     (if offset = 0 then Some (CSendfile (of_int outfd) (of_int infd) (of_int count)) else None)"
| "file_call_of r3 k (Req_exit code) = Some CExit"
| "file_call_of r3 k _ = None"

fun queue_request :: "kernel \<Rightarrow> nat \<Rightarrow> request \<Rightarrow> bool" where
  "queue_request k c Req_getpid \<longleftrightarrow> True"
| "queue_request k c Req_create \<longleftrightarrow> True"
| "queue_request k c (Req_info fd info) \<longleftrightarrow> fd_in fd"
| "queue_request k c (Req_send fd msg) \<longleftrightarrow> fd_in fd \<and> room k c fd"
| "queue_request k c (Req_rcv fd msg) \<longleftrightarrow> fd_in fd"
| "queue_request k c (Req_count fd) \<longleftrightarrow> fd_in fd"
| "queue_request k c (Req_block fd pd) \<longleftrightarrow> fd_in fd"
| "queue_request k c _ \<longleftrightarrow> False"

text \<open>
  The allocators have pages left and hand out fresh ones of the right size, cleared where \<open>alloc_file\<close>
  does not clear them.
\<close>

definition pages_left :: "env \<Rightarrow> kernel \<Rightarrow> bool" where
  "pages_left e k \<longleftrightarrow> fheap k (fst (file_page e k)) = None \<and> msg_queue (snd (file_page e k)) = None \<and>
     queue_room (queue_page e k)"

definition may_request :: "user \<Rightarrow> kernel \<Rightarrow> request \<Rightarrow> bool" where
  "may_request u k r \<longleftrightarrow> args_ok r \<and> pages_left (env_of u) (called u k) \<and>
     (\<exists>ctx. live_ctx k (slot u) ctx \<and>
        (queue_request k (slot u) r \<or>
         (\<exists>cl. file_call_of (stale u 3) k r = Some cl \<and> may_call k ctx cl)))"

section \<open>Calls of the library\<close>

lemma sendfile_no_offset: "do_sendfile buff k c outfd infd None count = Inr (r, off, k') \<Longrightarrow> off = None"
  by (auto simp: do_sendfile_def sendfile_read_def bind_res_Inr split: option.splits if_splits)

lemma kernel_call_file:
  assumes "file_call_of r3 k r = Some cl" "args_ok r"
  shows "kernel_call e c r3 r k = run_call (dev e) (fst (file_page e k)) (snd (file_page e k)) (buff_page e k) k c cl"
proof (cases r)
  case (Req_open fname flags mode)
  with assms(1) show ?thesis by (auto simp: split_beta Let_def)
next
  case (Req_sendfile outfd infd offset count)
  have none: "at_ptr ld m 0 = None" for ld :: "memory \<Rightarrow> u64 \<Rightarrow> int" and m by (simp add: at_ptr_def)
  let ?s = "do_sendfile (buff_page e k) k c outfd infd None count"
  have "writes st 0 ?s = bind_res ?s (\<lambda>(v, _, k'). Inr (v, k'))" for st :: "memory \<Rightarrow> u64 \<Rightarrow> int \<Rightarrow> memory"
    using sendfile_no_offset [of "buff_page e k" k c outfd infd count] by (cases ?s) (auto simp: writes_def)
  with Req_sendfile assms none show ?thesis
    by (cases ?s) (auto simp: returns_def call_sendfile_def arg_of_int split: if_splits)
qed (use assms in auto)

lemma queue_call_ok:
  assumes ok: "sys_ok k" and live: "live_ctx k c ctx" and req: "queue_request k c r" and pages: "pages_left e k"
  shows "\<exists>v k'. kernel_call e c r3 r k = Inr (v, k') \<and> sys_ok k'"
proof -
  have fd: "uint (of_int x :: u64) = x" if "fd_in x" for x
    using that by (intro uint_of_int_u64) (simp_all add: fd_in_def k_const)
  have mem: "sys_ok (k\<lparr>mem := m\<rparr>)" for m by (rule sys_ok_queue [OF ok]) (simp_all add: sys_okD [OF ok])
  show ?thesis
  proof (cases r)
    case Req_getpid
    with ok live show ?thesis by (simp add: live_ctx_def)
  next
    case Req_create
    have "queue_room (queue_page e k)" "fheap k (fst (file_page e k)) = None"
      using pages by (simp_all add: pages_left_def)
    then obtain v k' where "do_create_msg_queue (fst (queue_page e k)) (snd (queue_page e k)) (fst (file_page e k))
        (snd (file_page e k)) k c = Inr (v, k')" "sys_ok k'"
      using create_total [OF ok live] unfolding queue_room_def by blast
    with Req_create show ?thesis by (simp add: split_beta Let_def returns_def)
  next
    case (Req_info fd' info)
    with info_total [OF ok live, of "of_int fd'"] req fd mem ok show ?thesis
      by (auto simp: returns_def writes_def split: option.split)
  next
    case (Req_send fd' msg)
    then obtain v k' where "call_msg_queue_send k c (of_int fd') (at_ptr load_message (mem k) msg) = Inr (v, k')"
      "sys_ok k'"
      using send_total [OF ok live, of "of_int fd'" "at_ptr load_message (mem k) msg"] req fd by auto
    with Req_send show ?thesis by (simp add: returns_def)
  next
    case (Req_rcv fd' msg)
    then obtain v out k' where "call_msg_queue_rcv k c (of_int fd') (msg \<noteq> 0) = Inr (v, out, k')"
      "\<forall>m. sys_ok (k'\<lparr>mem := m\<rparr>)" "sys_ok k'"
      using rcv_total [OF ok live, of "of_int fd'" "msg \<noteq> 0"] req fd by auto
    with Req_rcv show ?thesis by (simp add: returns_def writes_def split: option.split)
  next
    case (Req_count fd')
    then obtain v where "call_get_msg_count k c (of_int fd') = Inr (v, k)"
      using count_total [OF ok live, of "of_int fd'"] req fd by auto
    with Req_count ok show ?thesis by (simp add: returns_def)
  next
    case (Req_block fd' pd)
    then obtain v k' where "call_msg_queue_block k c (of_int fd') (of_int pd) = Inr (v, k')" "sys_ok k'"
      using block_total [OF ok live, of "of_int fd'" "of_int pd"] req fd by auto
    with Req_block show ?thesis by (simp add: returns_def)
  qed (use req in simp_all)
qed

lemma file_call_ok:
  assumes ok: "sys_ok k" and live: "live_ctx k c ctx" and may: "may_call k ctx cl"
    and page: "fheap k p = None" "msg_queue page = None"
  shows "\<exists>v k'. run_call d p page buf k c cl = Inr (v, k') \<and> sys_ok k'"
proof -
  obtain v k' where k': "run_call d p page buf k c cl = Inr (v, k')" "kernel_ok k'"
    using call_ok [OF sys_okD(1) [OF ok] live may page(1)] by blast
  have "quiet k k'" using all_resD [OF file_call_quiet [OF sys_okD(1) [OF ok] live may page(2)] k'(1)] by simp
  with quiet_keeps sys_okD(2,3) [OF ok] k' show ?thesis by (auto simp: sys_ok_def)
qed

text \<open>The entry of the call changes neither the tables nor what the caller may ask for.\<close>

lemma called_live: "live_ctx k (slot u) ctx \<Longrightarrow>
  live_ctx (called u k) (slot u) (ctx\<lparr>regs := load_regs (mem k) (entry_rbp (env_of u) k + 0x10)\<rparr>)"
  by (simp add: live_ctx_def called_ctx)

lemma refs_called [simp]: "refs (called u k) = refs k"
proof -
  have "ctx_refs (ctxs (called u k) c) p = ctx_refs (ctxs k c) p" for c p
    by (auto simp: called_ctx ctx_refs_def split: option.split)
  then show ?thesis by (simp add: refs_def fun_eq_iff)
qed

lemma called_sys_ok: "sys_ok k \<Longrightarrow> sys_ok (called u k)"
proof -
  assume ok: "sys_ok k"
  have "tables_ok (ctxs (called u k))"
    using kernel_okD(2) [OF sys_okD(1) [OF ok]]
    by (auto simp: refs_ok_def tables_ok_def called_ctx split: if_splits)
  with ok show "sys_ok (called u k)"
    by (simp add: sys_ok_def kernel_ok_def refs_ok_def queues_ok_def queue_ptrs_ok_def)
qed

lemma may_call_regs: "may_call (called u k) (ctx\<lparr>regs := rs\<rparr>) cl = may_call k ctx cl"
  by (cases cl) (simp_all add: fits_def regular_fd_def fd_file_def free_fd_def)

lemma queue_request_called: "queue_request (called u k) c r = queue_request k c r"
  by (cases r) (simp_all add: room_def)

lemma file_call_called: "file_call_of r3 (called u k) r = file_call_of r3 k r"
  by (cases r) simp_all

lemma request_ok:
  assumes ok: "sys_ok k" and may: "may_request u k r"
  shows "\<exists>v k'. lib_call u r k = Inr (v, k') \<and> sys_ok k'"
proof -
  obtain ctx where live: "live_ctx k (slot u) ctx" and args: "args_ok r"
    and pages: "pages_left (env_of u) (called u k)"
    and req: "queue_request k (slot u) r \<or> (\<exists>cl. file_call_of (stale u 3) k r = Some cl \<and> may_call k ctx cl)"
    using may by (auto simp: may_request_def)
  note ok' = called_sys_ok [OF ok, of u] and live' = called_live [OF live]
  obtain v k' where k': "kernel_call (env_of u) (slot u) (stale u 3) r (called u k) = Inr (v, k')" "sys_ok k'"
    using req
  proof (elim disjE exE conjE)
    assume "queue_request k (slot u) r"
    then have "queue_request (called u k) (slot u) r" by (simp only: queue_request_called)
    from queue_call_ok [OF ok' live' this pages, of "stale u 3"] that show thesis by auto
  next
    fix cl assume cl: "file_call_of (stale u 3) k r = Some cl" "may_call k ctx cl"
    have "file_call_of (stale u 3) (called u k) r = Some cl" using cl(1) by (simp only: file_call_called)
    note eq = kernel_call_file [OF this args]
    note page = pages [unfolded pages_left_def, THEN conjunct1] pages [unfolded pages_left_def, THEN conjunct2, THEN conjunct1]
    have "may_call (called u k) (ctx\<lparr>regs := load_regs (mem k) (entry_rbp (env_of u) k + 0x10)\<rparr>) cl"
      using cl(2) by (simp only: may_call_regs)
    from file_call_ok [OF ok' live' this page] that show thesis unfolding eq by blast
  qed
  have "ctxs k (slot u) \<noteq> None" using live by (simp add: live_ctx_def)
  from wrapper_handler [OF this args] k' show ?thesis by (auto simp: int_result_def)
qed

section \<open>Reachable states\<close>

inductive program_step :: "env \<Rightarrow> kernel \<Rightarrow> kernel \<Rightarrow> bool" for e where
  request: "env_of u = e \<Longrightarrow> may_request u k r \<Longrightarrow> lib_call u r k = Inr (v, k') \<Longrightarrow> program_step e k k'"

inductive_cases program_stepE: "program_step e k k'"

lemma programs_ok:
  assumes "(program_step e)\<^sup>*\<^sup>* k k'" "sys_ok k"
  shows "sys_ok k'"
  using assms
proof (induction rule: rtranclp_induct)
  case (step k1 k2)
  then have "sys_ok k1" by blast
  from step.hyps(2) show ?case
  proof (rule program_stepE)
    fix u r v assume "env_of u = e" "may_request u k1 r" "lib_call u r k1 = Inr (v, k2)"
    with request_ok [OF \<open>sys_ok k1\<close>] show "sys_ok k2" by fastforce
  qed
qed

end
