(* ===== verification/KernelTypes.thy ===== *)
theory KernelTypes
  imports FileFrame
begin

text \<open>
  The types of the kernel's tables as an invariant of its state: every table has the length its C array
  has, and the texts of the messages have 24 characters. Every system call that returns keeps them,
  whatever its arguments; the functions outside \<^verbatim>\<open>src/\<close> have to.
\<close>

section \<open>Typed states\<close>

definition typed_queue :: "msg_queue_info \<Rightarrow> bool" where
  "typed_queue mq \<longleftrightarrow>
     length (member_pid mq) = MAX_MEMBERS \<and> length (msg_buffer mq) = MAX_MESSAGES \<and>
     length (block_process mq) = MAX_MEMBERS * MAX_MEMBERS + 3 \<and>
     0 \<le> msg_count mq \<and> nat (msg_count mq) \<le> MAX_MESSAGES \<and>
     (\<forall>m \<in> set (msg_buffer mq). length (msg_txt m) = MAX_TXT_SIZE)"

definition typed_ctx :: "exec_context \<Rightarrow> bool" where
  "typed_ctx ctx \<longleftrightarrow> length (files ctx) = MAX_OPEN_FILES \<and> length (regs ctx) = 20"

definition typed :: "kernel \<Rightarrow> bool" where
  "typed k \<longleftrightarrow> length (inodes (sb k)) = NUM_FILES \<and>
     (\<forall>c ctx. ctxs k c = Some ctx \<longrightarrow> typed_ctx ctx) \<and>
     (\<forall>qa mq. qheap k qa = Some mq \<longrightarrow> typed_queue mq)"

named_theorems typing "what keeps a state typed"

lemma typedD:
  assumes "typed k"
  shows "length (inodes (sb k)) = NUM_FILES" "ctxs k c = Some ctx \<Longrightarrow> typed_ctx ctx"
    "qheap k qa = Some mq \<Longrightarrow> typed_queue mq"
  using assms by (auto simp: typed_def)

lemma typed_frame [simp]:
  "typed (k\<lparr>mem := m\<rparr>) = typed k" "typed (k\<lparr>fheap := h\<rparr>) = typed k" "typed (k\<lparr>stats := st\<rparr>) = typed k"
  "typed (k\<lparr>config := cf\<rparr>) = typed k" "typed (put_file k p f) = typed k"
  "typed (free_file_object k p) = typed k" "typed (alloc_file p page k) = typed k"
  by (simp_all add: typed_def free_file_object_def alloc_file_def)

lemma typed_put_ctx [typing]: "typed k \<Longrightarrow> typed_ctx ctx \<Longrightarrow> typed (k\<lparr>ctxs := (ctxs k)(c \<mapsto> ctx)\<rparr>)"
  by (simp add: typed_def)

lemma typed_put_queue [typing]: "typed k \<Longrightarrow> typed_queue mq \<Longrightarrow> typed (put_queue k qa mq)"
  by (simp add: typed_def)

lemma typed_free_queue [typing]: "typed k \<Longrightarrow> typed (k\<lparr>qheap := (qheap k)(qa := None)\<rparr>)"
  by (simp add: typed_def)

lemma typed_sb [typing]: "typed k \<Longrightarrow> length (inodes s) = NUM_FILES \<Longrightarrow> typed (k\<lparr>sb := s\<rparr>)"
  by (simp add: typed_def)

section \<open>Files\<close>

interpretation typing: file_frame typed "\<lambda>_. True"
proof unfold_locales
  fix k :: kernel and c n p and ctx :: exec_context
  assume "typed k" "ctxs k c = Some ctx"
  then show "typed (k\<lparr>ctxs := (ctxs k)(c \<mapsto> ctx\<lparr>files := (files ctx)[n := p]\<rparr>)\<rparr>)"
    using typedD(2) by (intro typed_put_ctx) (auto simp: typed_ctx_def)
qed (simp_all add: typed_sb typedD(1) free_file_object_def)

lemmas typed_set_fd = typing.keep_set_fd

lemmas typed_files [typing] = typing.keep_file_exit typing.keep_open typing.keep_read typing.keep_write
  typing.keep_lseek typing.keep_dup2 typing.keep_close typing.keep_sendfile

section \<open>Message queues\<close>

lemma typed_queueD:
  assumes "typed_queue mq"
  shows "length (member_pid mq) = MAX_MEMBERS" "length (msg_buffer mq) = MAX_MESSAGES"
    "length (block_process mq) = MAX_MEMBERS * MAX_MEMBERS + 3"
    "m \<in> set (msg_buffer mq) \<Longrightarrow> length (msg_txt m) = MAX_TXT_SIZE"
    "0 \<le> msg_count mq" "nat (msg_count mq) \<le> MAX_MESSAGES"
  using assms by (auto simp: typed_queue_def)

lemma typed_with_queue:
  assumes "typed k" "all_res P einval"
    and "\<And>qa mq. qheap k qa = Some mq \<Longrightarrow> typed_queue mq \<Longrightarrow> all_res P (body qa mq)"
  shows "all_res P (with_queue k fp einval body)"
  using assms by (auto simp: with_queue_def split: option.split dest: typedD(3))

text \<open>The list operations of the handlers keep lengths and add no new element.\<close>

lemma set_fold_upd:
  assumes "\<And>i b. i \<in> set is \<Longrightarrow> length b = n \<Longrightarrow> length (g i b) = n \<and> set (g i b) \<subseteq> set b" "length xs = n"
  shows "length (fold g is xs) = n \<and> set (fold g is xs) \<subseteq> set xs"
  using assms
proof (induction "is" arbitrary: xs)
  case (Cons i js)
  have "length (g i xs) = n" "set (g i xs) \<subseteq> set xs" using Cons.prems by auto
  with Cons.IH [of "g i xs"] Cons.prems(1) show ?case by auto
qed simp

lemma in_upd_nth: "x \<in> set (b[i := b ! j]) \<Longrightarrow> j < length b \<Longrightarrow> x \<in> set b"
  using set_update_subset_insert [of b i "b ! j"] by auto

lemma length_fold_keeps: "(\<And>i b. length (g i b) = length b) \<Longrightarrow> length (fold g is xs) = length xs"
  by (induction "is" arbitrary: xs) simp_all

lemma set_shift_down: "n \<le> length xs \<Longrightarrow> set (shift_down i n xs) \<subseteq> set xs"
  unfolding shift_down_def
  by (rule conjunct2 [OF set_fold_upd [where n = "length xs"]]) (auto dest: in_upd_nth)

lemma drop_messages_keeps:
  assumes "n \<le> length xs" "drop_messages pd n xs = (ys, t)"
  shows "length ys = length xs \<and> set ys \<subseteq> set xs"
proof -
  have "length (fst (fold (\<lambda>j (b, t). if to_pid (b ! j) \<noteq> pd then (b[t := b ! j], Suc t) else (b, t)) [0..<m] (xs, 0))) = length xs \<and>
      set (fst (fold (\<lambda>j (b, t). if to_pid (b ! j) \<noteq> pd then (b[t := b ! j], Suc t) else (b, t)) [0..<m] (xs, 0))) \<subseteq> set xs"
    if "m \<le> length xs" for m
    using that
  proof (induction m)
    case (Suc m)
    then show ?case by (auto split: prod.split dest!: in_upd_nth)
  qed simp
  from this [OF assms(1)] assms(2) show ?thesis by (simp add: drop_messages_def)
qed

lemma typed_append [typing]:
  "typed_queue mq \<Longrightarrow> length (msg_txt msg) = MAX_TXT_SIZE \<Longrightarrow> all_res typed_queue (append_msg msg mq)"
  by (auto simp: append_msg_def typed_queue_def dest!: subsetD [OF set_update_subset_insert])

lemma all_res_find [simp]:
  "all_res P (find_member mq pd) \<longleftrightarrow> (\<forall>m. find_member mq pd = Inr m \<longrightarrow> P m)"
  "all_res Q (find_message mq pd) \<longleftrightarrow> (\<forall>m. find_message mq pd = Inr m \<longrightarrow> Q m)"
  "all_res R (blocked mq i w pd) \<longleftrightarrow> (\<forall>b. blocked mq i w pd = Inr b \<longrightarrow> R b)"
  "all_res S (last_member mq pd) \<longleftrightarrow> (\<forall>b. last_member mq pd = Inr b \<longrightarrow> S b)"
  "all_res T (count_messages pd mq) \<longleftrightarrow> (\<forall>b. count_messages pd mq = Inr b \<longrightarrow> T b)"
  by (simp_all add: all_res_def)

lemma typed_broadcast:
  "typed_queue mq \<Longrightarrow> length (msg_txt msg) = MAX_TXT_SIZE \<Longrightarrow>
   all_res (\<lambda>(r, mq'). typed_queue mq') (broadcast_loop pd msg i n d mq)"
proof (induction n arbitrary: i d mq)
  case (Suc n)
  then show ?case by (auto intro: all_res_mono [OF typed_append])
qed simp

lemma typed_send_body:
  "typed_queue mq \<Longrightarrow> length (msg_txt msg) = MAX_TXT_SIZE \<Longrightarrow>
   all_res (\<lambda>(r, mq'). typed_queue mq') (send_body pd msg mq)"
  by (auto simp: send_body_def unicast_def typed_broadcast split: option.split intro: all_res_mono [OF typed_append])

lemma scan_bound: "scan P xs i n = Inr (Some j) \<Longrightarrow> j < length xs"
  by (induction n arbitrary: i) (auto split: if_splits)

lemma typed_rcv_body:
  assumes "typed_queue mq"
  shows "all_res (\<lambda>(r, out, mq'). typed_queue mq' \<and> (\<forall>m. out = Some m \<longrightarrow> length (msg_txt m) = MAX_TXT_SIZE))
    (rcv_body pd mq)"
proof -
  note q = typed_queueD [OF assms]
  have n: "nat (msg_count mq) \<le> length (msg_buffer mq)" using q(2,6) by simp
  have "typed_queue (mq\<lparr>msg_buffer := shift_down i (nat (msg_count mq)) (msg_buffer mq), msg_count := msg_count mq - 1\<rparr>)"
    if "0 < msg_count mq" for i
    using set_shift_down [OF n] assms that by (auto simp: typed_queue_def)
  moreover have "0 < msg_count mq \<and> length (msg_txt (msg_buffer mq ! i)) = MAX_TXT_SIZE"
    if "find_message mq pd = Inr (Some i)" for i
  proof -
    have "nat (msg_count mq) \<noteq> 0" using that by (cases "nat (msg_count mq)") (auto simp: find_message_def)
    moreover have "i < length (msg_buffer mq)" using that by (auto simp: find_message_def dest: scan_bound)
    ultimately show ?thesis using q(4) by auto
  qed
  ultimately show ?thesis using assms by (auto simp: rcv_body_def split: option.split)
qed

lemma typed_leave:
  assumes "typed_queue mq"
  shows "typed_queue (leave_queue pd i mq)"
proof -
  note q = typed_queueD [OF assms]
  have n: "nat (msg_count mq) \<le> length (msg_buffer mq)" using q(2,6) by simp
  obtain ys t where d: "drop_messages pd (nat (msg_count mq)) (msg_buffer mq) = (ys, t)"
    by (cases "drop_messages pd (nat (msg_count mq)) (msg_buffer mq)") simp
  have "length (shift_rows i (block_process mq)) = length (block_process mq)"
    unfolding shift_rows_def by (intro length_fold_keeps) simp
  with drop_messages_keeps [OF n d] drop_messages_eq(2) [OF n d] q show ?thesis
    by (auto simp: leave_queue_def Let_def d typed_queue_def shift_members_def clear_row_nth(1) clear_pid_nth(1))
qed


lemma typed_create [typing]:
  assumes "typed k" "length (member_pid qpage) = MAX_MEMBERS" "length (msg_buffer qpage) = MAX_MESSAGES"
    "length (block_process qpage) = MAX_MEMBERS * MAX_MEMBERS + 3"
    "\<forall>m \<in> set (msg_buffer qpage). length (msg_txt m) = MAX_TXT_SIZE"
  shows "all_res (\<lambda>(r, k'). typed k') (do_create_msg_queue q qpage p page k c)"
proof -
  have "typed_queue (init_queue qpage pd)" for pd
    using assms(2-5) by (simp add: init_queue_def typed_queue_def)
  with assms(1) show ?thesis
    by (auto simp: do_create_msg_queue_def Let_def split: option.split
        intro!: all_res_mono [OF typed_set_fd] typed_put_queue)
qed

lemma typed_rcv [typing]:
  "typed k \<Longrightarrow> all_res (\<lambda>(r, out, k'). typed k') (call_msg_queue_rcv k c fd ptr)"
  by (auto simp: call_msg_queue_rcv_def with_fd_def do_msg_queue_rcv_def Let_def
      intro!: typed_with_queue all_res_mono [OF typed_rcv_body] typed_put_queue)

lemma typed_send [typing]:
  "typed k \<Longrightarrow> (\<And>m. msg = Some m \<Longrightarrow> length (msg_txt m) = MAX_TXT_SIZE) \<Longrightarrow>
   all_res (\<lambda>(r, k'). typed k') (call_msg_queue_send k c fd msg)"
  by (auto simp: call_msg_queue_send_def with_fd_def do_msg_queue_send_def Let_def split: option.split
      intro!: typed_with_queue all_res_mono [OF typed_send_body] typed_put_queue)

lemma typed_info [typing]: "typed k \<Longrightarrow> all_res (\<lambda>(r, info, k'). typed k') (do_get_member_info k c fd)"
  by (auto simp: do_get_member_info_def with_fd_def do_msg_queue_get_member_info_def intro!: typed_with_queue)

lemma typed_count [typing]: "typed k \<Longrightarrow> all_res (\<lambda>(r, k'). typed k') (call_get_msg_count k c fd)"
  by (auto simp: call_get_msg_count_def with_fd_def do_get_msg_count_def intro!: typed_with_queue)

lemma typed_block [typing]: "typed k \<Longrightarrow> all_res (\<lambda>(r, k'). typed k') (call_msg_queue_block k c fd pd)"
  by (auto simp: call_msg_queue_block_def with_fd_def do_msg_queue_block_def block_body_def Let_def typed_queue_def
      split: option.split intro!: typed_with_queue typed_put_queue)

lemma typed_queue_close [typing]: "typed k \<Longrightarrow> all_res (\<lambda>(r, k'). typed k') (do_msg_queue_close k c fd)"
  by (auto simp: do_msg_queue_close_def Let_def split: option.split
      intro!: typed_with_queue all_res_mono [OF typed_set_fd] typed_put_queue typed_leave typed_free_queue)

lemma typed_cleanup [typing]: "typed k \<Longrightarrow> all_res typed (do_msg_queue_cleanup k c)"
proof -
  have "typed k \<Longrightarrow> all_res typed (cleanup_loop k c fds)" for fds
  proof (induction fds arbitrary: k)
    case (Cons fd fds)
    have step: "all_res typed (with_queue k fp (Inr k)
        (\<lambda>qa mq. bind_res (do_msg_queue_close k c (int fd)) (\<lambda>(_, k'). Inr k')))" for fp
      using Cons.prems by (intro typed_with_queue) (auto intro: all_res_mono [OF typed_queue_close])
    show ?case by (auto intro: all_res_mono [OF step] Cons.IH)
  qed simp
  then show "typed k \<Longrightarrow> ?thesis" by (simp add: do_msg_queue_cleanup_def)
qed

lemma typed_add_child [typing]: "typed k \<Longrightarrow> all_res typed (do_add_child_to_msg_queue k child)"
proof -
  have add: "typed_queue mq \<Longrightarrow> all_res typed_queue (add_member pd mq)" for pd mq
    by (simp add: add_member_def Let_def typed_queue_def)
  have "typed k \<Longrightarrow> all_res typed (add_child_loop pd k fps)" for pd fps
  proof (induction fps arbitrary: k)
    case (Cons fp fps)
    have step: "all_res typed (with_queue k fp (Inr k)
        (\<lambda>qa mq. bind_res (add_member pd mq) (\<lambda>mq'. Inr (put_queue k qa mq'))))"
      using Cons.prems by (intro typed_with_queue) (auto intro!: all_res_mono [OF add] typed_put_queue)
    show ?case by (auto intro: all_res_mono [OF step] Cons.IH)
  qed simp
  then show "typed k \<Longrightarrow> ?thesis" by (auto simp: do_add_child_to_msg_queue_def)
qed

section \<open>The system calls\<close>

text \<open>What the functions outside \<^verbatim>\<open>src/\<close> have to keep.\<close>

definition typed_env :: "env \<Rightarrow> bool" where
  "typed_env e \<longleftrightarrow>
     (\<forall>k. let (q, qpage) = queue_page e k
          in length (member_pid qpage) = MAX_MEMBERS \<and> length (msg_buffer qpage) = MAX_MESSAGES \<and>
             length (block_process qpage) = MAX_MEMBERS * MAX_MEMBERS + 3 \<and>
             (\<forall>m \<in> set (msg_buffer qpage). length (msg_txt m) = MAX_TXT_SIZE)) \<and>
     (\<forall>k n c. typed k \<longrightarrow> typed (copy_mm e n c k)) \<and>
     (\<forall>k n. typed k \<longrightarrow> typed (setup_child_context e n k)) \<and>
     (\<forall>k c fd. typed k \<longrightarrow> all_res (\<lambda>(r, k'). typed k') (create_pipe e c fd k)) \<and>
     (\<forall>k c nr p1 p2 p3 p4. typed k \<longrightarrow> all_res (\<lambda>(r, k'). typed k') (other_syscall e c nr p1 p2 p3 p4 k))"

lemma typed_envD:
  assumes "typed_env e"
  shows "queue_page e k = (q, qpage) \<Longrightarrow> length (member_pid qpage) = MAX_MEMBERS \<and>
      length (msg_buffer qpage) = MAX_MESSAGES \<and> length (block_process qpage) = MAX_MEMBERS * MAX_MEMBERS + 3 \<and>
      (\<forall>m \<in> set (msg_buffer qpage). length (msg_txt m) = MAX_TXT_SIZE)"
    "typed k \<Longrightarrow> typed (copy_mm e n c k)" "typed k \<Longrightarrow> typed (setup_child_context e n k)"
    "typed k \<Longrightarrow> all_res (\<lambda>(r, k'). typed k') (create_pipe e c fd k)"
    "typed k \<Longrightarrow> all_res (\<lambda>(r, k'). typed k') (other_syscall e c nr p1 p2 p3 p4 k)"
  using assms unfolding typed_env_def Let_def by (auto split: prod.splits)

lemma typed_fork [typing]: "typed k \<Longrightarrow> typed_env e \<Longrightarrow> all_res (\<lambda>(r, k'). typed k') (do_fork e k c)"
proof -
  assume k: "typed k" and e: "typed_env e"
  have "typed (k\<lparr>ctxs := (ctxs k)(n \<mapsto> ctx\<lparr>pid := pd, ppid := pid ctx\<rparr>)\<rparr>)" if "ctxs k c = Some ctx" for n pd ctx
    using typedD(2) [OF k that] by (intro typed_put_ctx k) (simp add: typed_ctx_def)
  then show ?thesis
    by (auto simp: do_fork_def Let_def split: prod.split
        intro!: all_res_mono [OF typed_add_child] typed_envD [OF e])
qed

lemma typed_exit [typing]: "typed k \<Longrightarrow> all_res (\<lambda>(r, k'). typed k') (do_exit k c)"
proof -
  have "typed (k\<lparr>ctxs := (ctxs k)(c \<mapsto> ctx\<lparr>pstate := UNUSED\<rparr>), stats := st\<rparr>)"
    if "typed k" "ctxs k c = Some ctx" for k ctx st
    using typed_put_ctx [OF that(1), of "ctx\<lparr>pstate := UNUSED\<rparr>"] typedD(2) [OF that] typed_frame(3)
    by (simp add: typed_ctx_def)
  then show "typed k \<Longrightarrow> ?thesis"
    by (auto simp: do_exit_def Let_def intro!: all_res_mono [OF typed_cleanup] all_res_mono [OF typing.keep_file_exit])
qed

lemma typed_enter [typing]: "typed k \<Longrightarrow> all_res typed (enter_syscall e k c)"
proof -
  assume k: "typed k"
  have "typed (k\<lparr>ctxs := (ctxs k)(c \<mapsto> ctx\<lparr>regs := load_regs m a\<rparr>), stats := st\<rparr>)"
    if "ctxs k c = Some ctx" for ctx m a st
    using typed_put_ctx [OF k, of "ctx\<lparr>regs := load_regs m a\<rparr>"] typedD(2) [OF k that] typed_frame(3)
    by (simp add: typed_ctx_def load_regs_def)
  then show ?thesis by (simp add: enter_syscall_def Let_def)
qed

lemma typed_returns: "all_res (\<lambda>(r, k'). typed k') r \<Longrightarrow> all_res (\<lambda>(r, k'). typed k') (returns r)"
  by (auto simp: returns_def intro: all_res_mono)

lemma typed_dispatch:
  assumes "typed k" "typed_env e"
  shows "all_res (\<lambda>(r, k'). typed k') (dispatch e k c nr p1 p2 p3 p4)"
proof -
  note [simp] = typed_returns typing assms
  note e = typed_envD [OF assms(2)]
  have msg: "length (msg_txt m) = MAX_TXT_SIZE" if "at_ptr load_message mm a = Some m" for mm a m
    using that by (auto simp: at_ptr_def load_message_text split: if_splits)
  have open_file: "all_res (\<lambda>(r, k'). typed k') (case c_string m a of None \<Rightarrow> Inl RunawayLoop
      | Some fname \<Rightarrow> let (p, page) = file_page e k in returns (do_file_open p page k c fname f1 f2))" for m a f1 f2
    by (simp split: option.split prod.split)
  have create: "all_res (\<lambda>(r, k'). typed k') (let (q, qpage) = queue_page e k; (p, page) = file_page e k
      in returns (do_create_msg_queue q qpage p page k c))"
    using e(1) by (auto split: prod.split intro!: typed_returns typed_create)
  have info: "all_res (\<lambda>(r, k'). typed k') (bind_res (do_get_member_info k c p1) (\<lambda>(r, info, k').
      Inr (Some r, case info of None \<Rightarrow> k' | Some x \<Rightarrow> k'\<lparr>mem := store_info (mem k') p2 x\<rparr>)))"
    by (auto split: option.split intro!: all_res_mono [OF typed_info])
  have rcv: "all_res (\<lambda>(r, k'). typed k') (bind_res (call_msg_queue_rcv k c p1 (p2 \<noteq> 0)) (\<lambda>(r, out, k').
      Inr (Some r, case out of None \<Rightarrow> k' | Some m \<Rightarrow> k'\<lparr>mem := store_message (mem k') p2 m\<rparr>)))"
    by (auto split: option.split intro!: all_res_mono [OF typed_rcv])
  have send: "all_res (\<lambda>(r, k'). typed k') (bind_res (call_sendfile bf k c p1 p2 ofs p4) (\<lambda>(r, off, k').
      Inr (Some r, case off of None \<Rightarrow> k' | Some x \<Rightarrow> k'\<lparr>mem := store64 (mem k') p3 (word_of_int x)\<rparr>)))" for bf ofs
    by (auto split: option.split intro!: all_res_mono [OF typing.keep_sendfile])
  have exit: "all_res (\<lambda>(r, k'). typed k') (bind_res (do_exit k c) (\<lambda>(_, k'). Inr (Some 0, k')))"
    by (auto intro!: all_res_mono [OF typed_exit])
  have other: "all_res (\<lambda>(r, k'). typed k') (returns (other_syscall e c nr p1 p2 p3 p4 k))"
    "all_res (\<lambda>(r, k'). typed k') (returns (do_create_pipe e k c p1))"
    using e(4,5) by (auto simp: do_create_pipe_def intro!: typed_returns)
  have pmap: "all_res (\<lambda>(r, k'). typed k') (bind_res (ctx_at k c) (\<lambda>ctx.
      bind_res (vm_area_dump (stats k) (vm_area ctx) d) (\<lambda>(v, out). Inr (Some v, k))))" for d
    using assms(1) by (auto simp: all_res_def bind_res_def split: sum.splits prod.splits)
  show ?thesis
    unfolding dispatch_def all_res_if
    by (intro conjI impI open_file create info rcv send exit other pmap) (simp_all add: call_msg_queue_close_def msg)
qed

lemma typed_syscall:
  "typed k \<Longrightarrow> typed_env e \<Longrightarrow> all_res (\<lambda>(r, k'). typed k') (do_syscall e k c nr p1 p2 p3 p4)"
  by (auto simp: do_syscall_def intro!: all_res_mono [OF typed_enter] typed_dispatch)

end
