(* ===== verification/MemRegions.thy ===== *)
theory MemRegions
  imports FlatFs
begin

text \<open>
  The regions of physical memory, \<^verbatim>\<open>include/memory.h\<close>: which region a page frame lies in, and what
  that means for the file store, whose frames come from the region named \<open>FILE_STORE_REG\<close>.
\<close>

section \<open>Regions\<close>

definition REGION_OS_DS_START :: u64 where "REGION_OS_DS_START = 0x800000"
definition REGION_OS_PT_START :: u64 where "REGION_OS_PT_START = 0x2000000"
definition REGION_USER_START :: u64 where "REGION_USER_START = 0x6400000"
definition REGION_FILE_DS_START :: u64 where "REGION_FILE_DS_START = 0x20000000"
definition REGION_FILE_STORE_START :: u64 where "REGION_FILE_STORE_START = 0x22000000"
definition ENDMEM :: u64 where "ENDMEM = 0x80000000"

text \<open>The frames of the memory, by their number.\<close>

definition NUM_PAGES :: nat where "NUM_PAGES = 0x80000"

definition OS_DS_REG :: int where "OS_DS_REG = 0"
definition OS_PT_REG :: int where "OS_PT_REG = 1"
definition USER_REG :: int where "USER_REG = 2"
definition FILE_DS_REG :: int where "FILE_DS_REG = 3"
definition FILE_STORE_REG :: int where "FILE_STORE_REG = 4"

named_theorems region_const "the addresses and numbers of memory.h as numerals"

declare REGION_OS_DS_START_def [region_const] REGION_OS_PT_START_def [region_const]
  REGION_USER_START_def [region_const] REGION_FILE_DS_START_def [region_const]
  REGION_FILE_STORE_START_def [region_const] ENDMEM_def [region_const] NUM_PAGES_def [region_const]
  OS_DS_REG_def [region_const] OS_PT_REG_def [region_const] USER_REG_def [region_const]
  FILE_DS_REG_def [region_const] FILE_STORE_REG_def [region_const]

definition get_mem_region :: "u32 \<Rightarrow> int" where
  "get_mem_region pfn =
     (let address = push_bit PAGE_SHIFT (ucast pfn :: u64)
      in if address < REGION_OS_DS_START \<or> address > ENDMEM then -1
         else if address \<ge> REGION_OS_DS_START \<and> address < REGION_OS_PT_START then OS_DS_REG
         else if address \<ge> REGION_OS_PT_START \<and> address < REGION_USER_START then OS_PT_REG
         else if address \<ge> REGION_USER_START \<and> address < REGION_FILE_DS_START then USER_REG
         else if address \<ge> REGION_FILE_DS_START \<and> address < REGION_FILE_STORE_START then FILE_DS_REG
         else FILE_STORE_REG)"

section \<open>Regions as intervals of frames\<close>

lemma uint_frame_addr: "uint (push_bit PAGE_SHIFT (ucast (pfn :: u32) :: u64)) = uint pfn * 4096"
proof -
  have "uint (push_bit 12 (ucast pfn :: u64)) = take_bit 64 (push_bit 12 (uint pfn))"
    by (simp add: unsigned_push_bit_eq)
  also have "push_bit 12 (uint pfn) = uint pfn * 4096" by (simp add: push_bit_eq_mult)
  also have "take_bit 64 (uint pfn * 4096) = uint pfn * 4096"
  proof (rule take_bit_int_eq_self)
    have "(2 :: int) ^ 64 = 18446744073709551616" by simp
    then show "uint pfn * 4096 < 2 ^ 64" using uint_u32_bounds(2) [of pfn] by linarith
  qed simp
  finally show ?thesis by (simp add: PAGE_SHIFT_def)
qed

lemma get_mem_region_frames:
  "get_mem_region pfn =
     (let n = uint pfn
      in if n < 0x800 \<or> n > 0x80000 then -1
         else if n < 0x2000 then OS_DS_REG else if n < 0x6400 then OS_PT_REG
         else if n < 0x20000 then USER_REG else if n < 0x22000 then FILE_DS_REG else FILE_STORE_REG)"
  unfolding get_mem_region_def Let_def word_less_def word_le_def uint_frame_addr
  by (simp add: region_const not_less not_le)

lemma store_frame_iff: "get_mem_region pfn = FILE_STORE_REG \<longleftrightarrow> 0x22000 \<le> uint pfn \<and> uint pfn \<le> 0x80000"
  by (simp add: get_mem_region_frames Let_def region_const not_less)

section \<open>The file store\<close>

text \<open>The frames the allocator hands out for the region, all different, none past the memory.\<close>

definition store_frames :: "(nat \<Rightarrow> u32) \<Rightarrow> bool" where
  "store_frames pfn \<longleftrightarrow> inj_on pfn {..NUM_FILES} \<and>
     (\<forall>k \<le> NUM_FILES. get_mem_region (pfn k) = FILE_STORE_REG \<and> unat (pfn k) < NUM_PAGES)"

lemma store_framesD: "store_frames pfn \<Longrightarrow> k \<le> NUM_FILES \<Longrightarrow> 0x22000 \<le> uint (pfn k) \<and> uint (pfn k) < 0x80000"
proof -
  assume "store_frames pfn" "k \<le> NUM_FILES"
  then have "0x22000 \<le> uint (pfn k)" "unat (pfn k) < 0x80000"
    unfolding store_frames_def store_frame_iff NUM_PAGES_def by blast+
  moreover obtain n where "unat (pfn k) = n" "uint (pfn k) = int n" by (rule word_value_nat)
  ultimately show ?thesis by simp
qed

lemma store_frames_distinct: "store_frames pfn \<Longrightarrow> distinct_frames pfn"
  using store_framesD [of pfn] by (auto simp: distinct_frames_def store_frames_def)

lemma store_inodes:
  assumes pages: "store_frames pfn" and eq: "init_file_system ds_pfn pfn m = (s, m')" and i: "i < NUM_FILES"
  shows "uint REGION_FILE_STORE_START \<le> uint (s_pos (inodes s ! i)) \<and>
    uint (e_pos (inodes s ! i)) \<le> uint ENDMEM"
proof -
  obtain m1 where "init_file_system ds_pfn pfn m =
      (\<lparr>num_files = 0, fs_name = ''flat'', inodes = initial_inodes pfn NUM_FILES\<rparr>, m1)"
    by (rule init_inodes)
  with eq i have ino: "inodes s ! i =
      fresh_inode i (page_addr (pfn (store_page i))) (page_addr (pfn (store_page i)) + 4096)"
    by (auto simp: initial_inodes_def)
  have "store_page i \<le> NUM_FILES" using i by (simp add: store_page_def)
  note f = store_framesD [OF pages this]
  then have "uint (pfn (store_page i)) < 2 ^ 19" by simp
  note r = fresh_region [OF this, of i]
  show ?thesis using f unfolding ino r(2,3) by (simp add: region_const)
qed

end
