(* ===== verification/FileSpec.thy ===== *)
theory FileSpec
  imports KernelSteps
begin

text \<open>
  What the file calls promise a program, without inodes, addresses, reference counts and file objects
  that are freed: a disk is a map from names to bytes, an open file is a name, a position and a mode, and
  it lives as long as a descriptor of some process refers to it. The calls of the kernel refine the calls
  of this file system, one by one and in every order.
\<close>

section \<open>The abstract file system\<close>

text \<open>Open files are told apart by a number; the table of a process maps its descriptors to them.\<close>

record posix =
  disk :: "string \<rightharpoonup> u8 list"
  opens :: "nat \<rightharpoonup> string \<times> nat \<times> u32"
  tables :: "nat \<rightharpoonup> nat option list"

definition held :: "posix \<Rightarrow> nat \<Rightarrow> bool" where
  "held st p \<longleftrightarrow> (\<exists>c fds. tables st c = Some fds \<and> Some p \<in> set fds)"

definition forget :: "posix \<Rightarrow> posix" where
  "forget st = st\<lparr>opens := (\<lambda>p. if held st p then opens st p else None)\<rparr>"

definition put_fd :: "nat \<Rightarrow> int \<Rightarrow> nat option \<Rightarrow> posix \<Rightarrow> posix" where
  "put_fd c fd x st = st\<lparr>tables := (tables st)(c := map_option (\<lambda>fds. fds[nat fd := x]) (tables st c))\<rparr>"

definition fd_open :: "posix \<Rightarrow> nat \<Rightarrow> int \<Rightarrow> (nat \<times> string \<times> nat \<times> u32) option" where
  "fd_open st c fd =
     Option.bind (tables st c) (\<lambda>fds. Option.bind (fds ! nat fd) (\<lambda>p. map_option (Pair p) (opens st p)))"

text \<open>A result is what the call returns, with the bytes it delivers; closing returns nothing.\<close>

type_synonym answer = "int option \<times> u8 list"

definition sp_read :: "nat \<Rightarrow> int \<Rightarrow> nat \<Rightarrow> posix \<Rightarrow> answer \<times> posix" where
  "sp_read c fd n st =
     (case fd_open st c fd of
        None \<Rightarrow> ((Some (-EINVAL), []), st)
      | Some (p, nm, off, md) \<Rightarrow>
          if md AND O_READ = 0 then ((Some (-EACCES), []), st)
          else let (out, bs, off') = spec_read n (the (disk st nm), off)
               in ((Some (int (length out)), out), st\<lparr>opens := (opens st)(p \<mapsto> (nm, off', md))\<rparr>))"

definition sp_write :: "nat \<Rightarrow> int \<Rightarrow> u8 list \<Rightarrow> posix \<Rightarrow> answer \<times> posix" where
  "sp_write c fd ys st =
     (case fd_open st c fd of
        None \<Rightarrow> ((Some (-EINVAL), []), st)
      | Some (p, nm, off, md) \<Rightarrow>
          if md AND O_WRITE = 0 then ((Some (-EACCES), []), st)
          else let (bs, off') = spec_write ys (the (disk st nm), off)
               in ((Some (int (length ys)), []),
                   st\<lparr>disk := (disk st)(nm \<mapsto> bs), opens := (opens st)(p \<mapsto> (nm, off', md))\<rparr>))"

definition sp_seek :: "nat \<Rightarrow> int \<Rightarrow> int \<Rightarrow> whence \<Rightarrow> posix \<Rightarrow> answer \<times> posix" where
  "sp_seek c fd offset wh st =
     (case fd_open st c fd of
        None \<Rightarrow> ((Some (-EINVAL), []), st)
      | Some (p, nm, off, md) \<Rightarrow>
          let sz = length (the (disk st nm));
              target = (case wh of SEEK_SET \<Rightarrow> offset | SEEK_CUR \<Rightarrow> int off + offset
                        | SEEK_END \<Rightarrow> int sz + offset | Other_whence \<Rightarrow> -1)
          in if 0 \<le> target \<and> target \<le> int sz
             then ((Some target, []), st\<lparr>opens := (opens st)(p \<mapsto> (nm, nat target, md))\<rparr>)
             else ((Some (-EINVAL), []), st))"

text \<open>Opening: the name is looked up, a missing file is created when the flags say so.\<close>

definition sp_open :: "nat \<Rightarrow> nat \<Rightarrow> string \<Rightarrow> u64 \<Rightarrow> posix \<Rightarrow> answer \<times> posix" where
  "sp_open c p nm flags st =
     (if flags AND ucast (O_READ OR O_RDWR) = 0 then ((Some (-EINVAL), []), st)
      else if disk st nm = None \<and> flags AND ucast O_CREAT = 0 then ((Some (-EINVAL), []), st)
      else if disk st nm = None \<and> card (dom (disk st)) = NUM_FILES then ((Some (-ENOMEM), []), st)
      else
        let st1 = (if disk st nm = None then st\<lparr>disk := (disk st)(nm \<mapsto> [])\<rparr> else st)
        in case find (\<lambda>fd. the (tables st c) ! fd = None) [3..<MAX_OPEN_FILES] of
             None \<Rightarrow> ((Some (-ENOMEM), []), st1)
           | Some fd \<Rightarrow>
               ((Some (int fd), []),
                put_fd c (int fd) (Some p)
                  (st1\<lparr>opens := (opens st)(p \<mapsto> (nm, 0, ucast (flags XOR ucast O_CREAT)))\<rparr>)))"

definition sp_close :: "nat \<Rightarrow> int \<Rightarrow> posix \<Rightarrow> answer \<times> posix" where
  "sp_close c fd st =
     (case fd_open st c fd of
        None \<Rightarrow> ((Some (-EINVAL), []), st)
      | Some _ \<Rightarrow> ((None, []), forget (put_fd c fd None st)))"

definition sp_dup2 :: "nat \<Rightarrow> int \<Rightarrow> int \<Rightarrow> posix \<Rightarrow> answer \<times> posix" where
  "sp_dup2 c oldfd newfd st =
     (case Option.bind (tables st c) (\<lambda>fds. fds ! nat oldfd) of
        None \<Rightarrow> ((Some (-EINVAL), []), st)
      | Some p \<Rightarrow> ((Some newfd, []), forget (put_fd c newfd (Some p) st)))"

definition sp_exit :: "nat \<Rightarrow> posix \<Rightarrow> answer \<times> posix" where
  "sp_exit c st = ((Some 0, []), forget (st\<lparr>tables := (tables st)(c := None)\<rparr>))"

text \<open>The bytes that sendfile moves are those a read delivers.\<close>

definition sp_sendfile :: "nat \<Rightarrow> int \<Rightarrow> int \<Rightarrow> nat \<Rightarrow> posix \<Rightarrow> answer \<times> posix" where
  "sp_sendfile c outfd infd n st =
     (case (fd_open st c infd, fd_open st c outfd) of
        (Some (p, nm, off, md), Some (q, nm', off', md')) \<Rightarrow>
          if md AND O_READ = 0 \<or> md' AND O_WRITE = 0 then ((Some (-EACCES), []), st)
          else let ((_, out), st1) = sp_read c infd n st in sp_write c outfd out st1
      | _ \<Rightarrow> ((Some (-EINVAL), []), st))"

datatype spec_call =
    SOpen nat string u64 | SRead int nat | SWrite int "u8 list" | SSeek int int whence
  | SDup2 int int | SClose int | SSendfile int int nat | SExit

fun spec_step :: "nat \<times> spec_call \<Rightarrow> posix \<Rightarrow> answer \<times> posix" where
  "spec_step (c, SOpen p nm flags) st = sp_open c p nm flags st"
| "spec_step (c, SRead fd n) st = sp_read c fd n st"
| "spec_step (c, SWrite fd ys) st = sp_write c fd ys st"
| "spec_step (c, SSeek fd offset wh) st = sp_seek c fd offset wh st"
| "spec_step (c, SDup2 oldfd newfd) st = sp_dup2 c oldfd newfd st"
| "spec_step (c, SClose fd) st = sp_close c fd st"
| "spec_step (c, SSendfile outfd infd n) st = sp_sendfile c outfd infd n st"
| "spec_step (c, SExit) st = sp_exit c st"

section \<open>The abstraction of the kernel\<close>

definition obj_of :: "super_block \<Rightarrow> file_obj \<Rightarrow> (string \<times> nat \<times> u32) option" where
  "obj_of s f =
     (if uses_regular f then map_option (\<lambda>i. (filename (inodes s ! i), unat (offp f), fmode f)) (finode f)
      else None)"

definition abs_fs :: "kernel \<Rightarrow> posix" where
  "abs_fs k =
     \<lparr>disk = (\<lambda>n. map_option (file_content k) (flat_lookup_inode (sb k) n)),
      opens = (\<lambda>p. if 0 < refs k p then Option.bind (fheap k p) (obj_of (sb k)) else None),
      tables = (\<lambda>c. case ctxs k c of None \<Rightarrow> None
                    | Some ctx \<Rightarrow> if pstate ctx = UNUSED then None else Some (files ctx))\<rparr>"

text \<open>A regular file's object has all operations of one.\<close>

definition regular_ops :: fileops where
  "regular_ops = \<lparr>fread = Some Do_read_regular, fwrite = Some Do_write_regular,
     flseek = Some Do_lseek_regular, fclose = Some Do_file_close\<rparr>"

definition ops_ok :: "kernel \<Rightarrow> bool" where
  "ops_ok k \<longleftrightarrow> (\<forall>p f. fheap k p = Some f \<longrightarrow> uses_regular f \<longrightarrow> fops f = regular_ops)"

text \<open>
  The calls on regular files, with buffers outside the file store (\<open>buf\<close> is the page of sendfile), and
  what each is on the abstract side.
\<close>

fun regular_call :: "u64 \<Rightarrow> kernel \<Rightarrow> exec_context \<Rightarrow> file_call \<Rightarrow> bool" where
  "regular_call buf k ctx (COpen fname flag mode) \<longleftrightarrow> fname \<notin> {''stdin'', ''stdout'', ''stderr''}"
| "regular_call buf k ctx (CRead fd buff count) \<longleftrightarrow>
     regular_fd k ctx (uint fd) \<and> buffer_apart k buff (unat (ucast count :: u32))"
| "regular_call buf k ctx (CWrite fd buff count) \<longleftrightarrow>
     regular_fd k ctx (uint fd) \<and> buffer_apart k buff (unat (ucast count :: u32))"
| "regular_call buf k ctx (CSeek fd offset wh) \<longleftrightarrow> regular_fd k ctx fd"
| "regular_call buf k ctx (CDup2 oldfd newfd) \<longleftrightarrow> True"
| "regular_call buf k ctx (CClose fd) \<longleftrightarrow> regular_fd k ctx fd"
| "regular_call buf k ctx (CSendfile outfd infd count) \<longleftrightarrow> buffer_apart k buf (nat (int_arg count))"
| "regular_call buf k ctx CExit \<longleftrightarrow> True"

fun abs_call :: "memory \<Rightarrow> nat \<Rightarrow> file_call \<Rightarrow> spec_call" where
  "abs_call m p (COpen fname flag mode) = SOpen p fname flag"
| "abs_call m p (CRead fd buff count) = SRead (uint fd) (unat (ucast count :: u32))"
| "abs_call m p (CWrite fd buff count) = SWrite (uint fd) (read_bytes m buff (unat (ucast count :: u32)))"
| "abs_call m p (CSeek fd offset wh) = SSeek fd offset wh"
| "abs_call m p (CDup2 oldfd newfd) = SDup2 oldfd newfd"
| "abs_call m p (CClose fd) = SClose fd"
| "abs_call m p (CSendfile outfd infd count) =
     SSendfile (int_arg outfd) (int_arg infd) (nat (int_arg count))"
| "abs_call m p CExit = SExit"

text \<open>The bytes a read has put into the caller's buffer.\<close>

fun delivered :: "kernel \<Rightarrow> file_call \<Rightarrow> int option \<Rightarrow> u8 list" where
  "delivered k (CRead fd buff count) r = (case r of None \<Rightarrow> [] | Some n \<Rightarrow> read_bytes (mem k) buff (nat n))"
| "delivered k _ r = []"

section \<open>Descriptors and objects\<close>

lemma tables_abs: "live_ctx k c ctx \<Longrightarrow> tables (abs_fs k) c = Some (files ctx)"
  by (simp add: abs_fs_def live_ctx_def)

lemma ctx_refs_tables:
  "0 < ctx_refs (ctxs k c) p \<longleftrightarrow> (\<exists>fds. tables (abs_fs k) c = Some fds \<and> Some p \<in> set fds)"
  by (auto simp: ctx_refs_def abs_fs_def filter_empty_conv split: option.split)

lemma held_abs:
  assumes "refs_ok k"
  shows "held (abs_fs k) p \<longleftrightarrow> 0 < refs k p"
proof -
  have "refs k p = 0 \<longleftrightarrow> (\<forall>c<MAX_PROCESSES. ctx_refs (ctxs k c) p = 0)"
    by (simp add: refs_def Ball_def)
  then have "0 < refs k p \<longleftrightarrow> (\<exists>c<MAX_PROCESSES. 0 < ctx_refs (ctxs k c) p)"
    by (metis neq0_conv)
  moreover have "c < MAX_PROCESSES" if "0 < ctx_refs (ctxs k c) p" for c
    using that refs_okD(1) [OF assms, of c] by (cases "ctxs k c") (auto simp: ctx_refs_def)
  ultimately show ?thesis unfolding held_def by (metis ctx_refs_tables)
qed

lemma held_tables: "tables st = tables st' \<Longrightarrow> held st p = held st' p"
  by (simp add: held_def)

lemma lookup_of_valid:
  "fs_wf s \<Longrightarrow> i < NUM_FILES \<Longrightarrow> is_valid_inode s i \<Longrightarrow> flat_lookup_inode s (filename (inodes s ! i)) = Some i"
  by (simp add: lookup_Some_iff)

text \<open>A descriptor of a regular file, closed or open, on both sides.\<close>

lemma regular_fd_cases:
  assumes ok: "kernel_ok k" and ops: "ops_ok k" and live: "live_ctx k c ctx" and fd: "fd_in fd"
    and reg: "regular_fd k ctx fd"
  obtains (closed) "get_fd k c fd = Inr None" "fd_open (abs_fs k) c fd = None"
  | (open_file) p f i where "get_fd k c fd = Inr (Some p)" "fheap k p = Some f" "uses_regular f" "fops f = regular_ops"
      "open_regular k p i f" "0 < refs k p" "files ctx ! nat fd = Some p"
      "fd_open (abs_fs k) c fd = Some (p, filename (inodes (sb k) ! i), unat (offp f), fmode f)"
      "flat_lookup_inode (sb k) (filename (inodes (sb k) ! i)) = Some i"
proof (cases "files ctx ! nat fd")
  case None
  with closed live_fd(1) [OF ok live fd] tables_abs [OF live] show ?thesis by (simp add: fd_open_def)
next
  case (Some p)
  note l = live_fd [OF ok live fd]
  obtain f where f: "fheap k p = Some f" "fd_file k ctx fd = Some f" using l(2) [OF Some] by blast
  have u: "uses_regular f" using reg f(2) by (simp add: regular_fd_def)
  obtain i where i: "open_regular k p i f" "is_valid_inode (sb k) i" by (rule kernel_ok_regular [OF ok f(1) u])
  note o = open_regularD [OF i(1)]
  have n: "nat fd < MAX_OPEN_FILES" using fd by (auto simp: fd_in_def nat_less_iff)
  have pos: "0 < refs k p" by (rule refs_pos [OF kernel_okD(2) [OF ok] live n Some])
  have "opens (abs_fs k) p = Some (filename (inodes (sb k) ! i), unat (offp f), fmode f)"
    using pos f(1) u o(3) by (simp add: abs_fs_def obj_of_def)
  then have "fd_open (abs_fs k) c fd = Some (p, filename (inodes (sb k) ! i), unat (offp f), fmode f)"
    using Some tables_abs [OF live] by (simp add: fd_open_def)
  moreover have "fops f = regular_ops" using ops f(1) u by (simp add: ops_ok_def)
  ultimately show ?thesis
    using open_file [OF _ f(1) u _ i(1) pos Some] l(1) Some lookup_of_valid [OF o(1,4) i(2)] by simp
qed

section \<open>Calls that move a position\<close>

text \<open>Only the position of \<open>p\<close> and the bytes of files have changed.\<close>

definition moved :: "kernel \<Rightarrow> nat \<Rightarrow> file_obj \<Rightarrow> kernel \<Rightarrow> bool" where
  "moved k p f k' \<longleftrightarrow> ctxs k' = ctxs k \<and> (\<exists>pos. fheap k' = (fheap k)(p \<mapsto> f\<lparr>offp := pos\<rparr>)) \<and>
     (\<forall>i<NUM_FILES. is_valid_inode (sb k') i = is_valid_inode (sb k) i \<and>
        filename (inodes (sb k') ! i) = filename (inodes (sb k) ! i))"

lemma moved_lookup: "moved k p f k' \<Longrightarrow> flat_lookup_inode (sb k') n = flat_lookup_inode (sb k) n"
  unfolding flat_lookup_inode_def moved_def by (intro find_cong) auto

lemma moved_obj_of:
  assumes "moved k p f k'" "file_inv (sb k) g"
  shows "obj_of (sb k') g = obj_of (sb k) g"
  using assms by (auto simp: obj_of_def moved_def file_inv_def)

lemma moved_ops: "moved k p f k' \<Longrightarrow> fheap k p = Some f \<Longrightarrow> ops_ok k \<Longrightarrow> ops_ok k'"
  by (fastforce simp: moved_def ops_ok_def uses_regular_def split: if_splits)

lemma abs_moved:
  assumes ok: "kernel_ok k" and op: "open_regular k p i f" and u: "uses_regular f" and pos: "0 < refs k p"
    and lk: "flat_lookup_inode (sb k) (filename (inodes (sb k) ! i)) = Some i"
    and m: "moved k p f k'" and v: "view k' p = Some (bs, off')"
    and other: "\<forall>j<NUM_FILES. j \<noteq> i \<longrightarrow> file_content k' j = file_content k j"
  defines "nm \<equiv> filename (inodes (sb k) ! i)"
  shows "abs_fs k' = (abs_fs k)\<lparr>disk := (disk (abs_fs k))(nm \<mapsto> bs),
    opens := (opens (abs_fs k))(p \<mapsto> (nm, off', fmode f))\<rparr>"
proof -
  note o = open_regularD [OF op]
  obtain ps where ps: "fheap k' = (fheap k)(p \<mapsto> f\<lparr>offp := ps\<rparr>)" and cs: "ctxs k' = ctxs k"
    using m by (auto simp: moved_def)
  have vw: "file_content k' i = bs" "unat ps = off'" using v o(3) by (auto simp: view_def ps file_content_def)
  have names: "filename (inodes (sb k') ! i) = nm" using m o(4) by (simp add: moved_def nm_def)
  have "map_option (file_content k') (flat_lookup_inode (sb k) n) =
      (if n = nm then Some bs else map_option (file_content k) (flat_lookup_inode (sb k) n))" for n
  proof (cases "flat_lookup_inode (sb k) n")
    case (Some j)
    with other lk vw(1) lookup_SomeD [OF Some] show ?thesis by (cases "j = i") (auto simp: nm_def)
  qed (use lk in \<open>auto simp: nm_def\<close>)
  moreover have "refs k' = refs k" by (rule refs_cong [OF cs])
  moreover have "obj_of (sb k') (f\<lparr>offp := ps\<rparr>) = Some (nm, off', fmode f)"
    using u o(3) names vw(2) by (simp add: obj_of_def uses_regular_def)
  moreover have "Option.bind (fheap k q) (obj_of (sb k')) = Option.bind (fheap k q) (obj_of (sb k))" for q
    using moved_obj_of [OF m] kernel_okD(3) [OF ok, of q] by (cases "fheap k q") auto
  ultimately show ?thesis
    using pos by (simp add: abs_fs_def ps cs moved_lookup [OF m] fun_eq_iff)
qed

lemma moved_refl: "fheap k p = Some f \<Longrightarrow> moved k p f k"
  unfolding moved_def by (intro conjI exI [of _ "offp f"]) auto

lemma moved_read:
  assumes "do_read_regular k (Some p) buff count = Inr (n, k')" "fheap k p = Some f"
  shows "moved k p f k'"
  using assms moved_refl [OF assms(2)]
  by (auto simp: do_read_regular_def moved_def bind_res_Inr split: option.splits if_splits)

lemma moved_write:
  assumes "do_write_regular k (Some p) buff count = Inr (n, k')" "open_regular k p i f"
  shows "moved k p f k'"
proof -
  note o = open_regularD [OF assms(2)]
  have keep: "is_valid ino' = is_valid ino \<and> filename ino' = filename ino"
    if "flat_write ino m buff c off = Inr (r, ino', m')" for ino m c off r ino' m'
    using that by (auto simp: flat_write_def Let_def split: if_splits)
  have "moved k p f (put_file (k\<lparr>mem := m', sb := (sb k)\<lparr>inodes := (inodes (sb k))[i := ino']\<rparr>\<rparr>) p (f\<lparr>offp := w\<rparr>))"
    if "is_valid ino' = is_valid (inodes (sb k) ! i) \<and> filename ino' = filename (inodes (sb k) ! i)" for ino' m' w
    using that o(4) fs_wfD(1) [OF o(1)] by (auto simp: moved_def is_valid_inode_def nth_list_update)
  with assms(1) o(2,3) moved_refl [OF o(2)] show ?thesis
    by (auto simp: do_write_regular_def bind_res_Inr dest!: keep split: option.splits if_splits)
qed

lemma moved_put: "fheap k p = Some f \<Longrightarrow> moved k p f (put_file k p (f\<lparr>offp := w\<rparr>))"
  by (auto simp: moved_def)


section \<open>Reading, writing and seeking\<close>

lemma abs_disk: "flat_lookup_inode (sb k) n = Some i \<Longrightarrow> disk (abs_fs k) n = Some (file_content k i)"
  by (simp add: abs_fs_def)

lemma mode_bit: "(w :: u32) AND O_READ \<noteq> O_READ \<longleftrightarrow> w AND O_READ = 0"
  using one_bit [of w 0] by (auto simp: O_READ_def)

lemma refine_read_regular:
  assumes ok: "kernel_ok k" and op: "open_regular k p i f" and u: "uses_regular f" and pos: "0 < refs k p"
    and lk: "flat_lookup_inode (sb k) (filename (inodes (sb k) ! i)) = Some i"
    and fd: "fd_open (abs_fs k) c fd = Some (p, filename (inodes (sb k) ! i), unat (offp f), fmode f)"
    and mode: "fmode f AND O_READ \<noteq> 0" and count: "uint count < 2 ^ 31" and apart: "buffer_apart k buff (unat count)"
    and eq: "do_read_regular k (Some p) buff count = Inr (n, k')"
  shows "sp_read c fd (unat count) (abs_fs k) = ((Some n, read_bytes (mem k') buff (nat n)), abs_fs k')"
proof -
  obtain out bs off' where v: "spec_read (unat count) (file_content k i, unat (offp f)) = (out, bs, off')"
    by (metis prod.exhaust)
  note r = do_read_regular_view [OF op mode count apart eq v]
  have m: "moved k p f k'" by (rule moved_read [OF eq open_regularD(2) [OF op]])
  have bs: "bs = file_content k i" using v by (simp add: spec_read_def Let_def)
  have "abs_fs k' = (abs_fs k)\<lparr>disk := (disk (abs_fs k))(filename (inodes (sb k) ! i) \<mapsto> bs),
      opens := (opens (abs_fs k))(p \<mapsto> (filename (inodes (sb k) ! i), off', fmode f))\<rparr>"
    using r(4) by (intro abs_moved [OF ok op u pos lk m r(1)]) simp
  moreover have "(disk (abs_fs k))(filename (inodes (sb k) ! i) \<mapsto> bs) = disk (abs_fs k)"
    using abs_disk [OF lk] bs by (simp add: fun_upd_idem)
  ultimately show ?thesis
    using fd mode v r(2,3) abs_disk [OF lk] by (simp add: sp_read_def)
qed

lemma refine_write_regular:
  assumes ok: "kernel_ok k" and op: "open_regular k p i f" and u: "uses_regular f" and pos: "0 < refs k p"
    and lk: "flat_lookup_inode (sb k) (filename (inodes (sb k) ! i)) = Some i"
    and fd: "fd_open (abs_fs k) c fd = Some (p, filename (inodes (sb k) ! i), unat (offp f), fmode f)"
    and mode: "fmode f AND O_WRITE \<noteq> 0" and fit: "unat (offp f) + unat count \<le> FILE_SIZE"
    and apart: "buffer_apart k buff (unat count)"
    and eq: "do_write_regular k (Some p) buff count = Inr (n, k')"
  shows "sp_write c fd (read_bytes (mem k) buff (unat count)) (abs_fs k) = ((Some n, []), abs_fs k')"
proof -
  obtain bs off' where v: "spec_write (read_bytes (mem k) buff (unat count)) (file_content k i, unat (offp f)) = (bs, off')"
    by fastforce
  have w: "n = int (unat count)" "view k' p = Some (bs, off')"
    "\<forall>j<NUM_FILES. j \<noteq> i \<longrightarrow> file_content k' j = file_content k j"
    using do_write_regular_view [OF op mode fit apart] eq v by (metis Inr_inject Pair_inject)+
  have m: "moved k p f k'" by (rule moved_write [OF eq op])
  from abs_moved [OF ok op u pos lk m w(2,3)] show ?thesis
    using fd mode v w(1) abs_disk [OF lk] by (simp add: sp_write_def)
qed

lemma refine_read:
  assumes ok: "kernel_ok k" and ops: "ops_ok k" and live: "live_ctx k c ctx"
    and may: "may_call k ctx (CRead fd buff count)" and reg: "regular_call buf k ctx (CRead fd buff count)"
    and eq: "do_file_read d k c fd buff count = Inr (r, k')"
  shows "sp_read c (uint fd) (unat (ucast count :: u32)) (abs_fs k) =
      ((Some r, delivered k' (CRead fd buff count) (Some r)), abs_fs k') \<and> ops_ok k'"
proof -
  have fd: "fd_in (uint fd)" "regular_fd k ctx (uint fd)" and count: "uint (ucast count :: u32) < 2 ^ 31"
    and apart: "buffer_apart k buff (unat (ucast count :: u32))" using may reg by simp_all
  have empty: "read_bytes m a (nat (- x)) = []" if "0 \<le> x" for m a x using that by (simp add: read_bytes_def)
  from ok ops live fd show ?thesis
  proof (cases rule: regular_fd_cases)
    case closed
    with eq ops empty [of EINVAL] show ?thesis by (auto simp: do_file_read_def sp_read_def errno)
  next
    case (open_file p f i)
    show ?thesis
    proof (cases "fmode f AND O_READ = 0")
      case True
      then have "fmode f AND O_READ \<noteq> O_READ" by (simp add: O_READ_def)
      with eq ops open_file True empty [of EACCES] show ?thesis
        by (auto simp: do_file_read_def sp_read_def errno)
    next
      case False
      then have "fmode f AND O_READ = O_READ" using mode_bit by blast
      then have "do_read_regular k (Some p) buff (ucast count) = Inr (r, k')"
        using eq open_file(1,2,4) by (simp add: do_file_read_def regular_ops_def del: get_fd_eq)
      with refine_read_regular [OF ok open_file(5,3,6,9,8) False count apart] moved_read [OF this open_file(2)]
        moved_ops [OF _ open_file(2) ops]
      show ?thesis by simp
    qed
  qed
qed

lemma refine_write:
  assumes ok: "kernel_ok k" and ops: "ops_ok k" and live: "live_ctx k c ctx"
    and may: "may_call k ctx (CWrite fd buff count)" and reg: "regular_call buf k ctx (CWrite fd buff count)"
    and eq: "do_file_write d k c fd buff count = Inr (r, k')"
  shows "sp_write c (uint fd) (read_bytes (mem k) buff (unat (ucast count :: u32))) (abs_fs k) =
      ((Some r, []), abs_fs k') \<and> ops_ok k'"
proof -
  have fd: "fd_in (uint fd)" "regular_fd k ctx (uint fd)" and fit: "fits k ctx (uint fd) (uint (ucast count :: u32))"
    and apart: "buffer_apart k buff (unat (ucast count :: u32))" using may reg by simp_all
  from ok ops live fd show ?thesis
  proof (cases rule: regular_fd_cases)
    case closed
    with eq ops show ?thesis by (auto simp: do_file_write_def sp_write_def)
  next
    case (open_file p f i)
    show ?thesis
    proof (cases "fmode f AND O_WRITE = 0")
      case True
      with eq ops open_file show ?thesis by (auto simp: do_file_write_def sp_write_def)
    next
      case False
      have "uint (offp f) + uint (ucast count :: u32) \<le> int FILE_SIZE"
        using fit open_file(2,3,7) by (simp add: fits_def fd_file_def)
      then have sz: "unat (offp f) + unat (ucast count :: u32) \<le> FILE_SIZE"
        unfolding uint_nat of_nat_add [symmetric] of_nat_le_iff .
      have w: "do_write_regular k (Some p) buff (ucast count) = Inr (r, k')"
        using eq open_file(1,2,4) False by (simp add: do_file_write_def regular_ops_def del: get_fd_eq)
      from refine_write_regular [OF ok open_file(5,3,6,9,8) False sz apart w]
        moved_ops [OF moved_write [OF w open_file(5)] open_file(2) ops]
      show ?thesis by simp
    qed
  qed
qed

lemma refine_seek:
  assumes ok: "kernel_ok k" and ops: "ops_ok k" and live: "live_ctx k c ctx"
    and may: "may_call k ctx (CSeek fd offset wh)" and reg: "regular_call buf k ctx (CSeek fd offset wh)"
    and eq: "do_lseek k c fd offset wh = Inr (r, k')"
  shows "sp_seek c fd offset wh (abs_fs k) = ((Some r, []), abs_fs k') \<and> ops_ok k'"
proof -
  have fd: "fd_in fd" "regular_fd k ctx fd" using may reg by simp_all
  from ok ops live fd show ?thesis
  proof (cases rule: regular_fd_cases)
    case closed
    with eq ops show ?thesis by (auto simp: do_lseek_def sp_seek_def)
  next
    case (open_file p f i)
    note o = open_regularD [OF open_file(5)]
    let ?sz = "uint (file_size (inodes (sb k) ! i))"
    have len: "int (length (the (disk (abs_fs k) (filename (inodes (sb k) ! i))))) = ?sz"
      using abs_disk [OF open_file(9)] by (simp add: file_content_def)
    have l: "do_lseek_regular k (Some p) offset wh = Inr (r, k')"
      using eq open_file(1,2,4) by (simp add: do_lseek_def regular_ops_def del: get_fd_eq)
    have step: "abs_fs (put_file k p (f\<lparr>offp := word_of_int t\<rparr>)) =
        (abs_fs k)\<lparr>opens := (opens (abs_fs k))(p \<mapsto> (filename (inodes (sb k) ! i), nat t, fmode f))\<rparr> \<and>
        ops_ok (put_file k p (f\<lparr>offp := word_of_int t\<rparr>))" if t: "0 \<le> t" "t \<le> ?sz" for t
    proof -
      let ?k = "put_file k p (f\<lparr>offp := word_of_int t\<rparr>)"
      have m: "moved k p f ?k" by (rule moved_put [OF open_file(2)])
      have "t < 4294967296" using t(2) uint_u32_bounds(2) [of "file_size (inodes (sb k) ! i)"] by linarith
      then have "unat (word_of_int t :: u32) = nat t" using t(1) by (simp add: unat_eq_nat_uint uint_u32_of_int)
      then have "view ?k p = Some (file_content k i, nat t)" using o(3) by (simp add: view_def file_content_def)
      moreover have "\<forall>j<NUM_FILES. j \<noteq> i \<longrightarrow> file_content ?k j = file_content k j" by (simp add: file_content_def)
      ultimately have "abs_fs ?k = (abs_fs k)\<lparr>disk := (disk (abs_fs k))(filename (inodes (sb k) ! i) \<mapsto> file_content k i),
          opens := (opens (abs_fs k))(p \<mapsto> (filename (inodes (sb k) ! i), nat t, fmode f))\<rparr>"
        by (rule abs_moved [OF ok open_file(5,3,6,9) m])
      with abs_disk [OF open_file(9)] moved_ops [OF m open_file(2) ops] show ?thesis by (simp add: fun_upd_idem)
    qed
    define t where "t = (case wh of SEEK_SET \<Rightarrow> offset | SEEK_CUR \<Rightarrow> uint (offp f) + offset
      | SEEK_END \<Rightarrow> ?sz + offset | Other_whence \<Rightarrow> -1)"
    have code: "do_lseek_regular k (Some p) offset wh =
        (if 0 \<le> t \<and> t \<le> ?sz then Inr (t, put_file k p (f\<lparr>offp := word_of_int t\<rparr>)) else Inr (-EINVAL, k))"
      unfolding do_lseek_regular_eq [OF open_file(5)] by (cases wh) (simp_all add: t_def)
    have spec: "sp_seek c fd offset wh (abs_fs k) = (if 0 \<le> t \<and> t \<le> ?sz
        then ((Some t, []), (abs_fs k)\<lparr>opens := (opens (abs_fs k))(p \<mapsto> (filename (inodes (sb k) ! i), nat t, fmode f))\<rparr>)
        else ((Some (-EINVAL), []), abs_fs k))"
      unfolding sp_seek_def open_file(8) option.case prod.case Let_def len by (cases wh) (simp_all add: t_def)
    show ?thesis
    proof (cases "0 \<le> t \<and> t \<le> ?sz")
      case True
      then have "r = t" "k' = put_file k p (f\<lparr>offp := word_of_int t\<rparr>)" using l unfolding code by auto
      with True spec step show ?thesis by simp
    next
      case False
      with l code have "r = -EINVAL" "k' = k" by auto
      with False spec ops show ?thesis by auto
    qed
  qed
qed

section \<open>Calls that change descriptors\<close>

lemma counts_ops: "only_counts k k' \<Longrightarrow> ops_ok k \<Longrightarrow> ops_ok k'"
  unfolding ops_ok_def
proof (intro allI impI)
  fix p g assume a: "only_counts k k'" "\<forall>p f. fheap k p = Some f \<longrightarrow> uses_regular f \<longrightarrow> fops f = regular_ops"
    "fheap k' p = Some g" "uses_regular g"
  then obtain f where f: "fheap k p = Some f" "g\<lparr>ref_count := 0\<rparr> = f\<lparr>ref_count := 0\<rparr>"
    unfolding only_counts_def by blast
  have "fops (g\<lparr>ref_count := 0\<rparr>) = fops (f\<lparr>ref_count := 0\<rparr>)" by (simp only: f(2))
  then have same: "fops g = fops f" by simp
  with a(4) have "uses_regular f" by (simp add: uses_regular_def)
  with a(2) f(1) same show "fops g = regular_ops" by simp
qed

lemma counts_obj_of:
  assumes "g\<lparr>ref_count := 0\<rparr> = f\<lparr>ref_count := 0\<rparr>"
  shows "obj_of s g = obj_of s f"
proof -
  have zero: "obj_of s (h\<lparr>ref_count := 0\<rparr>) = obj_of s h" for h by (simp add: obj_of_def uses_regular_def)
  have "obj_of s (g\<lparr>ref_count := 0\<rparr>) = obj_of s (f\<lparr>ref_count := 0\<rparr>)" by (simp only: assms)
  then show ?thesis unfolding zero .
qed

text \<open>An object that is still held is the object it was; the others are gone.\<close>

lemma abs_forget:
  assumes refs: "refs_ok k'" and counts: "only_counts k k'" and mem: "mem k' = mem k"
    and less: "\<And>p. 0 < refs k' p \<Longrightarrow> 0 < refs k p"
  shows "abs_fs k' = forget ((abs_fs k)\<lparr>tables := tables (abs_fs k')\<rparr>)"
proof -
  have s: "sb k' = sb k" using counts by (simp add: only_counts_def)
  have op: "opens (abs_fs k') p = (if 0 < refs k' p then opens (abs_fs k) p else None)" for p
  proof (cases "0 < refs k' p")
    case True
    then obtain g where g: "fheap k' p = Some g" using refs_okD(4) [OF refs] by blast
    then obtain f where f: "fheap k p = Some f" "g\<lparr>ref_count := 0\<rparr> = f\<lparr>ref_count := 0\<rparr>"
      using counts unfolding only_counts_def by blast
    have "obj_of (sb k) g = obj_of (sb k) f" by (rule counts_obj_of [OF f(2)])
    with g f(1) True less [OF True] show ?thesis by (simp add: abs_fs_def s)
  qed (simp add: abs_fs_def)
  have hd: "held ((abs_fs k)\<lparr>tables := tables (abs_fs k')\<rparr>) p \<longleftrightarrow> 0 < refs k' p" for p
    using held_abs [OF refs, of p] held_tables [of "(abs_fs k)\<lparr>tables := tables (abs_fs k')\<rparr>" "abs_fs k'" p] by simp
  have dk: "disk (abs_fs k') = disk (abs_fs k)" by (simp add: abs_fs_def s file_content_def [abs_def] mem)
  show ?thesis
  proof (rule posix.equality)
    show "opens (abs_fs k') = opens (forget ((abs_fs k)\<lparr>tables := tables (abs_fs k')\<rparr>))"
      unfolding forget_def hd by (rule ext) (simp add: op)
  qed (simp_all add: forget_def dk)
qed

lemma tables_set:
  assumes "live_ctx k c ctx" "ctxs k' = (ctxs k)(c \<mapsto> ctx\<lparr>files := (files ctx)[nat fd := x]\<rparr>)"
  shows "tables (abs_fs k') = tables (put_fd c fd x (abs_fs k))"
  using assms by (auto simp: abs_fs_def put_fd_def live_ctx_def fun_eq_iff)

lemma abs_put_fd:
  assumes ok: "refs_ok k" and live: "live_ctx k c ctx" and refs: "refs_ok k'" and counts: "only_counts k k'"
    and mem: "mem k' = mem k" and cs: "ctxs k' = (ctxs k)(c \<mapsto> ctx\<lparr>files := (files ctx)[nat fd := x]\<rparr>)"
    and x: "x = None \<or> x \<in> set (files ctx)"
  shows "abs_fs k' = forget (put_fd c fd x (abs_fs k))"
proof -
  note tb = tables_set [OF live cs]
  have "held (abs_fs k) p" if "held (abs_fs k') p" for p
    using that x tables_abs [OF live] set_update_subset_insert [of "files ctx" "nat fd" x]
    by (auto simp: held_def tb put_fd_def split: if_splits)
  then have "abs_fs k' = forget ((abs_fs k)\<lparr>tables := tables (abs_fs k')\<rparr>)"
    using held_abs [OF ok] held_abs [OF refs] by (intro abs_forget [OF refs counts mem]) blast
  then show ?thesis unfolding tb by (simp add: put_fd_def)
qed

lemma drop_ref_frame: "drop_ref k p = Inr k' \<Longrightarrow> ctxs k' = ctxs k \<and> mem k' = mem k"
  by (auto simp: drop_ref_def bind_res_Inr Let_def free_file_object_def split: if_splits)

lemma refine_close:
  assumes ok: "kernel_ok k" and ops: "ops_ok k" and live: "live_ctx k c ctx"
    and may: "may_call k ctx (CClose fd)" and reg: "regular_call buf k ctx (CClose fd)"
    and eq: "do_close k c fd = Inr (r, k')"
  shows "sp_close c fd (abs_fs k) = ((r, []), abs_fs k') \<and> ops_ok k'"
proof -
  have fd: "fd_in fd" "regular_fd k ctx fd" using may reg by simp_all
  from ok ops live fd show ?thesis
  proof (cases rule: regular_fd_cases)
    case closed
    with eq ops show ?thesis by (auto simp: do_close_def sp_close_def)
  next
    case (open_file p f i)
    let ?k1 = "k\<lparr>ctxs := (ctxs k)(c \<mapsto> ctx\<lparr>files := (files ctx)[nat fd := None]\<rparr>)\<rparr>"
    have "set_fd k c fd None = Inr ?k1" using live fd(1) by (simp add: live_ctx_def fd_in_def)
    then have d: "drop_ref ?k1 p = Inr k'" "r = None"
      using eq open_file(1,2,4)
      by (auto simp: do_close_def regular_ops_def do_file_close_def bind_res_Inr simp del: get_fd_eq)
    have "kernel_ok k'" using close_ok [OF ok live, of fd] fd(1) eq by (auto simp: fd_in_def)
    then have refs: "refs_ok k'" by (rule kernel_okD(2))
    have counts: "only_counts k k'" by (rule only_counts_trans [OF only_counts_ctx only_counts_drop [OF d(1)]])
    have "abs_fs k' = forget (put_fd c fd None (abs_fs k))"
      using drop_ref_frame [OF d(1)] by (intro abs_put_fd [OF kernel_okD(2) [OF ok] live refs counts]) simp_all
    with open_file(8) d(2) counts_ops [OF counts ops] show ?thesis by (simp add: sp_close_def)
  qed
qed

lemma refine_dup2:
  assumes ok: "kernel_ok k" and ops: "ops_ok k" and live: "live_ctx k c ctx"
    and may: "may_call k ctx (CDup2 oldfd newfd)" and eq: "do_dup2 k c oldfd newfd = Inr (r, k')"
  shows "sp_dup2 c oldfd newfd (abs_fs k) = ((Some r, []), abs_fs k') \<and> ops_ok k'"
proof -
  have fd: "0 \<le> oldfd" "oldfd < int MAX_OPEN_FILES" "0 \<le> newfd" "newfd < int MAX_OPEN_FILES" "oldfd \<noteq> newfd"
    using may by (simp_all add: fd_in_def)
  have ctx: "ctxs k c = Some ctx" using live by (simp add: live_ctx_def)
  show ?thesis
  proof (cases "files ctx ! nat oldfd")
    case None
    with eq ops fd ctx tables_abs [OF live] show ?thesis by (auto simp: do_dup2_def fd_dup2_def sp_dup2_def)
  next
    case (Some p)
    obtain k2 where k2: "fd_dup2 k c oldfd newfd = Inr (newfd, k2)" "refs_ok k2"
      "ctxs k2 = (ctxs k)(c \<mapsto> ctx\<lparr>files := (files ctx)[nat newfd := Some p]\<rparr>)" "mem k2 = mem k"
      using dup2_refs_ok [OF kernel_okD(2) [OF ok] live fd Some] by metis
    with eq have r: "r = newfd" "k2 = k'" by (simp_all add: do_dup2_def)
    have counts: "only_counts k k'" using only_counts_dup2 [OF k2(1)] r(2) by simp
    have "nat oldfd < length (files ctx)" using refs_okD(2) [OF kernel_okD(2) [OF ok] ctx] fd by simp
    then have "Some p \<in> set (files ctx)" using Some by (metis nth_mem)
    then have "abs_fs k' = forget (put_fd c newfd (Some p) (abs_fs k))"
      using k2(2-4) r(2) by (intro abs_put_fd [OF kernel_okD(2) [OF ok] live _ counts]) simp_all
    with Some r counts_ops [OF counts ops] tables_abs [OF live] show ?thesis by (simp add: sp_dup2_def)
  qed
qed

lemma refine_exit:
  assumes ok: "kernel_ok k" and ops: "ops_ok k" and live: "live_ctx k c ctx"
    and may: "may_call k ctx CExit" and eq: "do_exit k c = Inr (b, k')"
  shows "sp_exit c (abs_fs k) = ((Some 0, []), abs_fs k') \<and> ops_ok k'"
proof -
  obtain b2 k2 where "do_exit k c = Inr (b2, k2)" "kernel_ok k2" "only_counts k k2" "mem k2 = mem k"
    "ctxs k2 = (ctxs k)(c \<mapsto> ctx\<lparr>pstate := UNUSED\<rparr>)"
    by (rule exit_result [OF ok live may])
  with eq have k': "kernel_ok k'" "only_counts k k'" "mem k' = mem k" "ctxs k' = (ctxs k)(c \<mapsto> ctx\<lparr>pstate := UNUSED\<rparr>)"
    by simp_all
  have tb: "tables (abs_fs k') = (tables (abs_fs k))(c := None)" using k'(4) by (auto simp: abs_fs_def fun_eq_iff)
  have "held (abs_fs k) p" if "held (abs_fs k') p" for p
    using that by (auto simp: held_def tb split: if_splits)
  then have "abs_fs k' = forget ((abs_fs k)\<lparr>tables := tables (abs_fs k')\<rparr>)"
    using held_abs [OF kernel_okD(2) [OF ok]] held_abs [OF kernel_okD(2) [OF k'(1)]]
    by (intro abs_forget [OF kernel_okD(2) [OF k'(1)] k'(2,3)]) blast
  with tb counts_ops [OF k'(2) ops] show ?thesis by (simp add: sp_exit_def)
qed


section \<open>Opening\<close>

lemma disk_full:
  assumes wf: "fs_wf (sb k)"
  shows "card (dom (disk (abs_fs k))) = NUM_FILES \<longleftrightarrow> (\<forall>i<NUM_FILES. is_valid_inode (sb k) i)"
proof -
  let ?V = "{i. i < NUM_FILES \<and> is_valid_inode (sb k) i}"
  have "dom (disk (abs_fs k)) = (\<lambda>i. filename (inodes (sb k) ! i)) ` ?V"
    by (auto simp: abs_fs_def dom_def lookup_Some_iff [OF wf])
  moreover have "inj_on (\<lambda>i. filename (inodes (sb k) ! i)) ?V"
    using fs_wfD(4) [OF wf] by (auto simp: inj_on_def)
  ultimately have card: "card (dom (disk (abs_fs k))) = card ?V" by (simp add: card_image)
  show ?thesis
  proof
    assume "card (dom (disk (abs_fs k))) = NUM_FILES"
    then have "?V = {..<NUM_FILES}" using card by (intro card_subset_eq) auto
    then show "\<forall>i<NUM_FILES. is_valid_inode (sb k) i" by auto
  next
    assume "\<forall>i<NUM_FILES. is_valid_inode (sb k) i"
    then have "?V = {..<NUM_FILES}" by auto
    with card show "card (dom (disk (abs_fs k))) = NUM_FILES" by simp
  qed
qed

text \<open>The file of a name: there is none and none may be made, there is one, or one is made.\<close>

lemma open_inode_cases:
  assumes wf: "fs_wf s" and eq: "open_inode s n flags mode = Inr (r, s')"
  obtains (absent) "flat_lookup_inode s n = None" "flags AND ucast O_CREAT = 0" "r = Inl (-EINVAL)" "s' = s"
  | (full) "flat_lookup_inode s n = None" "flags AND ucast O_CREAT \<noteq> 0" "\<forall>i<NUM_FILES. is_valid_inode s i"
      "r = Inl (-ENOMEM)" "s' = s"
  | (present) i where "flat_lookup_inode s n = Some i" "r = Inr i" "s' = s"
  | (created) i where "flat_lookup_inode s n = None" "flags AND ucast O_CREAT \<noteq> 0" "i < NUM_FILES"
      "\<not> is_valid_inode s i" "r = Inr i" "fs_wf s'" "file_size (inodes s' ! i) = 0"
      "\<forall>j. j \<noteq> i \<longrightarrow> inodes s' ! j = inodes s ! j"
      "\<forall>n'. flat_lookup_inode s' n' = (if n' = n then Some i else flat_lookup_inode s n')"
proof (cases "flat_lookup_inode s n")
  case (Some i)
  with eq have "r = Inr i" "s' = s" by (auto simp: open_inode_def get_or_create_def lookup_inode_def)
  with present [OF Some] show ?thesis by simp
next
  case None
  show ?thesis
  proof (cases "flags AND ucast O_CREAT = 0")
    case True
    with eq None have "r = Inl (-EINVAL)" "s' = s" by (auto simp: open_inode_def get_or_create_def lookup_inode_def)
    with absent [OF None True] show ?thesis by simp
  next
    case False
    have "bind_res (create_inode s n mode) (\<lambda>(i, s'). case i of None \<Rightarrow> Inr (Inl (-ENOMEM), s') | Some i \<Rightarrow> Inr (Inr i, s')) = Inr (r, s')"
      using eq None False by (simp add: open_inode_def get_or_create_def lookup_inode_def)
    then obtain a where a: "create_inode s n mode = Inr (a, s')"
      "r = (case a of None \<Rightarrow> Inl (-ENOMEM) | Some i \<Rightarrow> Inr i)"
      by (auto simp: bind_res_Inr split: option.splits)
    show ?thesis
    proof (cases a)
      case None': None
      then obtain r' where r': "flat_create_inode s n (ucast mode) = Inr (r', s')" "r' < 0"
        using a(1) by (auto simp: create_inode_None)
      have "\<forall>i<NUM_FILES. is_valid_inode s i"
      proof (cases rule: get_free_inode_cases [of s])
        case (free i)
        with create_new [OF None free(1,2), of "ucast mode"] r' show ?thesis by (auto split: if_splits)
      qed
      then show ?thesis using full [OF None False] a(2) None' create_fail(2) [OF r'] by simp
    next
      case (Some i)
      then obtain r' where r': "flat_create_inode s n (ucast mode) = Inr (r', s')" "0 \<le> r'" "i = nat r'"
        using a(1) by (auto simp: create_inode_Some)
      note c = create_lookup [OF wf r'(1,2)]
      show ?thesis
      proof (rule created [OF None False])
        show "\<forall>n'. flat_lookup_inode s' n' = (if n' = n then Some i else flat_lookup_inode s n')"
          using c(2) create_lookup_other [OF wf r'(1)] r'(3) by auto
      qed (use c r'(3) a(2) Some create_wf [OF wf r'(1)] in simp_all)
    qed
  qed
qed

text \<open>A new file is empty; the others and the open files are as they were.\<close>

lemma abs_created:
  assumes ok: "kernel_ok k" and n: "flat_lookup_inode (sb k) n = None" and i: "\<not> is_valid_inode (sb k) i"
    and size: "file_size (inodes s' ! i) = 0" and other: "\<forall>j. j \<noteq> i \<longrightarrow> inodes s' ! j = inodes (sb k) ! j"
    and lk: "\<forall>n'. flat_lookup_inode s' n' = (if n' = n then Some i else flat_lookup_inode (sb k) n')"
  shows "abs_fs (k\<lparr>sb := s'\<rparr>) = (abs_fs k)\<lparr>disk := (disk (abs_fs k))(n \<mapsto> [])\<rparr>"
proof -
  have "obj_of s' g = obj_of (sb k) g" if "fheap k q = Some g" for q g
    using kernel_okD(3) [OF ok that] other i by (auto simp: obj_of_def file_inv_def)
  then have "Option.bind (fheap k q) (obj_of s') = Option.bind (fheap k q) (obj_of (sb k))" for q
    by (cases "fheap k q") auto
  moreover have "file_content (k\<lparr>sb := s'\<rparr>) i = []"
    using size by (simp add: file_content_def file_bytes_def read_bytes_def)
  moreover have "file_content (k\<lparr>sb := s'\<rparr>) j = file_content k j" if "flat_lookup_inode (sb k) n' = Some j" for n' j
  proof -
    have "j \<noteq> i" using lookup_SomeD [OF that] i by auto
    with other show ?thesis by (simp add: file_content_def)
  qed
  then have "map_option (file_content (k\<lparr>sb := s'\<rparr>)) (flat_lookup_inode (sb k) n') =
      map_option (file_content k) (flat_lookup_inode (sb k) n')" for n'
    by (cases "flat_lookup_inode (sb k) n'") auto
  ultimately show ?thesis by (intro posix.equality) (auto simp: abs_fs_def lk fun_eq_iff)
qed


lemma open_inode_abs:
  assumes ok: "kernel_ok k" and eq: "open_inode (sb k) n flags mode = Inr (r, s')"
  shows "r = Inl e \<Longrightarrow> s' = sb k \<and> disk (abs_fs k) n = None \<and>
      e = (if flags AND ucast O_CREAT = 0 then -EINVAL else -ENOMEM) \<and>
      (flags AND ucast O_CREAT \<noteq> 0 \<longrightarrow> card (dom (disk (abs_fs k))) = NUM_FILES)"
    and "r = Inr i \<Longrightarrow>
      (disk (abs_fs k) n = None \<longrightarrow> flags AND ucast O_CREAT \<noteq> 0 \<and> card (dom (disk (abs_fs k))) \<noteq> NUM_FILES) \<and>
      abs_fs (k\<lparr>sb := s'\<rparr>) = (if disk (abs_fs k) n = None then (abs_fs k)\<lparr>disk := (disk (abs_fs k))(n \<mapsto> [])\<rparr> else abs_fs k) \<and>
      filename (inodes s' ! i) = n"
proof -
  have none: "disk (abs_fs k) n = None \<longleftrightarrow> flat_lookup_inode (sb k) n = None" by (simp add: abs_fs_def)
  note full = disk_full [OF kernel_okD(1) [OF ok]]
  from kernel_okD(1) [OF ok] eq
  have "(r = Inl e \<longrightarrow> s' = sb k \<and> disk (abs_fs k) n = None \<and>
      e = (if flags AND ucast O_CREAT = 0 then -EINVAL else -ENOMEM) \<and>
      (flags AND ucast O_CREAT \<noteq> 0 \<longrightarrow> card (dom (disk (abs_fs k))) = NUM_FILES)) \<and> (r = Inr i \<longrightarrow>
      (disk (abs_fs k) n = None \<longrightarrow> flags AND ucast O_CREAT \<noteq> 0 \<and> card (dom (disk (abs_fs k))) \<noteq> NUM_FILES) \<and>
      abs_fs (k\<lparr>sb := s'\<rparr>) = (if disk (abs_fs k) n = None then (abs_fs k)\<lparr>disk := (disk (abs_fs k))(n \<mapsto> [])\<rparr> else abs_fs k) \<and>
      filename (inodes s' ! i) = n)"
  proof (cases rule: open_inode_cases)
    case (present i)
    with lookup_SomeD [OF present(1)] none show ?thesis by auto
  next
    case (created i)
    have "\<not> (\<forall>i<NUM_FILES. is_valid_inode (sb k) i)" using created(3,4) by blast
    moreover have "filename (inodes s' ! i) = n" using lookup_SomeD [of s' n i] created(9) by simp
    ultimately show ?thesis
      using abs_created [OF ok created(1,4,7,8,9)] created(1,2,5) none full by auto
  qed (use none full in auto)
  then show "r = Inl e \<Longrightarrow> s' = sb k \<and> disk (abs_fs k) n = None \<and>
      e = (if flags AND ucast O_CREAT = 0 then -EINVAL else -ENOMEM) \<and>
      (flags AND ucast O_CREAT \<noteq> 0 \<longrightarrow> card (dom (disk (abs_fs k))) = NUM_FILES)"
    "r = Inr i \<Longrightarrow>
      (disk (abs_fs k) n = None \<longrightarrow> flags AND ucast O_CREAT \<noteq> 0 \<and> card (dom (disk (abs_fs k))) \<noteq> NUM_FILES) \<and>
      abs_fs (k\<lparr>sb := s'\<rparr>) = (if disk (abs_fs k) n = None then (abs_fs k)\<lparr>disk := (disk (abs_fs k))(n \<mapsto> [])\<rparr> else abs_fs k) \<and>
      filename (inodes s' ! i) = n"
    by blast+
qed

lemma abs_unheld:
  assumes "refs_ok k" "fheap k p = None"
  shows "abs_fs ((put_file k p f)\<lparr>stats := st\<rparr>) = abs_fs k"
proof -
  have ct: "counts_ok (fheap k) (refs k)" using assms(1) by (simp add: refs_ok_def)
  have "refs k p = 0" using counts_okD(2) [OF ct, of p] assms(2) by (cases "refs k p = 0") auto
  then show ?thesis by (auto simp: abs_fs_def file_content_def [abs_def] fun_eq_iff)
qed

lemma abs_opened:
  assumes ok: "refs_ok k" and live: "live_ctx k c ctx" and p: "fheap k p = None" and fd: "free_fd ctx = Some fd"
  shows "abs_fs ((put_file k p (opened_file page i flags))
      \<lparr>stats := st, ctxs := (ctxs k)(c \<mapsto> ctx\<lparr>files := (files ctx)[fd := Some p]\<rparr>)\<rparr>) =
    put_fd c (int fd) (Some p) ((abs_fs k)\<lparr>opens := (opens (abs_fs k))
      (p \<mapsto> (filename (inodes (sb k) ! i), 0, ucast (flags XOR ucast O_CREAT)))\<rparr>)"
    (is "abs_fs ?k = _")
proof -
  note free = free_fdD [OF fd]
  have cs: "ctxs ?k = (ctxs k)(c \<mapsto> ctx\<lparr>files := (files ctx)[fd := Some p]\<rparr>)" by simp
  have ct: "counts_ok (fheap k) (refs k)" using ok by (simp add: refs_ok_def)
  have "refs k p = 0" using counts_okD(2) [OF ct, of p] p by (cases "refs k p = 0") auto
  then have r: "refs ?k = (refs k)(p := 1)"
    using refs_replace(2) [OF ok live _ cs] free by (auto simp: fun_eq_iff)
  have "obj_of (sb k) (opened_file page i flags) = Some (filename (inodes (sb k) ! i), 0, ucast (flags XOR ucast O_CREAT))"
    by (simp add: obj_of_def opened_file_def uses_regular_def)
  then have "opens (abs_fs ?k) = (opens (abs_fs k))(p \<mapsto> (filename (inodes (sb k) ! i), 0, ucast (flags XOR ucast O_CREAT)))"
    unfolding abs_fs_def posix.simps r by (auto simp: fun_eq_iff)
  moreover have "tables (abs_fs ?k) = tables (put_fd c (int fd) (Some p) (abs_fs k))"
    using tables_set [OF live, of ?k "int fd"] by simp
  moreover have "disk (abs_fs ?k) = disk (abs_fs k)" by (simp add: abs_fs_def file_content_def [abs_def])
  ultimately show ?thesis by (intro posix.equality) (simp_all add: put_fd_def)
qed

lemma refine_open:
  assumes ok: "kernel_ok k" and ops: "ops_ok k" and live: "live_ctx k c ctx" and p: "fheap k p = None"
    and reg: "regular_call buf k ctx (COpen fname flags mode)"
    and eq: "do_file_open p page k c fname flags mode = Inr (r, k')"
  shows "sp_open c p fname flags (abs_fs k) = ((Some r, []), abs_fs k') \<and> ops_ok k'"
proof -
  have ctx: "ctxs k c = Some ctx" using live by (simp add: live_ctx_def)
  have o: "do_regular_file_open p page k c fname flags mode = Inr (r, k')"
    using eq reg by (simp add: do_file_open_def)
  have ops': "ops_ok k1" if "fheap k1 = (fheap k)(p \<mapsto> opened_file page i flags)" for k1 i
    using ops by (simp add: ops_ok_def that opened_file_def regular_ops_def)
  have refs: "refs_ok (k\<lparr>sb := s\<rparr>)" "live_ctx (k\<lparr>sb := s\<rparr>) c ctx" for s
    using refs_ok_frame [OF kernel_okD(2) [OF ok], of "k\<lparr>sb := s\<rparr>"] live by (simp_all add: live_ctx_def)
  have find: "find (\<lambda>fd. the (tables (abs_fs k) c) ! fd = None) [3..<MAX_OPEN_FILES] = free_fd ctx"
    by (simp add: free_fd_def tables_abs [OF live])
  show ?thesis
  proof (cases "flags AND ucast (O_READ OR O_RDWR) = 0")
    case True
    with o ops show ?thesis by (auto simp: do_regular_file_open_def sp_open_def)
  next
    case acc: False
    from ctx o show ?thesis
    proof (cases rule: open_cases)
      case (no_inode s')
      note a = open_inode_abs(1) [OF ok no_inode(1) refl]
      then have "k' = k" using no_inode(2) by simp
      with a acc ops show ?thesis by (auto simp: sp_open_def)
    next
      case (no_fd s' i)
      note a = open_inode_abs(2) [OF ok no_fd(1) refl]
      have "abs_fs k' = abs_fs (k\<lparr>sb := s'\<rparr>)" unfolding no_fd(4) using p by (intro abs_unheld refs) simp
      moreover have "ops_ok k'" using ops' [of k' i] by (simp add: no_fd(4))
      ultimately show ?thesis using a acc no_fd(2,3) by (auto simp: sp_open_def find Let_def)
    next
      case (opened s' i fd)
      note a = open_inode_abs(2) [OF ok opened(1) refl]
      have "abs_fs k' = put_fd c (int fd) (Some p) ((abs_fs (k\<lparr>sb := s'\<rparr>))\<lparr>opens := (opens (abs_fs (k\<lparr>sb := s'\<rparr>)))
          (p \<mapsto> (fname, 0, ucast (flags XOR ucast O_CREAT)))\<rparr>)"
        using abs_opened [OF refs(1) [of s'] refs(2) [of s'], where p = p and fd = fd and page = page and i = i and flags = flags and st = "(stats k)\<lparr>file_objects := file_objects (stats k) + 1\<rparr>"] p opened(2) a
        by (simp add: opened(4))
      moreover have "ops_ok k'" using ops' [of k' i] by (simp add: opened(4))
      ultimately show ?thesis using a acc opened(2,3) by (auto simp: sp_open_def find Let_def)
    qed (use acc in simp)
  qed
qed

section \<open>Sendfile\<close>

lemma live_moved: "moved k p f k' \<Longrightarrow> live_ctx k' c ctx = live_ctx k c ctx"
  by (simp add: moved_def live_ctx_def)

lemma refine_sendfile:
  assumes ok: "kernel_ok k" and ops: "ops_ok k" and live: "live_ctx k c ctx"
    and may: "may_call k ctx (CSendfile outfd infd count)"
    and reg: "regular_call buf k ctx (CSendfile outfd infd count)"
    and eq: "call_sendfile buf k c outfd infd None count = Inr (r, off, k')"
  shows "sp_sendfile c (int_arg outfd) (int_arg infd) (nat (int_arg count)) (abs_fs k) = ((Some r, []), abs_fs k') \<and>
    ops_ok k'"
proof -
  define m where "m = int_arg count"
  have fds: "fd_in (int_arg outfd)" "fd_in (int_arg infd)" and m: "0 \<le> m"
    and reg': "regular_fd k ctx (int_arg infd)" "regular_fd k ctx (int_arg outfd)"
    and diff: "files ctx ! nat (int_arg infd) \<noteq> files ctx ! nat (int_arg outfd)"
    and fits: "fits k ctx (int_arg outfd) m" and apart: "buffer_apart k buf (nat m)"
    using may reg by (simp_all add: m_def)
  have call: "do_sendfile buf k c (int_arg outfd) (int_arg infd) None m = Inr (r, off, k')"
    using eq by (simp add: call_sendfile_def int_arg_def m_def)
  from ok ops live fds(2) reg'(1) show ?thesis
  proof (cases rule: regular_fd_cases)
    case closed
    with call ops show ?thesis by (auto simp: do_sendfile_def sp_sendfile_def)
  next
    case inp: (open_file p f i)
    from ok ops live fds(1) reg'(2) show ?thesis
    proof (cases rule: regular_fd_cases)
      case closed
      with call ops inp show ?thesis by (auto simp: do_sendfile_def sp_sendfile_def)
    next
      case outp: (open_file q g j)
      show ?thesis
      proof (cases "fmode f AND O_READ = 0 \<or> fmode g AND O_WRITE = 0")
        case True
        then have "do_sendfile buf k c (int_arg outfd) (int_arg infd) None m = Inr (-EACCES, None, k)"
          using inp(1,2) outp(1,2) by (cases "fmode f AND O_READ = 0") (simp_all add: do_sendfile_def del: get_fd_eq)
        with call have "r = -EACCES" "k' = k" by simp_all
        with True ops inp(8) outp(8) show ?thesis by (auto simp: sp_sendfile_def)
      next
        case False
        then have mode: "fmode f AND O_READ \<noteq> 0" "fmode g AND O_WRITE \<noteq> 0" by simp_all
        have pq: "p \<noteq> q" using diff inp(7) outp(7) by auto
        have fit: "uint (offp g) + m \<le> int FILE_SIZE" using fits outp(2,3,7) by (simp add: fits_def fd_file_def)
        then have "m < 2 ^ 31" by (simp add: fs_const, use uint_u32_bounds(1) [of "offp g"] in linarith)
        then have mm: "uint (word_of_int m :: u32) = m" "unat (word_of_int m :: u32) = nat m"
          using m by (simp_all add: unat_eq_nat_uint uint_u32_of_int)
        obtain n k1 where rd: "do_read_regular k (Some p) buf (word_of_int m) = Inr (n, k1)" "kernel_ok k1"
          "0 \<le> n" "n \<le> m" "fheap k1 = (fheap k)(p \<mapsto> f\<lparr>offp := offp f + word_of_int n\<rparr>)" "sb k1 = sb k"
          using read_regular_ok [OF ok inp(2,3) mode(1), of "word_of_int m" buf] mm(1) \<open>m < 2 ^ 31\<close> by auto
        have w: "do_write_regular k1 (Some q) buf (word_of_int n) = Inr (r, k')"
          using call inp(1,2) outp(1,2) mode rd(1) by (auto simp: do_sendfile_def sendfile_read_def bind_res_Inr simp del: get_fd_eq)
        have nn: "unat (word_of_int n :: u32) = nat n"
          using rd(3,4) \<open>m < 2 ^ 31\<close> by (simp add: unat_eq_nat_uint uint_u32_of_int)
        have mv: "moved k p f k1" by (rule moved_read [OF rd(1) inp(2)])
        have sr: "sp_read c (int_arg infd) (nat m) (abs_fs k) = ((Some n, read_bytes (mem k1) buf (nat n)), abs_fs k1)"
          using refine_read_regular [OF ok inp(5,3,6,9,8) mode(1) _ _ rd(1)] mm \<open>m < 2 ^ 31\<close> apart by simp
        have ops1: "ops_ok k1" by (rule moved_ops [OF mv inp(2) ops])
        have live1: "live_ctx k1 c ctx" using live live_moved [OF mv] by simp
        have g1: "fheap k1 q = Some g" using rd(5) outp(2) pq by simp
        have "regular_fd k1 ctx (int_arg outfd)" using g1 outp(3,7) by (simp add: regular_fd_def fd_file_def)
        with rd(2) ops1 live1 fds(1)
        have "sp_write c (int_arg outfd) (read_bytes (mem k1) buf (nat n)) (abs_fs k1) = ((Some r, []), abs_fs k') \<and> ops_ok k'"
        proof (cases rule: regular_fd_cases)
          case closed
          with live_fd(1) [OF rd(2) live1 fds(1)] outp(7) show ?thesis by simp
        next
          case (open_file q' g' j')
          then have same: "q' = q" "g' = g" using outp(7) g1 by auto
          have w': "do_write_regular k1 (Some q') buf (word_of_int n) = Inr (r, k')" using w same(1) by simp
          have mode': "fmode g' AND O_WRITE \<noteq> 0" using mode(2) same(2) by simp
          have "int (unat (offp g) + nat n) \<le> int FILE_SIZE" using fit rd(3,4) by simp
          then have fit': "unat (offp g') + unat (word_of_int n :: u32) \<le> FILE_SIZE"
            unfolding same(2) nn of_nat_le_iff .
          have apart': "buffer_apart k1 buf (unat (word_of_int n :: u32))"
            using buffer_apart_mono [OF apart, of "nat n"] rd(3,4) unfolding nn by (simp add: buffer_apart_def rd(6))
          from refine_write_regular [OF rd(2) open_file(5,3,6,9,8) mode' fit' apart' w']
            moved_ops [OF moved_write [OF w' open_file(5)] open_file(2) ops1]
          show ?thesis unfolding nn by simp
        qed
        with sr inp(8) outp(8) mode show ?thesis by (simp add: sp_sendfile_def m_def)
      qed
    qed
  qed
qed


section \<open>Refinement, call by call\<close>

text \<open>
  The runs of a system whose steps may fault and answer, and of a specification that answers to labels.
  A step records the label of the specification it stands for.
\<close>

primrec run_all :: "('c \<Rightarrow> 'k \<Rightarrow> ('e \<times> 'k) res) \<Rightarrow> 'c list \<Rightarrow> 'k \<Rightarrow> ('e list \<times> 'k) res" where
  "run_all ex [] k = Inr ([], k)"
| "run_all ex (c # cs) k =
     bind_res (ex c k) (\<lambda>(e, k'). bind_res (run_all ex cs k') (\<lambda>(es, k''). Inr (e # es, k'')))"

primrec spec_all :: "('l \<Rightarrow> 's \<Rightarrow> 'a \<times> 's) \<Rightarrow> 'l list \<Rightarrow> 's \<Rightarrow> 'a list \<times> 's" where
  "spec_all sp [] s = ([], s)"
| "spec_all sp (l # ls) s = (let (a, s') = sp l s; (as, s'') = spec_all sp ls s' in (a # as, s''))"

text \<open>Every step is permitted in the state in which it is made.\<close>

primrec permitted_all :: "('c \<Rightarrow> 'k \<Rightarrow> bool) \<Rightarrow> ('c \<Rightarrow> 'k \<Rightarrow> ('e \<times> 'k) res) \<Rightarrow> 'c list \<Rightarrow> 'k \<Rightarrow> bool" where
  "permitted_all P ex [] k = True"
| "permitted_all P ex (c # cs) k \<longleftrightarrow> P c k \<and> (\<forall>e k'. ex c k = Inr (e, k') \<longrightarrow> permitted_all P ex cs k')"

locale refined =
  fixes inv :: "'k \<Rightarrow> bool" and abstraction :: "'k \<Rightarrow> 's" and permitted :: "'c \<Rightarrow> 'k \<Rightarrow> bool"
    and ex :: "'c \<Rightarrow> 'k \<Rightarrow> (('l \<times> 'a) \<times> 'k) res" and sp :: "'l \<Rightarrow> 's \<Rightarrow> 'a \<times> 's"
  assumes step_refines: "inv k \<Longrightarrow> permitted c k \<Longrightarrow>
    \<exists>l a k'. ex c k = Inr ((l, a), k') \<and> inv k' \<and> sp l (abstraction k) = (a, abstraction k')"
begin

lemma run_refines:
  "inv k \<Longrightarrow> permitted_all permitted ex cs k \<Longrightarrow>
   \<exists>es k'. run_all ex cs k = Inr (es, k') \<and> inv k' \<and>
     spec_all sp (map fst es) (abstraction k) = (map snd es, abstraction k')"
proof (induction cs arbitrary: k)
  case (Cons c cs)
  have "permitted c k" using Cons.prems(2) by simp
  then obtain l a k1 where s: "ex c k = Inr ((l, a), k1)" "inv k1" "sp l (abstraction k) = (a, abstraction k1)"
    using step_refines [OF Cons.prems(1)] by blast
  with Cons.prems(2) obtain es k2 where "run_all ex cs k1 = Inr (es, k2)" "inv k2"
    "spec_all sp (map fst es) (abstraction k1) = (map snd es, abstraction k2)"
    using Cons.IH [of k1] by auto
  with s show ?case by (intro exI [of _ "((l, a)) # es"] exI [of _ k2]) simp
qed simp

end

section \<open>The file calls refine the file system\<close>

text \<open>
  A call of process \<open>proc\<close> and what it meets: the device, the page the allocator gives for a file object
  and what it held, and the page for the buffer of sendfile.
\<close>

record event =
  ev_dev :: device
  obj_at :: nat
  obj_page :: file_obj
  buf_page :: u64
  proc :: nat
  ev_call :: file_call

definition exec_event :: "event \<Rightarrow> kernel \<Rightarrow> (((nat \<times> spec_call) \<times> answer) \<times> kernel) res" where
  "exec_event ev k =
     bind_res (run_call (ev_dev ev) (obj_at ev) (obj_page ev) (buf_page ev) k (proc ev) (ev_call ev)) (\<lambda>(r, k').
       Inr (((proc ev, abs_call (mem k) (obj_at ev) (ev_call ev)), (r, delivered k' (ev_call ev) r)), k'))"

definition event_ok :: "event \<Rightarrow> kernel \<Rightarrow> bool" where
  "event_ok ev k \<longleftrightarrow> fheap k (obj_at ev) = None \<and>
     (case ctxs k (proc ev) of None \<Rightarrow> False
      | Some ctx \<Rightarrow> live_ctx k (proc ev) ctx \<and> may_call k ctx (ev_call ev) \<and>
          regular_call (buf_page ev) k ctx (ev_call ev))"

lemma returnsD: "returns x = Inr (r, k') \<Longrightarrow> \<exists>v. x = Inr (v, k') \<and> r = Some v"
  by (auto simp: returns_def bind_res_Inr)

lemma refine_call:
  assumes ok: "kernel_ok k" and ops: "ops_ok k" and live: "live_ctx k c ctx" and p: "fheap k p = None"
    and may: "may_call k ctx cl" and reg: "regular_call buf k ctx cl"
    and eq: "run_call d p page buf k c cl = Inr (r, k')"
  shows "spec_step (c, abs_call (mem k) p cl) (abs_fs k) = ((r, delivered k' cl r), abs_fs k') \<and> ops_ok k'"
proof (cases cl)
  case (COpen fname flags mode)
  obtain v where "do_file_open p page k c fname flags mode = Inr (v, k')" "r = Some v"
    using eq returnsD unfolding COpen run_call.simps by blast
  with refine_open [OF ok ops live p reg [unfolded COpen]] show ?thesis unfolding COpen by simp
next
  case (CRead fd buff count)
  obtain v where "do_file_read d k c fd buff count = Inr (v, k')" "r = Some v"
    using eq returnsD unfolding CRead run_call.simps by blast
  with refine_read [OF ok ops live may [unfolded CRead] reg [unfolded CRead]] show ?thesis
    unfolding CRead by (simp del: delivered.simps)
next
  case (CWrite fd buff count)
  obtain v where "do_file_write d k c fd buff count = Inr (v, k')" "r = Some v"
    using eq returnsD unfolding CWrite run_call.simps by blast
  with refine_write [OF ok ops live may [unfolded CWrite] reg [unfolded CWrite]] show ?thesis unfolding CWrite by simp
next
  case (CSeek fd offset wh)
  obtain v where "do_lseek k c fd offset wh = Inr (v, k')" "r = Some v"
    using eq returnsD unfolding CSeek run_call.simps by blast
  with refine_seek [OF ok ops live may [unfolded CSeek] reg [unfolded CSeek]] show ?thesis unfolding CSeek by simp
next
  case (CDup2 oldfd newfd)
  obtain v where "do_dup2 k c oldfd newfd = Inr (v, k')" "r = Some v"
    using eq returnsD unfolding CDup2 run_call.simps by blast
  with refine_dup2 [OF ok ops live may [unfolded CDup2]] show ?thesis unfolding CDup2 by simp
next
  case (CClose fd)
  with refine_close [OF ok ops live may [unfolded CClose] reg [unfolded CClose]] eq show ?thesis by simp
next
  case (CSendfile outfd infd count)
  obtain v off where "call_sendfile buf k c outfd infd None count = Inr (v, off, k')" "r = Some v"
    using eq by (auto simp: CSendfile bind_res_Inr)
  with refine_sendfile [OF ok ops live may [unfolded CSendfile] reg [unfolded CSendfile]] show ?thesis
    unfolding CSendfile by simp
next
  case CExit
  obtain b where "do_exit k c = Inr (b, k')" "r = Some 0" using eq by (auto simp: CExit bind_res_Inr)
  with refine_exit [OF ok ops live may [unfolded CExit]] show ?thesis unfolding CExit by simp
qed

interpretation files: refined "\<lambda>k. kernel_ok k \<and> ops_ok k" abs_fs event_ok exec_event spec_step
proof unfold_locales
  fix k ev assume ok: "kernel_ok k \<and> ops_ok k" and "event_ok ev k"
  then obtain ctx where ev: "fheap k (obj_at ev) = None" "live_ctx k (proc ev) ctx" "may_call k ctx (ev_call ev)"
    "regular_call (buf_page ev) k ctx (ev_call ev)" by (auto simp: event_ok_def split: option.splits)
  obtain r k' where r: "run_call (ev_dev ev) (obj_at ev) (obj_page ev) (buf_page ev) k (proc ev) (ev_call ev) = Inr (r, k')"
    "kernel_ok k'" using call_ok [OF _ ev(2,3,1)] ok by blast
  show "\<exists>l a k'. exec_event ev k = Inr ((l, a), k') \<and> (kernel_ok k' \<and> ops_ok k') \<and>
      spec_step l (abs_fs k) = (a, abs_fs k')"
    using refine_call [OF _ _ ev(2,1,3,4) r(1)] ok r by (simp add: exec_event_def)
qed

text \<open>The abstract states the kernel reaches are sensible: an open file is on the disk, its position inside.\<close>

definition posix_ok :: "posix \<Rightarrow> bool" where
  "posix_ok st \<longleftrightarrow> (\<forall>p nm off md. opens st p = Some (nm, off, md) \<longrightarrow>
     held st p \<and> (\<exists>bs. disk st nm = Some bs \<and> off \<le> length bs))"

lemma abs_ok:
  assumes ok: "kernel_ok k"
  shows "posix_ok (abs_fs k)"
  unfolding posix_ok_def
proof (intro allI impI)
  fix p nm off md assume "opens (abs_fs k) p = Some (nm, off, md)"
  then obtain f i where f: "0 < refs k p" "fheap k p = Some f" "uses_regular f" "finode f = Some i"
    "nm = filename (inodes (sb k) ! i)" "off = unat (offp f)"
    by (auto simp: abs_fs_def obj_of_def bind_eq_Some_conv split: if_splits)
  obtain i' where "open_regular k p i' f" "is_valid_inode (sb k) i'" by (rule kernel_ok_regular [OF ok f(2,3)])
  with f(4) have i: "open_regular k p i f" "is_valid_inode (sb k) i" by (simp_all add: open_regular_def)
  note o = open_regularD [OF i(1)]
  have "disk (abs_fs k) nm = Some (file_content k i)"
    using abs_disk [OF lookup_of_valid [OF o(1,4) i(2)]] f(5) by simp
  moreover have "int (unat (offp f)) \<le> int (unat (file_size (inodes (sb k) ! i)))" using o(5) by simp
  then have "off \<le> length (file_content k i)" unfolding f(6) file_content_def length_file_bytes of_nat_le_iff .
  ultimately show "held (abs_fs k) p \<and> (\<exists>bs. disk (abs_fs k) nm = Some bs \<and> off \<le> length bs)"
    using held_abs [OF kernel_okD(2) [OF ok]] f(1) by blast
qed

end
