(* ===== verification/ProgramProperties.thy ===== *)
theory ProgramProperties
  imports LibProperties QueueProperties Programs KernelTypes MemRegions FileSpec
begin

text \<open>
  Properties of the kernel as a whole: its file calls as a file system, the types of its tables, the agreement of the library with the
  handlers, the invariants of files and queues under the calls of user programs, a message between two
  programs, and the regions of memory the file store lives in.
\<close>

section \<open>The file system\<close>

text \<open>
  C1: The file calls of the processes, interleaved in any order, are the calls of the abstract file
  system: from a kernel within its invariant no permitted run faults, and what every call returns and
  every read delivers is what the file system of names, bytes and positions answers to the same calls, in
  which an open file lives exactly as long as a descriptor refers to it.
\<close>

theorem file_system_refined:
  assumes "kernel_ok k" "ops_ok k" "permitted_all event_ok exec_event evs k"
  shows "\<exists>es k'. run_all exec_event evs k = Inr (es, k') \<and> kernel_ok k' \<and> ops_ok k' \<and> posix_ok (abs_fs k') \<and>
    spec_all spec_step (map fst es) (abs_fs k) = (map snd es, abs_fs k')"
proof -
  obtain es k' where "run_all exec_event evs k = Inr (es, k')" "kernel_ok k' \<and> ops_ok k'"
    "spec_all spec_step (map fst es) (abs_fs k) = (map snd es, abs_fs k')"
    using files.run_refines [of k evs] assms by blast
  with abs_ok [of k'] show ?thesis by blast
qed

text \<open>Process 1 goes back to the start of the sample file and reads it.\<close>

definition sample_event :: "file_call \<Rightarrow> event" where
  "sample_event cl = \<lparr>ev_dev = sample_device, obj_at = 20, obj_page = zero_page, buf_page = 0, proc = 1, ev_call = cl\<rparr>"

lemma sample_event_simps [simp]:
  "ev_dev (sample_event cl) = sample_device" "obj_at (sample_event cl) = 20" "obj_page (sample_event cl) = zero_page"
  "proc (sample_event cl) = 1" "ev_call (sample_event cl) = cl"
  by (simp_all add: sample_event_def)

lemma sample_ops: "ops_ok sample_kernel"
  by (simp add: ops_ok_def sample_file_def regular_ops_def)

lemma sample_uses: "uses_regular (sample_file\<lparr>offp := w\<rparr>)" "uses_regular sample_file"
  by (simp_all add: uses_regular_def sample_file_def)

lemma sample_seek:
  "do_lseek sample_kernel 1 3 0 SEEK_SET = Inr (0, put_file sample_kernel 10 (sample_file\<lparr>offp := 0\<rparr>))"
proof -
  have "do_lseek_regular sample_kernel (Some 10) 0 SEEK_SET = Inr (0, put_file sample_kernel 10 (sample_file\<lparr>offp := 0\<rparr>))"
    by (subst do_lseek_regular_eq [OF sample_open]) simp
  moreover have "flseek (fops sample_file) = Some Do_lseek_regular" by (simp add: sample_file_def)
  ultimately show ?thesis by (simp add: do_lseek_def sample_files k_const)
qed

lemma sample_permitted:
  "permitted_all event_ok exec_event [sample_event (CSeek 3 0 SEEK_SET), sample_event (CRead 3 user_buf 100)] sample_kernel"
proof -
  have "buffer_apart (put_file sample_kernel 10 g) user_buf 100" for g
    using sample_apart [of 100] by (simp add: buffer_apart_def)
  then show ?thesis
    by (auto simp: event_ok_def exec_event_def sample_seek returns_def live_ctx_def sample_files fd_in_def regular_fd_def
        fd_file_def sample_uses k_const simp del: One_nat_def)
qed

theorem file_system_refined_witness:
  "\<exists>k'. run_all exec_event [sample_event (CSeek 3 0 SEEK_SET), sample_event (CRead 3 user_buf 100)] sample_kernel =
     Inr ([((1, SSeek 3 0 SEEK_SET), (Some 0, [])), ((1, SRead 3 100), (Some 5, file_content sample_kernel 0))], k')"
proof -
  let ?evs = "[sample_event (CSeek 3 0 SEEK_SET), sample_event (CRead 3 user_buf 100)]"
  obtain es k' where es: "run_all exec_event ?evs sample_kernel = Inr (es, k')"
    "spec_all spec_step (map fst es) (abs_fs sample_kernel) = (map snd es, abs_fs k')"
    using file_system_refined [OF sample_kernel_ok sample_ops sample_permitted] by blast
  have len: "length (file_content sample_kernel 0) = 5" by (simp add: file_content_def sample_fs_0 sample_ino_def)
  have lk: "flat_lookup_inode sample_fs ''notes'' = Some 0" using sample_lookup [of "''notes''"] by (simp add: lookup_inode_def)
  have "opens (abs_fs sample_kernel) 10 = Some (''notes'', 2, O_RDWR)"
    by (simp add: abs_fs_def sample_refs obj_of_def sample_uses sample_fs_0 sample_ino_def)
  then have fd: "fd_open (abs_fs sample_kernel) 1 3 = Some (10, ''notes'', 2, O_RDWR)"
    using tables_abs [OF sample_live] by (simp add: fd_open_def sample_files k_const)
  have disk: "disk (abs_fs sample_kernel) ''notes'' = Some (file_content sample_kernel 0)"
    by (rule abs_disk) (simp add: lk)
  have labels: "map fst es = [(1, SSeek 3 0 SEEK_SET), (1, SRead 3 100)]"
    using es(1) by (auto simp: bind_res_Inr exec_event_def simp del: One_nat_def)
  have seek: "sp_seek 1 3 0 SEEK_SET (abs_fs sample_kernel) =
      ((Some 0, []), (abs_fs sample_kernel)\<lparr>opens := (opens (abs_fs sample_kernel))(10 \<mapsto> (''notes'', 0, O_RDWR))\<rparr>)"
    by (simp add: sp_seek_def fd del: One_nat_def)
  have "fd_open ((abs_fs sample_kernel)\<lparr>opens := (opens (abs_fs sample_kernel))(10 \<mapsto> (''notes'', 0, O_RDWR))\<rparr>) 1 3 =
      Some (10, ''notes'', 0, O_RDWR)"
    using tables_abs [OF sample_live] by (simp add: fd_open_def sample_files k_const del: One_nat_def)
  then have "map snd es = [(Some 0, []), (Some 5, file_content sample_kernel 0)]"
    using es(2) len disk unfolding labels by (simp add: seek sp_read_def sample_modes spec_read_def del: One_nat_def split: prod.splits)
  with labels have "es = [((1, SSeek 3 0 SEEK_SET), (Some 0, [])), ((1, SRead 3 100), (Some 5, file_content sample_kernel 0))]"
    by (auto simp: map_eq_Cons_conv)
  with es(1) show ?thesis by blast
qed

section \<open>Types\<close>


lemma sample_typed: "typed sample_kernel"
  using fs_wfD(1) [OF sample_fs_wf] by (auto simp: typed_def typed_ctx_def sample_files sample_ctx_def split: if_splits)

lemma sample_typed_env: "typed_env sample_env"
  by (simp add: typed_env_def sample_env_def blank_queue_def)

lemma sample_create: "\<exists>k'. do_syscall sample_env sample_kernel 1 SYSCALL_CREATE_MSG_QUEUE 0 0 0 0 = Inr (Some 4, k') \<and>
    qheap k' 40 \<noteq> None"
proof -
  have free: "free_fd (sample_ctx\<lparr>regs := rs\<rparr>) = Some 4" for rs using sample_free_fd by (simp add: free_fd_def)
  show ?thesis
    by (simp add: do_syscall_def enter_syscall_def Let_def dispatch_def syscall_nr sample_env_def
        do_create_msg_queue_def free returns_def put_queue_def put_file_def alloc_file_def k_const)
qed


section \<open>The library and the handlers\<close>

text \<open>
  C7: A call of a library wrapper is the call of the kernel's handler on the same arguments, on the
  kernel in which the caller's registers are saved and the call is counted: the two tables of call
  numbers agree, every argument arrives in its place and survives the conversions, and a result of
  type \<open>int\<close> is the handler's cut to 32 bits. This holds for every file and queue call, getpid, fork,
  pipe and exit.
\<close>

theorem wrapper_equals_handler:
  assumes "ctxs k (slot u) \<noteq> None" "args_ok r"
  shows "lib_call u r k = (if long_call r then id else int_result)
    (kernel_call (env_of u) (slot u) (stale u 3) r (called u k))"
  by (rule wrapper_handler [OF assms])

theorem wrapper_equals_handler_witness:
  "lib_call sample_user (Req_lseek 3 0 2) sample_kernel =
     kernel_call sample_env 1 0 (Req_lseek 3 0 2) (called sample_user sample_kernel)"
  using wrapper_equals_handler [of sample_kernel sample_user "Req_lseek 3 0 2"]
  by (simp add: sample_user_def is_int_def is_long_def)

section \<open>Programs\<close>


lemma sample_sys_ok: "sys_ok sample_kernel"
  by (simp add: sys_ok_def sample_kernel_ok queues_ok_def queue_ptrs_ok_def)

lemma sample_may_create: "may_request sample_user sample_kernel Req_create"
proof -
  have "pages_left sample_env (called sample_user sample_kernel)"
    by (simp add: pages_left_def sample_env_def zero_page_def queue_room_def blank_queue_def)
  then show ?thesis using sample_live by (auto simp: may_request_def sample_user_def)
qed


section \<open>A message between two programs\<close>

lemma get_fd_put_queue: "get_fd (put_queue k qa mq) c fd = get_fd k c fd"
  by (simp add: get_fd_def ctx_at_def)

lemma only_at_end:
  "ms @ [x] = xs @ m # ys \<Longrightarrow> P m \<Longrightarrow> \<forall>y \<in> set ms. \<not> P y \<Longrightarrow> xs = ms \<and> m = x \<and> ys = []"
  by (cases ys rule: rev_cases) auto

lemma called_queue_fd:
  "queue_fd k c p ctx qa mq \<Longrightarrow> \<exists>ctx'. queue_fd (called u k) c p ctx' qa mq \<and> pid ctx' = pid ctx"
  by (auto simp: queue_fd_def called_ctx)


text \<open>Process 2 has the sample queue open too, and process 1 has a letter for it in its memory.\<close>

definition letter :: message where
  "letter = \<lparr>from_pid = 1, to_pid = 2, msg_txt = ''hi'' @ replicate 22 (CHR 0x00)\<rparr>"

definition letter_kernel :: kernel where
  "letter_kernel = queue_kernel\<lparr>ctxs := [1 \<mapsto> queue_ctx, 2 \<mapsto> queue_ctx\<lparr>pid := 2\<rparr>],
     mem := store_message (mem queue_kernel) user_buf letter\<rparr>"

definition other_user :: user where
  "other_user = sample_user\<lparr>slot := 2\<rparr>"


section \<open>Memory\<close>

text \<open>
  A page frame lies in the region whose addresses it has: frames from 0x800, 0x2000, 0x6400, 0x20000
  and 0x22000 on begin the regions, lower and higher frames have none. The last region is one frame too
  long: frame \<open>NUM_PAGES\<close>, the first past the memory, counts as file store.
\<close>

theorem frame_regions:
  "(get_mem_region pfn = -1 \<longleftrightarrow> uint pfn < 0x800 \<or> int NUM_PAGES < uint pfn) \<and>
   (get_mem_region pfn = OS_DS_REG \<longleftrightarrow> 0x800 \<le> uint pfn \<and> uint pfn < 0x2000) \<and>
   (get_mem_region pfn = OS_PT_REG \<longleftrightarrow> 0x2000 \<le> uint pfn \<and> uint pfn < 0x6400) \<and>
   (get_mem_region pfn = USER_REG \<longleftrightarrow> 0x6400 \<le> uint pfn \<and> uint pfn < 0x20000) \<and>
   (get_mem_region pfn = FILE_DS_REG \<longleftrightarrow> 0x20000 \<le> uint pfn \<and> uint pfn < 0x22000) \<and>
   (get_mem_region pfn = FILE_STORE_REG \<longleftrightarrow> 0x22000 \<le> uint pfn \<and> uint pfn \<le> int NUM_PAGES)"
  by (auto simp: get_mem_region_frames Let_def region_const)

text \<open>
  C39: Initialised with different frames of the file store region, none past the memory, the file system
  is well formed and empty: no name is found, the inodes have regions of their own, and every file lies
  inside the region and inside the memory.
\<close>

theorem store_inside_region:
  assumes "store_frames pfn" "init_file_system ds_pfn pfn m = (s, m')"
  shows "fs_wf s \<and> num_files s = 0 \<and> (\<forall>n. flat_lookup_inode s n = None) \<and>
    (\<forall>i<NUM_FILES. \<forall>j<NUM_FILES. i \<noteq> j \<longrightarrow> file_region (inodes s ! i) \<inter> file_region (inodes s ! j) = {}) \<and>
    (\<forall>i < NUM_FILES. uint REGION_FILE_STORE_START \<le> uint (s_pos (inodes s ! i)) \<and>
      uint (e_pos (inodes s ! i)) \<le> uint ENDMEM)"
  using init_contract [OF store_frames_distinct [OF assms(1)] assms(2)] store_inodes [OF assms] by blast

theorem store_inside_region_witness:
  "\<exists>s m'. init_file_system (\<lambda>k. word_of_nat (0x20000 + k)) (\<lambda>k. word_of_nat (0x22000 + k)) (\<lambda>_. 7) = (s, m') \<and>
     fs_wf s \<and> uint (e_pos (inodes s ! 31)) \<le> 0x80000000"
proof -
  let ?pfn = "\<lambda>k. word_of_nat (0x22000 + k) :: u32"
  have u: "uint (?pfn k) = 0x22000 + int k" if "k \<le> NUM_FILES" for k
    using uint_u32_of_int [of "int (0x22000 + k)"] that by (simp add: fs_const)
  have "inj_on ?pfn {..NUM_FILES}"
  proof (rule inj_onI)
    fix j k assume "j \<in> {..NUM_FILES}" "k \<in> {..NUM_FILES}" "?pfn j = ?pfn k"
    then show "j = k" using u [of j] u [of k] by simp
  qed
  moreover have "get_mem_region (?pfn k) = FILE_STORE_REG \<and> unat (?pfn k) < NUM_PAGES" if "k \<le> NUM_FILES" for k
    using u [OF that] that by (simp add: store_frame_iff unat_eq_nat_uint NUM_PAGES_def fs_const)
  ultimately have frames: "store_frames ?pfn" by (simp add: store_frames_def)
  obtain s m' where s: "init_file_system (\<lambda>k. word_of_nat (0x20000 + k)) ?pfn (\<lambda>_. 7) = (s, m')" by fastforce
  from store_inside_region [OF frames s] s show ?thesis by (auto simp: region_const fs_const)
qed

end
