(* ===== verification/QueueSpec.thy ===== *)
theory QueueSpec
  imports QueueProperties Programs FileSpec
begin

text \<open>
  What the message queues promise their members, without tables of fixed size, rows of blocked pids,
  reference counts and freed pages: a queue is its members, its mail and who refuses whom; a process has
  a queue open on a descriptor and is then a member of it. The calls of the kernel refine the calls of
  these queues, one by one and in every order of any number of processes, fork and exit included.
\<close>

section \<open>The abstract queues\<close>

record chat =
  who :: "u32 list"
  letters :: "message list"
  refused :: "(u32 \<times> u32) set"

text \<open>A process has its pid and its descriptors: closed, open on something else, open on a queue.\<close>

record post =
  chats :: "nat \<rightharpoonup> chat"
  seats :: "nat \<rightharpoonup> u32 \<times> nat option option list"

text \<open>The answer of a call: what it returns, the message and the members it delivers.\<close>

type_synonym reply = "int \<times> message option \<times> u32 list"

definition chat_send :: "u32 \<Rightarrow> message \<Rightarrow> chat \<Rightarrow> int \<times> chat" where
  "chat_send pd msg q =
     (if from_pid msg \<noteq> pd \<or> to_pid msg = pd then (-EINVAL, q)
      else if to_pid msg = BROADCAST_PID
      then let rs = filter (\<lambda>a. a \<noteq> pd \<and> (a, pd) \<notin> refused q) (who q)
           in (int (length rs), q\<lparr>letters := letters q @ map (\<lambda>a. msg\<lparr>to_pid := a\<rparr>) rs\<rparr>)
      else if to_pid msg \<in> set (who q) \<and> (to_pid msg, pd) \<notin> refused q
      then (1, q\<lparr>letters := letters q @ [msg]\<rparr>)
      else (-EINVAL, q))"

definition chat_rcv :: "u32 \<Rightarrow> chat \<Rightarrow> int \<times> message option \<times> chat" where
  "chat_rcv pd q =
     (case find (\<lambda>m. to_pid m = pd) (letters q) of
        None \<Rightarrow> (0, None, q)
      | Some m \<Rightarrow> (1, Some m, q\<lparr>letters := remove1 m (letters q)\<rparr>))"

definition chat_block :: "u32 \<Rightarrow> int \<Rightarrow> chat \<Rightarrow> int \<times> chat" where
  "chat_block me pd q =
     (if pd < 0 \<or> word_of_int pd \<notin> set (who q) - {me} then (-EINVAL, q)
      else (0, q\<lparr>refused := insert (me, word_of_int pd) (refused q)\<rparr>))"

definition chat_without :: "u32 \<Rightarrow> chat \<Rightarrow> chat" where
  "chat_without pd q =
     \<lparr>who = remove1 pd (who q), letters = filter (\<lambda>m. to_pid m \<noteq> pd) (letters q),
      refused = {(a, b) \<in> refused q. a \<noteq> pd \<and> b \<noteq> pd}\<rparr>"

text \<open>The queue a process has open on a descriptor, with the pid of the process.\<close>

definition at_seat :: "post \<Rightarrow> nat \<Rightarrow> int \<Rightarrow> (u32 \<times> nat \<times> chat) option" where
  "at_seat st c fd =
     (if fd < 0 then None
      else Option.bind (seats st c) (\<lambda>(pd, t).
        case t ! nat fd of
          Some (Some qa) \<Rightarrow> map_option (\<lambda>q. (pd, qa, q)) (chats st qa)
        | _ \<Rightarrow> None))"

definition put_chat :: "nat \<Rightarrow> chat option \<Rightarrow> post \<Rightarrow> post" where
  "put_chat qa q st = st\<lparr>chats := (chats st)(qa := q)\<rparr>"

definition put_seat :: "nat \<Rightarrow> nat \<Rightarrow> nat option option \<Rightarrow> post \<Rightarrow> post" where
  "put_seat c fd x st = st\<lparr>seats := (seats st)(c := map_option (\<lambda>(pd, t). (pd, t[fd := x])) (seats st c))\<rparr>"

text \<open>A call on a queue: refused without one, otherwise it answers and leaves the queue changed.\<close>

definition on_chat :: "nat \<Rightarrow> int \<Rightarrow> (u32 \<Rightarrow> chat \<Rightarrow> reply \<times> chat) \<Rightarrow> post \<Rightarrow> reply \<times> post" where
  "on_chat c fd act st =
     (case at_seat st c fd of
        None \<Rightarrow> ((-EINVAL, None, []), st)
      | Some (pd, qa, q) \<Rightarrow> (case act pd q of (a, q') \<Rightarrow> (a, put_chat qa (Some q') st)))"

datatype chat_call =
    Chat_create "nat option" | Chat_info int | Chat_send int "message option" | Chat_rcv int bool
  | Chat_count int | Chat_block int int | Chat_leave int | Chat_fork nat u32 | Chat_exit

definition chat_create :: "nat \<Rightarrow> nat option \<Rightarrow> post \<Rightarrow> reply \<times> post" where
  "chat_create c new st =
     (case seats st c of
        None \<Rightarrow> ((-ENOMEM, None, []), st)
      | Some (pd, t) \<Rightarrow>
          (case (find (\<lambda>fd. t ! fd = None) [3..<MAX_OPEN_FILES], new) of
             (Some fd, Some qa) \<Rightarrow>
               ((int fd, None, []),
                put_seat c fd (Some (Some qa)) (put_chat qa (Some \<lparr>who = [pd], letters = [], refused = {}\<rparr>) st))
           | _ \<Rightarrow> ((-ENOMEM, None, []), st)))"

text \<open>The queue is gone with its last member.\<close>

definition chat_leave :: "nat \<Rightarrow> int \<Rightarrow> post \<Rightarrow> reply \<times> post" where
  "chat_leave c fd st =
     (case at_seat st c fd of
        None \<Rightarrow> ((-EINVAL, None, []), st)
      | Some (pd, qa, q) \<Rightarrow>
          ((0, None, []),
           put_seat c (nat fd) None
             (put_chat qa (if who q = [pd] then None else Some (chat_without pd q)) st)))"

definition chat_fork :: "nat \<Rightarrow> nat \<Rightarrow> u32 \<Rightarrow> post \<Rightarrow> reply \<times> post" where
  "chat_fork c child pd st =
     (case seats st c of
        None \<Rightarrow> ((-EINVAL, None, []), st)
      | Some (_, t) \<Rightarrow>
          ((uint pd, None, []),
           \<lparr>chats = (\<lambda>qa. if Some (Some qa) \<in> set t
                           then map_option (\<lambda>q. q\<lparr>who := who q @ [pd]\<rparr>) (chats st qa) else chats st qa),
            seats = (seats st)(child \<mapsto> (pd, t))\<rparr>))"

definition chat_exit :: "nat \<Rightarrow> nat list \<Rightarrow> post \<Rightarrow> post" where
  "chat_exit c fds st = fold (\<lambda>fd st. snd (chat_leave c (int fd) st)) fds st"

fun chat_step :: "nat \<times> chat_call \<Rightarrow> post \<Rightarrow> reply \<times> post" where
  "chat_step (c, Chat_create new) st = chat_create c new st"
| "chat_step (c, Chat_info fd) st = on_chat c fd (\<lambda>pd q. ((0, None, who q), q)) st"
| "chat_step (c, Chat_send fd msg) st =
     on_chat c fd (\<lambda>pd q. case msg of None \<Rightarrow> ((-EINVAL, None, []), q)
       | Some m \<Rightarrow> (case chat_send pd m q of (r, q') \<Rightarrow> ((r, None, []), q'))) st"
| "chat_step (c, Chat_rcv fd ptr) st =
     on_chat c fd (\<lambda>pd q. if \<not> ptr then ((-EINVAL, None, []), q)
       else (case chat_rcv pd q of (r, out, q') \<Rightarrow> ((r, out, []), q'))) st"
| "chat_step (c, Chat_count fd) st =
     on_chat c fd (\<lambda>pd q. ((int (length (filter (\<lambda>m. to_pid m = pd) (letters q))), None, []), q)) st"
| "chat_step (c, Chat_block fd pd) st =
     on_chat c fd (\<lambda>me q. case chat_block me pd q of (r, q') \<Rightarrow> ((r, None, []), q')) st"
| "chat_step (c, Chat_leave fd) st = chat_leave c fd st"
| "chat_step (c, Chat_fork child pd) st = chat_fork c child pd st"
| "chat_step (c, Chat_exit) st = ((0, None, []), chat_exit c [0..<MAX_OPEN_FILES] st)"

section \<open>The abstraction of the kernel\<close>

definition abs_chat :: "msg_queue_info \<Rightarrow> chat" where
  "abs_chat mq = \<lparr>who = members mq, letters = messages mq, refused = blocks mq\<rparr>"

definition seat_row :: "kernel \<Rightarrow> exec_context \<Rightarrow> nat option option list" where
  "seat_row k ctx = map (map_option (\<lambda>p. queue_of k (Some p))) (files ctx)"

definition abs_post :: "kernel \<Rightarrow> post" where
  "abs_post k =
     \<lparr>chats = (\<lambda>qa. map_option abs_chat (qheap k qa)),
      seats = (\<lambda>c. case ctxs k c of None \<Rightarrow> None
                    | Some ctx \<Rightarrow> if pstate ctx = UNUSED then None else Some (pid ctx, seat_row k ctx))\<rparr>"

section \<open>A member's row always has room\<close>

text \<open>
  The entries of a row are distinct pids of other members; so one of its \<open>MAX_MEMBERS\<close> places is free.
\<close>

definition row_fits :: "msg_queue_info \<Rightarrow> nat \<Rightarrow> bool" where
  "row_fits mq i \<longleftrightarrow> distinct (filter (\<lambda>x. x \<noteq> -1) (block_row mq i)) \<and>
     (\<forall>x \<in> set (block_row mq i). x \<noteq> -1 \<longrightarrow>
        0 \<le> x \<and> x < 2 ^ 31 \<and> word_of_int x \<in> set (members mq) - {members mq ! i})"

definition rows_fit :: "msg_queue_info \<Rightarrow> bool" where
  "rows_fit mq \<longleftrightarrow> (\<forall>i < length (members mq). row_fits mq i)"

lemma row_hole:
  assumes ok: "mq_ok mq" and fits: "row_fits mq i" and i: "i < length (members mq)"
  shows "-1 \<in> set (block_row mq i)"
proof (rule ccontr)
  assume none: "-1 \<notin> set (block_row mq i)"
  then have "filter (\<lambda>x. x \<noteq> -1) (block_row mq i) = block_row mq i" by (intro filter_True) auto
  then have "distinct (block_row mq i)" using fits by (simp add: row_fits_def)
  then have card: "card (set (block_row mq i)) = MAX_MEMBERS" by (simp add: distinct_card)
  have x: "0 \<le> x \<and> x < 2 ^ 31 \<and> (word_of_int x :: u32) \<in> set (members mq) - {members mq ! i}"
    if "x \<in> set (block_row mq i)" for x
  proof -
    from that none have "x \<noteq> -1" by auto
    with fits that show ?thesis unfolding row_fits_def by blast
  qed
  have "inj_on (word_of_int :: int \<Rightarrow> u32) (set (block_row mq i))"
  proof (rule inj_onI)
    fix x y assume "x \<in> set (block_row mq i)" "y \<in> set (block_row mq i)"
      and eq: "(word_of_int x :: u32) = word_of_int y"
    then have "0 \<le> x \<and> x < 2 ^ 31" "0 \<le> y \<and> y < 2 ^ 31" using x by blast+
    then have "uint (word_of_int x :: u32) = x" "uint (word_of_int y :: u32) = y"
      by (simp_all add: uint_u32_of_int)
    with eq show "x = y" by metis
  qed
  then have "card ((word_of_int :: int \<Rightarrow> u32) ` set (block_row mq i)) = MAX_MEMBERS"
    using card by (simp add: card_image)
  moreover have "(word_of_int :: int \<Rightarrow> u32) ` set (block_row mq i) \<subseteq> set (members mq) - {members mq ! i}"
    using x by auto
  then have "card ((word_of_int :: int \<Rightarrow> u32) ` set (block_row mq i)) \<le> card (set (members mq) - {members mq ! i})"
    by (intro card_mono) auto
  moreover have "card (set (members mq) - {members mq ! i}) < MAX_MEMBERS"
    using i mq_okD(2,8) [OF ok] distinct_card [OF mq_okD(3) [OF ok]] by (simp add: card_Diff_singleton)
  ultimately show False by simp
qed

lemma rows_fit_frame:
  "members mq' = members mq \<Longrightarrow> block_process mq' = block_process mq \<Longrightarrow> rows_fit mq' = rows_fit mq"
  by (simp add: rows_fit_def row_fits_def block_row_def)

lemma row_fits_clear:
  assumes "set (block_row mq i) \<subseteq> {-1}"
  shows "row_fits mq i"
proof -
  have "filter (\<lambda>x. x \<noteq> -1) (block_row mq i) = []" using assms by (auto simp: filter_empty_conv)
  with assms show ?thesis unfolding row_fits_def by auto
qed

lemma init_rows_fit:
  assumes "length (member_pid page) = MAX_MEMBERS" "length (msg_buffer page) = MAX_MESSAGES"
    "length (block_process page) = MAX_MEMBERS * MAX_MEMBERS + 3"
  shows "rows_fit (init_queue page pd)"
proof -
  have "set (block_row (init_queue page pd) 0) \<subseteq> {-1}"
    by (auto simp: set_conv_nth nth_block_row init_queue_def nth_append k_const)
  then show ?thesis using init_queue_ok(3) [OF assms] by (simp add: rows_fit_def row_fits_clear)
qed

text \<open>A member that joins finds a clear row.\<close>

lemma joined_rows_fit:
  assumes inv: "queue_inv mq" "queue_inv mq'" and fit: "rows_fit mq"
    and mem: "members mq' = members mq @ [pd]" and bp: "block_process mq' = block_process mq"
  shows "rows_fit mq'"
  unfolding rows_fit_def
proof (intro allI impI)
  fix i assume i: "i < length (members mq')"
  have row: "block_row mq' j = block_row mq j" for j by (simp add: block_row_def bp)
  show "row_fits mq' i"
  proof (cases "i < length (members mq)")
    case True
    then have "row_fits mq i" using fit by (simp add: rows_fit_def)
    with True show ?thesis unfolding row_fits_def row by (auto simp: mem nth_append)
  next
    case False
    then have n: "i = unat (member_count mq)" using i mem mq_okD(8) [OF queue_invD(1) [OF inv(1)]] by simp
    have "i < MAX_MEMBERS" using i mq_okD(2,8) [OF queue_invD(1) [OF inv(2)]] by simp
    then have "set (block_row mq i) \<subseteq> {-1}" using queue_invD(2) [OF inv(1)] n by (auto simp: rows_ok_def)
    then show ?thesis by (intro row_fits_clear) (simp add: row)
  qed
qed

text \<open>A member that leaves is struck from the rows that stay.\<close>

lemma leave_rows_fit:
  assumes inv: "queue_inv mq" and fit: "rows_fit mq" and i: "i < length (members mq)" "members mq ! i = pd"
  shows "rows_fit (leave_queue pd i mq)"
  unfolding rows_fit_def
proof (intro allI impI)
  note ok = queue_invD(1) [OF inv]
  note lm = leave_members [OF ok i(1), of pd]
  fix j assume "j < length (members (leave_queue pd i mq))"
  then have j: "j < length (members mq) - 1" using lm(2) i(1) by simp
  define j' where "j' = (if i \<le> j then Suc j else j)"
  have j': "j' < length (members mq)" "j' \<noteq> i" using j i(1) by (auto simp: j'_def)
  have j4: "j < MAX_MEMBERS - 1" using j mq_okD(2,8) [OF ok] by simp
  have row: "block_row (leave_queue pd i mq) j =
      map (\<lambda>x. if word_of_int x = pd then -1 else x) (block_row mq j')"
    using leave_row [OF ok i(1), of j pd] j j4 by (simp add: j'_def)
  have own: "members (leave_queue pd i mq) ! j = members mq ! j'"
    using lm(2) i(1) j by (simp add: j'_def nth_append)
  have split: "members mq = take i (members mq) @ pd # drop (Suc i) (members mq)"
    using id_take_nth_drop [OF i(1)] i(2) by simp
  then have mem: "set (members mq) \<subseteq> insert pd (set (members (leave_queue pd i mq)))"
    unfolding lm(2) by (metis Un_insert_right list.simps(15) set_append subset_refl)
  have f: "row_fits mq j'" using fit j'(1) by (simp add: rows_fit_def)
  have struck: "filter (\<lambda>x. x \<noteq> -1) (map (\<lambda>x. if word_of_int x = pd then -1 else x) xs) =
      filter (\<lambda>x. word_of_int x \<noteq> pd) (filter (\<lambda>x. x \<noteq> -1) xs)" for xs :: "int list"
    by (induction xs) auto
  have "distinct (filter (\<lambda>x. x \<noteq> -1) (block_row mq j'))" using f by (simp add: row_fits_def)
  then have "distinct (filter (\<lambda>x. x \<noteq> -1) (block_row (leave_queue pd i mq) j))"
    unfolding row struck by (rule distinct_filter)
  moreover have "0 \<le> x \<and> x < 2 ^ 31 \<and> word_of_int x \<in> set (members (leave_queue pd i mq)) - {members mq ! j'}"
    if x: "x \<in> set (block_row (leave_queue pd i mq) j)" "x \<noteq> -1" for x
  proof -
    have "x \<in> set (block_row mq j')" "word_of_int x \<noteq> pd" using x unfolding row by (auto split: if_splits)
    with f x(2) mem show ?thesis unfolding row_fits_def by blast
  qed
  ultimately show "row_fits (leave_queue pd i mq) j" unfolding row_fits_def own by blast
qed

lemma member_index:
  assumes ok: "mq_ok mq" and pd: "pd \<in> set (members mq)"
  obtains i where "find_member mq pd = Inr (Some i)" "i < length (members mq)" "members mq ! i = pd"
  using ok
proof (cases rule: find_member_cases [of mq pd])
  case absent
  with pd show ?thesis by simp
next
  case (present i)
  with that show ?thesis by blast
qed

text \<open>Blocking fills a free place with a pid that is not in the row, and finds one.\<close>

lemma block_rows_fit:
  assumes inv: "queue_inv mq" and fit: "rows_fit mq" and pd: "0 \<le> pd" "pd < 2 ^ 31"
    and eq: "block_body me pd mq = Inr (r, mq')"
  shows "rows_fit mq'" "r = (if me \<in> set (members mq) \<and> word_of_int pd \<in> set (members mq) - {me} then 0 else -EINVAL)"
    "r = -EINVAL \<Longrightarrow> mq' = mq"
proof -
  note ok = queue_invD(1) [OF inv]
  have "rows_fit mq' \<and> (r = -EINVAL \<longrightarrow> mq' = mq) \<and>
    r = (if me \<in> set (members mq) \<and> word_of_int pd \<in> set (members mq) - {me} then 0 else -EINVAL)"
  proof (cases "me \<in> set (members mq) \<and> word_of_int pd \<in> set (members mq) - {me}")
    case False
    from ok eq show ?thesis
    proof (cases rule: block_body_cases)
      case refused
      with False fit show ?thesis by auto
    next
      case (blocks i)
      from blocks(2,3) have "me \<in> set (members mq)" by auto
      with False blocks(4,5) show ?thesis by blast
    qed
  next
    case True
    obtain i where i: "find_member mq me = Inr (Some i)" "i < length (members mq)" "members mq ! i = me"
      by (rule member_index [OF ok, of me]) (use True in auto)
    obtain j where j: "find_member mq (word_of_int pd) = Inr (Some j)" "j < length (members mq)"
      "members mq ! j = word_of_int pd"
      by (rule member_index [OF ok, of "word_of_int pd"]) (use True in auto)
    have ij: "i \<noteq> j" using i(3) j(3) True by auto
    have i4: "i < MAX_MEMBERS" using i(2) mq_okD [OF ok] by simp
    have f: "row_fits mq i" using fit i(2) by (simp add: rows_fit_def)
    show ?thesis
    proof (cases "pd \<in> set (block_row mq i)")
      case old: True
      with eq i j ij fit True show ?thesis by (simp add: block_body_def last_member_eq [OF ok] EINVAL_def)
    next
      case new: False
      have "find (\<lambda>s. block_row mq i ! s = -1) [0..<MAX_MEMBERS] \<noteq> None"
        using row_hole [OF ok f i(2)] by (auto simp: find_upt_None in_set_conv_nth)
      then obtain s where s: "find (\<lambda>s. block_row mq i ! s = -1) [0..<MAX_MEMBERS] = Some s" by blast
      have s4: "s < MAX_MEMBERS" "block_row mq i ! s = -1" using find_upt_SomeD [OF s] by simp_all
      have mq': "r = 0" "mq' = mq\<lparr>block_process := (block_process mq)[i * MAX_MEMBERS + s := pd]\<rparr>"
        using eq i j ij new s by (simp_all add: block_body_def last_member_eq [OF ok])
      have mem: "members mq' = members mq" by (simp add: mq' members_def)
      note row = block_row_update [OF ok i4 s4(1), of pd, folded mq'(2)]
      have dist: "distinct (filter (\<lambda>x. x \<noteq> -1) (xs[s := pd]))"
        if "distinct (filter (\<lambda>x. x \<noteq> -1) xs)" "pd \<notin> set xs" "s < length xs" "xs ! s = -1" for xs :: "int list"
      proof -
        have "xs = take s xs @ -1 # drop (Suc s) xs" using id_take_nth_drop [OF that(3)] that(4) by simp
        then have "filter (\<lambda>x. x \<noteq> -1) xs = filter (\<lambda>x. x \<noteq> -1) (take s xs) @ filter (\<lambda>x. x \<noteq> -1) (drop (Suc s) xs)"
          by (metis (mono_tags, lifting) filter.simps(2) filter_append)
        with that(1) have "distinct (filter (\<lambda>x. x \<noteq> -1) (take s xs) @ filter (\<lambda>x. x \<noteq> -1) (drop (Suc s) xs))" by simp
        moreover have "pd \<notin> set (take s xs)" "pd \<notin> set (drop (Suc s) xs)"
          using that(2) by (auto dest: in_set_takeD in_set_dropD)
        ultimately show ?thesis using pd(1) that(3) by (auto simp: upd_conv_take_nth_drop)
      qed
      have "row_fits mq' j'" if "j' < length (members mq)" for j'
      proof (cases "j' = i")
        case True
        with dist [of "block_row mq i"] f new s4 \<open>me \<in> _ \<and> _\<close> pd i(3) show ?thesis
          using set_update_subset_insert [of "block_row mq i" s pd]
          unfolding row_fits_def mem row by auto
      next
        case False
        with fit that show ?thesis unfolding rows_fit_def row_fits_def mem row by simp
      qed
      with True mq'(1) show ?thesis by (simp add: rows_fit_def mem EINVAL_def)
    qed
  qed
  then show "rows_fit mq'" "r = (if me \<in> set (members mq) \<and> word_of_int pd \<in> set (members mq) - {me} then 0 else -EINVAL)"
    "r = -EINVAL \<Longrightarrow> mq' = mq" by blast+
qed

section \<open>Who has a queue open is a member of it\<close>

text \<open>
  A live process has every queue open at most once and is a member of each it has open; processes are
  told apart by their pids.
\<close>

definition seated :: "kernel \<Rightarrow> exec_context \<Rightarrow> bool" where
  "seated k ctx \<longleftrightarrow> length (files ctx) = MAX_OPEN_FILES \<and> pid ctx \<noteq> BROADCAST_PID \<and>
     (\<forall>fd < MAX_OPEN_FILES. \<forall>p. files ctx ! fd = Some p \<longrightarrow> fheap k p \<noteq> None) \<and>
     (\<forall>fd < MAX_OPEN_FILES. \<forall>qa. queue_of k (files ctx ! fd) = Some qa \<longrightarrow>
        (\<exists>mq. qheap k qa = Some mq \<and> pid ctx \<in> set (members mq)) \<and>
        (\<forall>fd' < MAX_OPEN_FILES. queue_of k (files ctx ! fd') = Some qa \<longrightarrow> fd' = fd))"

definition post_ok :: "kernel \<Rightarrow> bool" where
  "post_ok k \<longleftrightarrow> (\<forall>qa mq. qheap k qa = Some mq \<longrightarrow> queue_inv mq \<and> rows_fit mq) \<and>
     (\<forall>c ctx. live_ctx k c ctx \<longrightarrow> seated k ctx) \<and>
     (\<forall>c ctx c' ctx'. live_ctx k c ctx \<longrightarrow> live_ctx k c' ctx' \<longrightarrow> pid ctx' = pid ctx \<longrightarrow> c' = c)"

lemma post_okD:
  assumes "post_ok k"
  shows "qheap k qa = Some mq \<Longrightarrow> queue_inv mq" "qheap k qa = Some mq \<Longrightarrow> rows_fit mq"
    "live_ctx k c ctx \<Longrightarrow> seated k ctx"
    "live_ctx k c ctx \<Longrightarrow> live_ctx k c' ctx' \<Longrightarrow> pid ctx' = pid ctx \<Longrightarrow> c' = c"
    "queues_ok k"
proof -
  show "live_ctx k c ctx \<Longrightarrow> live_ctx k c' ctx' \<Longrightarrow> pid ctx' = pid ctx \<Longrightarrow> c' = c"
    using assms unfolding post_ok_def by (elim conjE) (drule spec, drule spec, drule spec, drule spec, blast)
  show "live_ctx k c ctx \<Longrightarrow> seated k ctx" using assms unfolding post_ok_def by blast
  show q: "qheap k qa = Some mq \<Longrightarrow> queue_inv mq" "qheap k qa = Some mq \<Longrightarrow> rows_fit mq" for qa mq
    using assms unfolding post_ok_def by blast+
  show "queues_ok k" unfolding queues_ok_def using q(1) by blast
qed

lemma seatedD:
  assumes "seated k ctx"
  shows "length (files ctx) = MAX_OPEN_FILES" "pid ctx \<noteq> BROADCAST_PID"
    "fd < MAX_OPEN_FILES \<Longrightarrow> files ctx ! fd = Some p \<Longrightarrow> \<exists>f. fheap k p = Some f"
    "fd < MAX_OPEN_FILES \<Longrightarrow> queue_of k (files ctx ! fd) = Some qa \<Longrightarrow>
       \<exists>mq. qheap k qa = Some mq \<and> pid ctx \<in> set (members mq)"
    "fd < MAX_OPEN_FILES \<Longrightarrow> fd' < MAX_OPEN_FILES \<Longrightarrow> queue_of k (files ctx ! fd) = Some qa \<Longrightarrow>
       queue_of k (files ctx ! fd') = Some qa \<Longrightarrow> fd' = fd"
  using assms unfolding seated_def not_None_eq by blast+

lemma seatedI:
  assumes "length (files ctx) = MAX_OPEN_FILES" "pid ctx \<noteq> BROADCAST_PID"
    and "\<And>i p. i < MAX_OPEN_FILES \<Longrightarrow> files ctx ! i = Some p \<Longrightarrow> fheap k p \<noteq> None"
    and "\<And>i qa. i < MAX_OPEN_FILES \<Longrightarrow> queue_of k (files ctx ! i) = Some qa \<Longrightarrow>
      \<exists>mq. qheap k qa = Some mq \<and> pid ctx \<in> set (members mq)"
    and "\<And>i j qa. i < MAX_OPEN_FILES \<Longrightarrow> j < MAX_OPEN_FILES \<Longrightarrow> queue_of k (files ctx ! i) = Some qa \<Longrightarrow>
      queue_of k (files ctx ! j) = Some qa \<Longrightarrow> j = i"
  shows "seated k ctx"
  using assms unfolding seated_def by blast

lemma seats_abs: "live_ctx k c ctx \<Longrightarrow> seats (abs_post k) c = Some (pid ctx, seat_row k ctx)"
  by (simp add: abs_post_def live_ctx_def)

lemma seats_dead: "\<nexists>ctx. live_ctx k c ctx \<Longrightarrow> seats (abs_post k) c = None"
  by (auto simp: abs_post_def live_ctx_def split: option.split)

lemma chats_abs [simp]: "chats (abs_post k) qa = map_option abs_chat (qheap k qa)"
  by (simp add: abs_post_def)

lemma queue_of_None [simp]: "queue_of k None = None"
  by (simp add: queue_of_def)

lemma queue_of_put [simp]: "queue_of (put_queue k qa mq) = queue_of k"
  by (simp add: queue_of_def [abs_def])

lemma nth_seat_row:
  "fd < length (files ctx) \<Longrightarrow> seat_row k ctx ! fd = map_option (\<lambda>p. queue_of k (Some p)) (files ctx ! fd)"
  by (simp add: seat_row_def)

lemma with_no_queue:
  assumes "queue_of k fp = None" "\<And>p. fp = Some p \<Longrightarrow> fheap k p \<noteq> None"
  shows "with_queue k fp e body = e"
  using assms by (auto simp: with_queue_def queue_of_def split: option.splits)

text \<open>What a process has on a descriptor, in the kernel and in the abstract queues.\<close>

lemma seat_cases:
  assumes ok: "post_ok k" and live: "live_ctx k c ctx" and fd: "fd_in fd"
  obtains (none) "at_seat (abs_post k) c fd = None" "get_fd k c fd = Inr (files ctx ! nat fd)"
      "queue_of k (files ctx ! nat fd) = None" "\<And>p. files ctx ! nat fd = Some p \<Longrightarrow> fheap k p \<noteq> None"
  | (seat) p qa mq where "at_seat (abs_post k) c fd = Some (pid ctx, qa, abs_chat mq)"
      "get_fd k c fd = Inr (Some p)" "files ctx ! nat fd = Some p" "queue_of k (Some p) = Some qa"
      "queue_fd k c p ctx qa mq" "rows_fit mq"
proof -
  note s = seatedD [OF post_okD(3) [OF ok live]]
  have fd': "\<not> fd < 0" "nat fd < MAX_OPEN_FILES" "fd < int MAX_OPEN_FILES" using fd by (auto simp: fd_in_def)
  have ctx: "ctxs k c = Some ctx" using live by (simp add: live_ctx_def)
  have g: "get_fd k c fd = Inr (files ctx ! nat fd)" using ctx fd' by simp
  have row: "at_seat (abs_post k) c fd =
      (case map_option (\<lambda>p. queue_of k (Some p)) (files ctx ! nat fd) of
         Some (Some qa) \<Rightarrow> map_option (\<lambda>q. (pid ctx, qa, q)) (chats (abs_post k) qa) | _ \<Rightarrow> None)"
    using fd' s(1) by (simp add: at_seat_def seats_abs [OF live] nth_seat_row)
  show ?thesis
  proof (cases "files ctx ! nat fd")
    case None
    with none row g show ?thesis by simp
  next
    case (Some p)
    obtain f where f: "fheap k p = Some f" using s(3) [OF fd'(2) Some] by blast
    show ?thesis
    proof (cases "msg_queue f")
      case None
      with none row g Some f show ?thesis by (simp add: queue_of_def)
    next
      case qa: (Some qa)
      then have q: "queue_of k (Some p) = Some qa" using f by (simp add: queue_of_def)
      then obtain mq where mq: "qheap k qa = Some mq" "pid ctx \<in> set (members mq)"
        using s(4) [OF fd'(2)] Some by metis
      have "queue_fd k c p ctx qa mq"
        using ctx f qa mq s(2) post_okD(1) [OF ok mq(1)] by (simp add: queue_fd_def)
      with seat [of qa mq p] row g Some q mq(1) post_okD(2) [OF ok mq(1)] show ?thesis by simp
    qed
  qed
qed

text \<open>A queue that changes and keeps its members.\<close>

lemma post_put:
  assumes ok: "post_ok k" and mq: "qheap k qa = Some mq" and mq': "queue_inv mq'" "rows_fit mq'"
    and mem: "members mq' = members mq"
  shows "post_ok (put_queue k qa mq')" "abs_post (put_queue k qa mq') = put_chat qa (Some (abs_chat mq')) (abs_post k)"
proof -
  have live: "live_ctx (put_queue k qa mq') = live_ctx k" by (simp add: live_ctx_def fun_eq_iff)
  have mem': "(\<exists>mq''. qheap (put_queue k qa mq') q = Some mq'' \<and> pd \<in> set (members mq''))
      \<longleftrightarrow> (\<exists>mq''. qheap k q = Some mq'' \<and> pd \<in> set (members mq''))" for q pd
    using mq mem by simp
  have seated: "seated (put_queue k qa mq') ctx = seated k ctx" for ctx
    unfolding seated_def queue_of_put mem' by simp
  have "\<forall>q mq''. qheap (put_queue k qa mq') q = Some mq'' \<longrightarrow> queue_inv mq'' \<and> rows_fit mq''"
    using post_okD(1,2) [OF ok] mq' by simp
  then show "post_ok (put_queue k qa mq')"
    using ok unfolding post_ok_def live seated by blast
  have "seat_row (put_queue k qa mq') = seat_row k" by (simp add: seat_row_def fun_eq_iff)
  then show "abs_post (put_queue k qa mq') = put_chat qa (Some (abs_chat mq')) (abs_post k)"
    by (auto simp: abs_post_def put_chat_def fun_eq_iff split: option.split)
qed

lemma put_same: "qheap k qa = Some mq \<Longrightarrow> put_chat qa (Some (abs_chat mq)) (abs_post k) = abs_post k"
  by (simp add: put_chat_def abs_post_def fun_upd_idem)

section \<open>Sending, receiving, counting and blocking\<close>

text \<open>
  The places where the code does not check: the mail fits the buffer, and past the end of the row of
  the recipient nothing refuses the sender that the row itself does not.
\<close>

definition send_fits :: "u32 \<Rightarrow> message \<Rightarrow> msg_queue_info \<Rightarrow> bool" where
  "send_fits pd msg mq \<longleftrightarrow>
     (if to_pid msg = BROADCAST_PID then length (messages mq) + length (members mq) \<le> MAX_MESSAGES
      else length (messages mq) < MAX_MESSAGES \<and>
        (\<forall>i < length (members mq). members mq ! i = to_pid msg \<longrightarrow> \<not> row_blocks mq i pd \<longrightarrow>
           (\<forall>j < MAX_PROCESSES. word_of_int (block_process mq ! (i * MAX_MEMBERS + j)) \<noteq> pd)))"

lemma recipients_filter:
  assumes "mq_ok mq" "pd \<noteq> BROADCAST_PID"
  shows "recipients pd mq = filter (\<lambda>a. a \<noteq> pd \<and> (a, pd) \<notin> blocks mq) (members mq)"
proof -
  let ?P = "\<lambda>a. a \<noteq> pd \<and> (a, pd) \<notin> blocks mq"
  have "filter ?P (members mq) = filter ?P (map (\<lambda>i. members mq ! i) [0..<length (members mq)])"
    by (simp add: map_nth)
  also have "\<dots> = map (\<lambda>i. members mq ! i) (filter (\<lambda>i. ?P (members mq ! i)) [0..<length (members mq)])"
    by (simp add: filter_map comp_def)
  also have "filter (\<lambda>i. ?P (members mq ! i)) [0..<length (members mq)] =
      filter (\<lambda>i. members mq ! i \<noteq> pd \<and> \<not> row_blocks mq i pd) [0..<length (members mq)]"
    using blocks_iff [OF assms(1) _ assms(2)] by (intro filter_cong) auto
  finally show ?thesis by (simp add: recipients_def)
qed

lemma send_chat:
  assumes inv: "queue_inv mq" and pd: "pd \<noteq> BROADCAST_PID" and fits: "send_fits pd msg mq"
  shows "\<exists>r mq'. send_body pd msg mq = Inr (r, mq') \<and> queue_inv mq' \<and> members mq' = members mq \<and>
    block_process mq' = block_process mq \<and> chat_send pd msg (abs_chat mq) = (r, abs_chat mq')"
proof -
  note ok = queue_invD(1) [OF inv]
  have keeps: "queue_inv mq' \<and> members mq' = members mq \<and> block_process mq' = block_process mq \<and> blocks mq' = blocks mq"
    if "send_body pd msg mq = Inr (r, mq')" for r mq'
    using send_body_inv [OF inv that] send_body_ok(2,3) [OF ok that] blocks_frame by blast
  have abs: "abs_chat mq' = (abs_chat mq)\<lparr>letters := messages mq'\<rparr>" if "send_body pd msg mq = Inr (r, mq')" for r mq'
    using keeps [OF that] by (simp add: abs_chat_def)
  have sel: "who (abs_chat mq) = members mq" "letters (abs_chat mq) = messages mq" "refused (abs_chat mq) = blocks mq"
    by (simp_all add: abs_chat_def)
  consider (self) "from_pid msg \<noteq> pd \<or> to_pid msg = pd"
    | (all) "from_pid msg = pd" "to_pid msg = BROADCAST_PID"
    | (one) "from_pid msg = pd" "to_pid msg \<noteq> pd" "to_pid msg \<noteq> BROADCAST_PID" by blast
  then show ?thesis
  proof cases
    case self
    then have "send_body pd msg mq = Inr (-EINVAL, mq)" "chat_send pd msg (abs_chat mq) = (-EINVAL, abs_chat mq)"
      by (auto simp: send_body_def chat_send_def)
    with inv show ?thesis by auto
  next
    case all
    obtain mq' where s: "send_body pd msg mq = Inr (int (length (recipients pd mq)), mq')"
      "messages mq' = messages mq @ map (\<lambda>q. msg\<lparr>to_pid := q\<rparr>) (recipients pd mq)"
      by (rule send_broadcast [OF ok _ all(1) pd all(2)]) (use fits all(2) in \<open>simp add: send_fits_def\<close>)
    have "chat_send pd msg (abs_chat mq) = (int (length (recipients pd mq)), abs_chat mq')"
      using all pd by (simp add: chat_send_def sel abs [OF s(1)] s(2) recipients_filter [OF ok pd] Let_def)
    with s(1) keeps [OF s(1)] show ?thesis by blast
  next
    case one
    then have body: "send_body pd msg mq = unicast pd msg mq" by (simp add: send_body_def)
    show ?thesis
    proof (cases "to_pid msg \<in> set (members mq)")
      case False
      from ok have "unicast pd msg mq = Inr (-EINVAL, mq)"
        by (cases rule: find_member_cases [of mq "to_pid msg"]) (use False nth_mem in \<open>fastforce simp: unicast_def\<close>)+
      then show ?thesis using False one inv by (simp add: body chat_send_def sel)
    next
      case True
      then obtain i where i: "i < length (members mq)" "members mq ! i = to_pid msg"
        by (metis in_set_conv_nth)
      show ?thesis
      proof (cases "row_blocks mq i pd")
        case blocked: True
        have "(to_pid msg, pd) \<in> blocks mq" using blocks_iff [OF ok i(1) pd] blocked i(2) by simp
        then show ?thesis using unicast_blocked [OF ok i blocked] one inv by (simp add: body chat_send_def sel)
      next
        case False
        then have free: "\<forall>j < MAX_PROCESSES. word_of_int (block_process mq ! (i * MAX_MEMBERS + j)) \<noteq> pd"
          and room: "length (messages mq) < MAX_MESSAGES"
          using fits one(3) i by (auto simp: send_fits_def)
        obtain mq' where u: "unicast pd msg mq = Inr (1, mq')" "messages mq' = messages mq @ [msg]"
          by (rule unicast_delivers [OF ok i free room])
        have "(to_pid msg, pd) \<notin> blocks mq" using blocks_iff [OF ok i(1) pd] False i(2) by simp
        then have "chat_send pd msg (abs_chat mq) = (1, abs_chat mq')"
          using True one abs [of 1 mq'] u by (simp add: body chat_send_def sel)
        then show ?thesis using u(1) keeps [of 1 mq'] by (simp add: body)
      qed
    qed
  qed
qed

lemma refine_send:
  assumes ok: "post_ok k" and live: "live_ctx k c ctx" and fd: "fd_in (uint fd)"
    and fits: "\<And>p qa mq msg. queue_fd k c p ctx qa mq \<Longrightarrow> get_fd k c (uint fd) = Inr (Some p) \<Longrightarrow>
      msgp = Some msg \<Longrightarrow> send_fits (pid ctx) msg mq"
  shows "\<exists>r k'. call_msg_queue_send k c fd msgp = Inr (r, k') \<and> post_ok k' \<and>
    chat_step (c, Chat_send (uint fd) msgp) (abs_post k) = ((r, None, []), abs_post k')"
  using ok live fd
proof (cases rule: seat_cases)
  case none
  then have "call_msg_queue_send k c fd msgp = Inr (-EINVAL, k)"
    by (simp add: call_msg_queue_send_def with_fd_def do_msg_queue_send_def with_no_queue)
  with none(1) ok show ?thesis by (simp add: on_chat_def)
next
  case (seat p qa mq)
  note q = queue_fdD [OF seat(5)]
  have call: "call_msg_queue_send k c fd msgp = do_msg_queue_send k c (Some p) msgp"
    using seat(2) by (simp add: call_msg_queue_send_def with_fd_def)
  show ?thesis
  proof (cases msgp)
    case None
    have "do_msg_queue_send k c (Some p) None = Inr (-EINVAL, k)"
      using q(2,3) by (auto simp: do_msg_queue_send_def with_queue_def)
    with None call seat(1) ok put_same [OF q(3)] show ?thesis by (simp add: on_chat_def)
  next
    case (Some msg)
    obtain r mq' where s: "send_body (pid ctx) msg mq = Inr (r, mq')" "queue_inv mq'" "members mq' = members mq"
      "block_process mq' = block_process mq" "chat_send (pid ctx) msg (abs_chat mq) = (r, abs_chat mq')"
      using send_chat [OF q(4,7) fits [OF seat(5,2) Some]] by blast
    have "do_msg_queue_send k c (Some p) msgp = Inr (r, put_queue k qa mq')"
      using send_on [OF seat(5)] s(1) Some by simp
    moreover have "rows_fit mq'" using seat(6) rows_fit_frame [OF s(3,4)] by simp
    ultimately show ?thesis
      using post_put [OF ok q(3) s(2) _ s(3)] call seat(1) Some s(5) by (simp add: on_chat_def)
  qed
qed

lemma find_first: "\<forall>x \<in> set xs. \<not> P x \<Longrightarrow> P m \<Longrightarrow> find P (xs @ m # ys) = Some m"
  by (induction xs) auto

lemma rcv_chat:
  assumes inv: "queue_inv mq"
  shows "\<exists>r out mq'. rcv_body pd mq = Inr (r, out, mq') \<and> queue_inv mq' \<and> members mq' = members mq \<and>
    block_process mq' = block_process mq \<and> chat_rcv pd (abs_chat mq) = (r, out, abs_chat mq')"
  using queue_invD(1) [OF inv]
proof (cases rule: rcv_body_cases [of mq pd])
  case empty
  then have "find (\<lambda>m. to_pid m = pd) (messages mq) = None" by (simp add: find_None_iff)
  with empty(1) inv show ?thesis by (simp add: chat_rcv_def abs_chat_def)
next
  case (got xs m ys mq')
  have "find (\<lambda>m. to_pid m = pd) (messages mq) = Some m" using find_first [of xs] got(2-4) by simp
  moreover have "remove1 m (messages mq) = messages mq'" using got(2-5) by (auto simp: remove1_append)
  ultimately have "chat_rcv pd (abs_chat mq) = (1, Some m, abs_chat mq')"
    using blocks_frame [OF got(7,8)] got(7) by (simp add: chat_rcv_def abs_chat_def)
  with got rcv_body_inv [OF inv got(1)] show ?thesis by blast
qed

lemma refine_rcv:
  assumes ok: "post_ok k" and live: "live_ctx k c ctx" and fd: "fd_in (uint fd)"
  shows "\<exists>r out k'. call_msg_queue_rcv k c fd ptr = Inr (r, out, k') \<and> post_ok k' \<and>
    chat_step (c, Chat_rcv (uint fd) ptr) (abs_post k) = ((r, out, []), abs_post k')"
  using ok live fd
proof (cases rule: seat_cases)
  case none
  then have "call_msg_queue_rcv k c fd ptr = Inr (-EINVAL, None, k)"
    by (simp add: call_msg_queue_rcv_def with_fd_def do_msg_queue_rcv_def Let_def with_no_queue)
  with none(1) ok show ?thesis by (simp add: on_chat_def)
next
  case (seat p qa mq)
  note q = queue_fdD [OF seat(5)]
  have call: "call_msg_queue_rcv k c fd ptr = do_msg_queue_rcv k c (Some p) ptr"
    using seat(2) by (simp add: call_msg_queue_rcv_def with_fd_def)
  show ?thesis
  proof (cases ptr)
    case False
    with call seat(1) ok put_same [OF q(3)] show ?thesis by (simp add: do_msg_queue_rcv_def on_chat_def)
  next
    case True
    obtain r out mq' where s: "rcv_body (pid ctx) mq = Inr (r, out, mq')" "queue_inv mq'" "members mq' = members mq"
      "block_process mq' = block_process mq" "chat_rcv (pid ctx) (abs_chat mq) = (r, out, abs_chat mq')"
      using rcv_chat [OF q(4)] by blast
    have "do_msg_queue_rcv k c (Some p) ptr = Inr (r, out, put_queue k qa mq')"
      using rcv_on [OF seat(5)] s(1) True by simp
    moreover have "rows_fit mq'" using seat(6) rows_fit_frame [OF s(3,4)] by simp
    ultimately show ?thesis
      using post_put [OF ok q(3) s(2) _ s(3)] call seat(1) True s(5) by (simp add: on_chat_def)
  qed
qed

lemma refine_count:
  assumes ok: "post_ok k" and live: "live_ctx k c ctx" and fd: "fd_in (uint fd)"
  shows "\<exists>r. call_get_msg_count k c fd = Inr (r, k) \<and>
    chat_step (c, Chat_count (uint fd)) (abs_post k) = ((r, None, []), abs_post k)"
  using ok live fd
proof (cases rule: seat_cases)
  case none
  then show ?thesis
    by (simp add: call_get_msg_count_def with_fd_def do_get_msg_count_def on_chat_def with_no_queue)
next
  case (seat p qa mq)
  note q = queue_fdD [OF seat(5)]
  have "count_messages (pid ctx) mq = Inr (int (length (filter (\<lambda>m. to_pid m = pid ctx) (messages mq))))"
    using mq_okD [OF q(5)] by (simp add: count_messages_def messages_def)
  with count_on [OF seat(5)] seat(1,2) put_same [OF q(3)] show ?thesis
    by (simp add: call_get_msg_count_def with_fd_def on_chat_def abs_chat_def)
qed

lemma refine_info:
  assumes ok: "post_ok k" and live: "live_ctx k c ctx" and fd: "fd_in (uint fd)"
  shows "\<exists>r info. do_get_member_info k c fd = Inr (r, info, k) \<and>
    chat_step (c, Chat_info (uint fd)) (abs_post k) =
      ((r, None, case info of None \<Rightarrow> [] | Some (n, pids) \<Rightarrow> take (unat n) pids), abs_post k)"
  using ok live fd
proof (cases rule: seat_cases)
  case none
  then show ?thesis
    by (simp add: do_get_member_info_def with_fd_def do_msg_queue_get_member_info_def on_chat_def with_no_queue)
next
  case (seat p qa mq)
  note q = queue_fdD [OF seat(5)]
  have "do_get_member_info k c fd = Inr (0, Some (member_count mq, member_pid mq), k)"
    using seat(2) q(2,3) by (auto simp: do_get_member_info_def with_fd_def do_msg_queue_get_member_info_def with_queue_def)
  with seat(1) put_same [OF q(3)] show ?thesis by (simp add: on_chat_def abs_chat_def members_def)
qed

lemma refine_block:
  assumes ok: "post_ok k" and live: "live_ctx k c ctx" and fd: "fd_in (uint fd)"
  shows "\<exists>r k'. call_msg_queue_block k c fd pd = Inr (r, k') \<and> post_ok k' \<and>
    chat_step (c, Chat_block (uint fd) (sint (ucast pd :: u32))) (abs_post k) = ((r, None, []), abs_post k')"
  using ok live fd
proof (cases rule: seat_cases)
  case none
  then have "call_msg_queue_block k c fd pd = Inr (-EINVAL, k)"
    by (simp add: call_msg_queue_block_def with_fd_def do_msg_queue_block_def Let_def with_no_queue)
  with none(1) ok show ?thesis by (simp add: on_chat_def)
next
  case (seat p qa mq)
  note q = queue_fdD [OF seat(5)]
  define n where "n = sint (ucast pd :: u32)"
  have call: "call_msg_queue_block k c fd pd = do_msg_queue_block k c (Some p) n"
    using seat(2) by (simp add: call_msg_queue_block_def with_fd_def n_def)
  show ?thesis
  proof (cases "n < 0")
    case True
    then have "do_msg_queue_block k c (Some p) n = Inr (-EINVAL, k)"
      using q(2,3) by (auto simp: do_msg_queue_block_def with_queue_def)
    with True call seat(1) ok put_same [OF q(3)] show ?thesis by (simp add: on_chat_def chat_block_def flip: n_def)
  next
    case False
    then have n: "0 \<le> n" "n < 2 ^ 31" using sint_lt [of "ucast pd :: u32"] by (simp_all add: n_def)
    obtain r mq' where b: "block_body (pid ctx) n mq = Inr (r, mq')"
      using block_body_total [OF q(5)] by blast
    note fit = block_rows_fit [OF q(4) seat(6) n b]
    have nb: "word_of_int n \<noteq> BROADCAST_PID"
    proof
      assume "word_of_int n = BROADCAST_PID"
      then have "uint (word_of_int n :: u32) = uint BROADCAST_PID" by simp
      with n show False by (simp add: uint_u32_of_int BROADCAST_PID_def)
    qed
    have "members mq' = members mq \<and> chat_block (pid ctx) n (abs_chat mq) = (r, abs_chat mq')"
    proof (cases "r = -EINVAL")
      case True
      then have "word_of_int n \<notin> set (members mq) - {pid ctx}" "mq' = mq"
        using fit(2,3) q(6) by (auto simp: EINVAL_def split: if_splits)
      then show ?thesis using True by (simp add: chat_block_def abs_chat_def)
    next
      case err: False
      then have r: "r = 0" "word_of_int n \<in> set (members mq) - {pid ctx}" using fit(2) by (auto split: if_splits)
      note bb = block_body_blocks(2-4) [OF q(5) b [unfolded r(1)] nb]
      show ?thesis using bb r n by (simp add: chat_block_def abs_chat_def)
    qed
    then have mem: "members mq' = members mq" and abs: "chat_block (pid ctx) n (abs_chat mq) = (r, abs_chat mq')"
      by blast+
    have "call_msg_queue_block k c fd pd = Inr (r, put_queue k qa mq')"
      using call block_on [OF seat(5) n(1)] b by simp
    then show ?thesis
      using post_put [OF ok q(3) block_body_inv [OF q(4) b] fit(1) mem] seat(1) abs
      unfolding n_def [symmetric] by (simp add: on_chat_def)
  qed
qed

section \<open>Creating and leaving\<close>

text \<open>What a process has open is in its row, and only that.\<close>

lemma seat_row_queue:
  "fd < length (files ctx) \<Longrightarrow> seat_row k ctx ! fd = Some (Some qa) \<longleftrightarrow> queue_of k (files ctx ! fd) = Some qa"
  by (cases "files ctx ! fd") (auto simp: nth_seat_row)

lemma set_seat_row:
  assumes "length (files ctx) = MAX_OPEN_FILES"
  shows "Some (Some qa) \<in> set (seat_row k ctx) \<longleftrightarrow> (\<exists>fd < MAX_OPEN_FILES. queue_of k (files ctx ! fd) = Some qa)"
proof -
  have "length (seat_row k ctx) = MAX_OPEN_FILES" using assms by (simp add: seat_row_def)
  then have "Some (Some qa) \<in> set (seat_row k ctx) \<longleftrightarrow> (\<exists>fd < MAX_OPEN_FILES. seat_row k ctx ! fd = Some (Some qa))"
    unfolding in_set_conv_nth by simp
  then show ?thesis using seat_row_queue assms by auto
qed

text \<open>A kernel whose process \<open>c\<close> has another descriptor and whose other objects are read alike.\<close>

lemma abs_post_upd:
  assumes live: "live_ctx k c ctx" and cs: "ctxs k' = (ctxs k)(c \<mapsto> ctx\<lparr>files := (files ctx)[fd := fp]\<rparr>)"
    and qs: "qheap k' = (qheap k)(qa := q)"
    and same: "\<And>c' ctx' i p. live_ctx k c' ctx' \<Longrightarrow> i < length (files ctx') \<Longrightarrow> c' \<noteq> c \<or> i \<noteq> fd \<Longrightarrow>
      files ctx' ! i = Some p \<Longrightarrow> queue_of k' (Some p) = queue_of k (Some p)"
    and len: "fd < length (files ctx)"
  shows "abs_post k' = put_seat c fd (map_option (\<lambda>p. queue_of k' (Some p)) fp) (put_chat qa (map_option abs_chat q) (abs_post k))"
proof -
  have row: "seat_row k' (ctx\<lparr>files := (files ctx)[fd := fp]\<rparr>) =
      (seat_row k ctx)[fd := map_option (\<lambda>p. queue_of k' (Some p)) fp]"
  proof (rule nth_equalityI)
    fix i assume "i < length (seat_row k' (ctx\<lparr>files := (files ctx)[fd := fp]\<rparr>))"
    then have i: "i < length (files ctx)" by (simp add: seat_row_def)
    have "queue_of k' (Some p) = queue_of k (Some p)" if "i \<noteq> fd" "files ctx ! i = Some p" for p
      using same [OF live i _ that(2)] that(1) by blast
    with i show "seat_row k' (ctx\<lparr>files := (files ctx)[fd := fp]\<rparr>) ! i =
        (seat_row k ctx)[fd := map_option (\<lambda>p. queue_of k' (Some p)) fp] ! i"
      by (cases "i = fd"; cases "files ctx ! i") (simp_all add: seat_row_def)
  qed (simp add: seat_row_def)
  have other: "seat_row k' ctx' = seat_row k ctx'" if "live_ctx k c' ctx'" "c' \<noteq> c" for c' ctx'
  proof (rule nth_equalityI)
    fix i assume "i < length (seat_row k' ctx')"
    then have i: "i < length (files ctx')" by (simp add: seat_row_def)
    with same [OF that(1) i] that(2) show "seat_row k' ctx' ! i = seat_row k ctx' ! i"
      by (cases "files ctx' ! i") (simp_all add: nth_seat_row)
  qed (simp add: seat_row_def)
  have "seats (abs_post k') c' = seats (put_seat c fd (map_option (\<lambda>p. queue_of k' (Some p)) fp) (abs_post k)) c'" for c'
  proof (cases "c' = c")
    case True
    have "live_ctx k' c (ctx\<lparr>files := (files ctx)[fd := fp]\<rparr>)" using live cs by (simp add: live_ctx_def)
    with True live row show ?thesis by (simp add: put_seat_def seats_abs)
  next
    case False
    with other cs show ?thesis by (auto simp: put_seat_def abs_post_def live_ctx_def split: option.split)
  qed
  then show ?thesis by (auto intro!: post.equality simp: put_seat_def put_chat_def abs_post_def qs fun_eq_iff)
qed

lemma post_ok_upd:
  assumes ok: "post_ok k" and live: "live_ctx k c ctx"
    and cs: "ctxs k' = (ctxs k)(c \<mapsto> ctx\<lparr>files := (files ctx)[fd := fp]\<rparr>)"
    and qs: "qheap k' = (qheap k)(qa := q)" and q: "\<And>mq. q = Some mq \<Longrightarrow> queue_inv mq \<and> rows_fit mq"
    and same: "\<And>c' ctx' i p. live_ctx k c' ctx' \<Longrightarrow> i < length (files ctx') \<Longrightarrow> c' \<noteq> c \<or> i \<noteq> fd \<Longrightarrow>
      files ctx' ! i = Some p \<Longrightarrow> queue_of k' (Some p) = queue_of k (Some p)"
    and there: "\<And>c' ctx' i p. live_ctx k c' ctx' \<Longrightarrow> i < length (files ctx') \<Longrightarrow> c' \<noteq> c \<or> i \<noteq> fd \<Longrightarrow>
      files ctx' ! i = Some p \<Longrightarrow> fheap k' p \<noteq> None"
    and mem: "\<And>c' ctx' i. live_ctx k c' ctx' \<Longrightarrow> i < length (files ctx') \<Longrightarrow> c' \<noteq> c \<or> i \<noteq> fd \<Longrightarrow>
      queue_of k (files ctx' ! i) = Some qa \<Longrightarrow> \<exists>mq. q = Some mq \<and> pid ctx' \<in> set (members mq)"
    and new: "\<And>p. fp = Some p \<Longrightarrow> fheap k' p \<noteq> None \<and> queue_of k' (Some p) = Some qa \<and>
      (\<exists>mq. q = Some mq \<and> pid ctx \<in> set (members mq)) \<and>
      (\<forall>i < length (files ctx). i \<noteq> fd \<longrightarrow> queue_of k (files ctx ! i) \<noteq> Some qa)"
    and len: "fd < length (files ctx)"
  shows "post_ok k'"
proof -
  let ?ctx = "ctx\<lparr>files := (files ctx)[fd := fp]\<rparr>"
  have live': "live_ctx k' c' x \<longleftrightarrow> (if c' = c then x = ?ctx else live_ctx k c' x)" for c' x
    using live cs by (auto simp: live_ctx_def)
  have same': "queue_of k' (files ctx' ! i) = queue_of k (files ctx' ! i)"
    if "live_ctx k c' ctx'" "i < length (files ctx')" "c' \<noteq> c \<or> i \<noteq> fd" for c' ctx' i
    using same [OF that] by (cases "files ctx' ! i") auto
  have open': "\<exists>mq. qheap k' qa' = Some mq \<and> pid ctx' \<in> set (members mq)"
    if "live_ctx k c' ctx'" "i < length (files ctx')" "c' \<noteq> c \<or> i \<noteq> fd" "queue_of k (files ctx' ! i) = Some qa'" for c' ctx' i qa'
    using mem [OF that(1-3)] seatedD(1,4) [OF post_okD(3) [OF ok that(1)]] that qs by (cases "qa' = qa") auto
  have other: "seated k' ctx'" if l: "live_ctx k c' ctx'" "c' \<noteq> c" for c' ctx'
  proof -
    note s = seatedD [OF post_okD(3) [OF ok l(1)]]
    have a: "fheap k' p \<noteq> None" if "i < MAX_OPEN_FILES" "files ctx' ! i = Some p" for i p
      using there [OF l(1) _ _ that(2)] that(1) l(2) s(1) by simp
    have b: "queue_of k' (files ctx' ! i) = queue_of k (files ctx' ! i)" if "i < MAX_OPEN_FILES" for i
      using same' [OF l(1)] that l(2) s(1) by simp
    have d: "\<exists>mq. qheap k' qa' = Some mq \<and> pid ctx' \<in> set (members mq)"
      if "i < MAX_OPEN_FILES" "queue_of k (files ctx' ! i) = Some qa'" for i qa'
      using open' [OF l(1) _ _ that(2)] that(1) l(2) s(1) by simp
    show ?thesis
    proof (rule seatedI [OF s(1,2) a])
      show "\<exists>mq. qheap k' qa' = Some mq \<and> pid ctx' \<in> set (members mq)"
        if "i < MAX_OPEN_FILES" "queue_of k' (files ctx' ! i) = Some qa'" for i qa'
        using d [OF that(1)] that(2) unfolding b [OF that(1)] by blast
      show "j = i" if "i < MAX_OPEN_FILES" "j < MAX_OPEN_FILES"
        "queue_of k' (files ctx' ! i) = Some qa'" "queue_of k' (files ctx' ! j) = Some qa'" for i j qa'
        using s(5) [OF that(1,2)] that(3,4) unfolding b [OF that(1)] b [OF that(2)] by blast
    qed
  qed
  have self: "seated k' ?ctx"
  proof -
    note s = seatedD [OF post_okD(3) [OF ok live]]
    have nth: "files ?ctx ! i = (if i = fd then fp else files ctx ! i)" if "i < MAX_OPEN_FILES" for i
      using that s(1) len by (simp add: nth_list_update)
    have a: "fheap k' p \<noteq> None" if "i < MAX_OPEN_FILES" "files ?ctx ! i = Some p" for i p
    proof (cases "i = fd")
      case False
      with there [OF live, of i p] that nth [OF that(1)] s(1) show ?thesis by simp
    qed (use that nth [OF that(1)] new in simp)
    have b: "queue_of k' (files ?ctx ! i) = (if i = fd then (if fp = None then None else Some qa) else queue_of k (files ctx ! i))"
      if "i < MAX_OPEN_FILES" for i
      using same' [OF live, of i] that s(1) nth [OF that] new by auto
    have d: "\<exists>mq. qheap k' qa' = Some mq \<and> pid ctx \<in> set (members mq)"
      if "i < MAX_OPEN_FILES" "queue_of k' (files ?ctx ! i) = Some qa'" for i qa'
    proof (cases "i = fd")
      case True
      with that b [OF that(1)] new qs show ?thesis by (cases fp) auto
    next
      case False
      with open' [OF live, of i qa'] that b [OF that(1)] s(1) show ?thesis by simp
    qed
    have one: "fp = None \<or> queue_of k (files ctx ! m) \<noteq> Some qa" if "m < MAX_OPEN_FILES" "m \<noteq> fd" for m
      using new that s(1) by (cases fp) auto
    have u: "j = i" if "i < MAX_OPEN_FILES" "j < MAX_OPEN_FILES"
      "queue_of k' (files ?ctx ! i) = Some qa'" "queue_of k' (files ?ctx ! j) = Some qa'" for i j qa'
    proof (cases "i = fd \<or> j = fd")
      case True
      with that(3,4) one [OF that(1)] one [OF that(2)] show ?thesis
        unfolding b [OF that(1)] b [OF that(2)] by (auto split: if_splits)
    next
      case False
      with that(3,4) s(5) [OF that(1,2)] show ?thesis unfolding b [OF that(1)] b [OF that(2)] by simp
    qed
    show ?thesis
    proof (rule seatedI)
      show "length (files ?ctx) = MAX_OPEN_FILES" "pid ?ctx \<noteq> BROADCAST_PID" using s(1,2) by simp_all
    next
      fix i p assume "i < MAX_OPEN_FILES" "files ?ctx ! i = Some p"
      then show "fheap k' p \<noteq> None" by (rule a)
    next
      fix i qa' assume "i < MAX_OPEN_FILES" "queue_of k' (files ?ctx ! i) = Some qa'"
      from d [OF this] show "\<exists>mq. qheap k' qa' = Some mq \<and> pid ?ctx \<in> set (members mq)" by simp
    next
      fix i j qa' assume "i < MAX_OPEN_FILES" "j < MAX_OPEN_FILES"
        "queue_of k' (files ?ctx ! i) = Some qa'" "queue_of k' (files ?ctx ! j) = Some qa'"
      then show "j = i" by (rule u)
    qed
  qed
  have "\<forall>qa' mq. qheap k' qa' = Some mq \<longrightarrow> queue_inv mq \<and> rows_fit mq"
    using post_okD(1,2) [OF ok] q qs by simp
  moreover have "\<forall>c ctx. live_ctx k' c ctx \<longrightarrow> seated k' ctx" using self other live' by metis
  moreover have "\<forall>c1 x1 c2 x2. live_ctx k' c1 x1 \<longrightarrow> live_ctx k' c2 x2 \<longrightarrow> pid x2 = pid x1 \<longrightarrow> c2 = c1"
  proof (intro allI impI)
    fix c1 x1 c2 x2 assume "live_ctx k' c1 x1" "live_ctx k' c2 x2" "pid x2 = pid x1"
    moreover have "\<exists>y. live_ctx k c' y \<and> pid y = pid x" if "live_ctx k' c' x" for c' x
      using that live unfolding live' by (auto split: if_splits)
    ultimately show "c2 = c1" using post_okD(4) [OF ok] by metis
  qed
  ultimately show ?thesis unfolding post_ok_def by blast
qed

lemma queue_of_fresh: "fheap k p = None \<Longrightarrow> fheap k q \<noteq> None \<Longrightarrow> fheap k' = (fheap k)(p \<mapsto> f) \<Longrightarrow>
    queue_of k' (Some q) = queue_of k (Some q)"
  by (auto simp: queue_of_def)


lemma refine_create:
  assumes ok: "post_ok k" and live: "live_ctx k c ctx" and p: "fheap k p = None"
    and new: "\<And>qa. q = Some qa \<Longrightarrow> qheap k qa = None" and page: "queue_room (q, qpage)"
  shows "\<exists>r k'. do_create_msg_queue q qpage p page k c = Inr (r, k') \<and> post_ok k' \<and>
    chat_step (c, Chat_create q) (abs_post k) = ((r, None, []), abs_post k')"
proof -
  have ctx: "ctxs k c = Some ctx" using live by (simp add: live_ctx_def)
  note seated = post_okD(3) [OF ok live]
  note s = seatedD [OF seated]
  have pg: "length (member_pid qpage) = MAX_MEMBERS" "length (msg_buffer qpage) = MAX_MESSAGES"
    "length (block_process qpage) = MAX_MEMBERS * MAX_MEMBERS + 3" using page by (simp_all add: queue_room_def)
  have find: "find (\<lambda>fd. seat_row k ctx ! fd = None) [3..<MAX_OPEN_FILES] = free_fd ctx"
    unfolding free_fd_def using s(1) by (intro find_cong) (auto simp: nth_seat_row)
  have "\<exists>z. do_create_msg_queue q qpage p page k c = Inr z"
    using ctx free_fdD(1) [of ctx]
    by (auto simp: do_create_msg_queue_def Let_def alloc_file_def set_fd_def ctx_at_def split: option.split dest: free_fdD)
  then obtain r k' where eq: "do_create_msg_queue q qpage p page k c = Inr (r, k')" by auto
  show ?thesis
  proof (cases "free_fd ctx = None \<or> q = None")
    case True
    then have "do_create_msg_queue q qpage p page k c = Inr (-ENOMEM, k)"
      using ctx by (auto simp: do_create_msg_queue_def split: option.split)
    with True ok show ?thesis by (auto simp: chat_create_def seats_abs [OF live] find split: option.split)
  next
    case False
    from eq show ?thesis
    proof (cases rule: create_cases)
      case full
      have False
        using eq ctx False full(1) by (auto simp: do_create_msg_queue_def Let_def alloc_file_def set_fd_def ctx_at_def
            ENOMEM_def bind_res_Inr split: option.splits if_splits)
      then show ?thesis ..
    next
      case (created ctx' qa fd)
      have same: "ctx' = ctx" using created(1) ctx by simp
      note fd = free_fdD [OF created(2) [unfolded same]]
      have qa: "qheap k qa = None" using new created(4) by simp
      have f: "queue_of k' (Some p) = Some qa" using created(7) by (simp add: queue_of_def)
      have old: "queue_of k' (Some p') = queue_of k (Some p')" if "fheap k p' \<noteq> None" for p'
        using queue_of_fresh [OF p that created(7)] .
      have q0: "queue_inv (init_queue qpage (pid ctx))" "rows_fit (init_queue qpage (pid ctx))"
        "members (init_queue qpage (pid ctx)) = [pid ctx]"
        "abs_chat (init_queue qpage (pid ctx)) = \<lparr>who = [pid ctx], letters = [], refused = {}\<rparr>"
        using init_queue_ok [OF pg] init_rows_fit [OF pg] by (simp_all add: queue_inv_def abs_chat_def)
      have held: "queue_of k' (Some p') = queue_of k (Some p')"
        if "live_ctx k c' ctx'" "i < length (files ctx')" "files ctx' ! i = Some p'" for c' ctx' i p'
        using seatedD(1,3) [OF post_okD(3) [OF ok that(1)]] that(2,3) old by auto
      have len: "fd < length (files ctx)" using fd s(1) by simp
      have no: "queue_of k (files ctx' ! i) \<noteq> Some qa" if "live_ctx k c' ctx'" "i < length (files ctx')" for c' ctx' i
        using seatedD(1,4) [OF post_okD(3) [OF ok that(1)]] that(2) qa by fastforce
      have "abs_post k' = put_seat c fd (map_option (\<lambda>p. queue_of k' (Some p)) (Some p))
          (put_chat qa (map_option abs_chat (Some (init_queue qpage (pid ctx)))) (abs_post k))"
        by (rule abs_post_upd [OF live created(8) [unfolded same] created(6) [unfolded same] held len])
      then have "chat_step (c, Chat_create q) (abs_post k) = ((r, None, []), abs_post k')"
        using created(2,4,5) same f q0(4) by (simp add: chat_create_def seats_abs [OF live] find)
      moreover have "post_ok k'"
      proof (rule post_ok_upd [OF ok live created(8) [unfolded same] created(6) [unfolded same] _ held _ _ _ len])
        show "fheap k' p' \<noteq> None" if "live_ctx k c' ctx'" "i < length (files ctx')" "files ctx' ! i = Some p'" for c' ctx' i p'
          using seatedD(1,3) [OF post_okD(3) [OF ok that(1)]] that(2,3) created(7) by auto
      qed (use q0 f no live created(7) in auto)
      ultimately show ?thesis using eq by blast
    qed
  qed
qed

text \<open>Closing a descriptor of a queue; \<open>x\<close> is the descriptor as the handler reads it.\<close>

lemma remove1_index:
  assumes "distinct xs" "i < length xs" "xs ! i = x"
  shows "remove1 x xs = take i xs @ drop (Suc i) xs"
proof -
  have split: "xs = take i xs @ x # drop (Suc i) xs" using id_take_nth_drop [OF assms(2)] assms(3) by simp
  with assms(1) have "distinct (take i xs @ x # drop (Suc i) xs)" by simp
  then have "x \<notin> set (take i xs)" by simp
  with split show ?thesis by (metis remove1_append remove1.simps(2))
qed

lemma abs_chat_leave:
  assumes "queue_inv mq" "i < length (members mq)" "members mq ! i = pd"
  shows "abs_chat (leave_queue pd i mq) = chat_without pd (abs_chat mq)"
proof -
  note ok = queue_invD [OF assms(1)]
  show ?thesis
    using leave_members [OF ok(1) assms(2), of pd] leave_blocks(1) [OF ok assms(2,3)] remove1_index [OF mq_okD(3) [OF ok(1)] assms(2,3)]
    by (simp add: abs_chat_def chat_without_def)
qed

lemma refine_leave:
  assumes ok: "post_ok k" and live: "live_ctx k c ctx" and fd: "x < int MAX_OPEN_FILES"
  shows "\<exists>r k' ctx'. do_msg_queue_close k c x = Inr (r, k') \<and> post_ok k' \<and> live_ctx k' c ctx' \<and>
    chat_leave c x (abs_post k) = ((r, None, []), abs_post k')"
proof (cases "x < 0")
  case True
  with ok live show ?thesis by (auto simp: do_msg_queue_close_def chat_leave_def at_seat_def)
next
  case False
  then have "fd_in x" using fd by (simp add: fd_in_def)
  with ok live show ?thesis
  proof (cases rule: seat_cases)
    case none
    then have "do_msg_queue_close k c x = Inr (-EINVAL, k)"
      using False by (simp add: do_msg_queue_close_def with_no_queue)
    with none(1) ok live show ?thesis by (auto simp: chat_leave_def)
  next
    case (seat p qa mq)
    note q = queue_fdD [OF seat(5)]
    note s = seatedD [OF post_okD(3) [OF ok live]]
    have x: "nat x < MAX_OPEN_FILES" using False fd by simp
    obtain f where f: "fheap k p = Some f" "msg_queue f = Some qa" using q(2) by blast
    obtain i where i: "find_member mq (pid ctx) = Inr (Some i)" "i < length (members mq)" "members mq ! i = pid ctx"
      by (rule member_index [OF q(5,6)])
    have "\<exists>z. do_msg_queue_close k c x = Inr z"
      using False fd q(1,3) seat(2) f i(1)
      by (simp add: do_msg_queue_close_def with_queue_def Let_def free_file_object_def set_fd_def ctx_at_def put_queue_def)
    then obtain r k' where eq: "do_msg_queue_close k c x = Inr (r, k')" by auto
    have "r \<noteq> -EINVAL"
      using eq False fd q(1,3) seat(2) f i(1)
      by (auto simp: do_msg_queue_close_def with_queue_def Let_def bind_res_Inr EINVAL_def)
    with post_okD(5) [OF ok] eq show ?thesis
    proof (cases rule: close_cases)
      case (left ctx0 p0 f0 qa0 mq0 i0)
      have same: "ctx0 = ctx" "p0 = p" "f0 = f" "qa0 = qa" "mq0 = mq" using left(2,5-8) q(1,3) seat(3) f by auto
      have i0: "i0 < length (members mq)" "members mq ! i0 = pid ctx" using left(10,11) same by simp_all
      define last where "last \<longleftrightarrow> length (members mq) = 1"
      define q' where "q' = (if last then None else Some (leave_queue (pid ctx) i0 mq))"
      note lv = leave_members [OF q(5) i0(1), of "pid ctx"]
      have mem': "set (members (leave_queue (pid ctx) i0 mq)) = set (members mq) - {pid ctx}"
        using lv(2) remove1_index [OF mq_okD(3) [OF q(5)] i0] set_remove1_eq [OF mq_okD(3) [OF q(5)]] by metis
      have one: "members mq = [pid ctx]" if last
        using that i0 by (cases "members mq") (auto simp: last_def)
      have last: "members mq = [pid ctx] \<longleftrightarrow> last" using one by (auto simp: last_def)
      have qa_fd: "queue_of k (files ctx ! nat x) = Some qa" using seat(3,4) by simp
      have away: "c' \<noteq> c \<and> pid ctx' \<in> set (members mq) - {pid ctx}"
        if l: "live_ctx k c' ctx'" "j < length (files ctx')" "c' \<noteq> c \<or> j \<noteq> nat x" "queue_of k (files ctx' ! j) = Some qa" for c' ctx' j
      proof -
        note s' = seatedD [OF post_okD(3) [OF ok l(1)]]
        have j: "j < MAX_OPEN_FILES" using l(2) s'(1) by simp
        have "c' \<noteq> c"
        proof
          assume "c' = c"
          then have "ctx' = ctx" using l(1) live by (simp add: live_ctx_def)
          with s(5) [OF x j qa_fd] l(3,4) \<open>c' = c\<close> show False by simp
        qed
        moreover have "pid ctx' \<noteq> pid ctx" using post_okD(4) [OF ok live l(1)] \<open>c' \<noteq> c\<close> by blast
        moreover have "pid ctx' \<in> set (members mq)" using s'(4) [OF j l(4)] q(3) by auto
        ultimately show ?thesis by blast
      qed
      have keep: "fheap k' p' = fheap k p'"
        if l: "live_ctx k c' ctx'" "j < length (files ctx')" "c' \<noteq> c \<or> j \<noteq> nat x" "files ctx' ! j = Some p'" for c' ctx' j p'
      proof (cases "last \<and> p' = p")
        case True
        then have "queue_of k (files ctx' ! j) = Some qa" using l(4) seat(4) by simp
        from away [OF l(1-3) this] one True show ?thesis by auto
      qed (use left(13) same in \<open>auto simp: last_def\<close>)
      have len: "nat x < length (files ctx)" using x s(1) by simp
      have cs: "ctxs k' = (ctxs k)(c \<mapsto> ctx\<lparr>files := (files ctx)[nat x := None]\<rparr>)" using left(14) same by simp
      have qs: "qheap k' = (qheap k)(qa := q')" using left(12) same by (simp add: q'_def last_def)
      have held: "queue_of k' (Some p') = queue_of k (Some p')"
        if "live_ctx k c' ctx'" "j < length (files ctx')" "c' \<noteq> c \<or> j \<noteq> nat x" "files ctx' ! j = Some p'" for c' ctx' j p'
        using keep [OF that] by (simp add: queue_of_def)
      have "post_ok k'"
      proof (rule post_ok_upd [OF ok live cs qs _ held _ _ _ len])
        show "fheap k' p' \<noteq> None" if l: "live_ctx k c' ctx'" "j < length (files ctx')" "c' \<noteq> c \<or> j \<noteq> nat x" "files ctx' ! j = Some p'" for c' ctx' j p'
          using seatedD(1,3) [OF post_okD(3) [OF ok l(1)]] l(2,4) keep [OF l] by auto
        show "\<exists>mq. q' = Some mq \<and> pid ctx' \<in> set (members mq)"
          if "live_ctx k c' ctx'" "j < length (files ctx')" "c' \<noteq> c \<or> j \<noteq> nat x" "queue_of k (files ctx' ! j) = Some qa" for c' ctx' j
        proof (cases last)
          case True
          with away [OF that] one show ?thesis by auto
        next
          case False
          with away [OF that] mem' show ?thesis by (simp add: q'_def)
        qed
        show "queue_inv mq' \<and> rows_fit mq'" if "q' = Some mq'" for mq'
          using that leave_inv [OF q(4) i0] leave_rows_fit [OF q(4) seat(6) i0] by (auto simp: q'_def split: if_splits)
      qed simp_all
      moreover have "abs_post k' = put_seat c (nat x) (map_option (\<lambda>p. queue_of k' (Some p)) None)
          (put_chat qa (map_option abs_chat q') (abs_post k))"
        by (rule abs_post_upd [OF live cs qs held len])
      then have "chat_leave c x (abs_post k) = ((r, None, []), abs_post k')"
        using seat(1) left(1) last abs_chat_leave [OF q(4) i0] by (simp add: chat_leave_def q'_def) (simp add: abs_chat_def)
      moreover have "live_ctx k' c (ctx\<lparr>files := (files ctx)[nat x := None]\<rparr>)" using cs live by (simp add: live_ctx_def)
      ultimately show ?thesis using eq by blast
    qed simp
  qed
qed

text \<open>Leaving all queues, as exit does.\<close>

lemma cleanup_loop_leaves:
  assumes "post_ok k" "live_ctx k c ctx" "set fds \<subseteq> {..<MAX_OPEN_FILES}"
  shows "\<exists>k'. cleanup_loop k c fds = Inr k' \<and> post_ok k' \<and> abs_post k' = chat_exit c fds (abs_post k)"
  using assms
proof (induction fds arbitrary: k ctx)
  case Nil
  then show ?case by (simp add: chat_exit_def)
next
  case (Cons fd fds)
  have fd: "int fd < int MAX_OPEN_FILES" "fd_in (int fd)" using Cons.prems(3) by (auto simp: fd_in_def)
  obtain r k1 ctx1 where leave: "do_msg_queue_close k c (int fd) = Inr (r, k1)" "post_ok k1" "live_ctx k1 c ctx1"
    "chat_leave c (int fd) (abs_post k) = ((r, None, []), abs_post k1)"
    using refine_leave [OF Cons.prems(1,2) fd(1)] by blast
  obtain k' where k': "cleanup_loop k1 c fds = Inr k'" "post_ok k'" "abs_post k' = chat_exit c fds (abs_post k1)"
    using Cons.IH [OF leave(2,3)] Cons.prems(3) by auto
  have "cleanup_loop k c (fd # fds) = Inr k'"
    using Cons.prems(1,2) fd(2)
  proof (cases rule: seat_cases)
    case none
    then have "do_msg_queue_close k c (int fd) = Inr (-EINVAL, k)" by (simp add: do_msg_queue_close_def with_no_queue del: get_fd_eq)
    with leave(1) have "k1 = k" by simp
    with none k'(1) show ?thesis by (simp add: with_no_queue del: get_fd_eq)
  next
    case (seat p qa mq)
    then show ?thesis
      using leave(1) k'(1) queue_fdD(2,3) [OF seat(5)] by (auto simp: with_queue_def simp del: get_fd_eq)
  qed
  with k' leave(4) show ?case by (simp add: chat_exit_def)
qed

section \<open>Forking\<close>

lemma only_queues_same:
  assumes "only_queues k k'"
  shows "ctxs k' = ctxs k" "fheap k' = fheap k"
proof -
  have eq: "k' = k\<lparr>qheap := qheap k'\<rparr>" using assms by (simp add: only_queues_def)
  show "ctxs k' = ctxs k" using arg_cong [OF eq, of ctxs] by simp
  show "fheap k' = fheap k" using arg_cong [OF eq, of fheap] by simp
qed

text \<open>
  A child gets the descriptors of its parent and joins the queues behind them. The kernel's two routines
  that copy the address space and set up the child's registers leave pids, states and descriptors alone.
\<close>

definition same_seats :: "kernel \<Rightarrow> kernel \<Rightarrow> bool" where
  "same_seats k k' \<longleftrightarrow> qheap k' = qheap k \<and> fheap k' = fheap k \<and>
     (\<forall>c. map_option (\<lambda>x. (pid x, pstate x = UNUSED, files x)) (ctxs k' c) =
          map_option (\<lambda>x. (pid x, pstate x = UNUSED, files x)) (ctxs k c))"

definition forked :: "env \<Rightarrow> kernel \<Rightarrow> nat \<Rightarrow> exec_context \<Rightarrow> kernel" where
  "forked e k c ctx =
     (case get_new_ctx e k of (n, pd) \<Rightarrow> k\<lparr>ctxs := (ctxs k)(n \<mapsto> ctx\<lparr>pid := pd, ppid := pid ctx\<rparr>)\<rparr>)"

definition fork_fits :: "env \<Rightarrow> kernel \<Rightarrow> nat \<Rightarrow> exec_context \<Rightarrow> bool" where
  "fork_fits e k c ctx \<longleftrightarrow> (case get_new_ctx e k of (n, pd) \<Rightarrow>
     (\<forall>x. \<not> live_ctx k n x) \<and> pd \<noteq> BROADCAST_PID \<and> (\<forall>c' x. live_ctx k c' x \<longrightarrow> pid x \<noteq> pd) \<and>
     (\<forall>fd < MAX_OPEN_FILES. \<forall>qa. queue_of k (files ctx ! fd) = Some qa \<longrightarrow> can_join k pd qa) \<and>
     same_seats (forked e k c ctx) (setup_child_context e n (copy_mm e n c (forked e k c ctx))))"

lemma same_seatsD:
  assumes "same_seats k k'"
  shows "qheap k' = qheap k" "fheap k' = fheap k"
    "live_ctx k' c x' \<Longrightarrow> \<exists>x. live_ctx k c x \<and> pid x = pid x' \<and> files x = files x'"
    "live_ctx k c x \<Longrightarrow> \<exists>x'. live_ctx k' c x' \<and> pid x' = pid x \<and> files x' = files x"
proof -
  have "map_option (\<lambda>x. (pid x, pstate x = UNUSED, files x)) (ctxs k' c) =
      map_option (\<lambda>x. (pid x, pstate x = UNUSED, files x)) (ctxs k c)"
    using assms by (simp add: same_seats_def)
  then have "(live_ctx k' c x' \<longrightarrow> (\<exists>x. live_ctx k c x \<and> pid x = pid x' \<and> files x = files x')) \<and>
      (live_ctx k c x \<longrightarrow> (\<exists>x'. live_ctx k' c x' \<and> pid x' = pid x \<and> files x' = files x))"
    by (cases "ctxs k c"; cases "ctxs k' c") (auto simp: live_ctx_def)
  then show "live_ctx k' c x' \<Longrightarrow> \<exists>x. live_ctx k c x \<and> pid x = pid x' \<and> files x = files x'"
    "live_ctx k c x \<Longrightarrow> \<exists>x'. live_ctx k' c x' \<and> pid x' = pid x \<and> files x' = files x" by blast+
qed (use assms in \<open>simp_all add: same_seats_def\<close>)

lemma distinct_map_filter:
  assumes "\<And>i j y. i < length xs \<Longrightarrow> j < length xs \<Longrightarrow> g (xs ! i) = Some y \<Longrightarrow> g (xs ! j) = Some y \<Longrightarrow> j = i"
  shows "distinct (List.map_filter g xs)"
  using assms
proof (induction xs)
  case (Cons x xs)
  have "distinct (List.map_filter g xs)"
  proof (rule Cons.IH)
    fix i j y assume "i < length xs" "j < length xs" "g (xs ! i) = Some y" "g (xs ! j) = Some y"
    then show "j = i" using Cons.prems [of "Suc i" "Suc j" y] by simp
  qed
  moreover have "y \<notin> set (List.map_filter g xs)" if "g x = Some y" for y
  proof
    assume "y \<in> set (List.map_filter g xs)"
    then obtain i where "i < length xs" "g (xs ! i) = Some y"
      by (auto simp: map_filter_def in_set_conv_nth)
    with Cons.prems [of 0 "Suc i" y] that show False by simp
  qed
  ultimately show ?case by (simp add: map_filter_simps split: option.split)
qed (simp add: map_filter_simps)

lemma set_map_filter_queue:
  assumes "length (files ctx) = MAX_OPEN_FILES"
  shows "qa \<in> set (List.map_filter (queue_of k) (files ctx)) \<longleftrightarrow> (\<exists>fd < MAX_OPEN_FILES. queue_of k (files ctx ! fd) = Some qa)"
proof -
  have "qa \<in> set (List.map_filter (queue_of k) (files ctx)) \<longleftrightarrow> (\<exists>fp \<in> set (files ctx). queue_of k fp = Some qa)"
    by (force simp: map_filter_def)
  also have "\<dots> \<longleftrightarrow> (\<exists>fd < MAX_OPEN_FILES. queue_of k (files ctx ! fd) = Some qa)"
    unfolding Bex_def in_set_conv_nth using assms by auto
  finally show ?thesis .
qed

lemma refine_fork:
  assumes ok: "post_ok k" and live: "live_ctx k c ctx" and fits: "fork_fits e k c ctx"
  shows "\<exists>r k'. do_fork e k c = Inr (r, k') \<and> post_ok k' \<and>
    chat_step (c, case get_new_ctx e k of (n, pd) \<Rightarrow> Chat_fork n pd) (abs_post k) = ((r, None, []), abs_post k')"
proof -
  obtain n pd where new: "get_new_ctx e k = (n, pd)" by (cases "get_new_ctx e k")
  define k1 where "k1 = forked e k c ctx"
  define k2 where "k2 = setup_child_context e n (copy_mm e n c k1)"
  have ctx: "ctxs k c = Some ctx" using live by (simp add: live_ctx_def)
  note s = seatedD [OF post_okD(3) [OF ok live]]
  have f: "\<And>x. \<not> live_ctx k n x" "pd \<noteq> BROADCAST_PID" "\<And>c' x. live_ctx k c' x \<Longrightarrow> pid x \<noteq> pd"
    "\<And>fd qa. fd < MAX_OPEN_FILES \<Longrightarrow> queue_of k (files ctx ! fd) = Some qa \<Longrightarrow> can_join k pd qa" "same_seats k1 k2"
    using fits by (auto simp: fork_fits_def new k1_def k2_def)
  let ?child = "ctx\<lparr>pid := pd, ppid := pid ctx\<rparr>"
  have k1: "k1 = k\<lparr>ctxs := (ctxs k)(n \<mapsto> ?child)\<rparr>" by (simp add: k1_def forked_def new)
  have live1: "live_ctx k1 c' x \<longleftrightarrow> (if c' = n then x = ?child else live_ctx k c' x)" for c' x
    using live by (auto simp: live_ctx_def k1)
  note ss = same_seatsD [OF f(5)]
  have heaps: "qheap k2 = qheap k" "fheap k2 = fheap k" using ss(1,2) by (simp_all add: k1)
  have qo: "queue_of k2 = queue_of k" by (simp add: queue_of_def [abs_def] heaps)
  have "live_ctx k1 n ?child" by (simp add: live1)
  from ss(4) [OF this] obtain ch where ch: "live_ctx k2 n ch" "pid ch = pd" "files ch = files ctx" by auto
  have chs: "ctxs k2 n = Some ch" using ch(1) by (simp add: live_ctx_def)
  let ?opens = "set (List.map_filter (queue_of k) (files ctx))"
  have opens: "qa \<in> ?opens \<longleftrightarrow> (\<exists>fd < MAX_OPEN_FILES. queue_of k (files ctx ! fd) = Some qa)" for qa
    by (rule set_map_filter_queue [OF s(1)])
  have "\<exists>k'. add_child_loop pd k2 (files ctx) = Inr k' \<and> only_queues k2 k' \<and>
    (\<forall>qa. if qa \<in> set (List.map_filter (queue_of k2) (files ctx)) then joined pd (qheap k2 qa) (qheap k' qa)
          else qheap k' qa = qheap k2 qa)"
  proof (rule add_child_loop_joins)
    show "\<forall>p. Some p \<in> set (files ctx) \<longrightarrow> fheap k2 p \<noteq> None"
      using s(1,3) by (auto simp: in_set_conv_nth heaps)
    show "distinct (List.map_filter (queue_of k2) (files ctx))"
      unfolding qo using s(1,5) by (intro distinct_map_filter) auto
    show "\<forall>qa\<in>set (List.map_filter (queue_of k2) (files ctx)). can_join k2 pd qa"
      unfolding qo using f(4) opens by (auto simp: can_join_def heaps)
  qed
  then obtain k' where k': "add_child_loop pd k2 (files ctx) = Inr k'" "only_queues k2 k'"
    and join: "\<And>qa. if qa \<in> ?opens then joined pd (qheap k qa) (qheap k' qa) else qheap k' qa = qheap k qa"
    unfolding qo heaps by blast
  have same: "ctxs k' = ctxs k2" "fheap k' = fheap k"
    using only_queues_same [OF k'(2)] heaps by simp_all
  have fork: "do_fork e k c = Inr (uint pd, k')"
    using k'(1) ctx chs ch(2,3) s(1) by (simp add: do_fork_def new Let_def do_add_child_to_msg_queue_def flip: k1 k2_def)
  have qo': "queue_of k' = queue_of k" by (simp add: queue_of_def [abs_def] same)
  have live': "live_ctx k' = live_ctx k2" by (simp add: live_ctx_def fun_eq_iff same)
  have known: "\<exists>y. pid y = pid x \<and> files y = files x \<and> (if c' = n then y = ?child else live_ctx k c' y)"
    if "live_ctx k' c' x" for c' x
    using ss(3) [of c' x] that unfolding live' live1 by blast
  have mono: "\<exists>mq'. qheap k' qa = Some mq' \<and> set (members mq) \<subseteq> set (members mq')" if "qheap k qa = Some mq" for qa mq
    using join [of qa] that by (auto simp: joined_def split: if_splits)
  have qs: "queue_inv mq' \<and> rows_fit mq'" if "qheap k' qa = Some mq'" for qa mq'
  proof (cases "qa \<in> ?opens")
    case True
    with join [of qa] that obtain mq where mq: "qheap k qa = Some mq" "queue_inv mq'" "members mq' = members mq @ [pd]"
      "block_process mq' = block_process mq" by (auto simp: joined_def)
    with joined_rows_fit [OF post_okD(1) [OF ok mq(1)] mq(2) post_okD(2) [OF ok mq(1)] mq(3,4)] show ?thesis by simp
  next
    case False
    with join [of qa] that post_okD(1,2) [OF ok] show ?thesis by simp
  qed
  have seated: "seated k' x" if l: "live_ctx k' c' x" for c' x
  proof -
    obtain y where y: "pid y = pid x" "files y = files x" "if c' = n then y = ?child else live_ctx k c' y"
      using known [OF l] by blast
    define z where "z = (if c' = n then ctx else y)"
    have z: "files x = files z" "c' \<noteq> n \<Longrightarrow> pid x = pid z" "c' = n \<Longrightarrow> z = ctx \<and> pid x = pd"
      using y by (auto simp: z_def split: if_splits)
    have "live_ctx k (if c' = n then c else c') z" using y(3) live by (simp add: z_def)
    note z = z(1) post_okD(3) [OF ok this] z(2,3)
    note sz = seatedD [OF z(2)]
    show ?thesis
    proof (rule seatedI)
      show "length (files x) = MAX_OPEN_FILES" using sz(1) z(1) by simp
      show "pid x \<noteq> BROADCAST_PID" using sz(2) z(3,4) f(2) by (cases "c' = n") simp_all
      show "fheap k' p \<noteq> None" if "i < MAX_OPEN_FILES" "files x ! i = Some p" for i p
        using sz(3) [OF that(1)] that(2) z(1) same(2) by auto
      show "j = i" if "i < MAX_OPEN_FILES" "j < MAX_OPEN_FILES" "queue_of k' (files x ! i) = Some qa"
        "queue_of k' (files x ! j) = Some qa" for i j qa
        using sz(5) [OF that(1,2)] that(3,4) unfolding z(1) qo' by blast
      show "\<exists>mq. qheap k' qa = Some mq \<and> pid x \<in> set (members mq)"
        if i: "i < MAX_OPEN_FILES" "queue_of k' (files x ! i) = Some qa" for i qa
      proof -
        have q: "queue_of k (files z ! i) = Some qa" using i(2) z(1) qo' by simp
        obtain mq where mq: "qheap k qa = Some mq" "pid z \<in> set (members mq)" using sz(4) [OF i(1) q] by blast
        show ?thesis
        proof (cases "c' = n")
          case True
          then have "qa \<in> ?opens" using q i(1) z(4) opens by auto
          with join [of qa] z(4) True show ?thesis by (auto simp: joined_def)
        next
          case False
          with mono [OF mq(1)] mq(2) z(3) show ?thesis by auto
        qed
      qed
    qed
  qed
  have ids: "c2 = c1" if l: "live_ctx k' c1 x1" "live_ctx k' c2 x2" "pid x2 = pid x1" for c1 x1 c2 x2
  proof -
    obtain y1 where y1: "pid y1 = pid x1" "if c1 = n then y1 = ?child else live_ctx k c1 y1" using known [OF l(1)] by blast
    obtain y2 where y2: "pid y2 = pid x2" "if c2 = n then y2 = ?child else live_ctx k c2 y2" using known [OF l(2)] by blast
    show ?thesis
      using y1 y2 l(3) f(3) [of c1 y1] f(3) [of c2 y2] post_okD(4) [OF ok, of c1 y1 c2 y2]
      by (cases "c1 = n"; cases "c2 = n") auto
  qed
  have "post_ok k'"
    unfolding post_ok_def using qs seated ids by blast
  moreover have "abs_post k' = snd (chat_fork c n pd (abs_post k))"
  proof (rule post.equality)
    have row: "Some (Some qa) \<in> set (seat_row k ctx) \<longleftrightarrow> qa \<in> ?opens" for qa
      unfolding opens by (rule set_seat_row [OF s(1)])
    have "chats (abs_post k') qa = (if qa \<in> ?opens then map_option (\<lambda>q. q\<lparr>who := who q @ [pd]\<rparr>) (chats (abs_post k) qa)
        else chats (abs_post k) qa)" for qa
      using join [of qa] by (auto simp: joined_def abs_chat_def)
    then show "chats (abs_post k') = chats (snd (chat_fork c n pd (abs_post k)))"
      by (simp add: chat_fork_def seats_abs [OF live] row fun_eq_iff)
    have rows: "seat_row k' x = seat_row k y" if "files x = files y" for x y
      using that by (simp add: seat_row_def qo')
    have "seats (abs_post k') c' = (if c' = n then Some (pd, seat_row k ctx) else seats (abs_post k) c')" for c'
    proof (cases "c' = n")
      case True
      have "live_ctx k' n ch" using ch(1) by (simp add: live')
      with True rows [OF ch(3)] ch(2) show ?thesis by (simp add: seats_abs)
    next
      case False
      show ?thesis
      proof (cases "\<exists>x. live_ctx k' c' x")
        case True
        then obtain x where x: "live_ctx k' c' x" by blast
        obtain y where y: "pid y = pid x" "files y = files x" "live_ctx k c' y" using known [OF x] False by auto
        with False rows [OF y(2) [symmetric]] x show ?thesis by (simp add: seats_abs)
      next
        case dead: False
        have "\<not> live_ctx k c' x" for x
        proof
          assume "live_ctx k c' x"
          with False have "live_ctx k1 c' x" by (simp add: live1)
          from ss(4) [OF this] dead show False by (auto simp: live')
        qed
        with False dead show ?thesis by (simp add: seats_dead)
      qed
    qed
    then show "seats (abs_post k') = seats (snd (chat_fork c n pd (abs_post k)))"
      by (simp add: chat_fork_def seats_abs [OF live] fun_eq_iff)
  qed simp
  ultimately show ?thesis
    using fork by (simp add: new) (simp add: chat_fork_def seats_abs [OF live])
qed


section \<open>The queue calls refine the queues\<close>

text \<open>
  A call of a process, with the pages the allocators give where it creates a queue and the environment
  where it forks.
\<close>

datatype queue_call =
    QCreate "nat option" msg_queue_info nat file_obj
  | QInfo u64 | QSend u64 "message option" | QRcv u64 bool | QCount u64 | QBlock u64 u64 | QClose u64
  | QFork env | QExit

fun run_queue_call :: "kernel \<Rightarrow> nat \<Rightarrow> queue_call \<Rightarrow> (reply \<times> kernel) res" where
  "run_queue_call k c (QCreate q qpage p page) =
     bind_res (do_create_msg_queue q qpage p page k c) (\<lambda>(r, k'). Inr ((r, None, []), k'))"
| "run_queue_call k c (QInfo fd) =
     bind_res (do_get_member_info k c fd) (\<lambda>(r, info, k').
       Inr ((r, None, case info of None \<Rightarrow> [] | Some (n, pids) \<Rightarrow> take (unat n) pids), k'))"
| "run_queue_call k c (QSend fd msgp) =
     bind_res (call_msg_queue_send k c fd msgp) (\<lambda>(r, k'). Inr ((r, None, []), k'))"
| "run_queue_call k c (QRcv fd ptr) =
     bind_res (call_msg_queue_rcv k c fd ptr) (\<lambda>(r, out, k'). Inr ((r, out, []), k'))"
| "run_queue_call k c (QCount fd) =
     bind_res (call_get_msg_count k c fd) (\<lambda>(r, k'). Inr ((r, None, []), k'))"
| "run_queue_call k c (QBlock fd pd) =
     bind_res (call_msg_queue_block k c fd pd) (\<lambda>(r, k'). Inr ((r, None, []), k'))"
| "run_queue_call k c (QClose fd) =
     bind_res (call_msg_queue_close k c fd) (\<lambda>(r, k'). Inr ((r, None, []), k'))"
| "run_queue_call k c (QFork e) = bind_res (do_fork e k c) (\<lambda>(r, k'). Inr ((r, None, []), k'))"
| "run_queue_call k c QExit = bind_res (do_msg_queue_cleanup k c) (\<lambda>k'. Inr ((0, None, []), k'))"

fun chat_label :: "kernel \<Rightarrow> queue_call \<Rightarrow> chat_call" where
  "chat_label k (QCreate q qpage p page) = Chat_create q"
| "chat_label k (QInfo fd) = Chat_info (uint fd)"
| "chat_label k (QSend fd msgp) = Chat_send (uint fd) msgp"
| "chat_label k (QRcv fd ptr) = Chat_rcv (uint fd) ptr"
| "chat_label k (QCount fd) = Chat_count (uint fd)"
| "chat_label k (QBlock fd pd) = Chat_block (uint fd) (sint (ucast pd :: u32))"
| "chat_label k (QClose fd) = Chat_leave (sint (ucast fd :: u32))"
| "chat_label k (QFork e) = (case get_new_ctx e k of (n, pd) \<Rightarrow> Chat_fork n pd)"
| "chat_label k QExit = Chat_exit"

definition exec_queue :: "nat \<times> queue_call \<Rightarrow> kernel \<Rightarrow> (((nat \<times> chat_call) \<times> reply) \<times> kernel) res" where
  "exec_queue cl k =
     bind_res (run_queue_call k (fst cl) (snd cl)) (\<lambda>(a, k'). Inr (((fst cl, chat_label k (snd cl)), a), k'))"

text \<open>
  What a call has to respect because the kernel does not check it: descriptors inside the table, pages
  that are free, room for the mail and for a forked member.
\<close>

fun queue_call_fits :: "kernel \<Rightarrow> nat \<Rightarrow> exec_context \<Rightarrow> queue_call \<Rightarrow> bool" where
  "queue_call_fits k c ctx (QCreate q qpage p page) \<longleftrightarrow>
     fheap k p = None \<and> (\<forall>qa. q = Some qa \<longrightarrow> qheap k qa = None) \<and> queue_room (q, qpage)"
| "queue_call_fits k c ctx (QInfo fd) \<longleftrightarrow> fd_in (uint fd)"
| "queue_call_fits k c ctx (QSend fd msgp) \<longleftrightarrow> fd_in (uint fd) \<and>
     (\<forall>p qa mq msg. get_fd k c (uint fd) = Inr (Some p) \<longrightarrow> queue_of k (Some p) = Some qa \<longrightarrow> qheap k qa = Some mq \<longrightarrow>
        msgp = Some msg \<longrightarrow> send_fits (pid ctx) msg mq)"
| "queue_call_fits k c ctx (QRcv fd ptr) \<longleftrightarrow> fd_in (uint fd)"
| "queue_call_fits k c ctx (QCount fd) \<longleftrightarrow> fd_in (uint fd)"
| "queue_call_fits k c ctx (QBlock fd pd) \<longleftrightarrow> fd_in (uint fd)"
| "queue_call_fits k c ctx (QClose fd) \<longleftrightarrow> sint (ucast fd :: u32) < int MAX_OPEN_FILES"
| "queue_call_fits k c ctx (QFork e) \<longleftrightarrow> fork_fits e k c ctx"
| "queue_call_fits k c ctx QExit \<longleftrightarrow> True"

definition queue_call_ok :: "nat \<times> queue_call \<Rightarrow> kernel \<Rightarrow> bool" where
  "queue_call_ok cl k \<longleftrightarrow>
     (case ctxs k (fst cl) of None \<Rightarrow> False
      | Some ctx \<Rightarrow> pstate ctx \<noteq> UNUSED \<and> queue_call_fits k (fst cl) ctx (snd cl))"

lemma refine_queue_call:
  assumes ok: "post_ok k" and live: "live_ctx k c ctx" and fits: "queue_call_fits k c ctx cl"
  shows "\<exists>a k'. run_queue_call k c cl = Inr (a, k') \<and> post_ok k' \<and>
    chat_step (c, chat_label k cl) (abs_post k) = (a, abs_post k')"
proof (cases cl)
  case (QCreate q qpage p page)
  have p: "fheap k p = None" and new: "\<And>qa. q = Some qa \<Longrightarrow> qheap k qa = None" and page: "queue_room (q, qpage)"
    using fits unfolding QCreate by simp_all
  have "\<exists>r k'. do_create_msg_queue q qpage p page k c = Inr (r, k') \<and> post_ok k' \<and>
      chat_step (c, Chat_create q) (abs_post k) = ((r, None, []), abs_post k')"
    by (rule refine_create [OF ok live p _ page]) (rule new)
  then show ?thesis unfolding QCreate by (elim exE conjE) simp
next
  case (QInfo fd)
  then have "fd_in (uint fd)" using fits by simp
  from refine_info [OF ok live this] show ?thesis using ok unfolding QInfo by (elim exE conjE) simp
next
  case (QSend fd msgp)
  then have fd: "fd_in (uint fd)" using fits by simp
  have sf: "send_fits (pid ctx) msg mq"
    if "queue_fd k c p ctx qa mq" "get_fd k c (uint fd) = Inr (Some p)" "msgp = Some msg" for p qa mq msg
    using fits queue_fdD(2,3) [OF that(1)] that(2,3) by (auto simp: QSend queue_of_def)
  have "\<exists>r k'. call_msg_queue_send k c fd msgp = Inr (r, k') \<and> post_ok k' \<and>
      chat_step (c, Chat_send (uint fd) msgp) (abs_post k) = ((r, None, []), abs_post k')"
    by (rule refine_send [OF ok live fd]) (rule sf)
  then show ?thesis unfolding QSend by (elim exE conjE) simp
next
  case (QRcv fd ptr)
  then have "fd_in (uint fd)" using fits by simp
  from refine_rcv [OF ok live this, of ptr] show ?thesis unfolding QRcv by (elim exE conjE) simp
next
  case (QCount fd)
  then have "fd_in (uint fd)" using fits by simp
  from refine_count [OF ok live this] show ?thesis using ok unfolding QCount by (elim exE conjE) simp
next
  case (QBlock fd pd)
  then have "fd_in (uint fd)" using fits by simp
  from refine_block [OF ok live this, of pd] show ?thesis unfolding QBlock by (elim exE conjE) simp
next
  case (QClose fd)
  then have "sint (ucast fd :: u32) < int MAX_OPEN_FILES" using fits by simp
  from refine_leave [OF ok live this] show ?thesis
    unfolding QClose by (elim exE conjE) (simp add: call_msg_queue_close_def)
next
  case (QFork e)
  then have "fork_fits e k c ctx" using fits by simp
  from refine_fork [OF ok live this] show ?thesis unfolding QFork by (elim exE conjE) simp
next
  case QExit
  have "set [0..<MAX_OPEN_FILES] \<subseteq> {..<MAX_OPEN_FILES}" by auto
  from cleanup_loop_leaves [OF ok live this] show ?thesis
    unfolding QExit by (elim exE conjE) (simp add: do_msg_queue_cleanup_def)
qed

interpretation posts: refined post_ok abs_post queue_call_ok exec_queue chat_step
proof unfold_locales
  fix k cl assume ok: "post_ok k" and "queue_call_ok cl k"
  then obtain ctx where ctx: "live_ctx k (fst cl) ctx" "queue_call_fits k (fst cl) ctx (snd cl)"
    by (auto simp: queue_call_ok_def live_ctx_def split: option.splits)
  from refine_queue_call [OF ok ctx] show "\<exists>l a k'. exec_queue cl k = Inr ((l, a), k') \<and> post_ok k' \<and>
      chat_step l (abs_post k) = (a, abs_post k')"
    by (elim exE conjE) (simp add: exec_queue_def)
qed


text \<open>The process of the sample writes to all and then closes the queue.\<close>

lemma sample_rows_fit: "rows_fit sample_mq"
  using sample_rows by (simp add: rows_fit_def row_fits_clear sample_members k_const)

lemma queue_kernel_live: "live_ctx queue_kernel c ctx \<longleftrightarrow> c = 1 \<and> ctx = queue_ctx"
  by (auto simp: live_ctx_def queue_kernel_def queue_ctx_def sample_ctx_def)

lemma queue_kernel_post_ok: "post_ok queue_kernel"
proof -
  have fs: "files queue_ctx ! i = (if i = 3 then Some 10 else if i = 5 then Some 12 else None)" if "i < MAX_OPEN_FILES" for i
    using that sample_files by (simp add: queue_ctx_def nth_list_update)
  have q: "queue_of queue_kernel (files queue_ctx ! i) = (if i = 5 then Some 30 else None)" if "i < MAX_OPEN_FILES" for i
    using fs [OF that] by (simp add: queue_of_def queue_kernel_def)
  have "seated queue_kernel queue_ctx"
  proof (rule seatedI)
    show "length (files queue_ctx) = MAX_OPEN_FILES" using sample_files by (simp add: queue_ctx_def)
    show "fheap queue_kernel p \<noteq> None" if "i < MAX_OPEN_FILES" "files queue_ctx ! i = Some p" for i p
      using that(2) fs [OF that(1)] by (auto simp: queue_kernel_def split: if_splits)
    show "\<exists>mq. qheap queue_kernel qa = Some mq \<and> pid queue_ctx \<in> set (members mq)"
      if "i < MAX_OPEN_FILES" "queue_of queue_kernel (files queue_ctx ! i) = Some qa" for i qa
      using that(2) q [OF that(1)] by (auto simp: queue_kernel_def sample_members split: if_splits)
    show "j = i" if "i < MAX_OPEN_FILES" "j < MAX_OPEN_FILES" "queue_of queue_kernel (files queue_ctx ! i) = Some qa"
      "queue_of queue_kernel (files queue_ctx ! j) = Some qa" for i j qa
      using that(3,4) q [OF that(1)] q [OF that(2)] by (auto split: if_splits)
  qed (simp add: BROADCAST_PID_def)
  moreover have "\<forall>qa mq. qheap queue_kernel qa = Some mq \<longrightarrow> queue_inv mq \<and> rows_fit mq"
    using sample_queue_inv sample_rows_fit by (simp add: queue_kernel_def)
  ultimately show ?thesis unfolding post_ok_def queue_kernel_live by simp
qed


lemma sample_seat:
  "\<exists>t. seats (abs_post queue_kernel) 1 = Some (1, t) \<and> t ! 5 = Some (Some 30)"
  "at_seat (abs_post queue_kernel) 1 5 = Some (1, 30, \<lparr>who = [1, 2, 3], letters = [hello], refused = {}\<rparr>)"
proof -
  have "seats (abs_post queue_kernel) 1 = Some (1, seat_row queue_kernel queue_ctx)"
    using seats_abs [of queue_kernel 1 queue_ctx] by (simp add: queue_kernel_live)
  moreover have "seat_row queue_kernel queue_ctx ! 5 = Some (Some 30)"
    using sample_files by (simp add: seat_row_def queue_ctx_def queue_of_def queue_kernel_def k_const)
  moreover have "chats (abs_post queue_kernel) 30 = Some \<lparr>who = [1, 2, 3], letters = [hello], refused = {}\<rparr>"
    by (simp add: abs_chat_def queue_kernel_def sample_members sample_blocks)
  ultimately show "\<exists>t. seats (abs_post queue_kernel) 1 = Some (1, t) \<and> t ! 5 = Some (Some 30)"
    "at_seat (abs_post queue_kernel) 1 5 = Some (1, 30, \<lparr>who = [1, 2, 3], letters = [hello], refused = {}\<rparr>)"
    by (simp_all add: at_seat_def del: chats_abs)
qed


end
