(* ===== verification/QueueTests.thy ===== *)
theory QueueTests
  imports InitProgram QueueSpec
begin

text \<open>
  The test programs of the message queues, \<^verbatim>\<open>user/test_cases_part2/block.c\<close> and \<^verbatim>\<open>send_rcv.c\<close>: two processes
  whose system calls interleave in any order, as in \<open>InitProgram\<close>. The proofs work with the abstract queues
  of \<open>QueueSpec\<close>: a process knows its pid, that it has one queue open, and what that queue is.
\<close>

section \<open>A process and its queue\<close>

text \<open>Process \<open>c\<close> has the pid \<open>pd\<close>, the queue at \<open>qa\<close> open on \<open>fd\<close>, and no other.\<close>

definition sits :: "kernel \<Rightarrow> nat \<Rightarrow> nat \<Rightarrow> nat \<Rightarrow> u32 \<Rightarrow> bool" where
  "sits k c fd qa pd \<longleftrightarrow> fd < MAX_OPEN_FILES \<and>
     (\<exists>t. seats (abs_post k) c = Some (pd, t) \<and> t ! fd = Some (Some qa) \<and>
        (\<forall>i < MAX_OPEN_FILES. i \<noteq> fd \<longrightarrow> (\<forall>q. t ! i \<noteq> Some (Some q))))"

definition fd64 :: "nat \<Rightarrow> u64" where "fd64 fd = of_nat fd"

lemma uint_fd64: "fd < MAX_OPEN_FILES \<Longrightarrow> uint (fd64 fd) = int fd"
  by (simp add: fd64_def k_const unsigned_of_nat take_bit_nat_eq_self)

lemma sitsD:
  assumes "sits k c fd qa pd"
  obtains ctx where "live_ctx k c ctx" "pid ctx = pd" "ctx_at k c = Inr ctx" "fd < MAX_OPEN_FILES"
    "fd_in (uint (fd64 fd))" "uint (fd64 fd) = int fd"
    "\<And>q. chats (abs_post k) qa = Some q \<Longrightarrow> at_seat (abs_post k) c (int fd) = Some (pd, qa, q)"
    "\<And>i. i < MAX_OPEN_FILES \<Longrightarrow> i \<noteq> fd \<Longrightarrow> at_seat (abs_post k) c (int i) = None"
proof -
  obtain t where t: "fd < MAX_OPEN_FILES" "seats (abs_post k) c = Some (pd, t)" "t ! fd = Some (Some qa)"
    "\<And>i q. i < MAX_OPEN_FILES \<Longrightarrow> i \<noteq> fd \<Longrightarrow> t ! i \<noteq> Some (Some q)"
    using assms unfolding sits_def by blast
  have "\<exists>ctx. live_ctx k c ctx" using t(2) seats_dead [of k c] by auto
  then obtain ctx where l: "live_ctx k c ctx" by blast
  then have p: "pid ctx = pd" using t(2) seats_abs [OF l] by simp
  have x: "ctx_at k c = Inr ctx" using l by (simp add: live_ctx_def)
  have f: "fd_in (uint (fd64 fd))" "uint (fd64 fd) = int fd" using t(1) by (simp_all add: uint_fd64 fd_in_def)
  have a: "at_seat (abs_post k) c (int fd) = Some (pd, qa, q)" if "chats (abs_post k) qa = Some q" for q
    using t that by (simp add: at_seat_def del: chats_abs)
  have n: "at_seat (abs_post k) c (int i) = None" if "i < MAX_OPEN_FILES" "i \<noteq> fd" for i
    using t(2) t(4) [OF that] by (auto simp: at_seat_def split: option.split)
  show ?thesis by (rule that [OF l p x t(1) f a n])
qed

text \<open>Calls on the queue keep everybody's place; leaving gives up one's own.\<close>

lemma sits_put: "abs_post k' = put_chat q x (abs_post k) \<Longrightarrow> sits k' c fd qa pd = sits k c fd qa pd"
  by (simp add: sits_def put_chat_def)

lemma sits_left: "abs_post k' = put_seat c fd y (put_chat q x (abs_post k)) \<Longrightarrow> c' \<noteq> c \<Longrightarrow>
    sits k' c' fd' qa pd = sits k c' fd' qa pd"
  by (simp add: sits_def put_chat_def put_seat_def)

lemma chats_put: "abs_post k' = put_chat qa x (abs_post k) \<Longrightarrow> chats (abs_post k') qa = x"
  by (simp add: put_chat_def del: chats_abs)

lemma chats_left: "abs_post k' = put_seat c fd y (put_chat qa x (abs_post k)) \<Longrightarrow> chats (abs_post k') qa = x"
  by (simp add: put_chat_def put_seat_def del: chats_abs)

text \<open>What a message to one member needs, told from the queue alone.\<close>

definition letter_fits :: "u32 \<Rightarrow> message \<Rightarrow> chat \<Rightarrow> bool" where
  "letter_fits pd msg q \<longleftrightarrow>
     (if to_pid msg = BROADCAST_PID then length (letters q) + length (who q) \<le> MAX_MESSAGES
      else length (letters q) < MAX_MESSAGES \<and>
        (\<forall>i < length (who q). who q ! i = to_pid msg \<longrightarrow> (to_pid msg, pd) \<notin> refused q \<longrightarrow>
           Suc i < MAX_MEMBERS \<and> (Suc i < length (who q) \<longrightarrow> (who q ! Suc i, pd) \<notin> refused q)))"

lemma letter_send_fits:
  assumes inv: "queue_inv mq" and pd: "pd \<noteq> BROADCAST_PID" and fits: "letter_fits pd msg (abs_chat mq)"
  shows "send_fits pd msg mq"
proof (cases "to_pid msg = BROADCAST_PID")
  case True
  with fits show ?thesis by (simp add: send_fits_def letter_fits_def abs_chat_def)
next
  case False
  note ok = queue_invD [OF inv]
  have room: "length (messages mq) < MAX_MESSAGES"
    and next_row: "\<And>i. i < length (members mq) \<Longrightarrow> members mq ! i = to_pid msg \<Longrightarrow> (to_pid msg, pd) \<notin> blocks mq \<Longrightarrow>
      Suc i < MAX_MEMBERS \<and> (Suc i < length (members mq) \<longrightarrow> (members mq ! Suc i, pd) \<notin> blocks mq)"
    using fits False by (auto simp: letter_fits_def abs_chat_def)
  have "word_of_int (block_process mq ! (i * MAX_MEMBERS + j)) \<noteq> pd"
    if i: "i < length (members mq)" "members mq ! i = to_pid msg" "\<not> row_blocks mq i pd" and j: "j < MAX_PROCESSES" for i j
  proof (cases "j < MAX_MEMBERS")
    case True
    with i(3) show ?thesis by (auto simp: row_blocks_nth)
  next
    case wide: False
    have "(to_pid msg, pd) \<notin> blocks mq" using blocks_iff [OF ok(1) i(1) pd] i(2,3) by simp
    note n = next_row [OF i(1,2) this]
    have "\<not> row_blocks mq (Suc i) pd"
    proof (cases "Suc i < length (members mq)")
      case True
      with n blocks_iff [OF ok(1) True pd] show ?thesis by simp
    next
      case False
      with n rows_okD [OF ok(2) _ _ pd, of "Suc i"] mq_okD(8) [OF ok(1)] show ?thesis by simp
    qed
    moreover have "i * MAX_MEMBERS + j = Suc i * MAX_MEMBERS + (j - MAX_MEMBERS)" "j - MAX_MEMBERS < MAX_MEMBERS"
      using wide j by (simp_all add: k_const)
    ultimately show ?thesis by (auto simp: row_blocks_nth)
  qed
  with room False show ?thesis by (simp add: send_fits_def)
qed

section \<open>The calls of such a process\<close>

lemma client_count:
  assumes ok: "post_ok k" and s: "sits k c fd qa pd" and q: "chats (abs_post k) qa = Some q"
  shows "call_get_msg_count k c (fd64 fd) = Inr (int (length (filter (\<lambda>m. to_pid m = pd) (letters q))), k)"
  using s
proof (rule sitsD)
  fix ctx
  assume l: "live_ctx k c ctx" "fd_in (uint (fd64 fd))" and fd: "uint (fd64 fd) = int fd"
    and a: "\<And>q. chats (abs_post k) qa = Some q \<Longrightarrow> at_seat (abs_post k) c (int fd) = Some (pd, qa, q)"
  from refine_count [OF ok l] show ?thesis unfolding fd using a [OF q] by (auto simp: on_chat_def)
qed

lemma client_rcv:
  assumes ok: "post_ok k" and s: "sits k c fd qa pd" and q: "chats (abs_post k) qa = Some q"
    and rcv: "chat_rcv pd q = (r, out, q')"
  shows "\<exists>k'. call_msg_queue_rcv k c (fd64 fd) True = Inr (r, out, k') \<and> post_ok k' \<and>
    abs_post k' = put_chat qa (Some q') (abs_post k)"
  using s
proof (rule sitsD)
  fix ctx
  assume l: "live_ctx k c ctx" "fd_in (uint (fd64 fd))" and fd: "uint (fd64 fd) = int fd"
    and a: "\<And>q. chats (abs_post k) qa = Some q \<Longrightarrow> at_seat (abs_post k) c (int fd) = Some (pd, qa, q)"
  from refine_rcv [OF ok l, of True] show ?thesis unfolding fd using a [OF q] rcv by (auto simp: on_chat_def)
qed

lemma client_send:
  assumes ok: "post_ok k" and s: "sits k c fd qa pd" and q: "chats (abs_post k) qa = Some q"
    and fits: "letter_fits pd msg q" and send: "chat_send pd msg q = (r, q')"
  shows "\<exists>k'. call_msg_queue_send k c (fd64 fd) (Some msg) = Inr (r, k') \<and> post_ok k' \<and>
    abs_post k' = put_chat qa (Some q') (abs_post k)"
  using s
proof (rule sitsD)
  fix ctx
  assume l: "live_ctx k c ctx" "fd_in (uint (fd64 fd))" and fd: "uint (fd64 fd) = int fd" and pd: "pid ctx = pd"
    and a: "\<And>q. chats (abs_post k) qa = Some q \<Longrightarrow> at_seat (abs_post k) c (int fd) = Some (pd, qa, q)"
  have "send_fits (pid ctx) msg' mq"
    if qf: "queue_fd k c p ctx qa' mq" "get_fd k c (uint (fd64 fd)) = Inr (Some p)" "Some msg = Some msg'" for p qa' mq msg'
  proof -
    from ok l(1,2) show ?thesis
    proof (cases rule: seat_cases)
      case none
      with qf(2) queue_fdD(2) [OF qf(1)] show ?thesis by (auto simp: queue_of_def)
    next
      case (seat p' qa'' mq')
      have "p' = p" using seat(2) qf(2) by simp
      then have "qa'' = qa'" using queue_fdD(2) [OF seat(5)] queue_fdD(2) [OF qf(1)] by auto
      then have "mq' = mq" using queue_fdD(3) [OF seat(5)] queue_fdD(3) [OF qf(1)] by simp
      then have "q = abs_chat mq" using seat(1) a [OF q] fd by simp
      with letter_send_fits [OF queue_fdD(4,7) [OF qf(1)]] fits pd qf(3) show ?thesis by simp
    qed
  qed
  then have "\<exists>r k'. call_msg_queue_send k c (fd64 fd) (Some msg) = Inr (r, k') \<and> post_ok k' \<and>
      chat_step (c, Chat_send (uint (fd64 fd)) (Some msg)) (abs_post k) = ((r, None, []), abs_post k')"
    by (intro refine_send [OF ok l])
  then show ?thesis unfolding fd using a [OF q] send by (auto simp: on_chat_def)
qed

lemma client_block:
  assumes ok: "post_ok k" and s: "sits k c fd qa pd" and q: "chats (abs_post k) qa = Some q"
    and block: "chat_block pd (sint (ucast p :: u32)) q = (r, q')"
  shows "\<exists>k'. call_msg_queue_block k c (fd64 fd) p = Inr (r, k') \<and> post_ok k' \<and>
    abs_post k' = put_chat qa (Some q') (abs_post k)"
  using s
proof (rule sitsD)
  fix ctx
  assume l: "live_ctx k c ctx" "fd_in (uint (fd64 fd))" and fd: "uint (fd64 fd) = int fd"
    and a: "\<And>q. chats (abs_post k) qa = Some q \<Longrightarrow> at_seat (abs_post k) c (int fd) = Some (pd, qa, q)"
  from refine_block [OF ok l, of p] show ?thesis unfolding fd using a [OF q] block by (auto simp: on_chat_def)
qed

text \<open>Exit leaves the one queue.\<close>

lemma chat_exit_one:
  assumes "\<And>i. i \<in> set fds \<Longrightarrow> i \<noteq> fd \<Longrightarrow> at_seat st c (int i) = None" "distinct fds"
    and "\<And>i. i \<in> set fds \<Longrightarrow> i \<noteq> fd \<Longrightarrow> at_seat (snd (chat_leave c (int fd) st)) c (int i) = None"
  shows "chat_exit c fds st = (if fd \<in> set fds then snd (chat_leave c (int fd) st) else st)"
  using assms
proof (induction fds arbitrary: st)
  case (Cons i fds)
  have idle: "chat_exit c is st' = st'" if "\<And>i. i \<in> set is \<Longrightarrow> at_seat st' c (int i) = None" for "is" st'
    using that by (induction "is") (simp_all add: chat_exit_def chat_leave_def)
  show ?case
  proof (cases "i = fd")
    case True
    have "chat_exit c (i # fds) st = chat_exit c fds (snd (chat_leave c (int fd) st))" by (simp add: chat_exit_def True)
    also have "\<dots> = snd (chat_leave c (int fd) st)" using Cons.prems True by (intro idle) auto
    finally show ?thesis using True by simp
  next
    case False
    then have "chat_exit c (i # fds) st = chat_exit c fds st"
      using Cons.prems(1) [of i] by (simp add: chat_exit_def chat_leave_def)
    with Cons.IH [of st] Cons.prems False show ?thesis by simp
  qed
qed (simp add: chat_exit_def)

lemma client_exit:
  assumes ok: "post_ok k" and s: "sits k c fd qa pd" and q: "chats (abs_post k) qa = Some q"
  shows "\<exists>k'. do_msg_queue_cleanup k c = Inr k' \<and> post_ok k' \<and>
    abs_post k' = put_seat c fd None (put_chat qa (if who q = [pd] then None else Some (chat_without pd q)) (abs_post k))"
  using s
proof (rule sitsD)
  fix ctx
  assume l: "live_ctx k c ctx" and lt: "fd < MAX_OPEN_FILES"
    and a: "\<And>q. chats (abs_post k) qa = Some q \<Longrightarrow> at_seat (abs_post k) c (int fd) = Some (pd, qa, q)"
    and n: "\<And>i. i < MAX_OPEN_FILES \<Longrightarrow> i \<noteq> fd \<Longrightarrow> at_seat (abs_post k) c (int i) = None"
  let ?st = "put_seat c fd None (put_chat qa (if who q = [pd] then None else Some (chat_without pd q)) (abs_post k))"
  have leave: "snd (chat_leave c (int fd) (abs_post k)) = ?st" using a [OF q] by (simp add: chat_leave_def)
  obtain t where t: "seats (abs_post k) c = Some (pd, t)"
    "\<And>i q. i < MAX_OPEN_FILES \<Longrightarrow> i \<noteq> fd \<Longrightarrow> t ! i \<noteq> Some (Some q)" using s unfolding sits_def by blast
  have "at_seat ?st c (int i) = None" if "i < MAX_OPEN_FILES" "i \<noteq> fd" for i
    using t(1) t(2) [OF that] that(2) by (auto simp: at_seat_def put_seat_def put_chat_def split: option.split)
  then have "chat_exit c [0..<MAX_OPEN_FILES] (abs_post k) = ?st"
    using chat_exit_one [of "[0..<MAX_OPEN_FILES]" fd "abs_post k" c] n lt leave by simp
  moreover have "set [0..<MAX_OPEN_FILES] \<subseteq> {..<MAX_OPEN_FILES}" by auto
  note cleanup_loop_leaves [OF ok l this]
  ultimately show ?thesis unfolding do_msg_queue_cleanup_def by metis
qed

section \<open>Before the processes part\<close>

text \<open>Both programs create a queue and fork; \<open>None\<close> is the branch of a failed fork.\<close>

definition test_prologue :: "env \<Rightarrow> kernel \<Rightarrow> nat \<Rightarrow> (u64 \<times> int \<times> kernel) option res" where
  "test_prologue e k c =
     (let (q, qpage) = queue_page e k; (p, page) = file_page e k
      in bind_res (do_create_msg_queue q qpage p page k c) (\<lambda>(fd, k1).
         bind_res (do_fork e k1 c) (\<lambda>(pd, k2).
           Inr (if pd \<le> 0 then None else Some (word_of_int fd, pd, k2)))))"

text \<open>
  A kernel on which a test starts: the allocators have pages left, the parent has a descriptor and no
  queue, the process table has a slot and a pid for the child.
\<close>

definition test_ready :: "parties \<Rightarrow> env \<Rightarrow> kernel \<Rightarrow> bool" where
  "test_ready g e k \<longleftrightarrow> valid_parties g \<and> post_ok k \<and> 0 < uint (child_pid g) \<and> uint (child_pid g) < 2 ^ 31 \<and>
     (\<exists>t. seats (abs_post k) (pslot g) = Some (parent_pid g, t) \<and>
        (\<forall>i < MAX_OPEN_FILES. \<forall>q. t ! i \<noteq> Some (Some q)) \<and>
        find (\<lambda>fd. t ! fd = None) [3..<MAX_OPEN_FILES] = Some (qfd g)) \<and>
     seats (abs_post k) (cslot g) = None \<and>
     (\<forall>c pd t. seats (abs_post k) c = Some (pd, t) \<longrightarrow> pd \<noteq> child_pid g) \<and>
     fst (queue_page e k) = Some (qaddr g) \<and> qheap k (qaddr g) = None \<and> queue_room (queue_page e k) \<and>
     fheap k (fst (file_page e k)) = None \<and>
     (\<forall>k. get_new_ctx e k = (cslot g, child_pid g)) \<and>
     (\<forall>k. same_seats k (setup_child_context e (cslot g) (copy_mm e (cslot g) (pslot g) k)))"

lemma fork_fits_abs:
  assumes ok: "post_ok k" and live: "live_ctx k c ctx" and new: "get_new_ctx e k = (n, pd)"
    and free: "seats (abs_post k) n = None" and pd: "pd \<noteq> BROADCAST_PID"
    and fresh: "\<And>c pd' t. seats (abs_post k) c = Some (pd', t) \<Longrightarrow> pd' \<noteq> pd"
    and join: "\<And>fd qa. fd < MAX_OPEN_FILES \<Longrightarrow> queue_of k (files ctx ! fd) = Some qa \<Longrightarrow>
      \<exists>q. chats (abs_post k) qa = Some q \<and> length (who q) < MAX_MEMBERS \<and> pd \<notin> set (who q)"
    and copy: "\<And>k. same_seats k (setup_child_context e n (copy_mm e n c k))"
  shows "fork_fits e k c ctx"
proof -
  have "\<not> live_ctx k n x" for x using free seats_abs [of k n x] by auto
  moreover have "pid x \<noteq> pd" if "live_ctx k c' x" for c' x using fresh [OF seats_abs [OF that]] .
  moreover have "can_join k pd qa" if "fd < MAX_OPEN_FILES" "queue_of k (files ctx ! fd) = Some qa" for fd qa
    using join [OF that] post_okD(1) [OF ok] by (auto simp: can_join_def abs_chat_def)
  ultimately show ?thesis using pd copy by (simp add: fork_fits_def new)
qed

text \<open>Creating and forking, as the processes see it.\<close>

definition seat_pids :: "kernel \<Rightarrow> nat \<Rightarrow> u32 option" where
  "seat_pids k c = map_option fst (seats (abs_post k) c)"

lemma seat_pids_put: "abs_post k' = put_chat q x (abs_post k) \<Longrightarrow> seat_pids k' = seat_pids k"
  by (simp add: seat_pids_def fun_eq_iff put_chat_def)

lemma seat_pids_left: "abs_post k' = put_seat c fd y (put_chat q x (abs_post k)) \<Longrightarrow> seat_pids k' = seat_pids k"
  by (auto simp: seat_pids_def fun_eq_iff put_chat_def put_seat_def option.map_comp comp_def split_beta
      intro: option.map_cong)

lemma client_create:
  assumes ok: "post_ok k" and t: "seats (abs_post k) c = Some (pd, t)"
    and none: "\<And>i q. i < MAX_OPEN_FILES \<Longrightarrow> t ! i \<noteq> Some (Some q)"
    and fd: "find (\<lambda>fd. t ! fd = None) [3..<MAX_OPEN_FILES] = Some fd" "fd < MAX_OPEN_FILES"
    and pages: "qheap k qa = None" "queue_room (Some qa, qpage)" "fheap k p = None"
  shows "\<exists>k'. do_create_msg_queue (Some qa) qpage p page k c = Inr (int fd, k') \<and> post_ok k' \<and>
    chats (abs_post k') qa = Some \<lparr>who = [pd], letters = [], refused = {}\<rparr> \<and> sits k' c fd qa pd \<and>
    seat_pids k' = seat_pids k"
proof -
  obtain ctx where live: "live_ctx k c ctx" using t seats_dead [of k c] by auto
  have "t = seat_row k ctx" using t seats_abs [OF live] by simp
  then have len: "fd < length t" using seatedD(1) [OF post_okD(3) [OF ok live]] fd(2) by (simp add: seat_row_def)
  let ?q = "\<lparr>who = [pd], letters = [], refused = {}\<rparr>"
  have create: "chat_step (c, Chat_create (Some qa)) (abs_post k) =
      ((int fd, None, []), put_seat c fd (Some (Some qa)) (put_chat qa (Some ?q) (abs_post k)))"
    by (simp add: chat_create_def t fd(1))
  have "\<exists>r k'. do_create_msg_queue (Some qa) qpage p page k c = Inr (r, k') \<and> post_ok k' \<and>
      chat_step (c, Chat_create (Some qa)) (abs_post k) = ((r, None, []), abs_post k')"
    by (rule refine_create [OF ok live pages(3) _ pages(2)]) (use pages(1) in simp)
  then obtain k' where k': "do_create_msg_queue (Some qa) qpage p page k c = Inr (int fd, k')" "post_ok k'"
    "abs_post k' = put_seat c fd (Some (Some qa)) (put_chat qa (Some ?q) (abs_post k))"
    unfolding create by auto
  have "sits k' c fd qa pd" using none len fd(2) t by (auto simp: sits_def k'(3) put_seat_def put_chat_def)
  with k' chats_left [OF k'(3)] seat_pids_left [OF k'(3)] show ?thesis by blast
qed

lemma client_fork:
  assumes ok: "post_ok k" and s: "sits k c fd qa pd" and q: "chats (abs_post k) qa = Some q"
    and room: "length (who q) < MAX_MEMBERS" "new \<notin> set (who q)" and pid: "new \<noteq> BROADCAST_PID"
    and ctx: "get_new_ctx e k = (n, new)" "seat_pids k n = None" "\<And>c. seat_pids k c \<noteq> Some new"
    and copy: "\<And>k. same_seats k (setup_child_context e n (copy_mm e n c k))"
  shows "\<exists>k'. do_fork e k c = Inr (uint new, k') \<and> post_ok k' \<and>
    chats (abs_post k') qa = Some (q\<lparr>who := who q @ [new]\<rparr>) \<and> sits k' n fd qa new \<and>
    (\<forall>c' fd' qa' pd'. c' \<noteq> n \<longrightarrow> sits k' c' fd' qa' pd' = sits k c' fd' qa' pd') \<and>
    seat_pids k' = (seat_pids k)(n \<mapsto> new)"
proof -
  obtain t where t: "fd < MAX_OPEN_FILES" "seats (abs_post k) c = Some (pd, t)" "t ! fd = Some (Some qa)"
    "\<And>i q. i < MAX_OPEN_FILES \<Longrightarrow> i \<noteq> fd \<Longrightarrow> t ! i \<noteq> Some (Some q)"
    using s unfolding sits_def by blast
  obtain x where live: "live_ctx k c x" using t(2) seats_dead [of k c] by auto
  have row: "seat_row k x = t" using t(2) seats_abs [OF live] by simp
  have len: "length (files x) = MAX_OPEN_FILES" by (rule seatedD(1) [OF post_okD(3) [OF ok live]])
  have "fork_fits e k c x"
  proof (rule fork_fits_abs [OF ok live ctx(1) _ pid])
    show "seats (abs_post k) n = None" using ctx(2) by (simp add: seat_pids_def)
    show "pd' \<noteq> new" if "seats (abs_post k) c' = Some (pd', t')" for c' pd' t'
      using ctx(3) [of c'] that by (simp add: seat_pids_def)
    show "\<exists>q. chats (abs_post k) qa' = Some q \<and> length (who q) < MAX_MEMBERS \<and> new \<notin> set (who q)"
      if i: "i < MAX_OPEN_FILES" "queue_of k (files x ! i) = Some qa'" for i qa'
    proof -
      have "t ! i = Some (Some qa')" using seat_row_queue [of i x k qa'] i len row by simp
      with t(3) t(4) [OF i(1)] have "qa' = qa" by (cases "i = fd") auto
      with q room show ?thesis by (simp del: chats_abs)
    qed
  qed (rule copy)
  from refine_fork [OF ok live this] obtain k' where k': "do_fork e k c = Inr (uint new, k')" "post_ok k'"
    "abs_post k' = \<lparr>chats = (\<lambda>qa. if Some (Some qa) \<in> set t then map_option (\<lambda>q. q\<lparr>who := who q @ [new]\<rparr>) (chats (abs_post k) qa)
        else chats (abs_post k) qa), seats = (seats (abs_post k))(n \<mapsto> (new, t))\<rparr>"
    by (auto simp: ctx(1) chat_fork_def t(2))
  have "Some (Some qa) \<in> set t" using t(1,3) len row by (metis length_map nth_mem seat_row_def)
  then have "chats (abs_post k') qa = Some (q\<lparr>who := who q @ [new]\<rparr>)" using q by (simp add: k'(3) del: chats_abs)
  moreover have "sits k' n fd qa new" using t by (auto simp: sits_def k'(3))
  moreover have "sits k' c' fd' qa' pd' = sits k c' fd' qa' pd'" if "c' \<noteq> n" for c' fd' qa' pd'
    using that by (simp add: sits_def k'(3))
  moreover have "seat_pids k' = (seat_pids k)(n \<mapsto> new)" by (auto simp: seat_pids_def k'(3) fun_eq_iff)
  ultimately show ?thesis using k'(1,2) by blast
qed

lemma prologue_abs:
  assumes st: "test_ready g e k"
  shows "\<exists>k'. test_prologue e k (pslot g) = Inr (Some (fd64 (qfd g), uint (child_pid g), k')) \<and> post_ok k' \<and>
    chats (abs_post k') (qaddr g) = Some \<lparr>who = [parent_pid g, child_pid g], letters = [], refused = {}\<rparr> \<and>
    sits k' (pslot g) (qfd g) (qaddr g) (parent_pid g) \<and> sits k' (cslot g) (qfd g) (qaddr g) (child_pid g)"
proof -
  obtain qpage where qp: "queue_page e k = (Some (qaddr g), qpage)" using st by (cases "queue_page e k") (simp add: test_ready_def)
  obtain p page where fp: "file_page e k = (p, page)" by (cases "file_page e k")
  have g: "valid_parties g" and ok: "post_ok k" and pos: "0 < uint (child_pid g)"
    and free: "seats (abs_post k) (cslot g) = None"
    and fresh: "\<And>c pd t. seats (abs_post k) c = Some (pd, t) \<Longrightarrow> pd \<noteq> child_pid g"
    and pages: "qheap k (qaddr g) = None" "queue_room (Some (qaddr g), qpage)" "fheap k p = None"
    and new: "\<And>k. get_new_ctx e k = (cslot g, child_pid g)"
    and copy: "\<And>k. same_seats k (setup_child_context e (cslot g) (copy_mm e (cslot g) (pslot g) k))"
    using st unfolding test_ready_def qp fp by auto
  obtain t where t: "seats (abs_post k) (pslot g) = Some (parent_pid g, t)"
    "\<And>i q. i < MAX_OPEN_FILES \<Longrightarrow> t ! i \<noteq> Some (Some q)"
    "find (\<lambda>fd. t ! fd = None) [3..<MAX_OPEN_FILES] = Some (qfd g)"
    using st unfolding test_ready_def by blast
  have ne: "cslot g \<noteq> pslot g" "parent_pid g \<noteq> child_pid g" "child_pid g \<noteq> BROADCAST_PID" "qfd g < MAX_OPEN_FILES"
    using g by (auto simp: valid_parties_def)
  from client_create [OF ok t ne(4) pages] obtain k1 where k1: "do_create_msg_queue (Some (qaddr g)) qpage p page k (pslot g) = Inr (int (qfd g), k1)"
    "post_ok k1" "chats (abs_post k1) (qaddr g) = Some \<lparr>who = [parent_pid g], letters = [], refused = {}\<rparr>"
    "sits k1 (pslot g) (qfd g) (qaddr g) (parent_pid g)" "seat_pids k1 = seat_pids k" by blast
  have "seat_pids k1 (cslot g) = None" "seat_pids k1 c \<noteq> Some (child_pid g)" for c
    using free fresh by (auto simp: k1(5) seat_pids_def)
  from client_fork [OF k1(2,4,3) _ _ ne(3) new this copy] ne(2)
  obtain k2 where k2: "do_fork e k1 (pslot g) = Inr (uint (child_pid g), k2)" "post_ok k2"
    "chats (abs_post k2) (qaddr g) = Some \<lparr>who = [parent_pid g, child_pid g], letters = [], refused = {}\<rparr>"
    "sits k2 (cslot g) (qfd g) (qaddr g) (child_pid g)" "sits k2 (pslot g) (qfd g) (qaddr g) (parent_pid g)"
    using ne(1) k1(4) by (auto simp: k_const simp del: chats_abs)
  have "test_prologue e k (pslot g) = Inr (Some (fd64 (qfd g), uint (child_pid g), k2))"
    using pos by (simp add: test_prologue_def qp fp k1(1) k2(1) fd64_def)
  with k2 show ?thesis by blast
qed

section \<open>Runs that can always be finished\<close>

text \<open>
  Steps that keep an invariant, of which one brings the run nearer to its end as long as it is not over.
\<close>

locale run_to_end =
  fixes inv :: "'s \<Rightarrow> bool" and next_step :: "'s \<Rightarrow> 's \<Rightarrow> bool" and left_over :: "'s \<Rightarrow> nat" and over :: "'s \<Rightarrow> bool"
  assumes step_inv: "inv s \<Longrightarrow> next_step s s' \<Longrightarrow> inv s'"
    and goes_on: "inv s \<Longrightarrow> \<not> over s \<Longrightarrow> \<exists>s'. next_step s s' \<and> left_over s' < left_over s"
begin

lemma run_inv: "next_step\<^sup>*\<^sup>* s s' \<Longrightarrow> inv s \<Longrightarrow> inv s'"
  by (induction rule: rtranclp_induct) (auto intro: step_inv)

lemma finishes: "inv s \<Longrightarrow> \<exists>s'. next_step\<^sup>*\<^sup>* s s' \<and> over s'"
proof (induction "left_over s" arbitrary: s rule: less_induct)
  case less
  show ?case
  proof (cases "over s")
    case False
    then obtain s1 where s1: "next_step s s1" "left_over s1 < left_over s" using goes_on [OF less.prems] by blast
    with less.hyps [OF s1(2) step_inv [OF less.prems s1(1)]] show ?thesis by (metis converse_rtranclp_into_rtranclp)
  qed auto
qed

end

section \<open>block.c\<close>

text \<open>
  The parent blocks the child, sends it a message and sleeps; the child waits for the message and tries to
  acknowledge it. \<open>sleep\<close> only gives the processor away, which every interleaving may do.
\<close>

datatype block_parent = BP_block | BP_send | BP_sleep | BP_exit | BP_done
datatype block_child = BC_poll | BC_rcv | BC_send | BC_exit | BC_done

record block_run =
  bk :: kernel
  bp :: block_parent
  bc :: block_child
  bpmsg :: message
  bcmsg :: message
  bshown :: string

definition block_parent_step :: "nat \<Rightarrow> u64 \<Rightarrow> int \<Rightarrow> block_run \<Rightarrow> block_run res" where
  "block_parent_step c fd pd s =
     (case bp s of
        BP_block \<Rightarrow>
          bind_res (call_msg_queue_block (bk s) c fd (word_of_int pd)) (\<lambda>(st, k). Inr (s\<lparr>bk := k, bp := BP_send\<rparr>))
      | BP_send \<Rightarrow>
          bind_res (ctx_at (bk s) c) (\<lambda>ctx.
            let msg = \<lparr>from_pid = pid ctx, to_pid = word_of_int pd, msg_txt = put_text ''MSG'' (msg_txt (bpmsg s))\<rparr>
            in bind_res (call_msg_queue_send (bk s) c fd (Some msg)) (\<lambda>(st, k).
                 Inr (s\<lparr>bk := k, bpmsg := msg, bp := BP_sleep\<rparr>)))
      | BP_sleep \<Rightarrow> Inr (s\<lparr>bp := BP_exit\<rparr>)
      | BP_exit \<Rightarrow> bind_res (do_msg_queue_cleanup (bk s) c) (\<lambda>k. Inr (s\<lparr>bk := k, bp := BP_done\<rparr>))
      | BP_done \<Rightarrow> Inr s)"

definition block_child_step :: "nat \<Rightarrow> u64 \<Rightarrow> block_run \<Rightarrow> block_run res" where
  "block_child_step c fd s =
     (case bc s of
        BC_poll \<Rightarrow>
          bind_res (call_get_msg_count (bk s) c fd) (\<lambda>(n, k).
            Inr (s\<lparr>bk := k, bc := if n = 0 then BC_poll else BC_rcv\<rparr>))
      | BC_rcv \<Rightarrow>
          bind_res (call_msg_queue_rcv (bk s) c fd True) (\<lambda>(st, out, k).
            Inr (s\<lparr>bk := k, bcmsg := (case out of None \<Rightarrow> bcmsg s | Some m \<Rightarrow> m), bc := BC_send\<rparr>))
      | BC_send \<Rightarrow>
          bind_res (ctx_at (bk s) c) (\<lambda>ctx.
            let msg = \<lparr>from_pid = pid ctx, to_pid = from_pid (bcmsg s), msg_txt = put_text ''ACK'' (msg_txt (bcmsg s))\<rparr>
            in bind_res (call_msg_queue_send (bk s) c fd (Some msg)) (\<lambda>(st, k).
               bind_res (vuprintf ((if st = -EINVAL then ''Child blocked by parent'' else ''Child not blocked by parent'') @ newline) [])
                 (\<lambda>out. Inr (s\<lparr>bk := k, bcmsg := msg, bshown := bshown s @ out, bc := BC_exit\<rparr>))))
      | BC_exit \<Rightarrow> bind_res (do_msg_queue_cleanup (bk s) c) (\<lambda>k. Inr (s\<lparr>bk := k, bc := BC_done\<rparr>))
      | BC_done \<Rightarrow> Inr s)"

definition block_prologue :: "env \<Rightarrow> kernel \<Rightarrow> nat \<Rightarrow> block_run \<Rightarrow> (u64 \<times> int \<times> block_run) option res" where
  "block_prologue e k c s0 =
     bind_res (test_prologue e k c) (\<lambda>r. Inr (map_option (\<lambda>(fd, pd, k').
       (fd, pd, s0\<lparr>bk := k', bp := BP_block, bc := BC_poll, bcmsg := bpmsg s0\<rparr>)) r))"

inductive block_step :: "parties \<Rightarrow> block_run \<Rightarrow> block_run \<Rightarrow> bool" for g where
  parent: "bp s \<noteq> BP_done \<Longrightarrow> block_parent_step (pslot g) (fd64 (qfd g)) (uint (child_pid g)) s = Inr s' \<Longrightarrow> block_step g s s'"
| child: "bc s \<noteq> BC_done \<Longrightarrow> block_child_step (cslot g) (fd64 (qfd g)) s = Inr s' \<Longrightarrow> block_step g s s'"

text \<open>The queue by the positions of the two, and the invariant of the run; \<open>t\<close> is the text before the message.\<close>

definition block_chat :: "parties \<Rightarrow> string \<Rightarrow> block_parent \<Rightarrow> block_child \<Rightarrow> chat option" where
  "block_chat g t p c =
     (if p = BP_done \<and> c = BC_done then None
      else Some \<lparr>who = (if p = BP_done then [] else [parent_pid g]) @ (if c = BC_done then [] else [child_pid g]),
        letters = (if p \<in> {BP_sleep, BP_exit, BP_done} \<and> c \<in> {BC_poll, BC_rcv} then [parent_msg g t] else []),
        refused = (if p \<noteq> BP_block \<and> p \<noteq> BP_done \<and> c \<noteq> BC_done then {(parent_pid g, child_pid g)} else {})\<rparr>)"

definition block_inv :: "parties \<Rightarrow> string \<Rightarrow> string \<Rightarrow> block_run \<Rightarrow> bool" where
  "block_inv g t out s \<longleftrightarrow> post_ok (bk s) \<and> chats (abs_post (bk s)) (qaddr g) = block_chat g t (bp s) (bc s) \<and>
     (bp s \<noteq> BP_done \<longrightarrow> sits (bk s) (pslot g) (qfd g) (qaddr g) (parent_pid g)) \<and>
     (bc s \<noteq> BC_done \<longrightarrow> sits (bk s) (cslot g) (qfd g) (qaddr g) (child_pid g)) \<and>
     (bc s \<noteq> BC_poll \<longrightarrow> bp s \<in> {BP_sleep, BP_exit, BP_done}) \<and>
     (bp s \<in> {BP_block, BP_send} \<longrightarrow> msg_txt (bpmsg s) = t) \<and> (bc s = BC_send \<longrightarrow> bcmsg s = parent_msg g t) \<and>
     bshown s = out @ (if bc s \<in> {BC_exit, BC_done} then ''Child blocked by parent'' @ newline else [])"

fun block_parent_todo :: "block_parent \<Rightarrow> nat" where
  "block_parent_todo BP_block = 4" | "block_parent_todo BP_send = 3" | "block_parent_todo BP_sleep = 2"
| "block_parent_todo BP_exit = 1" | "block_parent_todo BP_done = 0"

fun block_child_todo :: "block_child \<Rightarrow> nat" where
  "block_child_todo BC_poll = 4" | "block_child_todo BC_rcv = 3" | "block_child_todo BC_send = 2"
| "block_child_todo BC_exit = 1" | "block_child_todo BC_done = 0"

definition block_todo :: "block_run \<Rightarrow> nat" where
  "block_todo s = block_parent_todo (bp s) + block_child_todo (bc s)"

text \<open>A step of the parent is possible, keeps the invariant and brings it forward.\<close>

lemma block_parent_ok:
  assumes g: "valid_parties g" "uint (child_pid g) < 2 ^ 31" and inv: "block_inv g t out s" and run: "bp s \<noteq> BP_done"
  shows "\<exists>s'. block_parent_step (pslot g) (fd64 (qfd g)) (uint (child_pid g)) s = Inr s' \<and> block_inv g t out s' \<and>
    block_todo s' < block_todo s"
proof -
  have ne: "pslot g \<noteq> cslot g" "parent_pid g \<noteq> child_pid g" "child_pid g \<noteq> parent_pid g"
    "parent_pid g \<noteq> BROADCAST_PID" "child_pid g \<noteq> BROADCAST_PID"
    using g(1) by (auto simp: valid_parties_def)
  have ok: "post_ok (bk s)" and q: "chats (abs_post (bk s)) (qaddr g) = block_chat g t (bp s) (bc s)"
    and me: "sits (bk s) (pslot g) (qfd g) (qaddr g) (parent_pid g)"
    using inv run by (simp_all add: block_inv_def del: chats_abs)
  show ?thesis
  proof (cases "bp s")
    case BP_block
    then have c: "bc s = BC_poll" using inv by (auto simp: block_inv_def)
    have "is_int (uint (child_pid g))" using g(2) by (simp add: is_int_def) (use uint_u32_bounds [of "child_pid g"] in linarith)
    note arg = arg_of_int(2) [OF this]
    have q': "chats (abs_post (bk s)) (qaddr g) = Some \<lparr>who = [parent_pid g, child_pid g], letters = [], refused = {}\<rparr>"
      using q by (simp add: block_chat_def BP_block c del: chats_abs)
    have "chat_block (parent_pid g) (sint (ucast (of_int (uint (child_pid g)) :: u64) :: u32))
        \<lparr>who = [parent_pid g, child_pid g], letters = [], refused = {}\<rparr> =
        (0, \<lparr>who = [parent_pid g, child_pid g], letters = [], refused = {(parent_pid g, child_pid g)}\<rparr>)"
      unfolding arg using ne uint_u32_bounds [of "child_pid g"] by (simp add: chat_block_def)
    from client_block [OF ok me q' this] obtain k' where k': "call_msg_queue_block (bk s) (pslot g) (fd64 (qfd g)) (of_int (uint (child_pid g))) = Inr (0, k')"
      "post_ok k'" "abs_post k' = put_chat (qaddr g) (Some \<lparr>who = [parent_pid g, child_pid g], letters = [], refused = {(parent_pid g, child_pid g)}\<rparr>) (abs_post (bk s))"
      by blast
    let ?s = "s\<lparr>bk := k', bp := BP_send\<rparr>"
    have "block_parent_step (pslot g) (fd64 (qfd g)) (uint (child_pid g)) s = Inr ?s"
      using k'(1) by (simp add: block_parent_step_def BP_block)
    moreover have "block_inv g t out ?s"
      using inv k'(2) chats_put [OF k'(3)] sits_put [OF k'(3)]
      by (simp add: block_inv_def block_chat_def BP_block c del: chats_abs)
    ultimately show ?thesis by (auto simp: block_todo_def BP_block)
  next
    case BP_send
    then have c: "bc s = BC_poll" and tx: "msg_txt (bpmsg s) = t" using inv by (auto simp: block_inv_def)
    let ?q = "\<lparr>who = [parent_pid g, child_pid g], letters = [], refused = {(parent_pid g, child_pid g)}\<rparr>"
    have q': "chats (abs_post (bk s)) (qaddr g) = Some ?q" using q by (simp add: block_chat_def BP_send c del: chats_abs)
    obtain ctx where ctx: "ctx_at (bk s) (pslot g) = Inr ctx" "pid ctx = parent_pid g" using me by (rule sitsD)
    have "letter_fits (parent_pid g) (parent_msg g t) ?q"
      using ne by (auto simp: letter_fits_def parent_msg_def less_Suc_eq k_const)
    moreover have "chat_send (parent_pid g) (parent_msg g t) ?q = (1, ?q\<lparr>letters := [parent_msg g t]\<rparr>)"
      using ne by (simp add: chat_send_def parent_msg_def)
    ultimately obtain k' where k': "call_msg_queue_send (bk s) (pslot g) (fd64 (qfd g)) (Some (parent_msg g t)) = Inr (1, k')"
      "post_ok k'" "abs_post k' = put_chat (qaddr g) (Some (?q\<lparr>letters := [parent_msg g t]\<rparr>)) (abs_post (bk s))"
      using client_send [OF ok me q'] by blast
    let ?s = "s\<lparr>bk := k', bpmsg := parent_msg g t, bp := BP_sleep\<rparr>"
    have "block_parent_step (pslot g) (fd64 (qfd g)) (uint (child_pid g)) s = Inr ?s"
      using k'(1) tx ctx by (simp add: block_parent_step_def BP_send Let_def parent_msg_def)
    moreover have "block_inv g t out ?s"
      using inv k'(2) chats_put [OF k'(3)] sits_put [OF k'(3)]
      by (simp add: block_inv_def block_chat_def BP_send c del: chats_abs)
    ultimately show ?thesis by (auto simp: block_todo_def BP_send)
  next
    case BP_sleep
    then have "block_inv g t out (s\<lparr>bp := BP_exit\<rparr>)" using inv by (simp add: block_inv_def block_chat_def del: chats_abs)
    then show ?thesis by (auto simp: block_parent_step_def block_todo_def BP_sleep)
  next
    case BP_exit
    obtain q0 where q0: "block_chat g t (bp s) (bc s) = Some q0" by (auto simp: block_chat_def BP_exit)
    from client_exit [OF ok me q [unfolded q0]] obtain k' where k': "do_msg_queue_cleanup (bk s) (pslot g) = Inr k'" "post_ok k'"
      "abs_post k' = put_seat (pslot g) (qfd g) None
        (put_chat (qaddr g) (if who q0 = [parent_pid g] then None else Some (chat_without (parent_pid g) q0)) (abs_post (bk s)))"
      by blast
    have "(if who q0 = [parent_pid g] then None else Some (chat_without (parent_pid g) q0)) = block_chat g t BP_done (bc s)"
      using q0 ne by (cases "bc s = BC_done") (auto simp: block_chat_def BP_exit chat_without_def parent_msg_def split: if_splits)
    with inv k'(2) chats_left [OF k'(3)] sits_left [OF k'(3), of "cslot g"] ne(1)
    have "block_inv g t out (s\<lparr>bk := k', bp := BP_done\<rparr>)"
      by (simp add: block_inv_def BP_exit del: chats_abs)
    with k'(1) show ?thesis by (auto simp: block_parent_step_def block_todo_def BP_exit)
  qed (use run in simp)
qed


lemma block_child_ok:
  assumes g: "valid_parties g" and inv: "block_inv g t out s" and run: "bc s \<noteq> BC_done"
  shows "\<exists>s'. block_child_step (cslot g) (fd64 (qfd g)) s = Inr s' \<and> block_inv g t out s' \<and>
    (block_todo s' < block_todo s \<or> bp s \<in> {BP_block, BP_send} \<and> s' = s)"
proof -
  have ne: "pslot g \<noteq> cslot g" "parent_pid g \<noteq> child_pid g" "child_pid g \<noteq> parent_pid g"
    "parent_pid g \<noteq> BROADCAST_PID" "child_pid g \<noteq> BROADCAST_PID"
    using g(1) by (auto simp: valid_parties_def)
  have ok: "post_ok (bk s)" and q: "chats (abs_post (bk s)) (qaddr g) = block_chat g t (bp s) (bc s)"
    and me: "sits (bk s) (cslot g) (qfd g) (qaddr g) (child_pid g)"
    using inv run by (simp_all add: block_inv_def del: chats_abs)
  obtain q0 where q0: "block_chat g t (bp s) (bc s) = Some q0" using run by (auto simp: block_chat_def)
  note q' = q [unfolded q0]
  show ?thesis
  proof (cases "bc s")
    case BC_poll
    have n: "length (filter (\<lambda>m. to_pid m = child_pid g) (letters q0)) =
        (if bp s \<in> {BP_sleep, BP_exit, BP_done} then 1 else 0)"
      using q0 by (auto simp: block_chat_def BC_poll parent_msg_def)
    let ?s = "s\<lparr>bc := if bp s \<in> {BP_sleep, BP_exit, BP_done} then BC_rcv else BC_poll\<rparr>"
    have "block_child_step (cslot g) (fd64 (qfd g)) s = Inr ?s"
      using client_count [OF ok me q'] n by (simp add: block_child_step_def BC_poll)
    moreover have "block_inv g t out ?s"
      using inv by (auto simp: block_inv_def block_chat_def BC_poll simp del: chats_abs)
    moreover have "block_todo ?s < block_todo s \<or> bp s \<in> {BP_block, BP_send} \<and> ?s = s"
      by (cases "bp s") (simp_all add: block_todo_def BC_poll)
    ultimately show ?thesis by blast
  next
    case BC_rcv
    then have p: "bp s \<in> {BP_sleep, BP_exit, BP_done}" using inv by (simp add: block_inv_def)
    have "chat_rcv (child_pid g) q0 = (1, Some (parent_msg g t), q0\<lparr>letters := []\<rparr>)"
      using q0 p by (auto simp: block_chat_def BC_rcv chat_rcv_def parent_msg_def)
    from client_rcv [OF ok me q' this] obtain k' where k': "call_msg_queue_rcv (bk s) (cslot g) (fd64 (qfd g)) True = Inr (1, Some (parent_msg g t), k')"
      "post_ok k'" "abs_post k' = put_chat (qaddr g) (Some (q0\<lparr>letters := []\<rparr>)) (abs_post (bk s))" by blast
    have "Some (q0\<lparr>letters := []\<rparr>) = block_chat g t (bp s) BC_send" using q0 p by (auto simp: block_chat_def BC_rcv)
    with inv k'(2) chats_put [OF k'(3)] sits_put [OF k'(3)] p
    have "block_inv g t out (s\<lparr>bk := k', bcmsg := parent_msg g t, bc := BC_send\<rparr>)"
      by (simp add: block_inv_def BC_rcv del: chats_abs)
    with k'(1) show ?thesis by (auto simp: block_child_step_def block_todo_def BC_rcv)
  next
    case BC_send
    then have p: "bp s \<in> {BP_sleep, BP_exit, BP_done}" and m: "bcmsg s = parent_msg g t"
      using inv by (simp_all add: block_inv_def)
    let ?m = "\<lparr>from_pid = child_pid g, to_pid = parent_pid g, msg_txt = put_text ''ACK'' (msg_txt (bcmsg s))\<rparr>"
    obtain ctx where ctx: "ctx_at (bk s) (cslot g) = Inr ctx" "pid ctx = child_pid g" using me by (rule sitsD)
    have "letter_fits (child_pid g) ?m q0" "chat_send (child_pid g) ?m q0 = (-EINVAL, q0)"
      using q0 p ne by (auto simp: block_chat_def BC_send letter_fits_def chat_send_def k_const)
    from client_send [OF ok me q' this] obtain k' where k': "call_msg_queue_send (bk s) (cslot g) (fd64 (qfd g)) (Some ?m) = Inr (-EINVAL, k')"
      "post_ok k'" "abs_post k' = put_chat (qaddr g) (Some q0) (abs_post (bk s))" by blast
    let ?s = "s\<lparr>bk := k', bcmsg := ?m, bshown := bshown s @ ''Child blocked by parent'' @ newline, bc := BC_exit\<rparr>"
    have "vuprintf (''Child blocked by parent'' @ newline) [] = Inr (''Child blocked by parent'' @ newline)"
      by (rule plain_text) simp
    then have "block_child_step (cslot g) (fd64 (qfd g)) s = Inr ?s"
      using k'(1) ctx m by (simp add: block_child_step_def BC_send Let_def parent_msg_def del: vuprintf.simps append.simps)
    moreover have "Some q0 = block_chat g t (bp s) BC_exit" using q0 p by (auto simp: block_chat_def BC_send)
    with inv k'(2) chats_put [OF k'(3)] sits_put [OF k'(3)] p have "block_inv g t out ?s"
      by (simp add: block_inv_def BC_send del: chats_abs append.simps)
    ultimately show ?thesis by (auto simp: block_todo_def BC_send)
  next
    case BC_exit
    from client_exit [OF ok me q'] obtain k' where k': "do_msg_queue_cleanup (bk s) (cslot g) = Inr k'" "post_ok k'"
      "abs_post k' = put_seat (cslot g) (qfd g) None
        (put_chat (qaddr g) (if who q0 = [child_pid g] then None else Some (chat_without (child_pid g) q0)) (abs_post (bk s)))"
      by blast
    have "(if who q0 = [child_pid g] then None else Some (chat_without (child_pid g) q0)) = block_chat g t (bp s) BC_done"
      using q0 ne by (cases "bp s = BP_done") (auto simp: block_chat_def BC_exit chat_without_def split: if_splits)
    with inv k'(2) chats_left [OF k'(3)] sits_left [OF k'(3), of "pslot g"] ne(1)
    have "block_inv g t out (s\<lparr>bk := k', bc := BC_done\<rparr>)" by (simp add: block_inv_def BC_exit del: chats_abs)
    with k'(1) show ?thesis by (auto simp: block_child_step_def block_todo_def BC_exit)
  qed (use run in simp)
qed

interpretation block: run_to_end "\<lambda>s. valid_parties g \<and> uint (child_pid g) < 2 ^ 31 \<and> block_inv g t out s" "block_step g" block_todo
  "\<lambda>s. bp s = BP_done \<and> bc s = BC_done" for g t out
proof unfold_locales
  fix s s' assume inv: "valid_parties g \<and> uint (child_pid g) < 2 ^ 31 \<and> block_inv g t out s" and "block_step g s s'"
  from this(2) show "valid_parties g \<and> uint (child_pid g) < 2 ^ 31 \<and> block_inv g t out s'"
    by cases (use inv block_parent_ok [of g t out s] block_child_ok [of g t out s] in fastforce)+
next
  fix s assume inv: "valid_parties g \<and> uint (child_pid g) < 2 ^ 31 \<and> block_inv g t out s"
    and "\<not> (bp s = BP_done \<and> bc s = BC_done)"
  then consider "bp s \<noteq> BP_done" | "bp s = BP_done" "bc s \<noteq> BC_done" by blast
  then show "\<exists>s'. block_step g s s' \<and> block_todo s' < block_todo s"
  proof cases
    case 1
    with block_parent_ok [of g t out s] inv show ?thesis by (blast intro: block_step.parent)
  next
    case 2
    with block_child_ok [of g t out s] inv show ?thesis by (auto intro: block_step.child)
  qed
qed

lemma block_starts:
  assumes st: "test_ready g e k"
  shows "\<exists>s. block_prologue e k (pslot g) s0 = Inr (Some (fd64 (qfd g), uint (child_pid g), s)) \<and>
    block_inv g (msg_txt (bpmsg s0)) (bshown s0) s"
proof -
  obtain k' where k': "test_prologue e k (pslot g) = Inr (Some (fd64 (qfd g), uint (child_pid g), k'))" "post_ok k'"
    "chats (abs_post k') (qaddr g) = Some \<lparr>who = [parent_pid g, child_pid g], letters = [], refused = {}\<rparr>"
    "sits k' (pslot g) (qfd g) (qaddr g) (parent_pid g)" "sits k' (cslot g) (qfd g) (qaddr g) (child_pid g)"
    using prologue_abs [OF st] by blast
  let ?s = "s0\<lparr>bk := k', bp := BP_block, bc := BC_poll, bcmsg := bpmsg s0\<rparr>"
  have "block_inv g (msg_txt (bpmsg s0)) (bshown s0) ?s"
    using k'(2-5) by (simp add: block_inv_def block_chat_def del: chats_abs)
  with k'(1) show ?thesis by (simp add: block_prologue_def)
qed

section \<open>send_rcv.c\<close>

text \<open>The child waits for a message, prints it and acknowledges it; the parent waits for that and prints it.\<close>

datatype sr_parent = SP_send | SP_poll | SP_rcv | SP_exit | SP_done
datatype sr_child = SC_poll | SC_rcv | SC_send | SC_exit | SC_done

record sr_run =
  srk :: kernel
  sp :: sr_parent
  sc :: sr_child
  spmsg :: message
  scmsg :: message
  srshown :: string

text \<open>The text of a message is printed up to its terminator.\<close>

definition c_text :: "string \<Rightarrow> string" where
  "c_text t = takeWhile (\<lambda>ch. ch \<noteq> CHR 0x00) t"

definition sr_parent_step :: "nat \<Rightarrow> u64 \<Rightarrow> int \<Rightarrow> sr_run \<Rightarrow> sr_run res" where
  "sr_parent_step c fd pd s =
     (case sp s of
        SP_send \<Rightarrow>
          bind_res (ctx_at (srk s) c) (\<lambda>ctx.
            let msg = \<lparr>from_pid = pid ctx, to_pid = word_of_int pd, msg_txt = put_text ''MSG'' (msg_txt (spmsg s))\<rparr>
            in bind_res (call_msg_queue_send (srk s) c fd (Some msg)) (\<lambda>(cnt, k).
                 Inr (s\<lparr>srk := k, spmsg := msg, sp := SP_poll\<rparr>)))
      | SP_poll \<Rightarrow>
          bind_res (call_get_msg_count (srk s) c fd) (\<lambda>(n, k).
            Inr (s\<lparr>srk := k, sp := if n = 0 then SP_poll else SP_rcv\<rparr>))
      | SP_rcv \<Rightarrow>
          bind_res (call_msg_queue_rcv (srk s) c fd True) (\<lambda>(cnt, out, k).
            let msg = (case out of None \<Rightarrow> spmsg s | Some m \<Rightarrow> m)
            in bind_res (vuprintf (''Parent got ACK: %s'' @ newline) [Str_arg (Some (c_text (msg_txt msg)))]) (\<lambda>shown.
                 Inr (s\<lparr>srk := k, spmsg := msg, srshown := srshown s @ shown, sp := SP_exit\<rparr>)))
      | SP_exit \<Rightarrow> bind_res (do_msg_queue_cleanup (srk s) c) (\<lambda>k. Inr (s\<lparr>srk := k, sp := SP_done\<rparr>))
      | SP_done \<Rightarrow> Inr s)"

definition sr_child_step :: "nat \<Rightarrow> u64 \<Rightarrow> sr_run \<Rightarrow> sr_run res" where
  "sr_child_step c fd s =
     (case sc s of
        SC_poll \<Rightarrow>
          bind_res (call_get_msg_count (srk s) c fd) (\<lambda>(n, k).
            Inr (s\<lparr>srk := k, sc := if n = 0 then SC_poll else SC_rcv\<rparr>))
      | SC_rcv \<Rightarrow>
          bind_res (call_msg_queue_rcv (srk s) c fd True) (\<lambda>(cnt, out, k).
            let msg = (case out of None \<Rightarrow> scmsg s | Some m \<Rightarrow> m)
            in bind_res (vuprintf (''Child recieved message: %s'' @ newline) [Str_arg (Some (c_text (msg_txt msg)))]) (\<lambda>shown.
                 Inr (s\<lparr>srk := k, scmsg := msg, srshown := srshown s @ shown, sc := SC_send\<rparr>)))
      | SC_send \<Rightarrow>
          bind_res (ctx_at (srk s) c) (\<lambda>ctx.
            let msg = \<lparr>from_pid = pid ctx, to_pid = from_pid (scmsg s), msg_txt = put_text ''ACK'' (msg_txt (scmsg s))\<rparr>
            in bind_res (call_msg_queue_send (srk s) c fd (Some msg)) (\<lambda>(cnt, k).
                 Inr (s\<lparr>srk := k, scmsg := msg, sc := SC_exit\<rparr>)))
      | SC_exit \<Rightarrow> bind_res (do_msg_queue_cleanup (srk s) c) (\<lambda>k. Inr (s\<lparr>srk := k, sc := SC_done\<rparr>))
      | SC_done \<Rightarrow> Inr s)"

definition sr_prologue :: "env \<Rightarrow> kernel \<Rightarrow> nat \<Rightarrow> sr_run \<Rightarrow> (u64 \<times> int \<times> sr_run) option res" where
  "sr_prologue e k c s0 =
     bind_res (test_prologue e k c) (\<lambda>r. Inr (map_option (\<lambda>(fd, pd, k').
       (fd, pd, s0\<lparr>srk := k', sp := SP_send, sc := SC_poll, scmsg := spmsg s0\<rparr>)) r))"

inductive sr_step :: "parties \<Rightarrow> sr_run \<Rightarrow> sr_run \<Rightarrow> bool" for g where
  parent: "sp s \<noteq> SP_done \<Longrightarrow> sr_parent_step (pslot g) (fd64 (qfd g)) (uint (child_pid g)) s = Inr s' \<Longrightarrow> sr_step g s s'"
| child: "sc s \<noteq> SC_done \<Longrightarrow> sr_child_step (cslot g) (fd64 (qfd g)) s = Inr s' \<Longrightarrow> sr_step g s s'"

definition sr_chat :: "parties \<Rightarrow> string \<Rightarrow> sr_parent \<Rightarrow> sr_child \<Rightarrow> chat option" where
  "sr_chat g t p c =
     (if p = SP_done \<and> c = SC_done then None
      else Some \<lparr>who = (if p = SP_done then [] else [parent_pid g]) @ (if c = SC_done then [] else [child_pid g]),
        letters = (if p \<noteq> SP_send \<and> c \<in> {SC_poll, SC_rcv} then [parent_msg g t] else []) @
          (if p \<in> {SP_poll, SP_rcv} \<and> c \<in> {SC_exit, SC_done} then [ack g t] else []),
        refused = {}\<rparr>)"

definition sr_output :: "sr_parent \<Rightarrow> sr_child \<Rightarrow> string" where
  "sr_output p c = (if c \<in> {SC_send, SC_exit, SC_done} then ''Child recieved message: MSG'' @ newline else []) @
     (if p \<in> {SP_exit, SP_done} then ''Parent got ACK: ACK'' @ newline else [])"

definition sr_inv :: "parties \<Rightarrow> string \<Rightarrow> string \<Rightarrow> sr_run \<Rightarrow> bool" where
  "sr_inv g t out s \<longleftrightarrow> post_ok (srk s) \<and> chats (abs_post (srk s)) (qaddr g) = sr_chat g t (sp s) (sc s) \<and>
     (sp s \<noteq> SP_done \<longrightarrow> sits (srk s) (pslot g) (qfd g) (qaddr g) (parent_pid g)) \<and>
     (sc s \<noteq> SC_done \<longrightarrow> sits (srk s) (cslot g) (qfd g) (qaddr g) (child_pid g)) \<and>
     (sc s \<noteq> SC_poll \<longrightarrow> sp s \<noteq> SP_send) \<and> (sp s \<in> {SP_rcv, SP_exit, SP_done} \<longrightarrow> sc s \<in> {SC_exit, SC_done}) \<and>
     (sp s = SP_send \<longrightarrow> msg_txt (spmsg s) = t) \<and> (sc s = SC_send \<longrightarrow> scmsg s = parent_msg g t) \<and>
     (sp s \<in> {SP_exit, SP_done} \<longrightarrow> spmsg s = ack g t) \<and> srshown s = out @ sr_output (sp s) (sc s)"

fun sr_parent_todo :: "sr_parent \<Rightarrow> nat" where
  "sr_parent_todo SP_send = 4" | "sr_parent_todo SP_poll = 3" | "sr_parent_todo SP_rcv = 2"
| "sr_parent_todo SP_exit = 1" | "sr_parent_todo SP_done = 0"

fun sr_child_todo :: "sr_child \<Rightarrow> nat" where
  "sr_child_todo SC_poll = 4" | "sr_child_todo SC_rcv = 3" | "sr_child_todo SC_send = 2"
| "sr_child_todo SC_exit = 1" | "sr_child_todo SC_done = 0"

definition sr_todo :: "sr_run \<Rightarrow> nat" where
  "sr_todo s = sr_parent_todo (sp s) + sr_child_todo (sc s)"

lemma shown_lines:
  "vuprintf (''Child recieved message: %s'' @ newline) [Str_arg (Some w)] = Inr (''Child recieved message: '' @ w @ newline)"
  "vuprintf (''Parent got ACK: %s'' @ newline) [Str_arg (Some w)] = Inr (''Parent got ACK: '' @ w @ newline)"
  using text_line [of "''Child recieved message: ''" w] text_line [of "''Parent got ACK: ''" w] by simp_all

lemma c_text_put: "CHR 0x00 \<notin> set w \<Longrightarrow> c_text (put_text w t) = w"
  unfolding c_text_def put_text_def by (subst takeWhile_append2) auto

lemma sr_parent_ok:
  assumes g: "valid_parties g" and inv: "sr_inv g t out s" and run: "sp s \<noteq> SP_done"
  shows "\<exists>s'. sr_parent_step (pslot g) (fd64 (qfd g)) (uint (child_pid g)) s = Inr s' \<and> sr_inv g t out s' \<and>
    (sr_todo s' < sr_todo s \<or> sc s \<in> {SC_poll, SC_rcv, SC_send} \<and> s' = s)"
proof -
  have ne: "pslot g \<noteq> cslot g" "parent_pid g \<noteq> child_pid g" "child_pid g \<noteq> parent_pid g"
    "parent_pid g \<noteq> BROADCAST_PID" "child_pid g \<noteq> BROADCAST_PID"
    using g(1) by (auto simp: valid_parties_def)
  have ok: "post_ok (srk s)" and q: "chats (abs_post (srk s)) (qaddr g) = sr_chat g t (sp s) (sc s)"
    and me: "sits (srk s) (pslot g) (qfd g) (qaddr g) (parent_pid g)"
    using inv run by (simp_all add: sr_inv_def del: chats_abs)
  obtain q0 where q0: "sr_chat g t (sp s) (sc s) = Some q0" using run by (auto simp: sr_chat_def)
  note q' = q [unfolded q0]
  show ?thesis
  proof (cases "sp s")
    case SP_send
    then have c: "sc s = SC_poll" and tx: "msg_txt (spmsg s) = t" using inv by (auto simp: sr_inv_def)
    obtain ctx where ctx: "ctx_at (srk s) (pslot g) = Inr ctx" "pid ctx = parent_pid g" using me by (rule sitsD)
    have "letter_fits (parent_pid g) (parent_msg g t) q0"
      "chat_send (parent_pid g) (parent_msg g t) q0 = (1, q0\<lparr>letters := [parent_msg g t]\<rparr>)"
      using q0 ne by (auto simp: sr_chat_def SP_send c letter_fits_def chat_send_def parent_msg_def less_Suc_eq k_const)
    from client_send [OF ok me q' this] obtain k' where k': "call_msg_queue_send (srk s) (pslot g) (fd64 (qfd g)) (Some (parent_msg g t)) = Inr (1, k')"
      "post_ok k'" "abs_post k' = put_chat (qaddr g) (Some (q0\<lparr>letters := [parent_msg g t]\<rparr>)) (abs_post (srk s))" by blast
    let ?s = "s\<lparr>srk := k', spmsg := parent_msg g t, sp := SP_poll\<rparr>"
    have "sr_parent_step (pslot g) (fd64 (qfd g)) (uint (child_pid g)) s = Inr ?s"
      using k'(1) tx ctx by (simp add: sr_parent_step_def SP_send Let_def parent_msg_def)
    moreover have "Some (q0\<lparr>letters := [parent_msg g t]\<rparr>) = sr_chat g t SP_poll (sc s)"
      using q0 by (auto simp: sr_chat_def SP_send c)
    with inv k'(2) chats_put [OF k'(3)] sits_put [OF k'(3)] have "sr_inv g t out ?s"
      by (simp add: sr_inv_def SP_send c sr_output_def del: chats_abs)
    ultimately show ?thesis by (auto simp: sr_todo_def SP_send)
  next
    case SP_poll
    have n: "length (filter (\<lambda>m. to_pid m = parent_pid g) (letters q0)) = (if sc s \<in> {SC_exit, SC_done} then 1 else 0)"
      using q0 ne by (auto simp: sr_chat_def SP_poll parent_msg_def ack_def)
    let ?s = "s\<lparr>sp := if sc s \<in> {SC_exit, SC_done} then SP_rcv else SP_poll\<rparr>"
    have "sr_parent_step (pslot g) (fd64 (qfd g)) (uint (child_pid g)) s = Inr ?s"
      using client_count [OF ok me q'] n by (simp add: sr_parent_step_def SP_poll)
    moreover have "sr_inv g t out ?s"
      using inv by (auto simp: sr_inv_def sr_chat_def SP_poll sr_output_def simp del: chats_abs)
    moreover have "sr_todo ?s < sr_todo s \<or> sc s \<in> {SC_poll, SC_rcv, SC_send} \<and> ?s = s"
      by (cases "sc s") (simp_all add: sr_todo_def SP_poll)
    ultimately show ?thesis by blast
  next
    case SP_rcv
    then have c: "sc s \<in> {SC_exit, SC_done}" using inv by (simp add: sr_inv_def)
    have "chat_rcv (parent_pid g) q0 = (1, Some (ack g t), q0\<lparr>letters := []\<rparr>)"
      using q0 c by (auto simp: sr_chat_def SP_rcv chat_rcv_def ack_def)
    from client_rcv [OF ok me q' this] obtain k' where k': "call_msg_queue_rcv (srk s) (pslot g) (fd64 (qfd g)) True = Inr (1, Some (ack g t), k')"
      "post_ok k'" "abs_post k' = put_chat (qaddr g) (Some (q0\<lparr>letters := []\<rparr>)) (abs_post (srk s))" by blast
    let ?s = "s\<lparr>srk := k', spmsg := ack g t, srshown := srshown s @ ''Parent got ACK: ACK'' @ newline, sp := SP_exit\<rparr>"
    have "c_text (msg_txt (ack g t)) = ''ACK''" by (simp add: ack_def c_text_put)
    then have "sr_parent_step (pslot g) (fd64 (qfd g)) (uint (child_pid g)) s = Inr ?s"
      using k'(1) by (simp add: sr_parent_step_def SP_rcv Let_def shown_lines del: vuprintf.simps append.simps)
    moreover have "Some (q0\<lparr>letters := []\<rparr>) = sr_chat g t SP_exit (sc s)" using q0 c by (auto simp: sr_chat_def SP_rcv)
    with inv k'(2) chats_put [OF k'(3)] sits_put [OF k'(3)] c have "sr_inv g t out ?s"
      by (simp add: sr_inv_def SP_rcv sr_output_def del: chats_abs)
    ultimately show ?thesis by (auto simp: sr_todo_def SP_rcv)
  next
    case SP_exit
    from client_exit [OF ok me q'] obtain k' where k': "do_msg_queue_cleanup (srk s) (pslot g) = Inr k'" "post_ok k'"
      "abs_post k' = put_seat (pslot g) (qfd g) None
        (put_chat (qaddr g) (if who q0 = [parent_pid g] then None else Some (chat_without (parent_pid g) q0)) (abs_post (srk s)))"
      by blast
    have "(if who q0 = [parent_pid g] then None else Some (chat_without (parent_pid g) q0)) = sr_chat g t SP_done (sc s)"
      using q0 ne by (cases "sc s = SC_done") (auto simp: sr_chat_def SP_exit chat_without_def parent_msg_def split: if_splits)
    with inv k'(2) chats_left [OF k'(3)] sits_left [OF k'(3), of "cslot g"] ne(1)
    have "sr_inv g t out (s\<lparr>srk := k', sp := SP_done\<rparr>)" by (simp add: sr_inv_def SP_exit sr_output_def del: chats_abs)
    with k'(1) show ?thesis by (auto simp: sr_parent_step_def sr_todo_def SP_exit)
  qed (use run in simp)
qed

lemma sr_child_ok:
  assumes g: "valid_parties g" and inv: "sr_inv g t out s" and run: "sc s \<noteq> SC_done"
  shows "\<exists>s'. sr_child_step (cslot g) (fd64 (qfd g)) s = Inr s' \<and> sr_inv g t out s' \<and>
    (sr_todo s' < sr_todo s \<or> sp s = SP_send \<and> s' = s)"
proof -
  have ne: "pslot g \<noteq> cslot g" "parent_pid g \<noteq> child_pid g" "child_pid g \<noteq> parent_pid g"
    "parent_pid g \<noteq> BROADCAST_PID" "child_pid g \<noteq> BROADCAST_PID"
    using g(1) by (auto simp: valid_parties_def)
  have ok: "post_ok (srk s)" and q: "chats (abs_post (srk s)) (qaddr g) = sr_chat g t (sp s) (sc s)"
    and me: "sits (srk s) (cslot g) (qfd g) (qaddr g) (child_pid g)"
    using inv run by (simp_all add: sr_inv_def del: chats_abs)
  obtain q0 where q0: "sr_chat g t (sp s) (sc s) = Some q0" using run by (auto simp: sr_chat_def)
  note q' = q [unfolded q0]
  have early: "sc s \<notin> {SC_exit, SC_done} \<Longrightarrow> sp s \<in> {SP_send, SP_poll}"
    using inv by (cases "sp s") (simp_all add: sr_inv_def)
  show ?thesis
  proof (cases "sc s")
    case SC_poll
    have n: "length (filter (\<lambda>m. to_pid m = child_pid g) (letters q0)) = (if sp s \<noteq> SP_send then 1 else 0)"
      using q0 ne by (auto simp: sr_chat_def SC_poll parent_msg_def ack_def)
    let ?s = "s\<lparr>sc := if sp s \<noteq> SP_send then SC_rcv else SC_poll\<rparr>"
    have "sr_child_step (cslot g) (fd64 (qfd g)) s = Inr ?s"
      using client_count [OF ok me q'] n by (simp add: sr_child_step_def SC_poll)
    moreover have "sr_inv g t out ?s"
      using inv by (auto simp: sr_inv_def sr_chat_def SC_poll sr_output_def simp del: chats_abs)
    moreover have "sr_todo ?s < sr_todo s \<or> sp s = SP_send \<and> ?s = s"
      by (cases "sp s") (simp_all add: sr_todo_def SC_poll)
    ultimately show ?thesis by blast
  next
    case SC_rcv
    then have p: "sp s = SP_poll" using inv early by (auto simp: sr_inv_def)
    have "chat_rcv (child_pid g) q0 = (1, Some (parent_msg g t), q0\<lparr>letters := []\<rparr>)"
      using q0 p by (auto simp: sr_chat_def SC_rcv chat_rcv_def parent_msg_def)
    from client_rcv [OF ok me q' this] obtain k' where k': "call_msg_queue_rcv (srk s) (cslot g) (fd64 (qfd g)) True = Inr (1, Some (parent_msg g t), k')"
      "post_ok k'" "abs_post k' = put_chat (qaddr g) (Some (q0\<lparr>letters := []\<rparr>)) (abs_post (srk s))" by blast
    let ?s = "s\<lparr>srk := k', scmsg := parent_msg g t, srshown := srshown s @ ''Child recieved message: MSG'' @ newline, sc := SC_send\<rparr>"
    have "c_text (msg_txt (parent_msg g t)) = ''MSG''" by (simp add: parent_msg_def c_text_put)
    then have "sr_child_step (cslot g) (fd64 (qfd g)) s = Inr ?s"
      using k'(1) by (simp add: sr_child_step_def SC_rcv Let_def shown_lines del: vuprintf.simps append.simps)
    moreover have "Some (q0\<lparr>letters := []\<rparr>) = sr_chat g t (sp s) SC_send" using q0 p by (auto simp: sr_chat_def SC_rcv)
    with inv k'(2) chats_put [OF k'(3)] sits_put [OF k'(3)] p have "sr_inv g t out ?s"
      by (simp add: sr_inv_def SC_rcv sr_output_def del: chats_abs)
    ultimately show ?thesis by (auto simp: sr_todo_def SC_rcv)
  next
    case SC_send
    then have p: "sp s = SP_poll" and m: "scmsg s = parent_msg g t" using inv early by (auto simp: sr_inv_def)
    obtain ctx where ctx: "ctx_at (srk s) (cslot g) = Inr ctx" "pid ctx = child_pid g" using me by (rule sitsD)
    have "letter_fits (child_pid g) (ack g t) q0" "chat_send (child_pid g) (ack g t) q0 = (1, q0\<lparr>letters := [ack g t]\<rparr>)"
      using q0 p ne by (auto simp: sr_chat_def SC_send letter_fits_def chat_send_def ack_def less_Suc_eq k_const)
    from client_send [OF ok me q' this] obtain k' where k': "call_msg_queue_send (srk s) (cslot g) (fd64 (qfd g)) (Some (ack g t)) = Inr (1, k')"
      "post_ok k'" "abs_post k' = put_chat (qaddr g) (Some (q0\<lparr>letters := [ack g t]\<rparr>)) (abs_post (srk s))" by blast
    let ?s = "s\<lparr>srk := k', scmsg := ack g t, sc := SC_exit\<rparr>"
    have "sr_child_step (cslot g) (fd64 (qfd g)) s = Inr ?s"
      using k'(1) ctx m by (simp add: sr_child_step_def SC_send Let_def parent_msg_def ack_def)
    moreover have "Some (q0\<lparr>letters := [ack g t]\<rparr>) = sr_chat g t (sp s) SC_exit" using q0 p by (auto simp: sr_chat_def SC_send)
    with inv k'(2) chats_put [OF k'(3)] sits_put [OF k'(3)] p have "sr_inv g t out ?s"
      by (simp add: sr_inv_def SC_send sr_output_def del: chats_abs)
    ultimately show ?thesis by (auto simp: sr_todo_def SC_send)
  next
    case SC_exit
    then have p: "sp s \<noteq> SP_send" using inv by (simp add: sr_inv_def)
    from client_exit [OF ok me q'] obtain k' where k': "do_msg_queue_cleanup (srk s) (cslot g) = Inr k'" "post_ok k'"
      "abs_post k' = put_seat (cslot g) (qfd g) None
        (put_chat (qaddr g) (if who q0 = [child_pid g] then None else Some (chat_without (child_pid g) q0)) (abs_post (srk s)))"
      by blast
    have "(if who q0 = [child_pid g] then None else Some (chat_without (child_pid g) q0)) = sr_chat g t (sp s) SC_done"
      using q0 ne by (cases "sp s = SP_done") (auto simp: sr_chat_def SC_exit chat_without_def ack_def split: if_splits)
    with inv k'(2) chats_left [OF k'(3)] sits_left [OF k'(3), of "pslot g"] ne(1) p
    have "sr_inv g t out (s\<lparr>srk := k', sc := SC_done\<rparr>)" by (simp add: sr_inv_def SC_exit sr_output_def del: chats_abs)
    with k'(1) show ?thesis by (auto simp: sr_child_step_def sr_todo_def SC_exit)
  qed (use run in simp)
qed

interpretation sr: run_to_end "\<lambda>s. valid_parties g \<and> sr_inv g t out s" "sr_step g" sr_todo
  "\<lambda>s. sp s = SP_done \<and> sc s = SC_done" for g t out
proof unfold_locales
  fix s s' assume inv: "valid_parties g \<and> sr_inv g t out s" and "sr_step g s s'"
  from this(2) show "valid_parties g \<and> sr_inv g t out s'"
    by cases (use inv sr_parent_ok [of g t out s] sr_child_ok [of g t out s] in fastforce)+
next
  fix s assume inv: "valid_parties g \<and> sr_inv g t out s" and "\<not> (sp s = SP_done \<and> sc s = SC_done)"
  then consider "sp s \<noteq> SP_done" "sc s \<notin> {SC_poll, SC_rcv, SC_send}" | "sp s = SP_send" | "sp s \<noteq> SP_send" "sc s \<noteq> SC_done"
    by (cases "sc s"; cases "sp s") auto
  then show "\<exists>s'. sr_step g s s' \<and> sr_todo s' < sr_todo s"
  proof cases
    case 1
    with sr_parent_ok [of g t out s] inv show ?thesis by (auto intro: sr_step.parent)
  next
    case 2
    then have "sc s = SC_poll" using inv by (auto simp: sr_inv_def)
    with 2 obtain s' where s': "sr_parent_step (pslot g) (fd64 (qfd g)) (uint (child_pid g)) s = Inr s'" "sr_inv g t out s'"
      "sr_todo s' < sr_todo s \<or> s' = s"
      using sr_parent_ok [of g t out s] inv by auto
    moreover have "sp s' = SP_poll"
      using s'(1) 2 by (auto simp: sr_parent_step_def bind_res_Inr Let_def)
    ultimately have "sr_todo s' < sr_todo s" using 2 by auto
    moreover have "sr_step g s s'" by (rule sr_step.parent) (use s'(1) 2 in simp_all)
    ultimately show ?thesis by blast
  next
    case 3
    with sr_child_ok [of g t out s] inv show ?thesis by (auto intro: sr_step.child)
  qed
qed

lemma sr_starts:
  assumes st: "test_ready g e k"
  shows "\<exists>s. sr_prologue e k (pslot g) s0 = Inr (Some (fd64 (qfd g), uint (child_pid g), s)) \<and>
    sr_inv g (msg_txt (spmsg s0)) (srshown s0) s"
proof -
  obtain k' where k': "test_prologue e k (pslot g) = Inr (Some (fd64 (qfd g), uint (child_pid g), k'))" "post_ok k'"
    "chats (abs_post k') (qaddr g) = Some \<lparr>who = [parent_pid g, child_pid g], letters = [], refused = {}\<rparr>"
    "sits k' (pslot g) (qfd g) (qaddr g) (parent_pid g)" "sits k' (cslot g) (qfd g) (qaddr g) (child_pid g)"
    using prologue_abs [OF st] by blast
  let ?s = "s0\<lparr>srk := k', sp := SP_send, sc := SC_poll, scmsg := spmsg s0\<rparr>"
  have "sr_inv g (msg_txt (spmsg s0)) (srshown s0) ?s"
    using k'(2-5) by (simp add: sr_inv_def sr_chat_def sr_output_def del: chats_abs)
  with k'(1) show ?thesis by (simp add: sr_prologue_def)
qed

end
