(* ===== verification/BroadcastTest.thy ===== *)
theory BroadcastTest
  imports QueueTests
begin

text \<open>
  The test program \<^verbatim>\<open>user/test_cases_part2/bcast.c\<close>: a process that forks twice, broadcasts a message and waits
  for two acknowledgements. Here every process runs the same program text, as in the code: fork copies the
  process, and which branch it takes is decided by what fork returns.
\<close>

section \<open>The program\<close>

datatype bcast_pc =
    B_fork | B_kid_poll | B_kid_rcv | B_kid_send | B_send | B_poll | B_rcv | B_exit | B_done

text \<open>The variables of \<open>main\<close> that change, and the message of \<open>do_child_stuff\<close>.\<close>

record bcast_proc =
  bpc :: bcast_pc
  ch :: nat
  cnt :: nat
  mmsg :: message
  dmsg :: message

record bcast_run =
  brk :: kernel
  crew :: "nat \<rightharpoonup> bcast_proc"
  brshown :: string

definition put_proc :: "nat \<Rightarrow> bcast_proc \<Rightarrow> bcast_run \<Rightarrow> bcast_run" where
  "put_proc c p s = s\<lparr>crew := (crew s)(c \<mapsto> p)\<rparr>"

definition bcast_shout :: "string \<Rightarrow> bcast_run \<Rightarrow> bcast_run res" where
  "bcast_shout t s = bind_res (vuprintf (t @ newline) []) (\<lambda>out. Inr (s\<lparr>brshown := brshown s @ out\<rparr>))"

text \<open>Behind the loop of the forks, where a child arrives by \<open>break\<close>.\<close>

definition after_loop :: "bcast_proc \<Rightarrow> bcast_proc" where
  "after_loop p = p\<lparr>bpc := if ch p = 2 then B_send else B_exit\<rparr>"

definition next_turn :: "bcast_proc \<Rightarrow> bcast_proc" where
  "next_turn p = (let p' = p\<lparr>ch := ch p + 1\<rparr> in if ch p' < 2 then p'\<lparr>bpc := B_fork\<rparr> else after_loop p')"

definition child_stuff :: "u64 \<Rightarrow> nat \<Rightarrow> bcast_proc \<Rightarrow> bcast_run \<Rightarrow> bcast_run res" where
  "child_stuff fd c p s =
     (case bpc p of
        B_kid_poll \<Rightarrow>
          bind_res (call_get_msg_count (brk s) c fd) (\<lambda>(n, k).
            Inr (put_proc c (p\<lparr>bpc := if n = 0 then B_kid_poll else B_kid_rcv\<rparr>) (s\<lparr>brk := k\<rparr>)))
      | B_kid_rcv \<Rightarrow>
          bind_res (call_msg_queue_rcv (brk s) c fd True) (\<lambda>(st, out, k).
            Inr (put_proc c (p\<lparr>bpc := B_kid_send, dmsg := (case out of None \<Rightarrow> dmsg p | Some m \<Rightarrow> m)\<rparr>) (s\<lparr>brk := k\<rparr>)))
      | B_kid_send \<Rightarrow>
          bind_res (ctx_at (brk s) c) (\<lambda>ctx.
            let msg = \<lparr>from_pid = pid ctx, to_pid = from_pid (dmsg p), msg_txt = put_text ''ACK'' (msg_txt (dmsg p))\<rparr>
            in bind_res (call_msg_queue_send (brk s) c fd (Some msg)) (\<lambda>(st, k).
                 Inr (put_proc c (after_loop (p\<lparr>dmsg := msg\<rparr>)) (s\<lparr>brk := k\<rparr>))))
      | _ \<Rightarrow> Inr s)"

definition bcast_proc_step :: "env \<Rightarrow> u64 \<Rightarrow> nat \<Rightarrow> bcast_proc \<Rightarrow> bcast_run \<Rightarrow> bcast_run res" where
  "bcast_proc_step e fd c p s =
     (case bpc p of
        B_fork \<Rightarrow>
          bind_res (do_fork e (brk s) c) (\<lambda>(pd, k).
            if pd < 0 then bind_res (bcast_shout ''Error in fork'' (s\<lparr>brk := k\<rparr>)) (\<lambda>s'. Inr (put_proc c (next_turn p) s'))
            else let s' = put_proc (fst (get_new_ctx e (brk s))) (p\<lparr>bpc := B_kid_poll\<rparr>) (s\<lparr>brk := k\<rparr>)
                 in Inr (put_proc c (if pd = 0 then p\<lparr>bpc := B_kid_poll\<rparr> else next_turn p) s'))
      | B_send \<Rightarrow>
          bind_res (ctx_at (brk s) c) (\<lambda>ctx.
            let msg = \<lparr>from_pid = pid ctx, to_pid = BROADCAST_PID, msg_txt = put_text ''MSG'' (msg_txt (mmsg p))\<rparr>;
                p' = p\<lparr>mmsg := msg\<rparr>
            in bind_res (call_msg_queue_send (brk s) c fd (Some msg)) (\<lambda>(st, k).
                 if st = 2 then Inr (put_proc c (p'\<lparr>cnt := 0, ch := 0, bpc := B_poll\<rparr>) (s\<lparr>brk := k\<rparr>))
                 else bind_res (bcast_shout ''Broadcast FAILED'' (s\<lparr>brk := k\<rparr>)) (\<lambda>s'. Inr (put_proc c (p'\<lparr>bpc := B_exit\<rparr>) s'))))
      | B_poll \<Rightarrow>
          bind_res (call_get_msg_count (brk s) c fd) (\<lambda>(n, k).
            Inr (put_proc c (p\<lparr>bpc := if n = 0 then B_poll else B_rcv\<rparr>) (s\<lparr>brk := k\<rparr>)))
      | B_rcv \<Rightarrow>
          bind_res (call_msg_queue_rcv (brk s) c fd True) (\<lambda>(st, out, k).
            let p' = p\<lparr>mmsg := (case out of None \<Rightarrow> mmsg p | Some m \<Rightarrow> m),
                  cnt := (if st > 0 then cnt p + 1 else cnt p), ch := ch p + 1\<rparr>
            in if ch p' < 2 then Inr (put_proc c (p'\<lparr>bpc := B_poll\<rparr>) (s\<lparr>brk := k\<rparr>))
               else bind_res (bcast_shout (if cnt p' = 2 then ''Broadcast OK'' else ''Broadcast FAILED'') (s\<lparr>brk := k\<rparr>))
                      (\<lambda>s'. Inr (put_proc c (p'\<lparr>bpc := B_exit\<rparr>) s')))
      | B_exit \<Rightarrow> bind_res (do_msg_queue_cleanup (brk s) c) (\<lambda>k. Inr (put_proc c (p\<lparr>bpc := B_done\<rparr>) (s\<lparr>brk := k\<rparr>)))
      | B_done \<Rightarrow> Inr s
      | _ \<Rightarrow> child_stuff fd c p s)"

definition bcast_prologue :: "env \<Rightarrow> kernel \<Rightarrow> nat \<Rightarrow> bcast_proc \<Rightarrow> string \<Rightarrow> (u64 \<times> bcast_run) res" where
  "bcast_prologue e k c p out =
     (let (q, qpage) = queue_page e k; (fp, page) = file_page e k
      in bind_res (do_create_msg_queue q qpage fp page k c) (\<lambda>(fd, k').
           Inr (word_of_int fd, \<lparr>brk = k', crew = [c \<mapsto> p\<lparr>ch := 0, bpc := B_fork\<rparr>], brshown = out\<rparr>)))"

inductive bcast_step :: "env \<Rightarrow> u64 \<Rightarrow> bcast_run \<Rightarrow> bcast_run \<Rightarrow> bool" for e fd where
  turn: "crew s c = Some p \<Longrightarrow> bpc p \<noteq> B_done \<Longrightarrow> bcast_proc_step e fd c p s = Inr s' \<Longrightarrow> bcast_step e fd s s'"

definition all_done :: "bcast_run \<Rightarrow> bool" where
  "all_done s \<longleftrightarrow> (\<forall>p \<in> ran (crew s). bpc p = B_done)"

section \<open>What the kernel has to offer\<close>

text \<open>The slots and the pids of the father and of the two children, in the order in which they are forked.\<close>

record troop =
  fslot :: nat
  fpid :: u32
  kslot :: "nat \<Rightarrow> nat"
  kpid :: "nat \<Rightarrow> u32"
  bfd :: nat
  bqa :: nat

definition valid_troop :: "troop \<Rightarrow> bool" where
  "valid_troop g \<longleftrightarrow> bfd g < MAX_OPEN_FILES \<and> distinct [fslot g, kslot g 0, kslot g 1] \<and>
     distinct [fpid g, kpid g 0, kpid g 1, BROADCAST_PID] \<and> 0 < uint (kpid g 0) \<and> 0 < uint (kpid g 1)"

text \<open>The first of the two slots that is unused is given out; copying the father disturbs nobody's seat.\<close>

definition bcast_env :: "troop \<Rightarrow> env \<Rightarrow> bool" where
  "bcast_env g e \<longleftrightarrow>
     (\<forall>k. get_new_ctx e k = (if seat_pids k (kslot g 0) = None then (kslot g 0, kpid g 0) else (kslot g 1, kpid g 1))) \<and>
     (\<forall>k. \<forall>i < 2. same_seats k (setup_child_context e (kslot g i) (copy_mm e (kslot g i) (fslot g) k)))"

definition bcast_ready :: "troop \<Rightarrow> env \<Rightarrow> kernel \<Rightarrow> bool" where
  "bcast_ready g e k \<longleftrightarrow> valid_troop g \<and> post_ok k \<and>
     (\<exists>t. seats (abs_post k) (fslot g) = Some (fpid g, t) \<and>
        (\<forall>i < MAX_OPEN_FILES. \<forall>q. t ! i \<noteq> Some (Some q)) \<and>
        find (\<lambda>fd. t ! fd = None) [3..<MAX_OPEN_FILES] = Some (bfd g)) \<and>
     (\<forall>i < 2. seat_pids k (kslot g i) = None \<and> (\<forall>c. seat_pids k c \<noteq> Some (kpid g i))) \<and>
     fst (queue_page e k) = Some (bqa g) \<and> qheap k (bqa g) = None \<and> queue_room (queue_page e k) \<and>
     fheap k (fst (file_page e k)) = None \<and> bcast_env g e"

lemma valid_troopD:
  assumes "valid_troop g"
  shows "bfd g < MAX_OPEN_FILES" "fpid g \<noteq> BROADCAST_PID"
    "\<And>i. i < 2 \<Longrightarrow> kslot g i \<noteq> fslot g" "\<And>i. i < 2 \<Longrightarrow> kpid g i \<noteq> fpid g"
    "\<And>i. i < 2 \<Longrightarrow> kpid g i \<noteq> BROADCAST_PID" "\<And>i. i < 2 \<Longrightarrow> 0 < uint (kpid g i)"
    "\<And>i j. i < 2 \<Longrightarrow> j < 2 \<Longrightarrow> kslot g i = kslot g j \<longleftrightarrow> i = j"
    "\<And>i j. i < 2 \<Longrightarrow> j < 2 \<Longrightarrow> kpid g i = kpid g j \<longleftrightarrow> i = j"
  using assms by (auto simp: valid_troop_def less_2_cases_iff)

section \<open>What holds in every interleaving\<close>

text \<open>The father \<open>p\<close> and the children \<open>ks\<close>; what is in the queue by where they are.\<close>

definition at_pc :: "(nat \<Rightarrow> bcast_proc option) \<Rightarrow> nat \<Rightarrow> bcast_pc set \<Rightarrow> bool" where
  "at_pc ks i pcs \<longleftrightarrow> (\<exists>x. ks i = Some x \<and> bpc x \<in> pcs)"

definition attending :: "(nat \<Rightarrow> bcast_proc option) \<Rightarrow> nat list" where
  "attending ks = filter (\<lambda>i. at_pc ks i (- {B_done})) [0, 1]"

definition acks :: "(nat \<Rightarrow> bcast_proc option) \<Rightarrow> nat" where
  "acks ks = length (filter (\<lambda>i. at_pc ks i {B_exit, B_done}) [0, 1])"

definition started :: "bcast_proc \<Rightarrow> bool" where
  "started p \<longleftrightarrow> bpc p \<notin> {B_fork, B_send}"

text \<open>How many acknowledgements the father has received.\<close>

definition got :: "bcast_proc \<Rightarrow> nat" where
  "got p = (if bpc p \<in> {B_poll, B_rcv} then ch p else if bpc p \<in> {B_exit, B_done} then 2 else 0)"

definition kid_ok :: "troop \<Rightarrow> bcast_proc \<Rightarrow> bcast_proc \<Rightarrow> bool" where
  "kid_ok g p x \<longleftrightarrow> ch x < 2 \<and> bpc x \<in> {B_kid_poll, B_kid_rcv, B_kid_send, B_exit, B_done} \<and>
     (\<not> started p \<longrightarrow> bpc x = B_kid_poll) \<and> (bpc x = B_kid_send \<longrightarrow> from_pid (dmsg x) = fpid g)"

definition father_ok :: "bcast_proc \<Rightarrow> (nat \<Rightarrow> bcast_proc option) \<Rightarrow> bool" where
  "father_ok p ks \<longleftrightarrow> bpc p \<in> {B_fork, B_send, B_poll, B_rcv, B_exit, B_done} \<and>
     (if bpc p = B_fork then ch p < 2 \<and> (\<forall>i < 2. ks i \<noteq> None \<longleftrightarrow> i < ch p) else ks 0 \<noteq> None \<and> ks 1 \<noteq> None) \<and>
     (bpc p \<in> {B_poll, B_rcv} \<longrightarrow> ch p < 2 \<and> cnt p = ch p) \<and> (bpc p \<in> {B_exit, B_done} \<longrightarrow> acks ks = 2)"

definition attendance :: "troop \<Rightarrow> bcast_proc \<Rightarrow> (nat \<Rightarrow> bcast_proc option) \<Rightarrow> u32 list" where
  "attendance g p ks = (if bpc p = B_done then [] else [fpid g]) @ map (kpid g) (attending ks)"

definition to_kid :: "troop \<Rightarrow> bcast_proc \<Rightarrow> (nat \<Rightarrow> bcast_proc option) \<Rightarrow> nat \<Rightarrow> message list \<Rightarrow> bool" where
  "to_kid g p ks i ls \<longleftrightarrow>
     (if started p \<and> at_pc ks i {B_kid_poll, B_kid_rcv}
      then \<exists>m. filter (\<lambda>m. to_pid m = kpid g i) ls = [m] \<and> from_pid m = fpid g
      else filter (\<lambda>m. to_pid m = kpid g i) ls = [])"

definition bcast_mail :: "troop \<Rightarrow> bcast_proc \<Rightarrow> (nat \<Rightarrow> bcast_proc option) \<Rightarrow> message list \<Rightarrow> bool" where
  "bcast_mail g p ks ls \<longleftrightarrow> (\<forall>i < 2. to_kid g p ks i ls) \<and>
     (bpc p \<noteq> B_done \<longrightarrow> length (filter (\<lambda>m. to_pid m = fpid g) ls) + got p = acks ks) \<and>
     (bpc p = B_rcv \<longrightarrow> filter (\<lambda>m. to_pid m = fpid g) ls \<noteq> []) \<and>
     length ls \<le> acks ks + (if started p then 2 else 0)"

definition bcast_queue :: "troop \<Rightarrow> bcast_proc \<Rightarrow> (nat \<Rightarrow> bcast_proc option) \<Rightarrow> chat option \<Rightarrow> bool" where
  "bcast_queue g p ks x \<longleftrightarrow>
     (case x of None \<Rightarrow> attendance g p ks = []
      | Some q \<Rightarrow> attendance g p ks \<noteq> [] \<and> who q = attendance g p ks \<and> refused q = {} \<and> bcast_mail g p ks (letters q))"

definition kids :: "troop \<Rightarrow> bcast_run \<Rightarrow> nat \<Rightarrow> bcast_proc option" where
  "kids g s i = (if i < 2 then crew s (kslot g i) else None)"

text \<open>The slots and pids that are still to be given out are free.\<close>

definition kid_seats :: "troop \<Rightarrow> kernel \<Rightarrow> bcast_proc \<Rightarrow> bool" where
  "kid_seats g k p \<longleftrightarrow> (bpc p = B_fork \<longrightarrow>
     (\<forall>i < 2. if i < ch p then seat_pids k (kslot g i) \<noteq> None
              else seat_pids k (kslot g i) = None \<and> (\<forall>c. seat_pids k c \<noteq> Some (kpid g i))))"

definition verdict :: "bcast_proc \<Rightarrow> string" where
  "verdict p = (if bpc p \<in> {B_exit, B_done} then ''Broadcast OK'' @ newline else [])"

definition bcast_inv :: "troop \<Rightarrow> string \<Rightarrow> bcast_proc \<Rightarrow> bcast_run \<Rightarrow> bool" where
  "bcast_inv g out p s \<longleftrightarrow> post_ok (brk s) \<and> crew s (fslot g) = Some p \<and>
     (\<forall>c x. crew s c = Some x \<longrightarrow> c \<in> {fslot g, kslot g 0, kslot g 1}) \<and>
     father_ok p (kids g s) \<and> (\<forall>i < 2. \<forall>x. kids g s i = Some x \<longrightarrow> kid_ok g p x) \<and>
     bcast_queue g p (kids g s) (chats (abs_post (brk s)) (bqa g)) \<and> kid_seats g (brk s) p \<and>
     (bpc p \<noteq> B_done \<longrightarrow> sits (brk s) (fslot g) (bfd g) (bqa g) (fpid g)) \<and>
     (\<forall>i < 2. at_pc (kids g s) i (- {B_done}) \<longrightarrow> sits (brk s) (kslot g i) (bfd g) (bqa g) (kpid g i)) \<and>
     brshown s = out @ verdict p"

fun father_todo :: "bcast_pc \<Rightarrow> nat \<Rightarrow> nat" where
  "father_todo B_fork n = 9 - n" | "father_todo B_send n = 7" | "father_todo B_poll n = 6 - 2 * n"
| "father_todo B_rcv n = 5 - 2 * n" | "father_todo B_exit n = 1" | "father_todo _ n = 0"

fun kid_todo :: "bcast_pc \<Rightarrow> nat" where
  "kid_todo B_kid_poll = 4" | "kid_todo B_kid_rcv = 3" | "kid_todo B_kid_send = 2" | "kid_todo B_exit = 1"
| "kid_todo _ = 0"

definition bcast_todo :: "troop \<Rightarrow> bcast_run \<Rightarrow> nat" where
  "bcast_todo g s = (case crew s (fslot g) of None \<Rightarrow> 0 | Some p \<Rightarrow> father_todo (bpc p) (ch p)) +
     (\<Sum>i < 2. case kids g s i of None \<Rightarrow> 4 | Some x \<Rightarrow> kid_todo (bpc x))"

section \<open>What a step does to the queue\<close>

definition acked :: "bcast_proc \<Rightarrow> nat" where
  "acked x = (if bpc x \<in> {B_exit, B_done} then 1 else 0)"

lemma acks_upd: "i < 2 \<Longrightarrow> ks i = Some x \<Longrightarrow> acks (ks(i \<mapsto> x')) + acked x = acks ks + acked x'"
  by (auto simp: acks_def acked_def at_pc_def less_2_cases_iff)

lemma acks_new: "i < 2 \<Longrightarrow> ks i = None \<Longrightarrow> acked x = 0 \<Longrightarrow> acks (ks(i \<mapsto> x)) = acks ks"
  by (auto simp: acks_def acked_def at_pc_def less_2_cases_iff)

lemma acks_le: "acks ks \<le> 2"
  by (simp add: acks_def)

lemma acks_2: "acks ks = 2 \<Longrightarrow> i < 2 \<Longrightarrow> at_pc ks i {B_exit, B_done}"
  by (auto simp: acks_def less_2_cases_iff split: if_splits)

lemma acks_less: "acks ks < 2 \<Longrightarrow> \<exists>i < 2. \<not> at_pc ks i {B_exit, B_done}"
proof (rule ccontr)
  assume "acks ks < 2" "\<not> (\<exists>i < 2. \<not> at_pc ks i {B_exit, B_done})"
  then have "at_pc ks 0 {B_exit, B_done}" "at_pc ks 1 {B_exit, B_done}" by (meson zero_less_numeral one_less_numeral_iff semiring_norm(76))+
  with \<open>acks ks < 2\<close> show False by (simp add: acks_def)
qed

lemma at_pc_upd: "at_pc (ks(i \<mapsto> x)) j pcs \<longleftrightarrow> (if j = i then bpc x \<in> pcs else at_pc ks j pcs)"
  by (simp add: at_pc_def)

lemma attending_upd: "ks i = Some x \<Longrightarrow> (bpc x' = B_done) = (bpc x = B_done) \<Longrightarrow> attending (ks(i \<mapsto> x')) = attending ks"
  unfolding attending_def by (rule filter_cong) (auto simp: at_pc_def)

lemma attending_left: "bpc x = B_done \<Longrightarrow> attending (ks(i \<mapsto> x)) = filter (\<lambda>j. j \<noteq> i) (attending ks)"
  unfolding attending_def filter_filter by (rule filter_cong) (simp_all add: at_pc_upd)

lemma attendingD: "i \<in> set (attending ks) \<Longrightarrow> i < 2 \<and> ks i \<noteq> None"
  unfolding attending_def set_filter by (auto simp: at_pc_def)

lemma to_kid_cong:
  "filter (\<lambda>m. to_pid m = kpid g i) ls' = filter (\<lambda>m. to_pid m = kpid g i) ls \<Longrightarrow> started p' = started p \<Longrightarrow>
    (started p \<Longrightarrow> at_pc ks' i {B_kid_poll, B_kid_rcv} = at_pc ks i {B_kid_poll, B_kid_rcv}) \<Longrightarrow>
    to_kid g p' ks' i ls' = to_kid g p ks i ls"
  by (auto simp: to_kid_def)

text \<open>A child takes a step and stays.\<close>

lemma queue_kid_step:
  assumes q: "bcast_queue g p ks (Some q)" and i: "i < 2" "ks i = Some x" and stay: "bpc x \<noteq> B_done" "bpc x' \<noteq> B_done"
    and more: "acked x \<le> acked x'" and mine: "to_kid g p (ks(i \<mapsto> x')) i ls'"
    and others: "\<And>j. j < 2 \<Longrightarrow> j \<noteq> i \<Longrightarrow> filter (\<lambda>m. to_pid m = kpid g j) ls' = filter (\<lambda>m. to_pid m = kpid g j) (letters q)"
    and father: "length (filter (\<lambda>m. to_pid m = fpid g) ls') + acked x = length (filter (\<lambda>m. to_pid m = fpid g) (letters q)) + acked x'"
    and len: "length ls' + acked x \<le> length (letters q) + acked x'"
  shows "bcast_queue g p (ks(i \<mapsto> x')) (Some (q\<lparr>letters := ls'\<rparr>))"
proof -
  have att: "attendance g p (ks(i \<mapsto> x')) = attendance g p ks"
    using attending_upd [of ks i x x'] i stay by (simp add: attendance_def)
  note mail = q [unfolded bcast_queue_def option.case bcast_mail_def]
  have upd: "acks (ks(i \<mapsto> x')) + acked x = acks ks + acked x'" by (rule acks_upd) (rule i)+
  have "\<forall>j < 2. to_kid g p (ks(i \<mapsto> x')) j ls'"
  proof (intro allI impI)
    fix j :: nat assume j: "j < 2"
    show "to_kid g p (ks(i \<mapsto> x')) j ls'"
    proof (cases "j = i")
      case False
      then have "to_kid g p (ks(i \<mapsto> x')) j ls' = to_kid g p ks j (letters q)"
        by (intro to_kid_cong others [OF j]) (simp_all add: at_pc_upd)
      with mail j show ?thesis by simp
    qed (use mine in simp)
  qed
  moreover have "bpc p \<noteq> B_done \<longrightarrow> length (filter (\<lambda>m. to_pid m = fpid g) ls') + got p = acks (ks(i \<mapsto> x'))"
    using mail father upd by linarith
  moreover have "bpc p = B_rcv \<longrightarrow> filter (\<lambda>m. to_pid m = fpid g) ls' \<noteq> []"
    using mail father more by (metis add_le_imp_le_right le_zero_eq length_0_conv list.size(3) nat_add_left_cancel_le add.commute)
  moreover have "length ls' \<le> acks (ks(i \<mapsto> x')) + (if started p then 2 else 0)"
    using mail len upd by linarith
  ultimately have "bcast_mail g p (ks(i \<mapsto> x')) ls'" unfolding bcast_mail_def by blast
  with mail show ?thesis by (simp add: bcast_queue_def att)
qed

text \<open>A child leaves.\<close>

lemma queue_kid_leaves:
  assumes g: "valid_troop g" and q: "bcast_queue g p ks (Some q)" and i: "i < 2" "ks i = Some x" "bpc x = B_exit"
  shows "bcast_queue g p (ks(i \<mapsto> x\<lparr>bpc := B_done\<rparr>)) (if who q = [kpid g i] then None else Some (chat_without (kpid g i) q))"
proof -
  let ?ks = "ks(i \<mapsto> x\<lparr>bpc := B_done\<rparr>)"
  note ne = valid_troopD [OF g]
  note mail = q [unfolded bcast_queue_def option.case bcast_mail_def]
  have "remove1 (kpid g i) (map (kpid g) (attending ks)) = map (kpid g) (filter (\<lambda>j. j \<noteq> i) (attending ks))"
    using ne(8) [of 0 1] i(1) by (auto simp: attending_def less_2_cases_iff)
  then have att: "attendance g p ?ks = remove1 (kpid g i) (attendance g p ks)"
    using ne(4) [OF i(1)] by (simp add: attendance_def attending_left)
  have acks: "acks ?ks = acks ks" using acks_upd [of i ks x "x\<lparr>bpc := B_done\<rparr>"] i by (simp add: acked_def)
  have keep: "filter (\<lambda>m. to_pid m = a) (filter (\<lambda>m. to_pid m \<noteq> kpid g i) (letters q)) = filter (\<lambda>m. to_pid m = a) (letters q)"
    if "a \<noteq> kpid g i" for a
    using that by (auto intro: filter_cong)
  have kid: "to_kid g p ?ks j (filter (\<lambda>m. to_pid m \<noteq> kpid g i) (letters q))" if j: "j < 2" for j
  proof (cases "j = i")
    case False
    then have "to_kid g p ?ks j (filter (\<lambda>m. to_pid m \<noteq> kpid g i) (letters q)) = to_kid g p ks j (letters q)"
      using keep ne(8) [OF j i(1)] by (intro to_kid_cong) (simp_all add: at_pc_upd)
    with mail j show ?thesis by simp
  qed (simp add: to_kid_def at_pc_upd)
  have "length (filter (\<lambda>m. to_pid m \<noteq> kpid g i) (letters q)) \<le> length (letters q)" by simp
  with mail kid have "bcast_mail g p ?ks (filter (\<lambda>m. to_pid m \<noteq> kpid g i) (letters q))"
    using keep [of "fpid g"] ne(4) [OF i(1)] by (simp add: bcast_mail_def acks del: length_filter_le)
  moreover have "attendance g p ?ks = [] \<longleftrightarrow> who q = [kpid g i]"
  proof -
    have "kpid g i \<in> set (attendance g p ks)"
      using i by (auto simp: attendance_def attending_def at_pc_def less_2_cases_iff)
    then show ?thesis unfolding att using mail by (cases "attendance g p ks") (auto split: if_splits)
  qed
  ultimately show ?thesis using mail by (auto simp: bcast_queue_def chat_without_def att split: if_splits)
qed


text \<open>The father forks child number \<open>ch p\<close>.\<close>

lemma next_turn_simps:
  "ch (next_turn p) = ch p + 1" "bpc (next_turn p) = (if ch p + 1 < 2 then B_fork else if ch p = 1 then B_send else B_exit)"
  by (auto simp: next_turn_def after_loop_def Let_def)

lemma queue_fork:
  assumes q: "bcast_queue g p ks (Some q)" and p: "bpc p = B_fork" "ch p < 2" and ks: "\<forall>i < 2. ks i \<noteq> None \<longleftrightarrow> i < ch p"
    and kid: "\<And>i x. i < 2 \<Longrightarrow> ks i = Some x \<Longrightarrow> bpc x = B_kid_poll" and x: "bpc x = B_kid_poll"
  shows "bcast_queue g (next_turn p) (ks(ch p \<mapsto> x)) (Some (q\<lparr>who := who q @ [kpid g (ch p)]\<rparr>))"
proof -
  let ?ks = "ks(ch p \<mapsto> x)"
  note mail = q [unfolded bcast_queue_def option.case bcast_mail_def]
  have new: "ks (ch p) = None" using ks [rule_format, OF p(2)] by simp
  have "at_pc ks 0 (- {B_done})" if "ch p = 1"
  proof -
    have "ks 0 \<noteq> None" using ks [rule_format, of 0] that by simp
    then obtain y where "ks 0 = Some y" by blast
    with kid [of 0 y] show ?thesis by (simp add: at_pc_def)
  qed
  moreover have "ks 0 = None" "ks 1 = None" if "ch p = 0"
    using ks [rule_format, of 0] ks [rule_format, of 1] that by simp_all
  ultimately have att: "attending ?ks = attending ks @ [ch p]"
    using p(2) new x by (auto simp: attending_def at_pc_def less_2_cases_iff)
  have stop: "\<not> started p" "\<not> started (next_turn p)" "bpc (next_turn p) \<notin> {B_done, B_rcv}" "got (next_turn p) = got p" "bpc p \<noteq> B_done"
    using p by (auto simp: started_def got_def next_turn_simps)
  have acks: "acks ?ks = acks ks" using acks_new [OF p(2), of ks x] new x by (simp add: acked_def)
  have kid': "to_kid g (next_turn p) ?ks j (letters q) = to_kid g p ks j (letters q)" for j
    by (rule to_kid_cong) (use stop in simp_all)
  from mail show ?thesis using stop by (simp add: bcast_queue_def bcast_mail_def attendance_def att acks kid')
qed

text \<open>The father broadcasts.\<close>

lemma queue_broadcast:
  assumes g: "valid_troop g" and q: "bcast_queue g p ks (Some q)" and p: "bpc p = B_send"
    and kid: "\<And>i. i < 2 \<Longrightarrow> at_pc ks i {B_kid_poll}" and msg: "from_pid msg = fpid g" "to_pid msg = BROADCAST_PID"
    and p': "bpc p' = B_poll" "ch p' = 0"
  shows "who q = [fpid g, kpid g 0, kpid g 1] \<and> letters q = [] \<and>
    (\<exists>q'. chat_send (fpid g) msg q = (2, q') \<and> bcast_queue g p' ks (Some q'))"
proof -
  note ne = valid_troopD [OF g]
  note mail = q [unfolded bcast_queue_def option.case bcast_mail_def]
  have kid': "at_pc ks i (- {B_done})" "\<not> at_pc ks i {B_exit, B_done}" "at_pc ks i {B_kid_poll, B_kid_rcv}" if "i < 2" for i
    using kid [OF that] by (auto simp: at_pc_def)
  have acks: "acks ks = 0" using kid'(2) [of 0] kid'(2) [of 1] by (simp add: acks_def)
  then have none: "letters q = []" using mail p by (simp add: started_def)
  have att: "attending ks = [0, 1]" using kid'(1) [of 0] kid'(1) [of 1] by (simp add: attending_def)
  have who: "who q = [fpid g, kpid g 0, kpid g 1]" using mail p by (simp add: attendance_def att)
  let ?q = "q\<lparr>letters := [msg\<lparr>to_pid := kpid g 0\<rparr>, msg\<lparr>to_pid := kpid g 1\<rparr>]\<rparr>"
  have "refused q = {}" using mail by simp
  then have "chat_send (fpid g) msg q = (2, ?q)"
    using ne(2) ne(4) [of 0] ne(4) [of 1] none by (simp add: chat_send_def msg who)
  moreover have "to_kid g p' ks i (letters ?q)" if i: "i < 2" for i
    using i kid'(3) [OF i] ne(8) [of 0 1] msg(1) p' by (auto simp: to_kid_def started_def less_2_cases_iff)
  then have "bcast_queue g p' ks (Some ?q)"
    using mail p p' ne(4) [of 0] ne(4) [of 1] by (simp add: bcast_queue_def bcast_mail_def attendance_def acks got_def started_def)
  ultimately show ?thesis using who none by blast
qed

text \<open>The father waits and receives.\<close>

lemma queue_father_step:
  assumes q: "bcast_queue g p ks (Some q)" and p: "bpc p \<noteq> B_done" "bpc p' \<noteq> B_done" "started p" "started p'"
    and kid: "\<And>j. j < 2 \<Longrightarrow> filter (\<lambda>m. to_pid m = kpid g j) ls' = filter (\<lambda>m. to_pid m = kpid g j) (letters q)"
    and father: "length (filter (\<lambda>m. to_pid m = fpid g) ls') + got p' = length (filter (\<lambda>m. to_pid m = fpid g) (letters q)) + got p"
    and rcv: "bpc p' = B_rcv \<Longrightarrow> filter (\<lambda>m. to_pid m = fpid g) ls' \<noteq> []" and len: "length ls' \<le> length (letters q)"
  shows "bcast_queue g p' ks (Some (q\<lparr>letters := ls'\<rparr>))"
proof -
  note mail = q [unfolded bcast_queue_def option.case bcast_mail_def]
  have "to_kid g p' ks j ls' = to_kid g p ks j (letters q)" if "j < 2" for j
    using p by (intro to_kid_cong kid that) simp_all
  with mail p father rcv len show ?thesis by (simp add: bcast_queue_def bcast_mail_def attendance_def)
qed

text \<open>The father leaves.\<close>

lemma queue_father_leaves:
  assumes g: "valid_troop g" and q: "bcast_queue g p ks (Some q)" and p: "bpc p = B_exit" and all: "acks ks = 2"
  shows "bcast_queue g (p\<lparr>bpc := B_done\<rparr>) ks (if who q = [fpid g] then None else Some (chat_without (fpid g) q))"
proof -
  note ne = valid_troopD [OF g]
  note mail = q [unfolded bcast_queue_def option.case bcast_mail_def]
  have who: "who q = fpid g # map (kpid g) (attending ks)" using mail p by (simp add: attendance_def)
  have st: "started p" "started (p\<lparr>bpc := B_done\<rparr>)" using p by (simp_all add: started_def)
  let ?ls = "filter (\<lambda>m. to_pid m \<noteq> fpid g) (letters q)"
  have "to_kid g (p\<lparr>bpc := B_done\<rparr>) ks j ?ls = to_kid g p ks j (letters q)" if "j < 2" for j
    using st ne(4) [OF that] by (intro to_kid_cong) (auto intro: filter_cong)
  moreover have "length ?ls \<le> length (letters q)" by simp
  ultimately show ?thesis using mail st by (auto simp: bcast_queue_def bcast_mail_def attendance_def who chat_without_def simp del: length_filter_le)
qed


section \<open>Every step keeps the invariant\<close>

lemma put_proc_simps [simp]: "brk (put_proc c x s) = brk s" "crew (put_proc c x s) = (crew s)(c \<mapsto> x)"
    "brshown (put_proc c x s) = brshown s"
  by (simp_all add: put_proc_def)

lemma kids_cong: "crew s' = crew s \<Longrightarrow> kids g s' = kids g s"
  by (simp add: kids_def fun_eq_iff)

lemma kids_put: "valid_troop g \<Longrightarrow> i < 2 \<Longrightarrow> kids g (put_proc (kslot g i) x s) = (kids g s)(i \<mapsto> x)"
  by (auto simp: kids_def fun_eq_iff valid_troopD(7))

lemma kids_father: "valid_troop g \<Longrightarrow> kids g (put_proc (fslot g) x s) = kids g s"
  by (auto simp: kids_def fun_eq_iff valid_troopD(3))

lemma bcast_invD:
  assumes "bcast_inv g out p s"
  shows "post_ok (brk s)" "crew s (fslot g) = Some p" "\<And>c x. crew s c = Some x \<Longrightarrow> c \<in> {fslot g, kslot g 0, kslot g 1}"
    "father_ok p (kids g s)" "\<And>i x. i < 2 \<Longrightarrow> kids g s i = Some x \<Longrightarrow> kid_ok g p x"
    "bcast_queue g p (kids g s) (chats (abs_post (brk s)) (bqa g))" "kid_seats g (brk s) p"
    "bpc p \<noteq> B_done \<Longrightarrow> sits (brk s) (fslot g) (bfd g) (bqa g) (fpid g)"
    "\<And>i. i < 2 \<Longrightarrow> at_pc (kids g s) i (- {B_done}) \<Longrightarrow> sits (brk s) (kslot g i) (bfd g) (bqa g) (kpid g i)"
    "brshown s = out @ verdict p"
proof -
  note inv = assms [unfolded bcast_inv_def]
  from inv show "post_ok (brk s)" "crew s (fslot g) = Some p" "father_ok p (kids g s)"
    "bcast_queue g p (kids g s) (chats (abs_post (brk s)) (bqa g))" "kid_seats g (brk s) p"
    "bpc p \<noteq> B_done \<Longrightarrow> sits (brk s) (fslot g) (bfd g) (bqa g) (fpid g)" "brshown s = out @ verdict p"
    by (elim conjE, simp del: chats_abs)+
  have c: "\<forall>c x. crew s c = Some x \<longrightarrow> c \<in> {fslot g, kslot g 0, kslot g 1}" using inv by (elim conjE)
  have x: "\<forall>i < 2. \<forall>x. kids g s i = Some x \<longrightarrow> kid_ok g p x" using inv by (elim conjE)
  have at: "\<forall>i < 2. at_pc (kids g s) i (- {B_done}) \<longrightarrow> sits (brk s) (kslot g i) (bfd g) (bqa g) (kpid g i)"
    using inv by (elim conjE)
  show "c \<in> {fslot g, kslot g 0, kslot g 1}" if "crew s c = Some x" for c x by (rule c [rule_format, OF that])
  show "kid_ok g p x" if "i < 2" "kids g s i = Some x" for i x by (rule x [rule_format, OF that])
  show "sits (brk s) (kslot g i) (bfd g) (bqa g) (kpid g i)" if "i < 2" "at_pc (kids g s) i (- {B_done})" for i
    by (rule at [rule_format, OF that])
qed

lemma father_ok_cong:
  "father_ok p ks \<Longrightarrow> (\<And>j. (ks' j = None) = (ks j = None)) \<Longrightarrow> (acks ks = 2 \<Longrightarrow> acks ks' = 2) \<Longrightarrow> father_ok p ks'"
  by (simp add: father_ok_def del: not_None_eq One_nat_def)

lemma father_ok_kid:
  assumes "father_ok p ks" "i < 2" "ks i = Some x" "acked x \<le> acked x'"
  shows "father_ok p (ks(i \<mapsto> x'))"
proof -
  have "acks (ks(i \<mapsto> x')) + acked x = acks ks + acked x'" by (rule acks_upd) (rule assms(2,3))+
  with assms(4) acks_le [of "ks(i \<mapsto> x')"] have "acks ks = 2 \<Longrightarrow> acks (ks(i \<mapsto> x')) = 2" by linarith
  moreover have "((ks(i \<mapsto> x')) j = None) = (ks j = None)" for j using assms(3) by simp
  ultimately show ?thesis using father_ok_cong [OF assms(1)] by blast
qed

lemma inv_kid:
  assumes g: "valid_troop g" and inv: "bcast_inv g out p s" and i: "i < 2" "kids g s i = Some x" and ok: "post_ok k'"
    and seats: "seat_pids k' = seat_pids (brk s)"
    and others: "\<And>c pd. c \<noteq> kslot g i \<Longrightarrow> sits k' c (bfd g) (bqa g) pd = sits (brk s) c (bfd g) (bqa g) pd"
    and me: "bpc x' \<noteq> B_done \<Longrightarrow> sits k' (kslot g i) (bfd g) (bqa g) (kpid g i)"
    and x': "kid_ok g p x'" "acked x \<le> acked x'"
    and q: "bcast_queue g p ((kids g s)(i \<mapsto> x')) (chats (abs_post k') (bqa g))"
  shows "bcast_inv g out p (put_proc (kslot g i) x' (s\<lparr>brk := k'\<rparr>))"
proof -
  let ?s = "put_proc (kslot g i) x' (s\<lparr>brk := k'\<rparr>)"
  note I = bcast_invD [OF inv] and ne = valid_troopD [OF g]
  have k: "kids g ?s = (kids g s)(i \<mapsto> x')"
    using kids_put [OF g i(1)] kids_cong [of "s\<lparr>brk := k'\<rparr>" s g] by simp
  show ?thesis unfolding bcast_inv_def
  proof (intro conjI allI impI)
    show "crew ?s (fslot g) = Some p" using I(2) ne(3) [OF i(1)] by simp
    show "c \<in> {fslot g, kslot g 0, kslot g 1}" if "crew ?s c = Some y" for c y
      using that i(1) I(3) [of c y] by (auto simp: less_2_cases_iff split: if_splits)
    show "father_ok p (kids g ?s)" unfolding k by (rule father_ok_kid) (use I(4) i x'(2) in simp_all)
    show "kid_ok g p y" if "j < 2" "kids g ?s j = Some y" for j y
      using that x'(1) I(5) [of j y] unfolding k by (auto split: if_splits)
    show "kid_seats g (brk ?s) p" using I(7) seats by (simp add: kid_seats_def)
    show "sits (brk ?s) (fslot g) (bfd g) (bqa g) (fpid g)" if "bpc p \<noteq> B_done"
      using I(8) [OF that] others [of "fslot g"] ne(3) [OF i(1)] by simp
    show "sits (brk ?s) (kslot g j) (bfd g) (bqa g) (kpid g j)" if j: "j < 2" "at_pc (kids g ?s) j (- {B_done})" for j
    proof (cases "j = i")
      case True
      with j(2) me show ?thesis unfolding k by (simp add: at_pc_upd)
    next
      case False
      with j have "at_pc (kids g s) j (- {B_done})" unfolding k by (simp add: at_pc_upd)
      with I(9) [OF j(1)] others [of "kslot g j"] ne(7) [OF j(1) i(1)] False show ?thesis by simp
    qed
  qed (use ok q I(10) k in simp_all)
qed

lemma inv_father:
  assumes g: "valid_troop g" and inv: "bcast_inv g out p s" and ok: "post_ok k'"
    and seats: "kid_seats g k' p'"
    and others: "\<And>c pd. c \<noteq> fslot g \<Longrightarrow> sits k' c (bfd g) (bqa g) pd = sits (brk s) c (bfd g) (bqa g) pd"
    and me: "bpc p' \<noteq> B_done \<Longrightarrow> sits k' (fslot g) (bfd g) (bqa g) (fpid g)"
    and p': "father_ok p' (kids g s)" "\<And>i x. i < 2 \<Longrightarrow> kids g s i = Some x \<Longrightarrow> kid_ok g p' x"
    and q: "bcast_queue g p' (kids g s) (chats (abs_post k') (bqa g))" and shown: "sh = out @ verdict p'"
  shows "bcast_inv g out p' (put_proc (fslot g) p' (s\<lparr>brk := k', brshown := sh\<rparr>))"
proof -
  let ?s = "put_proc (fslot g) p' (s\<lparr>brk := k', brshown := sh\<rparr>)"
  note I = bcast_invD [OF inv] and ne = valid_troopD [OF g]
  have k: "kids g ?s = kids g s" using kids_father [OF g] kids_cong [of "s\<lparr>brk := k', brshown := sh\<rparr>" s g] by simp
  show ?thesis unfolding bcast_inv_def
  proof (intro conjI allI impI)
    show "c \<in> {fslot g, kslot g 0, kslot g 1}" if "crew ?s c = Some y" for c y
      using that I(3) [of c y] by (auto split: if_splits)
    show "kid_ok g p' y" if "j < 2" "kids g ?s j = Some y" for j y using that p'(2) [of j y] unfolding k by simp
    show "sits (brk ?s) (kslot g j) (bfd g) (bqa g) (kpid g j)" if "j < 2" "at_pc (kids g ?s) j (- {B_done})" for j
      using that I(9) [of j] others [of "kslot g j"] ne(3) [of j] unfolding k by simp
  qed (use ok q seats me shown p'(1) k in simp_all)
qed

lemma todo_kid:
  assumes "valid_troop g" "i < 2" "kids g s i = Some x"
  shows "bcast_todo g (put_proc (kslot g i) x' (s\<lparr>brk := k'\<rparr>)) + kid_todo (bpc x) = bcast_todo g s + kid_todo (bpc x')"
proof -
  have k: "kids g (put_proc (kslot g i) x' (s\<lparr>brk := k'\<rparr>)) = (kids g s)(i \<mapsto> x')"
    using kids_put [OF assms(1,2)] kids_cong [of "s\<lparr>brk := k'\<rparr>" s g] by simp
  have "i = 0 \<or> i = 1" using assms(2) by auto
  then show ?thesis unfolding bcast_todo_def k using assms(3) valid_troopD(3) [OF assms(1,2)]
    by (auto simp: numeral_2_eq_2)
qed

lemma todo_father:
  assumes "valid_troop g" "crew s (fslot g) = Some p"
  shows "bcast_todo g (put_proc (fslot g) p' (s\<lparr>brk := k', brshown := sh\<rparr>)) + father_todo (bpc p) (ch p) =
    bcast_todo g s + father_todo (bpc p') (ch p')"
proof -
  have "kids g (put_proc (fslot g) p' (s\<lparr>brk := k', brshown := sh\<rparr>)) = kids g s"
    using kids_father [OF assms(1)] kids_cong [of "s\<lparr>brk := k', brshown := sh\<rparr>" s g] by simp
  then show ?thesis by (simp add: bcast_todo_def assms(2))
qed


text \<open>A child has the queue open as long as it is not done, and the queue is there.\<close>

lemma queue_there:
  assumes "bcast_queue g p ks x" "attendance g p ks \<noteq> []"
  obtains q where "x = Some q" "who q = attendance g p ks" "refused q = {}" "bcast_mail g p ks (letters q)"
  using assms by (auto simp: bcast_queue_def split: option.splits)

lemma length_attendance: "length (attendance g p ks) \<le> 3"
proof -
  have "length (attending ks) \<le> length [0::nat, 1]" unfolding attending_def by (rule length_filter_le)
  then show ?thesis by (simp add: attendance_def)
qed

lemma kid_attends: "i < 2 \<Longrightarrow> at_pc ks i (- {B_done}) \<Longrightarrow> attendance g p ks \<noteq> []"
  by (auto simp: attendance_def attending_def less_2_cases_iff)

lemma child_step_ok:
  assumes g: "valid_troop g" and inv: "bcast_inv g out p s" and i: "i < 2" "kids g s i = Some x" and run: "bpc x \<noteq> B_done"
  shows "\<exists>s'. bcast_proc_step e (fd64 (bfd g)) (kslot g i) x s = Inr s' \<and> bcast_inv g out p s' \<and>
    (bcast_todo g s' < bcast_todo g s \<or> \<not> started p)"
proof -
  note I = bcast_invD [OF inv] and ne = valid_troopD [OF g]
  have here: "at_pc (kids g s) i (- {B_done})" using i run by (simp add: at_pc_def)
  note ok = I(1) and me = I(9) [OF i(1) here] and x = I(5) [OF i]
  obtain q where q: "chats (abs_post (brk s)) (bqa g) = Some q" "who q = attendance g p (kids g s)" "refused q = {}"
    "bcast_mail g p (kids g s) (letters q)"
    using queue_there [OF I(6) kid_attends [OF i(1) here]] by blast
  note Q = I(6) [unfolded q(1)]
  have kid: "to_kid g p (kids g s) i (letters q)" using q(4) i(1) by (simp add: bcast_mail_def)
  have finish: "\<exists>s'. bcast_proc_step e (fd64 (bfd g)) (kslot g i) x s = Inr s' \<and> bcast_inv g out p s' \<and>
      (bcast_todo g s' < bcast_todo g s \<or> \<not> started p)"
    if step: "bcast_proc_step e (fd64 (bfd g)) (kslot g i) x s = Inr (put_proc (kslot g i) x' (s\<lparr>brk := k'\<rparr>))"
      and k': "post_ok k'" "abs_post k' = put_chat (bqa g) (Some (q\<lparr>letters := ls\<rparr>)) (abs_post (brk s))"
      and x': "kid_ok g p x'" "acked x \<le> acked x'" "bpc x' \<noteq> B_done"
      and mine: "to_kid g p ((kids g s)(i \<mapsto> x')) i ls"
      and others: "\<And>j. j < 2 \<Longrightarrow> j \<noteq> i \<Longrightarrow> filter (\<lambda>m. to_pid m = kpid g j) ls = filter (\<lambda>m. to_pid m = kpid g j) (letters q)"
      and father: "length (filter (\<lambda>m. to_pid m = fpid g) ls) + acked x = length (filter (\<lambda>m. to_pid m = fpid g) (letters q)) + acked x'"
      and len: "length ls + acked x \<le> length (letters q) + acked x'"
      and less: "kid_todo (bpc x') < kid_todo (bpc x) \<or> \<not> started p" for x' k' ls
  proof -
    have "bcast_queue g p ((kids g s)(i \<mapsto> x')) (Some (q\<lparr>letters := ls\<rparr>))"
      by (rule queue_kid_step [OF Q i(1) i(2) run x'(3) x'(2) mine others father len])
    then have "bcast_inv g out p (put_proc (kslot g i) x' (s\<lparr>brk := k'\<rparr>))"
      using sits_put [OF k'(2)] me by (intro inv_kid [OF g inv i k'(1) seat_pids_put [OF k'(2)] _ _ x'(1,2)])
        (simp_all add: chats_put [OF k'(2)] del: chats_abs)
    with step todo_kid [OF g i, of x' k'] less show ?thesis by fastforce
  qed
  show ?thesis
  proof (cases "bpc x")
    case B_kid_poll
    have n: "length (filter (\<lambda>m. to_pid m = kpid g i) (letters q)) = (if started p then 1 else 0)"
      using kid i B_kid_poll by (auto simp: to_kid_def at_pc_def)
    let ?x = "x\<lparr>bpc := if started p then B_kid_rcv else B_kid_poll\<rparr>"
    show ?thesis
    proof (rule finish [of ?x "brk s" "letters q"])
      show "bcast_proc_step e (fd64 (bfd g)) (kslot g i) x s = Inr (put_proc (kslot g i) ?x (s\<lparr>brk := brk s\<rparr>))"
        using client_count [OF ok me q(1)] n by (simp add: bcast_proc_step_def child_stuff_def B_kid_poll)
      show "abs_post (brk s) = put_chat (bqa g) (Some (q\<lparr>letters := letters q\<rparr>)) (abs_post (brk s))"
        using q(1) by (simp add: put_chat_def fun_upd_idem del: chats_abs)
      show "to_kid g p ((kids g s)(i \<mapsto> ?x)) i (letters q)" using kid i B_kid_poll by (auto simp: to_kid_def at_pc_def)
    qed (use x B_kid_poll ok in \<open>simp_all add: kid_ok_def acked_def\<close>)
  next
    case B_kid_rcv
    then have st: "started p" using x by (auto simp: kid_ok_def)
    then obtain m where m: "filter (\<lambda>m. to_pid m = kpid g i) (letters q) = [m]" "from_pid m = fpid g"
      using kid i B_kid_rcv by (auto simp: to_kid_def at_pc_def)
    then have "m \<in> set (filter (\<lambda>m. to_pid m = kpid g i) (letters q))" by simp
    then have to: "to_pid m = kpid g i" "m \<in> set (letters q)" by simp_all
    let ?ls = "remove1 m (letters q)"
    have "chat_rcv (kpid g i) q = (1, Some m, q\<lparr>letters := ?ls\<rparr>)" using m(1) by (simp add: chat_rcv_def find_filter)
    from client_rcv [OF ok me q(1) this] obtain k' where k': "call_msg_queue_rcv (brk s) (kslot g i) (fd64 (bfd g)) True = Inr (1, Some m, k')"
      "post_ok k'" "abs_post k' = put_chat (bqa g) (Some (q\<lparr>letters := ?ls\<rparr>)) (abs_post (brk s))" by blast
    have other: "filter (\<lambda>m. to_pid m = a) ?ls = filter (\<lambda>m. to_pid m = a) (letters q)" if "a \<noteq> kpid g i" for a
      using that to by (simp add: filter_remove1 remove1_idem)
    let ?x = "x\<lparr>bpc := B_kid_send, dmsg := m\<rparr>"
    show ?thesis
    proof (rule finish [OF _ k'(2,3), of ?x])
      show "bcast_proc_step e (fd64 (bfd g)) (kslot g i) x s = Inr (put_proc (kslot g i) ?x (s\<lparr>brk := k'\<rparr>))"
        using k'(1) by (simp add: bcast_proc_step_def child_stuff_def B_kid_rcv)
      show "to_kid g p ((kids g s)(i \<mapsto> ?x)) i ?ls" using m(1) by (simp add: to_kid_def at_pc_def filter_remove1)
      show "filter (\<lambda>m. to_pid m = kpid g j) ?ls = filter (\<lambda>m. to_pid m = kpid g j) (letters q)" if "j < 2" "j \<noteq> i" for j
        using other that ne(8) i(1) by simp
      show "length (filter (\<lambda>m. to_pid m = fpid g) ?ls) + acked x = length (filter (\<lambda>m. to_pid m = fpid g) (letters q)) + acked ?x"
        using other [of "fpid g"] ne(4) [OF i(1)] B_kid_rcv by (simp add: acked_def)
      show "length ?ls + acked x \<le> length (letters q) + acked ?x" using B_kid_rcv to(2) by (simp add: acked_def length_remove1)
    qed (use x B_kid_rcv m st in \<open>simp_all add: kid_ok_def acked_def\<close>)
  next
    case B_kid_send
    then have st: "started p" and sender: "from_pid (dmsg x) = fpid g" and chx: "ch x < 2" using x by (auto simp: kid_ok_def)
    let ?m = "\<lparr>from_pid = kpid g i, to_pid = fpid g, msg_txt = put_text ''ACK'' (msg_txt (dmsg x))\<rparr>"
    have "\<not> at_pc (kids g s) i {B_exit, B_done}" using i B_kid_send by (simp add: at_pc_def)
    then have early: "bpc p \<notin> {B_exit, B_done}" using I(4) acks_2 [of "kids g s" i] i(1) by (auto simp: father_ok_def)
    then have "fpid g \<in> set (who q)" using q(2) by (simp add: attendance_def)
    then have send: "chat_send (kpid g i) ?m q = (1, q\<lparr>letters := letters q @ [?m]\<rparr>)"
      using ne(2) ne(4) [OF i(1)] q(3) by (simp add: chat_send_def)
    have "length (letters q) < MAX_MESSAGES" using q(4) acks_le [of "kids g s"] by (simp add: bcast_mail_def k_const split: if_splits)
    moreover have "length (who q) < MAX_MEMBERS" using length_attendance [of g p "kids g s"] q(2) by (simp add: k_const)
    ultimately have fits: "letter_fits (kpid g i) ?m q" using ne(2) q(3) by (simp add: letter_fits_def)
    obtain ctx where ctx: "ctx_at (brk s) (kslot g i) = Inr ctx" "pid ctx = kpid g i" using me by (rule sitsD)
    from client_send [OF ok me q(1) fits send] obtain k' where k': "call_msg_queue_send (brk s) (kslot g i) (fd64 (bfd g)) (Some ?m) = Inr (1, k')"
      "post_ok k'" "abs_post k' = put_chat (bqa g) (Some (q\<lparr>letters := letters q @ [?m]\<rparr>)) (abs_post (brk s))" by blast
    let ?x = "x\<lparr>dmsg := ?m, bpc := B_exit\<rparr>"
    show ?thesis
    proof (rule finish [OF _ k'(2,3), of ?x])
      show "bcast_proc_step e (fd64 (bfd g)) (kslot g i) x s = Inr (put_proc (kslot g i) ?x (s\<lparr>brk := k'\<rparr>))"
        using k'(1) ctx sender chx by (simp add: bcast_proc_step_def child_stuff_def B_kid_send Let_def after_loop_def)
      show "to_kid g p ((kids g s)(i \<mapsto> ?x)) i (letters q @ [?m])"
        using kid i B_kid_send ne(4) [OF i(1)] by (simp add: to_kid_def at_pc_def)
      show "filter (\<lambda>m. to_pid m = kpid g j) (letters q @ [?m]) = filter (\<lambda>m. to_pid m = kpid g j) (letters q)" if "j < 2" "j \<noteq> i" for j
        using ne(4) [OF that(1)] by simp
    qed (use x B_kid_send chx st in \<open>simp_all add: kid_ok_def acked_def\<close>)
  next
    case B_exit
    then have st: "started p" using x by (auto simp: kid_ok_def)
    let ?x = "x\<lparr>bpc := B_done\<rparr>"
    from client_exit [OF ok me q(1)] obtain k' where k': "do_msg_queue_cleanup (brk s) (kslot g i) = Inr k'" "post_ok k'"
      "abs_post k' = put_seat (kslot g i) (bfd g) None
        (put_chat (bqa g) (if who q = [kpid g i] then None else Some (chat_without (kpid g i) q)) (abs_post (brk s)))"
      by blast
    have "bcast_queue g p ((kids g s)(i \<mapsto> ?x)) (chats (abs_post k') (bqa g))"
      unfolding chats_left [OF k'(3)] by (rule queue_kid_leaves [OF g Q i B_exit])
    then have "bcast_inv g out p (put_proc (kslot g i) ?x (s\<lparr>brk := k'\<rparr>))"
      using sits_left [OF k'(3)] x B_exit
      by (intro inv_kid [OF g inv i k'(2) seat_pids_left [OF k'(3)]]) (simp_all add: kid_ok_def acked_def)
    moreover have "bcast_todo g (put_proc (kslot g i) ?x (s\<lparr>brk := k'\<rparr>)) < bcast_todo g s"
      using todo_kid [OF g i, of ?x k'] B_exit by simp
    ultimately show ?thesis using k'(1) by (simp add: bcast_proc_step_def B_exit)
  qed (use x run in \<open>simp_all add: kid_ok_def\<close>)
qed


text \<open>The father's steps; first the fork.\<close>

lemma kid_ok_cong: "started p' = started p \<Longrightarrow> kid_ok g p' x = kid_ok g p x"
  by (simp add: kid_ok_def)

lemma fork_step_ok:
  assumes g: "valid_troop g" and e: "bcast_env g e" and inv: "bcast_inv g out p s" and p: "bpc p = B_fork"
  shows "\<exists>s'. bcast_proc_step e (fd64 (bfd g)) (fslot g) p s = Inr s' \<and> bcast_inv g out (next_turn p) s' \<and>
    bcast_todo g s' < bcast_todo g s"
proof -
  note I = bcast_invD [OF inv] and ne = valid_troopD [OF g]
  let ?f = "ch p" and ?x = "p\<lparr>bpc := B_kid_poll\<rparr>"
  have f: "?f < 2" and ks: "\<forall>i < 2. kids g s i \<noteq> None \<longleftrightarrow> i < ?f"
    using I(4) p by (simp_all add: father_ok_def del: not_None_eq)
  have st: "\<not> started p" "\<not> started (next_turn p)" using p f by (auto simp: started_def next_turn_simps)
  have kid: "bpc x = B_kid_poll" if "i < 2" "kids g s i = Some x" for i x using I(5) [OF that] st by (simp add: kid_ok_def)
  have me: "sits (brk s) (fslot g) (bfd g) (bqa g) (fpid g)" using I(8) p by simp
  have "attendance g p (kids g s) \<noteq> []" using p by (simp add: attendance_def)
  then obtain q where q: "chats (abs_post (brk s)) (bqa g) = Some q" "who q = attendance g p (kids g s)"
    using queue_there [OF I(6)] by blast
  have kn: "kids g s ?f = None" using ks [rule_format, OF f] by simp
  have seats: "if i < ?f then seat_pids (brk s) (kslot g i) \<noteq> None
      else seat_pids (brk s) (kslot g i) = None \<and> (\<forall>c. seat_pids (brk s) c \<noteq> Some (kpid g i))" if "i < 2" for i
    using I(7) p that unfolding kid_seats_def by blast
  have new: "get_new_ctx e (brk s) = (kslot g ?f, kpid g ?f)"
  proof -
    have "get_new_ctx e (brk s) = (if seat_pids (brk s) (kslot g 0) = None then (kslot g 0, kpid g 0) else (kslot g 1, kpid g 1))"
      using e unfolding bcast_env_def by blast
    moreover have "?f = 0 \<or> ?f = 1" using f by linarith
    ultimately show ?thesis using seats [of 0] by (elim disjE) simp_all
  qed
  have free: "seat_pids (brk s) (kslot g ?f) = None" "\<And>c. seat_pids (brk s) c \<noteq> Some (kpid g ?f)" using seats [OF f] by auto
  have "kpid g ?f \<notin> kpid g ` set (attending (kids g s))"
  proof
    assume "kpid g ?f \<in> kpid g ` set (attending (kids g s))"
    then obtain j where j: "kpid g ?f = kpid g j" "j \<in> set (attending (kids g s))" by blast
    with attendingD [OF j(2)] kn ne(8) [OF f, of j] show False by auto
  qed
  then have fresh: "kpid g ?f \<notin> set (who q)" using ne(4) [OF f] q(2) p by (simp add: attendance_def)
  have "length (who q) < MAX_MEMBERS" using length_attendance [of g p "kids g s"] q(2) by (simp add: k_const)
  from client_fork [OF I(1) me q(1) this fresh ne(5) [OF f] new free]
  obtain k' where k': "do_fork e (brk s) (fslot g) = Inr (uint (kpid g ?f), k')" "post_ok k'"
    "chats (abs_post k') (bqa g) = Some (q\<lparr>who := who q @ [kpid g ?f]\<rparr>)" "sits k' (kslot g ?f) (bfd g) (bqa g) (kpid g ?f)"
    and others: "\<And>c fd qa pd. c \<noteq> kslot g ?f \<Longrightarrow> sits k' c fd qa pd = sits (brk s) c fd qa pd"
    and pids: "seat_pids k' = (seat_pids (brk s))(kslot g ?f \<mapsto> kpid g ?f)"
    using e f unfolding bcast_env_def by blast
  let ?s = "put_proc (fslot g) (next_turn p) (put_proc (kslot g ?f) ?x (s\<lparr>brk := k'\<rparr>))"
  have step: "bcast_proc_step e (fd64 (bfd g)) (fslot g) p s = Inr ?s"
    using k'(1) ne(6) [OF f] by (simp add: bcast_proc_step_def p new Let_def)
  have k: "kids g ?s = (kids g s)(?f \<mapsto> ?x)"
    using kids_put [OF g f] kids_cong [of "s\<lparr>brk := k'\<rparr>" s g] by (simp add: kids_father [OF g])
  have "bcast_inv g out (next_turn p) ?s" unfolding bcast_inv_def
  proof (intro conjI allI impI)
    show "c \<in> {fslot g, kslot g 0, kslot g 1}" if "crew ?s c = Some y" for c y
      using that f I(3) [of c y] by (auto simp: less_2_cases_iff split: if_splits)
    show "father_ok (next_turn p) (kids g ?s)"
      unfolding k using f ks [rule_format, of 0] ks [rule_format, of 1]
      by (auto simp: father_ok_def next_turn_simps less_2_cases_iff)
    show "kid_ok g (next_turn p) y" if "j < 2" "kids g ?s j = Some y" for j y
      using that I(5) [of j y] st f unfolding k
      by (auto simp: kid_ok_cong [of "next_turn p" p] split: if_splits) (simp add: kid_ok_def)
    show "bcast_queue g (next_turn p) (kids g ?s) (chats (abs_post (brk ?s)) (bqa g))"
    proof -
      have "bcast_queue g (next_turn p) ((kids g s)(?f \<mapsto> ?x)) (Some (q\<lparr>who := who q @ [kpid g ?f]\<rparr>))"
        by (rule queue_fork [OF I(6) [unfolded q(1)] p f ks]) (use kid in simp_all)
      then show ?thesis unfolding k using k'(3) by (simp del: chats_abs)
    qed
    show "kid_seats g (brk ?s) (next_turn p)"
      using f seats [of 0] seats [of 1] ne(7) [of 0 1] ne(8) [of 0 1]
      by (auto simp: kid_seats_def next_turn_simps pids less_2_cases_iff split: if_splits)
    show "sits (brk ?s) (fslot g) (bfd g) (bqa g) (fpid g)"
      using me others [of "fslot g"] ne(3) [OF f] by simp
    show "sits (brk ?s) (kslot g j) (bfd g) (bqa g) (kpid g j)" if j: "j < 2" "at_pc (kids g ?s) j (- {B_done})" for j
    proof (cases "j = ?f")
      case True
      with k'(4) show ?thesis by simp
    next
      case False
      with j have "at_pc (kids g s) j (- {B_done})" unfolding k by (simp add: at_pc_upd)
      with I(9) [OF j(1)] others [of "kslot g j"] ne(7) [OF j(1) f] False show ?thesis by simp
    qed
    show "brshown ?s = out @ verdict (next_turn p)" using I(10) f p by (simp add: verdict_def next_turn_simps)
  qed (use k'(2) in simp_all)
  moreover have "bcast_todo g ?s < bcast_todo g s"
  proof -
    have "(case ((kids g s)(?f \<mapsto> ?x)) j of None \<Rightarrow> 4 | Some x \<Rightarrow> kid_todo (bpc x)) =
        (case kids g s j of None \<Rightarrow> 4 | Some x \<Rightarrow> kid_todo (bpc x))" for j using kn by simp
    moreover have "father_todo (bpc (next_turn p)) (ch (next_turn p)) < father_todo (bpc p) (ch p)"
      using f p by (simp add: next_turn_simps) arith
    moreover have "crew ?s (fslot g) = Some (next_turn p)" by simp
    ultimately show ?thesis by (simp only: bcast_todo_def k I(2) option.case)
  qed
  ultimately show ?thesis using step by blast
qed


lemma father_step_ok:
  assumes g: "valid_troop g" and e: "bcast_env g e" and inv: "bcast_inv g out p s" and run: "bpc p \<noteq> B_done"
  shows "\<exists>s' p'. bcast_proc_step e (fd64 (bfd g)) (fslot g) p s = Inr s' \<and> bcast_inv g out p' s' \<and>
    (bcast_todo g s' < bcast_todo g s \<or> bpc p = B_poll \<and> acks (kids g s) = got p)"
proof -
  note I = bcast_invD [OF inv] and ne = valid_troopD [OF g]
  have me: "sits (brk s) (fslot g) (bfd g) (bqa g) (fpid g)" by (rule I(8) [OF run])
  have "attendance g p (kids g s) \<noteq> []" using run by (simp add: attendance_def)
  then obtain q where q: "chats (abs_post (brk s)) (bqa g) = Some q" "who q = attendance g p (kids g s)" "refused q = {}"
    "bcast_mail g p (kids g s) (letters q)"
    using queue_there [OF I(6)] by blast
  note ok = I(1) and Q = I(6) [unfolded q(1)]
  have count: "length (filter (\<lambda>m. to_pid m = fpid g) (letters q)) + got p = acks (kids g s)"
    using q(4) run by (simp add: bcast_mail_def)
  have finish: "\<exists>s' p'. bcast_proc_step e (fd64 (bfd g)) (fslot g) p s = Inr s' \<and> bcast_inv g out p' s' \<and>
      (bcast_todo g s' < bcast_todo g s \<or> bpc p = B_poll \<and> acks (kids g s) = got p)"
    if step: "bcast_proc_step e (fd64 (bfd g)) (fslot g) p s = Inr (put_proc (fslot g) p' (s\<lparr>brk := k', brshown := sh\<rparr>))"
      and k': "post_ok k'" "abs_post k' = put_chat (bqa g) (Some q') (abs_post (brk s))"
      and p': "father_ok p' (kids g s)" "bpc p' \<noteq> B_fork" "\<And>i x. i < 2 \<Longrightarrow> kids g s i = Some x \<Longrightarrow> kid_ok g p' x"
      and q': "bcast_queue g p' (kids g s) (Some q')" and sh: "sh = out @ verdict p'"
      and less: "father_todo (bpc p') (ch p') < father_todo (bpc p) (ch p) \<or> bpc p = B_poll \<and> acks (kids g s) = got p"
    for p' k' q' sh
  proof -
    have "bcast_inv g out p' (put_proc (fslot g) p' (s\<lparr>brk := k', brshown := sh\<rparr>))"
    proof (rule inv_father [OF g inv k'(1) _ _ _ p'(1)])
      show "kid_seats g k' p'" using p'(2) by (simp add: kid_seats_def)
    qed (use sits_put [OF k'(2)] chats_put [OF k'(2)] me p'(3) q' sh in \<open>simp_all del: chats_abs\<close>)
    with step todo_father [OF g I(2), where p' = p' and k' = k' and sh = sh] less show ?thesis by fastforce
  qed
  have shout: "vuprintf (''Broadcast OK'' @ newline) [] = Inr (''Broadcast OK'' @ newline)" by (rule plain_text) simp
  show ?thesis
  proof (cases "bpc p")
    case B_fork
    from fork_step_ok [OF g e inv this] show ?thesis by blast
  next
    case B_send
    have st: "\<not> started p" using B_send by (simp add: started_def)
    have two: "kids g s 0 \<noteq> None" "kids g s 1 \<noteq> None" using I(4) B_send unfolding father_ok_def by simp_all
    have kid: "at_pc (kids g s) i {B_kid_poll}" if i: "i < 2" for i
    proof -
      have "kids g s i \<noteq> None" using two i by (auto simp: less_2_cases_iff)
      then obtain x where "kids g s i = Some x" by blast
      with I(5) [OF i this] st show ?thesis by (simp add: kid_ok_def at_pc_def)
    qed
    let ?m = "\<lparr>from_pid = fpid g, to_pid = BROADCAST_PID, msg_txt = put_text ''MSG'' (msg_txt (mmsg p))\<rparr>"
    let ?p = "p\<lparr>mmsg := ?m, cnt := 0, ch := 0, bpc := B_poll\<rparr>"
    have "who q = [fpid g, kpid g 0, kpid g 1] \<and> letters q = [] \<and>
        (\<exists>q'. chat_send (fpid g) ?m q = (2, q') \<and> bcast_queue g ?p (kids g s) (Some q'))"
      by (rule queue_broadcast [OF g Q B_send kid]) simp_all
    then obtain q' where who: "who q = [fpid g, kpid g 0, kpid g 1]" "letters q = []"
      and send: "chat_send (fpid g) ?m q = (2, q')" and q': "bcast_queue g ?p (kids g s) (Some q')" by blast
    have "letter_fits (fpid g) ?m q" by (simp add: letter_fits_def who k_const)
    from client_send [OF ok me q(1) this send] obtain k' where k': "call_msg_queue_send (brk s) (fslot g) (fd64 (bfd g)) (Some ?m) = Inr (2, k')"
      "post_ok k'" "abs_post k' = put_chat (bqa g) (Some q') (abs_post (brk s))" by blast
    obtain ctx where ctx: "ctx_at (brk s) (fslot g) = Inr ctx" "pid ctx = fpid g" using me by (rule sitsD)
    show ?thesis
    proof (rule finish [OF _ k'(2,3), where p' = ?p and sh = "brshown s"])
      show "bcast_proc_step e (fd64 (bfd g)) (fslot g) p s = Inr (put_proc (fslot g) ?p (s\<lparr>brk := k', brshown := brshown s\<rparr>))"
        using k'(1) ctx by (simp add: bcast_proc_step_def B_send Let_def)
      show "father_ok ?p (kids g s)" using two unfolding father_ok_def by simp
      show "kid_ok g ?p x" if "i < 2" "kids g s i = Some x" for i x
        using I(5) [OF that] st by (simp add: kid_ok_def started_def)
      show "bcast_queue g ?p (kids g s) (Some q')" by (rule q')
    qed (use I(10) B_send in \<open>simp_all add: verdict_def\<close>)
  next
    case B_poll
    have two: "kids g s 0 \<noteq> None" "kids g s 1 \<noteq> None" and ch: "ch p < 2" "cnt p = ch p"
      using I(4) B_poll unfolding father_ok_def by simp_all
    let ?n = "length (filter (\<lambda>m. to_pid m = fpid g) (letters q))"
    let ?p = "p\<lparr>bpc := if ?n = 0 then B_poll else B_rcv\<rparr>"
    have st: "started p" "started ?p" using B_poll by (simp_all add: started_def)
    have q': "bcast_queue g ?p (kids g s) (Some (q\<lparr>letters := letters q\<rparr>))"
      by (rule queue_father_step [OF Q]) (use B_poll st in \<open>auto simp: got_def split: if_splits\<close>)
    show ?thesis
    proof (rule finish [where p' = ?p and k' = "brk s" and sh = "brshown s"])
      show "bcast_proc_step e (fd64 (bfd g)) (fslot g) p s = Inr (put_proc (fslot g) ?p (s\<lparr>brk := brk s, brshown := brshown s\<rparr>))"
        using client_count [OF ok me q(1)] by (simp add: bcast_proc_step_def B_poll)
      show "abs_post (brk s) = put_chat (bqa g) (Some (q\<lparr>letters := letters q\<rparr>)) (abs_post (brk s))"
        using q(1) by (simp add: put_chat_def fun_upd_idem del: chats_abs)
      show "father_ok ?p (kids g s)" using two ch unfolding father_ok_def by simp
      show "kid_ok g ?p x" if "i < 2" "kids g s i = Some x" for i x
        using I(5) [OF that] st kid_ok_cong [of ?p p] by simp
      show "bcast_queue g ?p (kids g s) (Some (q\<lparr>letters := letters q\<rparr>))" by (rule q')
      show "father_todo (bpc ?p) (ch ?p) < father_todo (bpc p) (ch p) \<or> bpc p = B_poll \<and> acks (kids g s) = got p"
        using B_poll count ch by auto
    qed (use I(10) B_poll ok in \<open>simp_all add: verdict_def\<close>)
  next
    case B_rcv
    have two: "kids g s 0 \<noteq> None" "kids g s 1 \<noteq> None" and ch: "ch p < 2" "cnt p = ch p"
      using I(4) B_rcv unfolding father_ok_def by simp_all
    have "filter (\<lambda>m. to_pid m = fpid g) (letters q) \<noteq> []" using q(4) B_rcv by (simp add: bcast_mail_def)
    then obtain m ms where m: "filter (\<lambda>m. to_pid m = fpid g) (letters q) = m # ms"
      by (cases "filter (\<lambda>m. to_pid m = fpid g) (letters q)") auto
    then have "m \<in> set (filter (\<lambda>m. to_pid m = fpid g) (letters q))" by simp
    then have to: "to_pid m = fpid g" "m \<in> set (letters q)" by simp_all
    let ?ls = "remove1 m (letters q)" and ?last = "\<not> ch p + 1 < 2"
    let ?p = "p\<lparr>mmsg := m, cnt := cnt p + 1, ch := ch p + 1, bpc := if ?last then B_exit else B_poll\<rparr>"
    let ?sh = "brshown s @ (if ?last then ''Broadcast OK'' @ newline else [])"
    have "chat_rcv (fpid g) q = (1, Some m, q\<lparr>letters := ?ls\<rparr>)" using m by (simp add: chat_rcv_def find_filter)
    from client_rcv [OF ok me q(1) this] obtain k' where k': "call_msg_queue_rcv (brk s) (fslot g) (fd64 (bfd g)) True = Inr (1, Some m, k')"
      "post_ok k'" "abs_post k' = put_chat (bqa g) (Some (q\<lparr>letters := ?ls\<rparr>)) (abs_post (brk s))" by blast
    have st: "started p" "started ?p" and gt: "got ?p = got p + 1" using B_rcv ch by (auto simp: started_def got_def)
    have mine: "filter (\<lambda>m. to_pid m = fpid g) ?ls = ms" using m by (simp add: filter_remove1)
    have "bcast_queue g ?p (kids g s) (Some (q\<lparr>letters := ?ls\<rparr>))"
    proof (rule queue_father_step [OF Q _ _ st])
      show "filter (\<lambda>m. to_pid m = kpid g j) ?ls = filter (\<lambda>m. to_pid m = kpid g j) (letters q)" if "j < 2" for j
        using to ne(4) [OF that] by (simp add: filter_remove1 remove1_idem)
      show "length (filter (\<lambda>m. to_pid m = fpid g) ?ls) + got ?p = length (filter (\<lambda>m. to_pid m = fpid g) (letters q)) + got p"
        unfolding mine m gt by simp
    qed (use B_rcv in \<open>auto simp: length_remove1 split: if_splits\<close>)
    note q' = this
    have all: "?last \<longrightarrow> acks (kids g s) = 2"
    proof
      assume ?last
      then have "acks (kids g s) = length ms + 2" using count m gt by (simp add: got_def)
      with acks_le [of "kids g s"] show "acks (kids g s) = 2" by simp
    qed
    show ?thesis
    proof (rule finish [OF _ k'(2,3), where p' = ?p and sh = ?sh])
      show "bcast_proc_step e (fd64 (bfd g)) (fslot g) p s = Inr (put_proc (fslot g) ?p (s\<lparr>brk := k', brshown := ?sh\<rparr>))"
        using k'(1) ch by (auto simp: bcast_proc_step_def B_rcv Let_def bcast_shout_def shout simp del: vuprintf.simps append.simps)
      show "father_ok ?p (kids g s)" using two ch all unfolding father_ok_def by simp
      show "kid_ok g ?p x" if "i < 2" "kids g s i = Some x" for i x
        using I(5) [OF that] st kid_ok_cong [of ?p p] by simp
      show "bcast_queue g ?p (kids g s) (Some (q\<lparr>letters := ?ls\<rparr>))" by (rule q')
      show "father_todo (bpc ?p) (ch ?p) < father_todo (bpc p) (ch p) \<or> bpc p = B_poll \<and> acks (kids g s) = got p"
        using B_rcv ch by auto
    qed (use I(10) B_rcv in \<open>simp_all add: verdict_def\<close>)
  next
    case B_exit
    have all: "acks (kids g s) = 2" and two: "kids g s 0 \<noteq> None" "kids g s 1 \<noteq> None"
      using I(4) B_exit unfolding father_ok_def by simp_all
    let ?p = "p\<lparr>bpc := B_done\<rparr>"
    from client_exit [OF ok me q(1)] obtain k' where k': "do_msg_queue_cleanup (brk s) (fslot g) = Inr k'" "post_ok k'"
      "abs_post k' = put_seat (fslot g) (bfd g) None
        (put_chat (bqa g) (if who q = [fpid g] then None else Some (chat_without (fpid g) q)) (abs_post (brk s)))"
      by blast
    have "bcast_queue g ?p (kids g s) (chats (abs_post k') (bqa g))"
      unfolding chats_left [OF k'(3)] by (rule queue_father_leaves [OF g Q B_exit all])
    note q' = this
    have "bcast_inv g out ?p (put_proc (fslot g) ?p (s\<lparr>brk := k', brshown := brshown s\<rparr>))"
    proof (rule inv_father [OF g inv k'(2)])
      show "father_ok ?p (kids g s)" using two all unfolding father_ok_def by simp
      show "kid_ok g ?p x" if "i < 2" "kids g s i = Some x" for i x
        using I(5) [OF that] B_exit kid_ok_cong [of ?p p] by (simp add: started_def)
      show "brshown s = out @ verdict ?p" using I(10) B_exit by (simp add: verdict_def)
    qed (use sits_left [OF k'(3)] q' in \<open>simp_all add: kid_seats_def del: chats_abs\<close>)
    moreover have "bcast_todo g (put_proc (fslot g) ?p (s\<lparr>brk := k', brshown := brshown s\<rparr>)) < bcast_todo g s"
      using todo_father [OF g I(2), where p' = ?p and k' = k' and sh = "brshown s"] B_exit by simp
    moreover have "bcast_proc_step e (fd64 (bfd g)) (fslot g) p s = Inr (put_proc (fslot g) ?p (s\<lparr>brk := k', brshown := brshown s\<rparr>))"
      using k'(1) by (simp add: bcast_proc_step_def B_exit)
    ultimately show ?thesis by blast
  qed (use I(4) run in \<open>simp_all add: father_ok_def\<close>)
qed


section \<open>Runs\<close>

lemma crew_cases:
  assumes "valid_troop g" "bcast_inv g out p s" "crew s c = Some x"
  obtains "c = fslot g" "x = p" | i where "i < 2" "c = kslot g i" "kids g s i = Some x"
proof -
  consider "c = fslot g" | "c = kslot g 0" | "c = kslot g 1" using bcast_invD(3) [OF assms(2,3)] by blast
  then show ?thesis
  proof cases
    case 1
    with bcast_invD(2) [OF assms(2)] assms(3) that(1) show ?thesis by simp
  next
    case 2
    with assms(3) that(2) [of 0] show ?thesis by (simp add: kids_def)
  next
    case 3
    with assms(3) that(2) [of 1] show ?thesis by (simp add: kids_def)
  qed
qed

lemma proc_step_ok:
  assumes g: "valid_troop g" and e: "bcast_env g e" and inv: "bcast_inv g out p s" and c: "crew s c = Some x" "bpc x \<noteq> B_done"
  shows "\<exists>s' p'. bcast_proc_step e (fd64 (bfd g)) c x s = Inr s' \<and> bcast_inv g out p' s'"
  using g inv c(1)
proof (cases rule: crew_cases)
  case 1
  with father_step_ok [OF g e inv] c(2) show ?thesis by blast
next
  case (2 i)
  with child_step_ok [OF g inv 2(1,3) c(2), of e] show ?thesis by blast
qed

lemma all_done_iff:
  assumes g: "valid_troop g" and inv: "bcast_inv g out p s"
  shows "all_done s \<longleftrightarrow> bpc p = B_done \<and> (\<forall>i < 2. \<forall>x. kids g s i = Some x \<longrightarrow> bpc x = B_done)"
proof
  assume "all_done s"
  then show "bpc p = B_done \<and> (\<forall>i < 2. \<forall>x. kids g s i = Some x \<longrightarrow> bpc x = B_done)"
    using bcast_invD(2) [OF inv] by (auto simp: all_done_def kids_def ran_def)
next
  assume ended: "bpc p = B_done \<and> (\<forall>i < 2. \<forall>x. kids g s i = Some x \<longrightarrow> bpc x = B_done)"
  have "bpc x = B_done" if "crew s c = Some x" for c x
    using g inv that by (cases rule: crew_cases) (use ended in auto)
  then show "all_done s" by (auto simp: all_done_def ran_def)
qed

text \<open>Somebody can always go on: the father until he waits in vain, then a child.\<close>

lemma somebody_goes_on:
  assumes g: "valid_troop g" and e: "bcast_env g e" and inv: "bcast_inv g out p s" and "\<not> all_done s"
  shows "\<exists>s'. bcast_step e (fd64 (bfd g)) s s' \<and> bcast_todo g s' < bcast_todo g s"
proof -
  note I = bcast_invD [OF inv]
  consider (father) "bpc p \<noteq> B_done" "\<not> (bpc p = B_poll \<and> acks (kids g s) = got p)"
    | (child) i x where "i < 2" "kids g s i = Some x" "bpc x \<noteq> B_done" "started p"
  proof (cases "bpc p \<noteq> B_done \<and> \<not> (bpc p = B_poll \<and> acks (kids g s) = got p)")
    case True
    then show ?thesis using father by blast
  next
    case wait: False
    then have st: "started p" by (auto simp: started_def)
    show ?thesis
    proof (cases "bpc p = B_done")
      case True
      then obtain i x where "i < 2" "kids g s i = Some x" "bpc x \<noteq> B_done"
        using \<open>\<not> all_done s\<close> unfolding all_done_iff [OF g inv] by blast
      with st show ?thesis using child by blast
    next
      case False
      then have p: "bpc p = B_poll" "acks (kids g s) = got p" using wait by auto
      then have "acks (kids g s) < 2" and two: "kids g s 0 \<noteq> None" "kids g s 1 \<noteq> None"
        using I(4) unfolding father_ok_def by (simp_all add: got_def)
      then obtain i where i: "i < 2" "\<not> at_pc (kids g s) i {B_exit, B_done}" using acks_less by blast
      then have "kids g s i \<noteq> None" using two by (auto simp: less_2_cases_iff)
      then obtain x where x: "kids g s i = Some x" by blast
      with i(2) have "bpc x \<noteq> B_done" by (auto simp: at_pc_def)
      with i(1) x st show ?thesis using child by blast
    qed
  qed
  then show ?thesis
  proof cases
    case father
    with father_step_ok [OF g e inv] obtain s' where "bcast_proc_step e (fd64 (bfd g)) (fslot g) p s = Inr s'"
      "bcast_todo g s' < bcast_todo g s" by blast
    with I(2) father(1) show ?thesis by (blast intro: bcast_step.turn)
  next
    case child
    with child_step_ok [OF g inv child(1-3), of e] obtain s' where "bcast_proc_step e (fd64 (bfd g)) (kslot g i) x s = Inr s'"
      "bcast_todo g s' < bcast_todo g s" by blast
    moreover have "crew s (kslot g i) = Some x" using child(1,2) by (simp add: kids_def)
    ultimately show ?thesis using child(3) by (blast intro: bcast_step.turn)
  qed
qed

interpretation broadcast: run_to_end "\<lambda>s. valid_troop g \<and> bcast_env g e \<and> (\<exists>p. bcast_inv g out p s)"
  "bcast_step e (fd64 (bfd g))" "bcast_todo g" all_done for g e out
proof unfold_locales
  fix s s' assume inv: "valid_troop g \<and> bcast_env g e \<and> (\<exists>p. bcast_inv g out p s)" and "bcast_step e (fd64 (bfd g)) s s'"
  from this(2) show "valid_troop g \<and> bcast_env g e \<and> (\<exists>p. bcast_inv g out p s')"
  proof cases
    case (turn c x)
    from inv obtain p where p: "bcast_inv g out p s" by blast
    from proc_step_ok [OF _ _ p turn(1,2)] inv turn(3) show ?thesis by fastforce
  qed
next
  fix s assume "valid_troop g \<and> bcast_env g e \<and> (\<exists>p. bcast_inv g out p s)" "\<not> all_done s"
  then show "\<exists>s'. bcast_step e (fd64 (bfd g)) s s' \<and> bcast_todo g s' < bcast_todo g s"
    using somebody_goes_on by blast
qed

lemma bcast_starts:
  assumes ready: "bcast_ready g e k"
  shows "\<exists>s p'. bcast_prologue e k (fslot g) p out = Inr (fd64 (bfd g), s) \<and> bcast_inv g out p' s"
proof -
  obtain qpage where qp: "queue_page e k = (Some (bqa g), qpage)" using ready by (cases "queue_page e k") (simp add: bcast_ready_def)
  obtain fp page where fp: "file_page e k = (fp, page)" by (cases "file_page e k")
  have g: "valid_troop g" and ok: "post_ok k" and pages: "qheap k (bqa g) = None" "queue_room (Some (bqa g), qpage)" "fheap k fp = None"
    and seats: "\<forall>i < 2. seat_pids k (kslot g i) = None \<and> (\<forall>c. seat_pids k c \<noteq> Some (kpid g i))"
    using ready unfolding bcast_ready_def qp fp by auto
  obtain t where t: "seats (abs_post k) (fslot g) = Some (fpid g, t)" "\<And>i q. i < MAX_OPEN_FILES \<Longrightarrow> t ! i \<noteq> Some (Some q)"
    "find (\<lambda>fd. t ! fd = None) [3..<MAX_OPEN_FILES] = Some (bfd g)"
    using ready unfolding bcast_ready_def by blast
  note ne = valid_troopD [OF g]
  from client_create [OF ok t ne(1) pages] obtain k1 where k1: "do_create_msg_queue (Some (bqa g)) qpage fp page k (fslot g) = Inr (int (bfd g), k1)"
    "post_ok k1" "chats (abs_post k1) (bqa g) = Some \<lparr>who = [fpid g], letters = [], refused = {}\<rparr>"
    "sits k1 (fslot g) (bfd g) (bqa g) (fpid g)" "seat_pids k1 = seat_pids k" by blast
  let ?p = "p\<lparr>ch := 0, bpc := B_fork\<rparr>"
  let ?s = "\<lparr>brk = k1, crew = [fslot g \<mapsto> ?p], brshown = out\<rparr>"
  have kids: "kids g ?s = (\<lambda>_. None)" using ne(3) by (auto simp: kids_def fun_eq_iff)
  have none: "attending (\<lambda>_. None) = []" "acks (\<lambda>_. None) = 0" by (simp_all add: attending_def acks_def at_pc_def)
  have "bcast_inv g out ?p ?s" unfolding bcast_inv_def kids
  proof (intro conjI allI impI)
    show "bcast_queue g ?p (\<lambda>_. None) (chats (abs_post (brk ?s)) (bqa g))"
      using k1(3) by (simp add: bcast_queue_def bcast_mail_def to_kid_def attendance_def none got_def started_def del: chats_abs)
    show "kid_seats g (brk ?s) ?p" using seats by (simp add: kid_seats_def k1(5))
  qed (use k1 in \<open>auto simp: father_ok_def at_pc_def verdict_def split: if_splits\<close>)
  moreover have "bcast_prologue e k (fslot g) p out = Inr (fd64 (bfd g), ?s)"
    using k1(1) by (simp add: bcast_prologue_def qp fp fd64_def)
  ultimately show ?thesis by blast
qed


lemma all_done_end:
  assumes g: "valid_troop g" and inv: "bcast_inv g out p s" and ended: "all_done s"
  shows "dom (crew s) = {fslot g, kslot g 0, kslot g 1}" "brshown s = out @ ''Broadcast OK'' @ newline"
    "qheap (brk s) (bqa g) = None"
proof -
  note I = bcast_invD [OF inv] and ne = valid_troopD [OF g]
  have p: "bpc p = B_done" and kid: "\<And>i x. i < 2 \<Longrightarrow> kids g s i = Some x \<Longrightarrow> bpc x = B_done"
    using ended all_done_iff [OF g inv] by blast+
  have two: "kids g s 0 \<noteq> None" "kids g s 1 \<noteq> None" using I(4) p unfolding father_ok_def by simp_all
  then have "crew s (kslot g 0) \<noteq> None" "crew s (kslot g 1) \<noteq> None" by (simp_all add: kids_def)
  with I(2,3) show "dom (crew s) = {fslot g, kslot g 0, kslot g 1}" by (fastforce simp: dom_def)
  show "brshown s = out @ ''Broadcast OK'' @ newline" using I(10) p by (simp add: verdict_def)
  have "\<not> at_pc (kids g s) i (- {B_done})" if "i < 2" for i using kid [OF that] by (auto simp: at_pc_def)
  then have "attendance g p (kids g s) = []" using p by (simp add: attendance_def attending_def)
  with I(6) show "qheap (brk s) (bqa g) = None" by (auto simp: bcast_queue_def split: option.splits)
qed

end
