(* ===== verification/TestProperties.thy ===== *)
theory TestProperties
  imports InitProperties BroadcastTest
begin

text \<open>The test programs of the message queues print what their expected outputs say, however their processes interleave.\<close>

section \<open>What the tests print\<close>




section \<open>A sample\<close>

lemma sample_kernel_live: "live_ctx sample_kernel c ctx \<longleftrightarrow> c = 1 \<and> ctx = sample_ctx"
  using sample_live by (auto simp: live_ctx_def)

lemma sample_pid: "pid sample_ctx = 1"
  by (simp add: sample_ctx_def)

lemma sample_row: "i < MAX_OPEN_FILES \<Longrightarrow> queue_of sample_kernel (files sample_ctx ! i) = None"
  by (simp add: queue_of_def sample_files)

lemma sample_post_ok: "post_ok sample_kernel"
proof -
  have "seated sample_kernel sample_ctx"
  proof (rule seatedI)
    show "fheap sample_kernel p \<noteq> None" if "i < MAX_OPEN_FILES" "files sample_ctx ! i = Some p" for i p
      using that by (auto simp: sample_files split: if_splits)
  qed (use sample_files(1) sample_row in \<open>simp_all add: BROADCAST_PID_def sample_pid\<close>)
  then show ?thesis unfolding post_ok_def sample_kernel_live by simp
qed

lemma sample_seats: "seats (abs_post sample_kernel) c = (if c = 1 then Some (1, seat_row sample_kernel sample_ctx) else None)"
  using seats_abs [OF sample_live] seats_dead [of sample_kernel c] by (auto simp: sample_kernel_live sample_pid)

lemma sample_row_free: "find (\<lambda>fd. seat_row sample_kernel sample_ctx ! fd = None) [3..<MAX_OPEN_FILES] = Some 4"
proof -
  have "find (\<lambda>fd. seat_row sample_kernel sample_ctx ! fd = None) [3..<MAX_OPEN_FILES] = free_fd sample_ctx"
    unfolding free_fd_def by (rule find_cong) (simp_all add: nth_seat_row sample_files)
  then show ?thesis by (simp add: sample_free_fd)
qed

lemma sample_test_ready: "test_ready exchange_parties exchange_env sample_kernel"
proof -
  have g: "valid_parties exchange_parties"
    by (simp add: valid_parties_def exchange_parties_def k_const BROADCAST_PID_def)
  have "\<forall>i < MAX_OPEN_FILES. \<forall>q. seat_row sample_kernel sample_ctx ! i \<noteq> Some (Some q)"
    using sample_row by (simp add: seat_row_queue sample_files(1))
  with g sample_post_ok sample_row_free show ?thesis
    by (simp add: test_ready_def sample_seats exchange_parties_def exchange_env_def same_seats_def queue_room_def sample_mq_def k_const del: One_nat_def)
qed

definition block_begin :: block_run where
  "block_begin = \<lparr>bk = sample_kernel, bp = BP_block, bc = BC_poll, bpmsg = zero_msg, bcmsg = zero_msg, bshown = ''''\<rparr>"

definition sr_begin :: sr_run where
  "sr_begin = \<lparr>srk = sample_kernel, sp = SP_send, sc = SC_poll, spmsg = zero_msg, scmsg = zero_msg, srshown = ''''\<rparr>"



definition sample_troop :: troop where
  "sample_troop = \<lparr>fslot = 1, fpid = 1, kslot = (\<lambda>i. if i = 0 then 2 else 3), kpid = (\<lambda>i. if i = 0 then 2 else 3), bfd = 4, bqa = 30\<rparr>"

definition bcast_sample_env :: env where
  "bcast_sample_env = exchange_env\<lparr>get_new_ctx := (\<lambda>k. if seat_pids k 2 = None then (2, 2) else (3, 3))\<rparr>"

definition sample_proc :: bcast_proc where
  "sample_proc = \<lparr>bpc = B_fork, ch = 0, cnt = 0, mmsg = zero_msg, dmsg = zero_msg\<rparr>"

lemma sample_bcast_ready: "bcast_ready sample_troop bcast_sample_env sample_kernel"
proof -
  have g: "valid_troop sample_troop" by (simp add: valid_troop_def sample_troop_def k_const BROADCAST_PID_def)
  have e: "bcast_env sample_troop bcast_sample_env"
    by (simp add: bcast_env_def sample_troop_def bcast_sample_env_def exchange_env_def same_seats_def)
  have pids: "seat_pids sample_kernel c = (if c = 1 then Some 1 else None)" for c
    by (simp add: seat_pids_def sample_seats del: One_nat_def)
  have free: "\<forall>i < 2. seat_pids sample_kernel (kslot sample_troop i) = None \<and> (\<forall>c. seat_pids sample_kernel c \<noteq> Some (kpid sample_troop i))"
    by (simp add: pids sample_troop_def)
  have "\<forall>i < MAX_OPEN_FILES. \<forall>q. seat_row sample_kernel sample_ctx ! i \<noteq> Some (Some q)"
    using sample_row by (simp add: seat_row_queue sample_files(1))
  with g e free sample_post_ok sample_row_free show ?thesis unfolding bcast_ready_def
    by (simp add: sample_seats sample_troop_def bcast_sample_env_def exchange_env_def queue_room_def sample_mq_def k_const del: One_nat_def)
qed


end
