(* ===== verification/FileTests.thy ===== *)
theory FileTests
  imports InitProgram FileSpec
begin

text \<open>
  The test programs of the file calls in \<^verbatim>\<open>user/test_cases_part1\<close>: \<^verbatim>\<open>open_read_write.c\<close>, \<^verbatim>\<open>dup2_lseek.c\<close>,
  \<^verbatim>\<open>sendfile.c\<close> and \<^verbatim>\<open>common_ops.c\<close>. Each is a function of the kernel that returns what is printed; \<open>buf\<close>, \<open>buf1\<close>, \<open>buf2\<close> are the
  addresses of its arrays. The proofs follow the calls on the abstract file system of \<open>FileSpec\<close>, and add
  what the calls leave of the program's own memory.
\<close>

section \<open>The programs\<close>

definition open_call :: "env \<Rightarrow> nat \<Rightarrow> string \<Rightarrow> u64 \<Rightarrow> u64 \<Rightarrow> kernel \<Rightarrow> (int \<times> kernel) res" where
  "open_call e c fname flags mode k = (let (p, page) = file_page e k in do_file_open p page k c fname flags mode)"

definition print_number :: "int \<Rightarrow> string res" where
  "print_number n = vuprintf (''%d'' @ newline) [Int_arg (sint (word_of_int n :: u32))]"

text \<open>\<^verbatim>\<open>printf("...%s\n", buf)\<close> reads the array up to its terminator.\<close>

definition print_array :: "string \<Rightarrow> u64 \<Rightarrow> kernel \<Rightarrow> string res" where
  "print_array t buf k =
     (case c_string (mem k) buf of None \<Rightarrow> Inl RunawayLoop
      | Some s \<Rightarrow> vuprintf (t @ ''%s'' @ newline) [Str_arg (Some s)])"

definition terminate :: "u64 \<Rightarrow> kernel \<Rightarrow> kernel" where
  "terminate buf k = k\<lparr>mem := (mem k)(buf + 17 := 0)\<rparr>"

definition open_read_write :: "env \<Rightarrow> nat \<Rightarrow> u64 \<Rightarrow> u64 \<Rightarrow> u64 \<Rightarrow> kernel \<Rightarrow> (string \<times> kernel) res" where
  "open_read_write e c r3 buf buf1 k =
     bind_res (open_call e c ''test.txt'' (ucast (O_CREAT OR O_RDWR)) (ucast (O_READ OR O_WRITE)) k) (\<lambda>(create_fd, k).
     bind_res (do_file_write (dev e) k c (of_int create_fd) buf 17) (\<lambda>(n, k).
     bind_res (print_number n) (\<lambda>out1.
     bind_res (open_call e c ''test.txt'' (ucast O_READ) r3 k) (\<lambda>(read_fd, k).
     bind_res (do_file_read (dev e) k c (of_int read_fd) buf1 17) (\<lambda>(n, k).
     bind_res (print_number n) (\<lambda>out2.
     let k = terminate buf1 k
     in bind_res (print_array '''' buf1 k) (\<lambda>out3.
        bind_res (do_close k c read_fd) (\<lambda>(_, k).
        bind_res (do_close k c create_fd) (\<lambda>(_, k). Inr (out1 @ out2 @ out3, k))))))))))"

definition dup2_lseek :: "env \<Rightarrow> nat \<Rightarrow> u64 \<Rightarrow> kernel \<Rightarrow> (string \<times> kernel) res" where
  "dup2_lseek e c buf k =
     bind_res (open_call e c ''test.txt'' (ucast (O_CREAT OR O_RDWR)) (ucast (O_READ OR O_WRITE)) k) (\<lambda>(create_fd, k).
     bind_res (do_file_write (dev e) k c (of_int create_fd) buf 17) (\<lambda>(_, k).
     bind_res (do_dup2 k c create_fd 15) (\<lambda>(dup_fd2, k).
     bind_res (print_number dup_fd2) (\<lambda>out1.
     bind_res (do_lseek k c create_fd 0 SEEK_CUR) (\<lambda>(n, k).
     bind_res (print_number n) (\<lambda>out2. Inr (out1 @ out2, k)))))))"

definition sendfile_test :: "env \<Rightarrow> nat \<Rightarrow> u64 \<Rightarrow> u64 \<Rightarrow> u64 \<Rightarrow> u64 \<Rightarrow> kernel \<Rightarrow> (string \<times> kernel) res" where
  "sendfile_test e c r3 buf buf1 buf2 k =
     bind_res (open_call e c ''test1.txt'' (ucast (O_CREAT OR O_RDWR)) (ucast (O_READ OR O_WRITE)) k) (\<lambda>(create_fd1, k).
     bind_res (open_call e c ''test2.txt'' (ucast (O_CREAT OR O_RDWR)) (ucast (O_READ OR O_WRITE)) k) (\<lambda>(create_fd2, k).
     bind_res (do_file_write (dev e) k c (of_int create_fd1) buf 17) (\<lambda>(_, k).
     bind_res (do_lseek k c create_fd1 0 SEEK_SET) (\<lambda>(_, k).
     bind_res (call_sendfile (buff_page e k) k c (of_int create_fd2) (of_int create_fd1) None 17) (\<lambda>(_, _, k).
     bind_res (do_lseek k c create_fd1 0 SEEK_SET) (\<lambda>(_, k).
     bind_res (open_call e c ''test2.txt'' (ucast O_READ) r3 k) (\<lambda>(read_fd, k).
     bind_res (do_file_read (dev e) k c (of_int read_fd) buf2 17) (\<lambda>(_, k).
     bind_res (do_file_read (dev e) k c (of_int create_fd1) buf1 17) (\<lambda>(_, k).
     let k = terminate buf1 (terminate buf2 k)
     in bind_res (print_array ''buf1 = '' buf1 k) (\<lambda>out1.
        bind_res (print_array ''buf2 = '' buf2 k) (\<lambda>out2.
        bind_res (do_close k c read_fd) (\<lambda>(_, k).
        bind_res (do_close k c create_fd1) (\<lambda>(_, k).
        bind_res (do_close k c create_fd2) (\<lambda>(_, k). Inr (out1 @ out2, k)))))))))))))))"

text \<open>
  \<^verbatim>\<open>common_ops.c\<close> prints what \<^verbatim>\<open>close\<close> returns; when the close succeeds this is what the result register happens to
  hold: \<open>g i\<close> after the \<open>i\<close>-th close.
\<close>

definition close_value :: "int \<Rightarrow> int option \<Rightarrow> int" where
  "close_value v0 r = (case r of None \<Rightarrow> v0 | Some v \<Rightarrow> v)"

definition common_ops :: "env \<Rightarrow> nat \<Rightarrow> u64 \<Rightarrow> (nat \<Rightarrow> int) \<Rightarrow> u64 \<Rightarrow> u64 \<Rightarrow> kernel \<Rightarrow> (string \<times> kernel) res" where
  "common_ops e c r3 g buf buf1 k =
     bind_res (open_call e c ''testFile'' (ucast (O_CREAT OR O_WRITE)) (ucast (O_READ OR O_WRITE)) k) (\<lambda>(fd, k).
     bind_res (print_number fd) (\<lambda>out1.
     bind_res (do_file_write (dev e) k c (of_int fd) buf 17) (\<lambda>(n, k).
     bind_res (print_number n) (\<lambda>out2.
     bind_res (do_file_read (dev e) k c (of_int fd) buf1 17) (\<lambda>(n, k).
     bind_res (print_number n) (\<lambda>out3.
     bind_res (do_close k c fd) (\<lambda>(r, k).
     bind_res (print_number (close_value (g 0) r)) (\<lambda>out4.
     bind_res (do_close k c fd) (\<lambda>(r, k).
     bind_res (print_number (close_value (g 1) r)) (\<lambda>out5.
     bind_res (open_call e c ''testFile'' (ucast O_READ) r3 k) (\<lambda>(fd, k).
     bind_res (print_number fd) (\<lambda>out6.
     bind_res (do_file_read (dev e) k c (of_int fd) buf1 17) (\<lambda>(n, k).
     bind_res (print_number n) (\<lambda>out7.
     let k = terminate buf1 k
     in bind_res (print_array '''' buf1 k) (\<lambda>out8.
        bind_res (do_file_write (dev e) k c (of_int fd) buf 17) (\<lambda>(n, k).
        bind_res (print_number n) (\<lambda>out9.
        bind_res (do_close k c fd) (\<lambda>(r, k).
        bind_res (print_number (close_value (g 2) r)) (\<lambda>out10.
        bind_res (do_close k c fd) (\<lambda>(_, k).
        bind_res (do_close k c fd) (\<lambda>(r, k).
        bind_res (print_number (close_value (g 4) r)) (\<lambda>out11.
        bind_res (do_close k c fd) (\<lambda>(_, k).
          Inr (out1 @ out2 @ out3 @ out4 @ out5 @ out6 @ out7 @ out8 @ out9 @ out10 @ out11, k))))))))))))))))))))))))"

section \<open>What a call leaves of the program's memory\<close>

text \<open>The bytes of the file store, and a change of the kernel outside which memory and objects are kept.\<close>

definition store :: "kernel \<Rightarrow> u64 set" where
  "store k = (\<Union>i < NUM_FILES. file_region (inodes (sb k) ! i))"

definition calm :: "u64 set \<Rightarrow> nat set \<Rightarrow> kernel \<Rightarrow> kernel \<Rightarrow> bool" where
  "calm W Q k k' \<longleftrightarrow> store k' = store k \<and> (\<forall>a. a \<notin> W \<union> store k \<longrightarrow> mem k' a = mem k a) \<and>
     (\<forall>q. q \<notin> Q \<longrightarrow> fheap k q = None \<longrightarrow> fheap k' q = None)"

lemma apart_store: "buffer_apart k b n \<longleftrightarrow> mem_range b n \<inter> store k = {}"
  by (auto simp: buffer_apart_def store_def)

lemma calm_refl [simp]: "calm W Q k k"
  by (simp add: calm_def)

lemma calm_trans: "calm W Q k k' \<Longrightarrow> calm W' Q' k' k'' \<Longrightarrow> calm (W \<union> W') (Q \<union> Q') k k''"
  by (simp add: calm_def)

lemma calm_apart: "calm W Q k k' \<Longrightarrow> buffer_apart k' b n = buffer_apart k b n"
  by (simp add: calm_def apart_store)

lemma calm_bytes:
  assumes "calm W Q k k'" "buffer_apart k b n" "mem_range b n \<inter> W = {}"
  shows "read_bytes (mem k') b n = read_bytes (mem k) b n"
proof (rule read_bytes_cong)
  fix i assume "i < n"
  then have "b + of_nat i \<in> mem_range b n" by (rule mem_range_off)
  with assms show "mem k' (b + of_nat i) = mem k (b + of_nat i)" unfolding calm_def apart_store by blast
qed

lemma store_cong: "(\<And>i. i < NUM_FILES \<Longrightarrow> s_pos (inodes (sb k') ! i) = s_pos (inodes (sb k) ! i)) \<Longrightarrow> store k' = store k"
  by (simp add: store_def file_region_def)

lemma open_inode_s_pos:
  assumes "open_inode s n flags mode = Inr (r, s')"
  shows "s_pos (inodes s' ! i) = s_pos (inodes s ! i)"
proof -
  have upd: "s_pos (xs[j := (xs ! j)\<lparr>is_valid := a, imode := b, filename := cc, max_pos := d, file_size := f, iref_count := g\<rparr>] ! i)
      = s_pos (xs ! i)" for xs :: "inode list" and j a b cc d f g
    by (cases "j < length xs") (simp_all add: nth_list_update not_less list_update_beyond)
  have "s_pos (inodes s'' ! i) = s_pos (inodes s ! i)" if "flat_create_inode s n m = Inr (x, s'')" for x s'' m
    using that upd by (auto simp: flat_create_inode_def Let_def split: if_splits)
  then have "s_pos (inodes s'' ! i) = s_pos (inodes s ! i)" if "create_inode s n m = Inr (x, s'')" for x s'' m
    using that by (auto simp: create_inode_def bind_res_Inr split: if_splits)
  then show ?thesis using assms
    by (auto simp: open_inode_def get_or_create_def bind_res_Inr split: option.splits if_splits)
qed


section \<open>The calls of a process with its files\<close>

text \<open>The kernel is in order, and process \<open>c\<close> has the table \<open>t\<close>.\<close>

definition at_work :: "nat \<Rightarrow> nat option list \<Rightarrow> kernel \<Rightarrow> bool" where
  "at_work c t k \<longleftrightarrow> kernel_ok k \<and> ops_ok k \<and> tables (abs_fs k) c = Some t \<and> length t = MAX_OPEN_FILES"

lemma at_workD:
  assumes "at_work c t k"
  obtains ctx where "kernel_ok k" "ops_ok k" "live_ctx k c ctx" "files ctx = t" "tables (abs_fs k) c = Some t"
    "length t = MAX_OPEN_FILES"
  using assms by (auto simp: at_work_def abs_fs_def live_ctx_def split: option.splits if_splits)

text \<open>What is open on a descriptor.\<close>

lemma fd_open_regular:
  assumes "live_ctx k c ctx" "fd_open (abs_fs k) c fd = Some x"
  shows "regular_fd k ctx fd"
proof -
  obtain p where "files ctx ! nat fd = Some p" "opens (abs_fs k) p \<noteq> None"
    using assms(2) tables_abs [OF assms(1)] by (auto simp: fd_open_def bind_eq_Some_conv)
  then show ?thesis
    by (auto simp: regular_fd_def fd_file_def abs_fs_def obj_of_def bind_eq_Some_conv split: if_splits)
qed

lemma fd_open_at: "tables st c = Some t \<Longrightarrow> t ! n = Some p \<Longrightarrow> opens st p = Some x \<Longrightarrow> fd_open st c (int n) = Some (p, x)"
  by (simp add: fd_open_def)

lemma calm_open:
  assumes ctx: "ctxs k c = Some ctx" and eq: "do_regular_file_open p page k c fname flags mode = Inr (r, k')"
  shows "calm {} {p} k k'"
  using assms
proof (cases rule: open_cases)
  case (no_inode s')
  then show ?thesis using store_cong [of k' k] open_inode_s_pos [OF no_inode(1)] by (simp add: calm_def)
next
  case (no_fd s' i)
  then show ?thesis using store_cong [of k' k] open_inode_s_pos [OF no_fd(1)] by (simp add: calm_def)
next
  case (opened s' i fd)
  then show ?thesis using store_cong [of k' k] open_inode_s_pos [OF opened(1)] by (simp add: calm_def)
qed simp

lemma client_open:
  assumes w: "at_work c t k" and p: "fheap k p = None" and page: "file_page e k = (p, page)"
    and name: "length fname < NAME_BYTES" "fname \<notin> {''stdin'', ''stdout'', ''stderr''}"
    and flags: "flags AND ucast (O_READ OR O_RDWR) \<noteq> 0"
    and there: "disk (abs_fs k) fname = None \<Longrightarrow> flags AND ucast O_CREAT \<noteq> 0 \<and> card (dom (disk (abs_fs k))) \<noteq> NUM_FILES"
    and fd: "find (\<lambda>fd. t ! fd = None) [3..<MAX_OPEN_FILES] = Some fd"
  shows "\<exists>k'. open_call e c fname flags mode k = Inr (int fd, k') \<and> at_work c (t[fd := Some p]) k' \<and> calm {} {p} k k' \<and>
    disk (abs_fs k') = (if disk (abs_fs k) fname = None then (disk (abs_fs k))(fname \<mapsto> []) else disk (abs_fs k)) \<and>
    opens (abs_fs k') = (opens (abs_fs k))(p \<mapsto> (fname, 0, ucast (flags XOR ucast O_CREAT)))"
  using w
proof (rule at_workD)
  fix ctx
  assume ok: "kernel_ok k" "ops_ok k" "live_ctx k c ctx" and t: "tables (abs_fs k) c = Some t" "length t = MAX_OPEN_FILES"
  have ctx: "ctxs k c = Some ctx" using ok(3) by (simp add: live_ctx_def)
  from file_open_ok [OF ok(1,3) p, of fname flags mode page] name
  obtain r k' where k': "do_file_open p page k c fname flags mode = Inr (r, k')" "kernel_ok k'" by auto
  have "regular_call 0 k ctx (COpen fname flags mode)" using name by simp
  from refine_open [OF ok p this k'(1)]
  have sp: "sp_open c p fname flags (abs_fs k) = ((Some r, []), abs_fs k')" and ops: "ops_ok k'" by simp_all
  let ?st = "if disk (abs_fs k) fname = None then (abs_fs k)\<lparr>disk := (disk (abs_fs k))(fname \<mapsto> [])\<rparr> else abs_fs k"
  have "sp_open c p fname flags (abs_fs k) = ((Some (int fd), []), put_fd c (int fd) (Some p)
      (?st\<lparr>opens := (opens (abs_fs k))(p \<mapsto> (fname, 0, ucast (flags XOR ucast O_CREAT)))\<rparr>))"
    using flags there fd t by (auto simp: sp_open_def Let_def)
  from trans [OF sp [symmetric] this]
  have r: "r = int fd" and st: "abs_fs k' = put_fd c (int fd) (Some p)
      (?st\<lparr>opens := (opens (abs_fs k))(p \<mapsto> (fname, 0, ucast (flags XOR ucast O_CREAT)))\<rparr>)"
    by simp_all
  have "at_work c (t[fd := Some p]) k'" using k'(2) ops t by (simp add: at_work_def st put_fd_def)
  moreover have "calm {} {p} k k'" using calm_open [OF ctx] k'(1) name by (simp add: do_file_open_def)
  moreover have "disk (abs_fs k') = (if disk (abs_fs k) fname = None then (disk (abs_fs k))(fname \<mapsto> []) else disk (abs_fs k))"
    "opens (abs_fs k') = (opens (abs_fs k))(p \<mapsto> (fname, 0, ucast (flags XOR ucast O_CREAT)))"
    by (simp_all add: st put_fd_def)
  ultimately show ?thesis using k'(1) by (auto simp: open_call_def page r)
qed

lemma calm_write:
  assumes f: "open_regular k p i f" and fit: "unat (offp f) + unat count \<le> FILE_SIZE"
    and eq: "do_write_regular k (Some p) buff count = Inr (n, k')"
  shows "calm W Q k k'"
proof -
  note o = open_regularD [OF f]
  have mv: "moved k p f k'" by (rule moved_write [OF eq f])
  have sum: "uint (offp f) + uint count \<le> int FILE_SIZE"
    using fit unfolding uint_nat of_nat_add [symmetric] of_nat_le_iff .
  then have "uint count < 2 ^ 31" by (simp add: fs_const, use uint_u32_bounds(1) [of "offp f"] in linarith)
  then have s: "sint (offp f) = uint (offp f)" "sint count = uint count" using o(8) by (simp_all add: sint_u32_small)
  have reg: "region_ok (inodes (sb k) ! i)" using fs_wfD(2) [OF o(1) o(4)] .
  have fits: "sint (offp f) + sint count \<le> int FILE_SIZE" using sum unfolding s .
  have pos: "0 \<le> sint (offp f)" "0 \<le> sint count" by (simp_all add: s)
  show ?thesis
  proof (cases "fmode f AND O_WRITE = 0")
    case True
    with eq o(2,3) show ?thesis by (simp add: do_write_regular_def)
  next
    case False
    then obtain ino' m' where w: "flat_write (inodes (sb k) ! i) (mem k) buff (sint count) (sint (offp f)) = Inr (n, ino', m')"
      and k': "k' = put_file (k\<lparr>mem := m', sb := (sb k)\<lparr>inodes := (inodes (sb k))[i := ino']\<rparr>\<rparr>) p (f\<lparr>offp := offp f + word_of_int n\<rparr>)"
      using eq o(2,3) by (auto simp: do_write_regular_def bind_res_Inr)
    have "s_pos ino' = s_pos (inodes (sb k) ! i)" using flat_write_region_ok(2) [OF reg pos fits w] .
    then have "store k' = store k" by (intro store_cong) (auto simp: k' nth_list_update fs_wfD(1) [OF o(1)] o(4))
    moreover have "mem k' a = mem k a" if "a \<notin> store k" for a
    proof -
      have "a \<notin> file_region (inodes (sb k) ! i)" using that o(4) by (auto simp: store_def)
      from flat_write_frame [OF reg pos fits w this] show ?thesis by (simp add: k')
    qed
    moreover have "fheap k' q = None" if "fheap k q = None" for q using that o(2) by (auto simp: k')
    ultimately show ?thesis by (simp add: calm_def)
  qed
qed


lemma count_arg:
  assumes "n < 2 ^ 31"
  shows "uint (ucast (of_nat n :: u64) :: u32) = int n" "unat (ucast (of_nat n :: u64) :: u32) = n"
proof -
  have "take_bit 64 n = n" "take_bit 32 n = n" using assms by (simp_all add: take_bit_nat_eq_self)
  then show "uint (ucast (of_nat n :: u64) :: u32) = int n" "unat (ucast (of_nat n :: u64) :: u32) = n"
    by (simp_all add: unsigned_ucast_eq unsigned_of_nat flip: of_nat_take_bit)
qed

lemma client_write:
  assumes w: "at_work c t k" and fd: "fd < MAX_OPEN_FILES" "t ! fd = Some p" and op: "opens (abs_fs k) p = Some (nm, off, md)"
    and mode: "md AND O_WRITE \<noteq> 0" and fit: "off + n \<le> FILE_SIZE" and apart: "buffer_apart k buf n"
  shows "\<exists>k'. do_file_write d k c (of_int (int fd)) buf (of_nat n) = Inr (int n, k') \<and> at_work c t k' \<and> calm {} {} k k' \<and>
    disk (abs_fs k') = (disk (abs_fs k))(nm \<mapsto> overwrite (the (disk (abs_fs k) nm)) off (read_bytes (mem k) buf n)) \<and>
    opens (abs_fs k') = (opens (abs_fs k))(p \<mapsto> (nm, off + n, md))"
  using w
proof (rule at_workD)
  fix ctx
  assume ok: "kernel_ok k" "ops_ok k" "live_ctx k c ctx" and t: "files ctx = t" "tables (abs_fs k) c = Some t" "length t = MAX_OPEN_FILES"
  have f: "fd_in (int fd)" and u: "uint (of_int (int fd) :: u64) = int fd"
    using fd(1) by (simp_all add: fd_in_def k_const unsigned_of_nat take_bit_nat_eq_self)
  have small: "n < 2 ^ 31" using fit by (simp add: fs_const)
  note n = count_arg [OF small]
  have open': "fd_open (abs_fs k) c (int fd) = Some (p, nm, off, md)" using fd_open_at [OF t(2) fd(2) op] .
  have reg: "regular_fd k ctx (int fd)" by (rule fd_open_regular [OF ok(3) open'])
  from ok f reg show ?thesis
  proof (cases rule: regular_fd_cases)
    case closed
    with open' show ?thesis by simp
  next
    case (open_file p' g i)
    then have same: "p' = p" "unat (offp g) = off" "fmode g = md" using open' by simp_all
    have fits: "unat (offp g) + n \<le> FILE_SIZE" using fit same by simp
    then have "int (unat (offp g)) + int n \<le> int FILE_SIZE" unfolding of_nat_add [symmetric] of_nat_le_iff .
    then have may: "may_call k ctx (CWrite (of_int (int fd)) buf (of_nat n))"
      using f open_file(2,7) unfolding may_call.simps u n by (simp add: fits_def fd_file_def)
    have reg': "regular_call 0 k ctx (CWrite (of_int (int fd)) buf (of_nat n))"
      using reg apart unfolding regular_call.simps u n by simp
    from file_write_ok [OF ok(1,3) may, of d] obtain r k' where k': "do_file_write d k c (of_int (int fd)) buf (of_nat n) = Inr (r, k')" "kernel_ok k'"
      by blast
    have sp: "sp_write c (int fd) (read_bytes (mem k) buf n) (abs_fs k) = ((Some r, []), abs_fs k')" and ops: "ops_ok k'"
      using refine_write [OF ok may reg' k'(1)] unfolding u n by simp_all
    have "sp_write c (int fd) (read_bytes (mem k) buf n) (abs_fs k) = ((Some (int n), []),
        (abs_fs k)\<lparr>disk := (disk (abs_fs k))(nm \<mapsto> overwrite (the (disk (abs_fs k) nm)) off (read_bytes (mem k) buf n)),
          opens := (opens (abs_fs k))(p \<mapsto> (nm, off + n, md))\<rparr>)"
      using mode by (simp add: sp_write_def open' spec_write_def)
    from trans [OF sp [symmetric] this]
    have r: "r = int n" and st: "abs_fs k' = (abs_fs k)\<lparr>disk := (disk (abs_fs k))(nm \<mapsto> overwrite (the (disk (abs_fs k) nm)) off (read_bytes (mem k) buf n)),
          opens := (opens (abs_fs k))(p \<mapsto> (nm, off + n, md))\<rparr>" by simp_all
    have "do_write_regular k (Some p') buf (ucast (of_nat n :: u64)) = Inr (r, k')"
      using k'(1) open_file(1,2,4) mode same u by (simp add: do_file_write_def regular_ops_def del: get_fd_eq)
    then have "calm {} {} k k'" by (rule calm_write [OF open_file(5), rotated]) (use fits n in simp)
    moreover have "at_work c t k'" using k'(2) ops t by (simp add: at_work_def st)
    ultimately show ?thesis using k'(1) by (simp add: st r)
  qed
qed

lemma calm_read:
  assumes f: "open_regular k p i f" and n: "uint count < 2 ^ 31"
    and eq: "do_read_regular k (Some p) buff count = Inr (n, k')"
  shows "calm (mem_range buff (unat count)) Q k k'"
proof -
  note o = open_regularD [OF f]
  have s: "sint count = uint count" "sint (offp f) = uint (offp f)" using n o(8) by (simp_all add: sint_u32_small)
  show ?thesis
  proof (cases "fmode f AND O_READ = 0")
    case True
    with eq o(2,3) show ?thesis by (simp add: do_read_regular_def)
  next
    case False
    let ?rc = "read_count (inodes (sb k) ! i) (uint count) (uint (offp f))"
    have fr: "flat_read (inodes (sb k) ! i) (mem k) buff (sint count) (sint (offp f)) =
        Inr (?rc, copy_bytes (mem k) buff (file_addr (inodes (sb k) ! i) (uint (offp f))) (nat ?rc))"
      unfolding s by (rule flat_read_eq) simp
    have "do_read_regular k (Some p) buff count = Inr (?rc,
        put_file (k\<lparr>mem := copy_bytes (mem k) buff (file_addr (inodes (sb k) ! i) (uint (offp f))) (nat ?rc)\<rparr>) p
          (f\<lparr>offp := offp f + word_of_int ?rc\<rparr>))"
      using o(2,3) False fr by (simp add: do_read_regular_def)
    from trans [OF eq [symmetric] this] have k': "k' = put_file (k\<lparr>mem := copy_bytes (mem k) buff (file_addr (inodes (sb k) ! i) (uint (offp f))) (nat ?rc)\<rparr>) p
        (f\<lparr>offp := offp f + word_of_int ?rc\<rparr>)" unfolding sum.inject prod.inject by (rule conjunct2)
    have "?rc \<le> uint count" by (simp add: read_count_def)
    then have "nat ?rc \<le> unat count" unfolding unat_eq_nat_uint by (rule nat_mono)
    then have "mem_range buff (nat ?rc) \<subseteq> mem_range buff (unat count)" by (rule mem_range_mono)
    then have "a \<notin> mem_range buff (nat ?rc)" if "a \<notin> mem_range buff (unat count)" for a using that by blast
    then have "mem k' a = mem k a" if "a \<notin> mem_range buff (unat count)" for a
      using copy_bytes_frame that by (simp add: k')
    moreover have "store k' = store k" by (rule store_cong) (simp add: k')
    moreover have "fheap k' q = None" if "fheap k q = None" for q using that o(2) by (auto simp: k')
    ultimately show ?thesis by (simp add: calm_def)
  qed
qed

lemma client_read:
  assumes w: "at_work c t k" and fd: "fd < MAX_OPEN_FILES" "t ! fd = Some p" and op: "opens (abs_fs k) p = Some (nm, off, md)"
    and mode: "md AND O_READ \<noteq> 0" and n: "n < 2 ^ 31" and apart: "buffer_apart k buf n"
    and out: "out = take n (drop off (the (disk (abs_fs k) nm)))"
  shows "\<exists>k'. do_file_read d k c (of_int (int fd)) buf (of_nat n) = Inr (int (length out), k') \<and> at_work c t k' \<and>
    calm (mem_range buf n) {} k k' \<and> disk (abs_fs k') = disk (abs_fs k) \<and>
    opens (abs_fs k') = (opens (abs_fs k))(p \<mapsto> (nm, off + length out, md)) \<and> read_bytes (mem k') buf (length out) = out"
  using w
proof (rule at_workD)
  fix ctx
  assume ok: "kernel_ok k" "ops_ok k" "live_ctx k c ctx" and t: "files ctx = t" "tables (abs_fs k) c = Some t" "length t = MAX_OPEN_FILES"
  have f: "fd_in (int fd)" and u: "uint (of_int (int fd) :: u64) = int fd"
    using fd(1) by (simp_all add: fd_in_def k_const unsigned_of_nat take_bit_nat_eq_self)
  note n' = count_arg [OF n]
  have open': "fd_open (abs_fs k) c (int fd) = Some (p, nm, off, md)" using fd_open_at [OF t(2) fd(2) op] .
  have reg: "regular_fd k ctx (int fd)" by (rule fd_open_regular [OF ok(3) open'])
  have "int n < int (2 ^ 31)" using n unfolding of_nat_less_iff .
  then have may: "may_call k ctx (CRead (of_int (int fd)) buf (of_nat n))"
    using f unfolding may_call.simps u n' by simp
  have reg': "regular_call 0 k ctx (CRead (of_int (int fd)) buf (of_nat n))"
    using reg apart unfolding regular_call.simps u n' by simp
  from file_read_ok [OF ok(1,3) may, of d] obtain r k' where k': "do_file_read d k c (of_int (int fd)) buf (of_nat n) = Inr (r, k')" "kernel_ok k'"
    by blast
  have sp: "sp_read c (int fd) n (abs_fs k) = ((Some r, read_bytes (mem k') buf (nat r)), abs_fs k')" and ops: "ops_ok k'"
    using refine_read [OF ok may reg' k'(1)] unfolding u n' by simp_all
  have "sp_read c (int fd) n (abs_fs k) = ((Some (int (length out)), out),
      (abs_fs k)\<lparr>opens := (opens (abs_fs k))(p \<mapsto> (nm, off + length out, md))\<rparr>)"
    using mode by (simp add: sp_read_def open' spec_read_def out)
  from trans [OF sp [symmetric] this]
  have r: "r = int (length out)" "read_bytes (mem k') buf (nat r) = out"
    and st: "abs_fs k' = (abs_fs k)\<lparr>opens := (opens (abs_fs k))(p \<mapsto> (nm, off + length out, md))\<rparr>"
    unfolding prod.inject option.inject by blast+
  have "calm (mem_range buf n) {} k k'"
    using ok f reg
  proof (cases rule: regular_fd_cases)
    case closed
    with open' show ?thesis by simp
  next
    case (open_file p' g i)
    then have same: "p' = p" "fmode g = md" using open' by simp_all
    have "fmode g AND O_READ = O_READ" using mode_bit same mode by blast
    then have "do_read_regular k (Some p') buf (ucast (of_nat n :: u64)) = Inr (r, k')"
      using k'(1) open_file(1,2,4) u by (simp add: do_file_read_def regular_ops_def del: get_fd_eq)
    from calm_read [OF open_file(5) _ this, of "{}"] show ?thesis using n' \<open>int n < int (2 ^ 31)\<close> by simp
  qed
  moreover have "at_work c t k'" using k'(2) ops t by (simp add: at_work_def st)
  ultimately show ?thesis using k'(1) r by (simp add: st)
qed


lemma calm_seek: "do_lseek k c fd offset wh = Inr (r, k') \<Longrightarrow> calm W Q k k'"
proof -
  have to: "calm W Q k k2" if "seek_to k p f sz t = Inr (r2, k2)" "fheap k p = Some f" for p f sz t r2 k2
  proof -
    have "k2 = k \<or> k2 = put_file k p (f\<lparr>offp := word_of_int t\<rparr>)"
      using that(1) by (auto simp: seek_to_def bind_res_Inr Let_def split: if_splits)
    then show ?thesis using that(2) by (auto simp: calm_def store_def)
  qed
  have reg: "calm W Q k k2" if "do_lseek_regular k (Some p) offset wh = Inr (r2, k2)" for p r2 k2
    using that by (cases wh) (auto simp: do_lseek_regular_def bind_res_Inr Let_def kernel_acc intro: to)
  show "do_lseek k c fd offset wh = Inr (r, k') \<Longrightarrow> calm W Q k k'"
  proof -
    have "(x = Do_lseek_regular) = True" for x by (cases x) simp
    then show "do_lseek k c fd offset wh = Inr (r, k') \<Longrightarrow> calm W Q k k'"
      using reg by (auto simp: do_lseek_def bind_res_Inr split: option.splits lseek_op.splits simp del: get_fd_eq)
  qed
qed

lemma client_seek:
  assumes w: "at_work c t k" and fd: "fd < MAX_OPEN_FILES" "t ! fd = Some p" and op: "opens (abs_fs k) p = Some (nm, off, md)"
    and target: "target = (case wh of SEEK_SET \<Rightarrow> offset | SEEK_CUR \<Rightarrow> int off + offset
        | SEEK_END \<Rightarrow> int (length (the (disk (abs_fs k) nm))) + offset | Other_whence \<Rightarrow> -1)"
      "0 \<le> target" "target \<le> int (length (the (disk (abs_fs k) nm)))"
  shows "\<exists>k'. do_lseek k c (int fd) offset wh = Inr (target, k') \<and> at_work c t k' \<and> calm {} {} k k' \<and>
    disk (abs_fs k') = disk (abs_fs k) \<and> opens (abs_fs k') = (opens (abs_fs k))(p \<mapsto> (nm, nat target, md))"
  using w
proof (rule at_workD)
  fix ctx
  assume ok: "kernel_ok k" "ops_ok k" "live_ctx k c ctx" and t: "files ctx = t" "tables (abs_fs k) c = Some t" "length t = MAX_OPEN_FILES"
  have f: "fd_in (int fd)" using fd(1) by (simp add: fd_in_def)
  have open': "fd_open (abs_fs k) c (int fd) = Some (p, nm, off, md)" using fd_open_at [OF t(2) fd(2) op] .
  have reg: "regular_fd k ctx (int fd)" by (rule fd_open_regular [OF ok(3) open'])
  from lseek_ok [OF ok(1,3) f, of offset wh] obtain r k' where k': "do_lseek k c (int fd) offset wh = Inr (r, k')" "kernel_ok k'" by blast
  have "may_call k ctx (CSeek (int fd) offset wh)" "regular_call 0 k ctx (CSeek (int fd) offset wh)" using f reg by simp_all
  from refine_seek [OF ok this k'(1)]
  have sp: "sp_seek c (int fd) offset wh (abs_fs k) = ((Some r, []), abs_fs k')" and ops: "ops_ok k'" by simp_all
  have "sp_seek c (int fd) offset wh (abs_fs k) =
      ((Some target, []), (abs_fs k)\<lparr>opens := (opens (abs_fs k))(p \<mapsto> (nm, nat target, md))\<rparr>)"
    unfolding sp_seek_def open' using target by (simp add: Let_def)
  from trans [OF sp [symmetric] this]
  have r: "r = target" and st: "abs_fs k' = (abs_fs k)\<lparr>opens := (opens (abs_fs k))(p \<mapsto> (nm, nat target, md))\<rparr>"
    unfolding prod.inject option.inject by blast+
  have "at_work c t k'" using k'(2) ops t by (simp add: at_work_def st)
  with k'(1) calm_seek [OF k'(1)] show ?thesis by (simp add: st r)
qed

lemma client_dup2:
  assumes w: "at_work c t k" and fd: "fd < MAX_OPEN_FILES" "t ! fd = Some p" and new: "new < MAX_OPEN_FILES" "new \<noteq> fd"
    and op: "opens (abs_fs k) p = Some x"
  shows "\<exists>k'. do_dup2 k c (int fd) (int new) = Inr (int new, k') \<and> at_work c (t[new := Some p]) k' \<and>
    disk (abs_fs k') = disk (abs_fs k) \<and> opens (abs_fs k') p = Some x"
  using w
proof (rule at_workD)
  fix ctx
  assume ok: "kernel_ok k" "ops_ok k" "live_ctx k c ctx" and t: "files ctx = t" "tables (abs_fs k) c = Some t" "length t = MAX_OPEN_FILES"
  have may: "may_call k ctx (CDup2 (int fd) (int new))" using fd(1) new by (simp add: fd_in_def)
  obtain r k' where k': "do_dup2 k c (int fd) (int new) = Inr (r, k')" "kernel_ok k'"
    using dup2_ok [OF ok(1,3), of "int fd" "int new"] fd(1) new by (auto simp: do_dup2_def)
  from refine_dup2 [OF ok may k'(1)]
  have sp: "sp_dup2 c (int fd) (int new) (abs_fs k) = ((Some r, []), abs_fs k')" and ops: "ops_ok k'" by simp_all
  have "sp_dup2 c (int fd) (int new) (abs_fs k) = ((Some (int new), []), forget (put_fd c (int new) (Some p) (abs_fs k)))"
    using t fd(2) by (simp add: sp_dup2_def)
  from trans [OF sp [symmetric] this]
  have r: "r = int new" and st: "abs_fs k' = forget (put_fd c (int new) (Some p) (abs_fs k))"
    unfolding prod.inject option.inject by blast+
  have "Some p \<in> set (t[new := Some p])" using new(1) t(3) by (intro set_update_memI) simp
  then have "held (put_fd c (int new) (Some p) (abs_fs k)) p" using t by (auto simp: held_def put_fd_def)
  then have "opens (abs_fs k') p = Some x" using op by (simp add: st forget_def put_fd_def)
  moreover have "at_work c (t[new := Some p]) k'" using k'(2) ops t by (simp add: at_work_def st forget_def put_fd_def)
  ultimately show ?thesis using k'(1) by (simp add: st r forget_def put_fd_def)
qed

lemma calm_drop: "drop_ref k p = Inr k' \<Longrightarrow> calm {} {} k k'"
  by (auto simp: drop_ref_def bind_res_Inr Let_def free_file_object_def put_file_def file_at_def calm_def store_def
    split: option.splits if_splits)

lemma calm_close:
  assumes "do_close k c fd = Inr (r, k')"
  shows "calm {} {} k k'"
proof -
  from assms obtain filep where filep: "(case filep of None \<Rightarrow> Inr (Some (-EINVAL), k)
       | Some p \<Rightarrow> bind_res (file_at k p) (\<lambda>f. case fclose (fops f) of None \<Rightarrow> Inr (Some (-EINVAL), k)
           | Some op \<Rightarrow> bind_res (set_fd k c fd None) (\<lambda>k1.
               bind_res (case op of Std_close \<Rightarrow> std_close k1 p | Do_file_close \<Rightarrow> do_file_close k1 (Some p))
                 (\<lambda>(ret, k2). Inr (None :: int option, k2))))) = Inr (r, k')"
    unfolding do_close_def bind_res_Inr by blast
  consider "k' = k" | p k1 where "set_fd k c fd None = Inr k1" "drop_ref k1 p = Inr k'"
    using filep by (cases filep) (auto simp: bind_res_Inr std_close_def do_file_close_def split: option.splits close_op.splits, metis close_op.exhaust)
  then show ?thesis
  proof cases
    case 2
    have "calm {} {} k k1" using 2(1) by (auto simp: set_fd_def bind_res_Inr calm_def store_def split: if_splits)
    from calm_trans [OF this calm_drop [OF 2(2)]] show ?thesis by simp
  qed simp
qed

lemma client_close:
  assumes w: "at_work c t k" and fd: "fd < MAX_OPEN_FILES" "t ! fd = Some p" and op: "opens (abs_fs k) p \<noteq> None"
  shows "\<exists>k'. do_close k c (int fd) = Inr (None, k') \<and> at_work c (t[fd := None]) k' \<and> calm {} {} k k' \<and>
    disk (abs_fs k') = disk (abs_fs k) \<and> (\<forall>q. Some q \<in> set (t[fd := None]) \<longrightarrow> opens (abs_fs k') q = opens (abs_fs k) q)"
  using w
proof (rule at_workD)
  fix ctx
  assume ok: "kernel_ok k" "ops_ok k" "live_ctx k c ctx" and t: "files ctx = t" "tables (abs_fs k) c = Some t" "length t = MAX_OPEN_FILES"
  obtain x where open': "fd_open (abs_fs k) c (int fd) = Some (p, x)" using fd_open_at [OF t(2) fd(2)] op by blast
  have f: "fd_in (int fd)" using fd(1) by (simp add: fd_in_def)
  have may: "may_call k ctx (CClose (int fd))" and reg: "regular_call 0 k ctx (CClose (int fd))"
    using f fd_open_regular [OF ok(3) open'] by simp_all
  obtain r k' where k': "do_close k c (int fd) = Inr (r, k')" "kernel_ok k'"
    using close_ok [OF ok(1,3), of "int fd"] fd(1) by auto
  from refine_close [OF ok may reg k'(1)]
  have sp: "sp_close c (int fd) (abs_fs k) = ((r, []), abs_fs k')" and ops: "ops_ok k'" by simp_all
  have "sp_close c (int fd) (abs_fs k) = ((None, []), forget (put_fd c (int fd) None (abs_fs k)))"
    by (simp add: sp_close_def open')
  from trans [OF sp [symmetric] this] have r: "r = None" and st: "abs_fs k' = forget (put_fd c (int fd) None (abs_fs k))"
    unfolding prod.inject by blast+
  have "held (put_fd c (int fd) None (abs_fs k)) q" if "Some q \<in> set (t[fd := None])" for q
    using that t by (auto simp: held_def put_fd_def)
  then have "opens (abs_fs k') q = opens (abs_fs k) q" if "Some q \<in> set (t[fd := None])" for q
    using that by (simp add: st forget_def put_fd_def)
  moreover have "at_work c (t[fd := None]) k'" using k'(2) ops t by (simp add: at_work_def st forget_def put_fd_def)
  moreover have "disk (abs_fs k') = disk (abs_fs k)" by (simp add: st forget_def put_fd_def)
  ultimately show ?thesis using k'(1) calm_close [OF k'(1)] unfolding r by blast
qed

text \<open>What the calls refuse: a descriptor that is not open, and one that is not open for what is asked.\<close>

lemma close_refused: "at_work c t k \<Longrightarrow> fd < MAX_OPEN_FILES \<Longrightarrow> t ! fd = None \<Longrightarrow> do_close k c (int fd) = Inr (Some (-1), k)"
  by (erule at_workD) (simp add: do_close_def live_ctx_def errno)

lemma access_refused:
  assumes w: "at_work c t k" and fd: "fd < MAX_OPEN_FILES" "t ! fd = Some p" and op: "opens (abs_fs k) p = Some (nm, off, md)"
  shows "md AND O_READ = 0 \<Longrightarrow> do_file_read d k c (of_nat fd) buf n = Inr (-4, k)"
    "md AND O_WRITE = 0 \<Longrightarrow> do_file_write d k c (of_nat fd) buf n = Inr (-4, k)"
proof -
  obtain ctx where ctx: "live_ctx k c ctx" "files ctx = t" by (rule at_workD [OF w])
  have arg: "uint (of_nat fd :: u64) = int fd" using fd(1) by (simp add: uint_nat k_const unat_of_nat)
  have "get_fd k c (int fd) = Inr (Some p)" using ctx fd by (simp add: live_ctx_def)
  moreover obtain f where f: "fheap k p = Some f" "fmode f = md"
    using op by (auto simp: abs_fs_def obj_of_def bind_eq_Some_conv split: if_splits)
  moreover have "file_at k p = Inr f" using f(1) by (simp add: file_at_def)
  ultimately show "md AND O_READ = 0 \<Longrightarrow> do_file_read d k c (of_nat fd) buf n = Inr (-4, k)"
    "md AND O_WRITE = 0 \<Longrightarrow> do_file_write d k c (of_nat fd) buf n = Inr (-4, k)"
    by (simp_all add: do_file_read_def do_file_write_def arg errno O_READ_def)
qed


lemma calm_weaken: "calm W Q k k' \<Longrightarrow> W \<subseteq> W' \<Longrightarrow> Q \<subseteq> Q' \<Longrightarrow> calm W' Q' k k'"
  by (auto simp: calm_def)

lemma calm_sendfile:
  assumes ok: "kernel_ok k" "ops_ok k" "live_ctx k c ctx" and may: "may_call k ctx (CSendfile outfd infd count)"
    and open_in: "fd_open (abs_fs k) c (int_arg infd) = Some (p, nm, off, md)" "md AND O_READ \<noteq> 0"
    and open_out: "fd_open (abs_fs k) c (int_arg outfd) = Some (q, nm', off', md')" "md' AND O_WRITE \<noteq> 0"
    and eq: "call_sendfile buf k c outfd infd None count = Inr (r, o', k')"
  shows "calm (mem_range buf (nat (int_arg count))) {} k k'"
proof -
  define m where "m = int_arg count"
  have fds: "fd_in (int_arg outfd)" "fd_in (int_arg infd)" and m: "0 \<le> m"
    and reg: "regular_fd k ctx (int_arg infd)" "regular_fd k ctx (int_arg outfd)"
    and diff: "files ctx ! nat (int_arg infd) \<noteq> files ctx ! nat (int_arg outfd)"
    and fits: "fits k ctx (int_arg outfd) m"
    using may by (simp_all add: m_def)
  have call: "do_sendfile buf k c (int_arg outfd) (int_arg infd) None m = Inr (r, o', k')"
    using eq by (simp add: call_sendfile_def int_arg_def m_def)
  from ok fds(2) reg(1) show ?thesis
  proof (cases rule: regular_fd_cases)
    case closed
    with open_in show ?thesis by simp
  next
    case inp: (open_file p1 f i)
    from ok fds(1) reg(2) show ?thesis
    proof (cases rule: regular_fd_cases)
      case closed
      with open_out show ?thesis by simp
    next
      case outp: (open_file q1 g j)
      have mode: "fmode f AND O_READ \<noteq> 0" "fmode g AND O_WRITE \<noteq> 0" using open_in open_out inp(8) outp(8) by simp_all
      have pq: "p1 \<noteq> q1" using diff inp(7) outp(7) by auto
      have fit: "uint (offp g) + m \<le> int FILE_SIZE" using fits outp(2,3,7) by (simp add: fits_def fd_file_def)
      then have small: "m < 2 ^ 31" by (simp add: fs_const, use uint_u32_bounds(1) [of "offp g"] in linarith)
      then have mm: "uint (word_of_int m :: u32) = m" "unat (word_of_int m :: u32) = nat m"
        using m by (simp_all add: unat_eq_nat_uint uint_u32_of_int)
      obtain n k1 where rd: "do_read_regular k (Some p1) buf (word_of_int m) = Inr (n, k1)" "kernel_ok k1"
        "0 \<le> n" "n \<le> m" "fheap k1 = (fheap k)(p1 \<mapsto> f\<lparr>offp := offp f + word_of_int n\<rparr>)"
        using read_regular_ok [OF ok(1) inp(2,3) mode(1), of "word_of_int m" buf] mm(1) small by auto
      have w: "do_write_regular k1 (Some q1) buf (word_of_int n) = Inr (r, k')"
        using call inp(1,2) outp(1,2) mode rd(1) by (auto simp: do_sendfile_def sendfile_read_def bind_res_Inr simp del: get_fd_eq)
      have g1: "fheap k1 q1 = Some g" using rd(5) outp(2) pq by simp
      obtain j' where j': "open_regular k1 q1 j' g" by (rule kernel_ok_regular [OF rd(2) g1 outp(3)])
      have "unat (word_of_int n :: u32) = nat n"
        using rd(3,4) small by (simp add: unat_eq_nat_uint uint_u32_of_int)
      moreover have "int (unat (offp g) + nat n) \<le> int FILE_SIZE" using fit rd(3,4) by simp
      ultimately have "unat (offp g) + unat (word_of_int n :: u32) \<le> FILE_SIZE" unfolding of_nat_le_iff by simp
      from calm_write [OF j' this w, of "{}" "{}"] have "calm {} {} k1 k'" .
      moreover have "calm (mem_range buf (nat m)) {} k k1"
        using calm_read [OF inp(5) _ rd(1), of "{}"] mm small by simp
      ultimately have "calm (mem_range buf (nat m) \<union> {}) ({} \<union> {}) k k'" by (rule calm_trans [rotated])
      then show ?thesis by (simp add: m_def)
    qed
  qed
qed

lemma client_sendfile:
  assumes w: "at_work c t k" and fds: "fd < MAX_OPEN_FILES" "t ! fd = Some p" "gd < MAX_OPEN_FILES" "t ! gd = Some q" "p \<noteq> q"
    and op: "opens (abs_fs k) p = Some (nm, off, md)" "opens (abs_fs k) q = Some (nm', off', md')" "nm \<noteq> nm'"
    and mode: "md AND O_READ \<noteq> 0" "md' AND O_WRITE \<noteq> 0" and fit: "off' + n \<le> FILE_SIZE" and apart: "buffer_apart k buf n"
    and out: "out = take n (drop off (the (disk (abs_fs k) nm)))"
  shows "\<exists>o' k'. call_sendfile buf k c (of_int (int gd)) (of_int (int fd)) None (of_nat n) = Inr (int (length out), o', k') \<and>
    at_work c t k' \<and> calm (mem_range buf n) {} k k' \<and>
    disk (abs_fs k') = (disk (abs_fs k))(nm' \<mapsto> overwrite (the (disk (abs_fs k) nm')) off' out) \<and>
    opens (abs_fs k') = (opens (abs_fs k))(p \<mapsto> (nm, off + length out, md), q \<mapsto> (nm', off' + length out, md'))"
  using w
proof (rule at_workD)
  fix ctx
  assume ok: "kernel_ok k" "ops_ok k" "live_ctx k c ctx" and t: "files ctx = t" "tables (abs_fs k) c = Some t" "length t = MAX_OPEN_FILES"
  have small: "n < 2 ^ 31" using fit by (simp add: fs_const)
  then have sm: "int n < 2 ^ 31" by (simp flip: of_nat_less_iff)
  have arg: "int_arg (of_int (int gd)) = int gd" "int_arg (of_int (int fd)) = int fd" "int_arg (of_nat n) = int n"
    using int_arg_of_int [of "int gd"] int_arg_of_int [of "int fd"] int_arg_of_int [of "int n"] fds(1,3) sm by (simp_all add: k_const)
  have open_in: "fd_open (abs_fs k) c (int fd) = Some (p, nm, off, md)" using fd_open_at [OF t(2) fds(2) op(1)] .
  have open_out: "fd_open (abs_fs k) c (int gd) = Some (q, nm', off', md')" using fd_open_at [OF t(2) fds(4) op(2)] .
  have reg: "regular_fd k ctx (int fd)" "regular_fd k ctx (int gd)"
    using fd_open_regular [OF ok(3)] open_in open_out by blast+
  have f: "fd_in (int fd)" "fd_in (int gd)" using fds by (simp_all add: fd_in_def)
  have fits: "fits k ctx (int gd) (int n)"
    using ok f(2) reg(2)
  proof (cases rule: regular_fd_cases)
    case (open_file q' g i)
    then have "unat (offp g) + n \<le> FILE_SIZE" using open_out fit by simp
    then have "int (unat (offp g)) + int n \<le> int FILE_SIZE" unfolding of_nat_add [symmetric] of_nat_le_iff .
    with open_file(2,7) show ?thesis by (simp add: fits_def fd_file_def)
  qed (use open_out in simp)
  have may: "may_call k ctx (CSendfile (of_int (int gd)) (of_int (int fd)) (of_nat n))"
    unfolding may_call.simps arg using f reg fits fds t(1) by simp
  have reg': "regular_call buf k ctx (CSendfile (of_int (int gd)) (of_int (int fd)) (of_nat n))"
    unfolding regular_call.simps arg using apart by simp
  obtain r o' k' where k': "call_sendfile buf k c (of_int (int gd)) (of_int (int fd)) None (of_nat n) = Inr (r, o', k')" "kernel_ok k'"
    using sendfile_ok [OF ok(1,3) may, of buf] by blast
  have sp: "sp_sendfile c (int gd) (int fd) n (abs_fs k) = ((Some r, []), abs_fs k')" and ops: "ops_ok k'"
    using refine_sendfile [OF ok may reg' k'(1)] unfolding arg by simp_all
  let ?st = "(abs_fs k)\<lparr>opens := (opens (abs_fs k))(p \<mapsto> (nm, off + length out, md))\<rparr>"
  have rd: "sp_read c (int fd) n (abs_fs k) = ((Some (int (length out)), out), ?st)"
    using mode by (simp add: sp_read_def open_in spec_read_def out)
  have o2: "fd_open ?st c (int gd) = Some (q, nm', off', md')"
    using fds op(2) t(2) by (simp add: fd_open_def)
  have "sp_sendfile c (int gd) (int fd) n (abs_fs k) = ((Some (int (length out)), []),
      (abs_fs k)\<lparr>disk := (disk (abs_fs k))(nm' \<mapsto> overwrite (the (disk (abs_fs k) nm')) off' out),
        opens := (opens (abs_fs k))(p \<mapsto> (nm, off + length out, md), q \<mapsto> (nm', off' + length out, md'))\<rparr>)"
    using mode by (simp add: sp_sendfile_def open_in open_out rd sp_write_def o2 spec_write_def)
  from trans [OF sp [symmetric] this]
  have r: "r = int (length out)" and st: "abs_fs k' = (abs_fs k)\<lparr>disk := (disk (abs_fs k))(nm' \<mapsto> overwrite (the (disk (abs_fs k) nm')) off' out),
        opens := (opens (abs_fs k))(p \<mapsto> (nm, off + length out, md), q \<mapsto> (nm', off' + length out, md'))\<rparr>"
    unfolding prod.inject option.inject by blast+
  have "calm (mem_range buf n) {} k k'"
    using calm_sendfile [OF ok may _ mode(1) _ mode(2) k'(1)] open_in open_out unfolding arg by simp
  moreover have "at_work c t k'" using k'(2) ops t by (simp add: at_work_def st)
  ultimately show ?thesis using k'(1) by (simp add: st r)
qed


section \<open>The tests\<close>

text \<open>What a test needs of the kernel: descriptors, pages for the file objects, and room for its files.\<close>

definition free_fds :: "nat option list \<Rightarrow> nat list" where
  "free_fds t = filter (\<lambda>fd. t ! fd = None) [3..<MAX_OPEN_FILES]"

definition page_source :: "env \<Rightarrow> nat list \<Rightarrow> bool" where
  "page_source e ps \<longleftrightarrow> distinct ps \<and> (\<forall>k p. find (\<lambda>p. fheap k p = None) ps = Some p \<longrightarrow> fst (file_page e k) = p)"

definition room_for :: "kernel \<Rightarrow> string list \<Rightarrow> bool" where
  "room_for k ns \<longleftrightarrow> card (dom (disk (abs_fs k)) \<union> set ns) \<le> NUM_FILES"

text \<open>The array \<open>buf\<close> holds the text \<open>x\<close>, and lies outside the file store.\<close>

definition holds_text :: "string \<Rightarrow> kernel \<Rightarrow> u64 \<Rightarrow> bool" where
  "holds_text x k buf \<longleftrightarrow> buffer_apart k buf 17 \<and> read_bytes (mem k) buf 17 = map char_byte x"

definition file_test_ready :: "env \<Rightarrow> nat \<Rightarrow> nat list \<Rightarrow> nat list \<Rightarrow> string list \<Rightarrow> kernel \<Rightarrow> bool" where
  "file_test_ready e c fds ps ns k \<longleftrightarrow> page_source e ps \<and> room_for k ns \<and> (\<forall>p \<in> set ps. fheap k p = None) \<and>
     (\<exists>t r. at_work c t k \<and> free_fds t = fds @ r)"

lemma free_fdsD:
  assumes "free_fds t = fd # r" "length t = MAX_OPEN_FILES"
  shows "fd < MAX_OPEN_FILES" "find (\<lambda>fd. t ! fd = None) [3..<MAX_OPEN_FILES] = Some fd" "free_fds (t[fd := Some p]) = r"
    "\<And>x. x \<in> set r \<Longrightarrow> x \<noteq> fd \<and> x < MAX_OPEN_FILES"
proof -
  have set: "set (fd # r) \<subseteq> {3..<MAX_OPEN_FILES}" using assms(1) unfolding free_fds_def by (metis filter_is_subset set_upt)
  have dist: "distinct (fd # r)" using assms(1) unfolding free_fds_def by (metis distinct_filter distinct_upt)
  show fd: "fd < MAX_OPEN_FILES" using set by simp
  show "find (\<lambda>fd. t ! fd = None) [3..<MAX_OPEN_FILES] = Some fd" using assms(1) by (simp add: find_filter free_fds_def)
  have "free_fds (t[fd := Some p]) = filter (\<lambda>x. x \<noteq> fd) (free_fds t)"
    unfolding free_fds_def filter_filter using assms(2) fd by (intro filter_cong) (auto simp: nth_list_update)
  also have "\<dots> = r" using dist by (auto simp: assms(1) intro: filter_True)
  finally show "free_fds (t[fd := Some p]) = r" .
  show "x \<noteq> fd \<and> x < MAX_OPEN_FILES" if "x \<in> set r" for x using that set dist by auto
qed

lemma opens_heap: "opens (abs_fs k) p \<noteq> None \<Longrightarrow> fheap k p \<noteq> None"
  by (cases "fheap k p") (auto simp: abs_fs_def split: if_splits)

lemma next_page:
  assumes "page_source e (qs @ p # ps)" "\<And>q. q \<in> set qs \<Longrightarrow> fheap k q \<noteq> None" "fheap k p = None"
  shows "\<exists>page. file_page e k = (p, page)"
proof -
  have "find (\<lambda>p. fheap k p = None) qs = None" using assms(2) by (auto simp: find_None_iff)
  then have "find (\<lambda>p. fheap k p = None) (qs @ p # ps) = Some p" using assms(3) by (induction qs) (auto split: if_splits)
  with assms(1) have "fst (file_page e k) = p" unfolding page_source_def by blast
  then show ?thesis by (metis prod.collapse)
qed

lemma room_new:
  assumes "card (dom d \<union> set ns) \<le> NUM_FILES" "n \<in> set ns" "d n = None"
  shows "card (dom d) \<noteq> NUM_FILES"
proof (cases "finite (dom d)")
  case True
  have "card (insert n (dom d)) \<le> card (dom d \<union> set ns)" using True assms(2) by (intro card_mono) auto
  moreover have "card (insert n (dom d)) = Suc (card (dom d))" using True assms(3) by (simp add: domIff)
  ultimately show ?thesis using assms(1) by simp
qed (simp add: fs_const)

lemma created_room:
  assumes "card (dom d \<union> set ns) \<le> NUM_FILES" "n \<in> set ns"
  shows "card (dom (if d n = None then d(n \<mapsto> x) else d) \<union> set ns) \<le> NUM_FILES"
proof -
  have "dom (if d n = None then d(n \<mapsto> x) else d) \<union> set ns = dom d \<union> set ns" using assms(2) by auto
  with assms(1) show ?thesis by simp
qed

lemma open_flags:
  "(ucast (O_CREAT OR O_RDWR) :: u64) AND ucast (O_READ OR O_RDWR) \<noteq> 0" "(ucast O_READ :: u64) AND ucast (O_READ OR O_RDWR) \<noteq> 0"
  "(ucast (O_CREAT OR O_RDWR) :: u64) AND ucast O_CREAT \<noteq> 0"
  "(ucast ((ucast (O_CREAT OR O_RDWR) :: u64) XOR ucast O_CREAT) :: u32) AND O_WRITE \<noteq> 0"
  "(ucast ((ucast (O_CREAT OR O_RDWR) :: u64) XOR ucast O_CREAT) :: u32) AND O_READ \<noteq> 0"
  "(ucast ((ucast O_READ :: u64) XOR ucast O_CREAT) :: u32) AND O_READ \<noteq> 0"
  "(ucast ((ucast O_READ :: u64) XOR ucast O_CREAT) :: u32) AND O_WRITE = 0"
  "(ucast (O_CREAT OR O_WRITE) :: u64) AND ucast (O_READ OR O_RDWR) \<noteq> 0" "(ucast (O_CREAT OR O_WRITE) :: u64) AND ucast O_CREAT \<noteq> 0"
  "(ucast ((ucast (O_CREAT OR O_WRITE) :: u64) XOR ucast O_CREAT) :: u32) AND O_WRITE \<noteq> 0"
  "(ucast ((ucast (O_CREAT OR O_WRITE) :: u64) XOR ucast O_CREAT) :: u32) AND O_READ = 0"
  by (simp_all add: O_CREAT_def O_RDWR_def O_READ_def O_WRITE_def)

lemma print_numbers: "print_number 17 = Inr (''17'' @ newline)" "print_number 15 = Inr (''15'' @ newline)"
  "print_number (-1) = Inr (''-1'' @ newline)" "print_number (-4) = Inr (''-4'' @ newline)"
  by code_simp+

definition hello :: string where "hello = ''Hello, I am file!''"

lemma length_hello: "length hello = 17" "CHR 0x00 \<notin> set hello"
  by (simp_all add: hello_def)

lemma at_work_mem: "at_work c t k \<Longrightarrow> at_work c t (k\<lparr>mem := m\<rparr>)"
  using refs_ok_frame [of k "k\<lparr>mem := m\<rparr>"] by (auto simp: at_work_def kernel_ok_def ops_ok_def abs_fs_def)

lemma opens_mem: "opens (abs_fs (k\<lparr>mem := m\<rparr>)) = opens (abs_fs k)"
  using refs_cong [of "k\<lparr>mem := m\<rparr>" k] by (auto simp: abs_fs_def fun_eq_iff)

text \<open>Seventeen bytes that were read and terminated are printed as the text they are.\<close>

lemma print_terminated:
  assumes "read_bytes (mem k) buf 17 = map char_byte x" "mem k (buf + 17) = 0" "CHR ''%'' \<notin> set t"
    and x: "length x = 17" "CHR 0x00 \<notin> set x"
  shows "print_array t buf k = Inr (t @ x @ newline)"
proof -
  have "read_bytes (mem k) buf (17 + 1) = map char_byte x @ [0]"
    unfolding read_bytes_add using assms(1,2) by (simp add: read_bytes_def)
  moreover have "Suc (length x) = 17 + 1" by (simp add: x(1))
  ultimately have "read_bytes (mem k) buf (Suc (length x)) = map char_byte x @ [0]" by (simp only:)
  from c_string_stored [OF this x(2)] show ?thesis using text_line [OF assms(3)] by (simp add: print_array_def)
qed


text \<open>Opening a file of a test.\<close>

lemma test_open:
  assumes w: "at_work c t k" and fds: "free_fds t = fd # r" and src: "page_source e (qs @ p # ps)"
    and qs: "\<And>q. q \<in> set qs \<Longrightarrow> fheap k q \<noteq> None" and p: "fheap k p = None"
    and name: "fname \<in> set ns" "length fname < NAME_BYTES" "fname \<notin> {''stdin'', ''stdout'', ''stderr''}" and room: "room_for k ns"
    and flags: "flags AND ucast (O_READ OR O_RDWR) \<noteq> 0" and there: "disk (abs_fs k) fname = None \<Longrightarrow> flags AND ucast O_CREAT \<noteq> 0"
  shows "\<exists>k'. open_call e c fname flags mode k = Inr (int fd, k') \<and> at_work c (t[fd := Some p]) k' \<and>
    free_fds (t[fd := Some p]) = r \<and> calm {} {p} k k' \<and> room_for k' ns \<and>
    disk (abs_fs k') = (if disk (abs_fs k) fname = None then (disk (abs_fs k))(fname \<mapsto> []) else disk (abs_fs k)) \<and>
    opens (abs_fs k') = (opens (abs_fs k))(p \<mapsto> (fname, 0, ucast (flags XOR ucast O_CREAT)))"
proof -
  have len: "length t = MAX_OPEN_FILES" using w by (simp add: at_work_def)
  obtain page where page: "file_page e k = (p, page)" using next_page [OF src qs p] by blast
  have "disk (abs_fs k) fname = None \<Longrightarrow> flags AND ucast O_CREAT \<noteq> 0 \<and> card (dom (disk (abs_fs k))) \<noteq> NUM_FILES"
    using there room_new [OF room [unfolded room_for_def] name(1)] by blast
  from client_open [OF w p page name(2,3) flags this free_fdsD(2) [OF fds len]]
  obtain k' where k': "open_call e c fname flags mode k = Inr (int fd, k')" "at_work c (t[fd := Some p]) k'" "calm {} {p} k k'"
    "disk (abs_fs k') = (if disk (abs_fs k) fname = None then (disk (abs_fs k))(fname \<mapsto> []) else disk (abs_fs k))"
    "opens (abs_fs k') = (opens (abs_fs k))(p \<mapsto> (fname, 0, ucast (flags XOR ucast O_CREAT)))" by blast
  have "room_for k' ns" unfolding room_for_def k'(4) by (rule created_room [OF room [unfolded room_for_def] name(1)])
  with k' free_fdsD(3) [OF fds len] show ?thesis by blast
qed

text \<open>After the arrays are terminated only closing is left.\<close>

lemma terminate_simps [simp]:
  "mem (terminate buf k) = (mem k)(buf + 17 := 0)" "opens (abs_fs (terminate buf k)) = opens (abs_fs k)"
  by (simp_all add: terminate_def opens_mem)

lemma at_work_terminate: "at_work c t k \<Longrightarrow> at_work c t (terminate buf k)"
  by (simp add: terminate_def at_work_mem)

lemma terminated_bytes:
  assumes "buf + 17 \<notin> mem_range a n"
  shows "read_bytes (mem (terminate buf k)) a n = read_bytes (mem k) a n"
proof (rule read_bytes_cong)
  fix i assume "i < n"
  then have "a + of_nat i \<in> mem_range a n" by (rule mem_range_off)
  with assms have "a + of_nat i \<noteq> buf + 17" by metis
  then show "mem (terminate buf k) (a + of_nat i) = mem k (a + of_nat i)" by simp
qed

lemma own_terminator: "buf + 17 \<notin> mem_range (buf :: u64) 17"
proof
  assume "buf + 17 \<in> mem_range buf 17"
  then obtain i where i: "i < 17" "buf + 17 = buf + of_nat i" by (auto simp: mem_range_def)
  then have "of_nat i = (of_nat 17 :: u64)" by simp
  with of_nat_u64_inj [of i 17] i(1) show False by simp
qed

lemma set_nth_update: "x \<noteq> y \<Longrightarrow> x < length t \<Longrightarrow> t ! x = v \<Longrightarrow> v \<in> set (t[y := w])"
  by (metis length_list_update nth_list_update_neq nth_mem)

text \<open>Closing two descriptors, one after the other.\<close>

lemma client_close_two:
  assumes w: "at_work c t k" and fds: "fd < MAX_OPEN_FILES" "t ! fd = Some p" "gd < MAX_OPEN_FILES" "t ! gd = Some q" "fd \<noteq> gd"
    and op: "opens (abs_fs k) p \<noteq> None" "opens (abs_fs k) q \<noteq> None"
  shows "\<exists>r k1 r' k'. do_close k c (int fd) = Inr (r, k1) \<and> do_close k1 c (int gd) = Inr (r', k') \<and> kernel_ok k1 \<and> kernel_ok k'"
proof -
  have len: "length t = MAX_OPEN_FILES" using w by (simp add: at_work_def)
  obtain r k1 where k1: "do_close k c (int fd) = Inr (r, k1)" "at_work c (t[fd := None]) k1"
    "\<And>q. Some q \<in> set (t[fd := None]) \<Longrightarrow> opens (abs_fs k1) q = opens (abs_fs k) q"
    using client_close [OF w fds(1,2) op(1)] by blast
  have "t[fd := None] ! gd = Some q" using fds len by simp
  moreover have "Some q \<in> set (t[fd := None])" using fds len by (intro set_nth_update [of gd]) auto
  then have "opens (abs_fs k1) q \<noteq> None" using k1(3) op(2) by simp
  ultimately obtain r' k' where "do_close k1 c (int gd) = Inr (r', k')" "at_work c ((t[fd := None])[gd := None]) k'"
    using client_close [OF k1(2) fds(3)] by blast
  with k1 show ?thesis by (auto simp: at_work_def)
qed


text \<open>What writing the text at the start of a file leaves to be read there.\<close>

lemma written_text: "length x = 17 \<Longrightarrow> take 17 (drop 0 (overwrite bs 0 (map char_byte x))) = map char_byte x"
  by (simp add: overwrite_def)

lemma room_written:
  assumes "room_for k ns" "nm \<in> set ns" "disk (abs_fs k') = (disk (abs_fs k))(nm \<mapsto> x)"
  shows "room_for k' ns"
proof -
  have "insert nm (dom (disk (abs_fs k)) \<union> set ns) = dom (disk (abs_fs k)) \<union> set ns" using assms(2) by blast
  with assms(1) show ?thesis by (simp add: room_for_def assms(3))
qed

lemma nth_opened: "length t = MAX_OPEN_FILES \<Longrightarrow> fd < MAX_OPEN_FILES \<Longrightarrow> t[fd := x] ! fd = x"
  by simp

lemma calm_free: "calm W Q k k' \<Longrightarrow> q \<notin> Q \<Longrightarrow> fheap k q = None \<Longrightarrow> fheap k' q = None"
  by (simp add: calm_def)

text \<open>Writing the text to a file opened by a test.\<close>

lemma test_write:
  assumes w: "at_work c t k" and fd: "fd < MAX_OPEN_FILES" "t ! fd = Some p" and op: "opens (abs_fs k) p = Some (nm, 0, md)"
    and mode: "md AND O_WRITE \<noteq> 0" and txt17: "holds_text x k buf" and room: "nm \<in> set ns" "room_for k ns"
  shows "\<exists>k'. do_file_write d k c (of_nat fd) buf 17 = Inr (17, k') \<and> at_work c t k' \<and> calm {} {} k k' \<and> room_for k' ns \<and>
    disk (abs_fs k') = (disk (abs_fs k))(nm \<mapsto> overwrite (the (disk (abs_fs k) nm)) 0 (map char_byte x)) \<and>
    opens (abs_fs k') = (opens (abs_fs k))(p \<mapsto> (nm, 17, md))"
proof -
  have fit: "0 + 17 \<le> FILE_SIZE" by (simp add: fs_const)
  have t: "buffer_apart k buf 17" "read_bytes (mem k) buf 17 = map char_byte x" using txt17 by (simp_all add: holds_text_def)
  from client_write [OF w fd op mode fit t(1), of d, unfolded t(2)]
  obtain k' where k': "do_file_write d k c (of_int (int fd)) buf (of_nat 17) = Inr (int 17, k')" "at_work c t k'" "calm {} {} k k'"
    "disk (abs_fs k') = (disk (abs_fs k))(nm \<mapsto> overwrite (the (disk (abs_fs k) nm)) 0 (map char_byte x))"
    "opens (abs_fs k') = (opens (abs_fs k))(p \<mapsto> (nm, 0 + 17, md))" by blast
  have "room_for k' ns" using room_written [OF room(2,1) k'(4)] .
  with k' show ?thesis by simp
qed

lemma calm_text: "calm {} Q k k' \<Longrightarrow> holds_text x k buf \<Longrightarrow> holds_text x k' buf"
  using calm_bytes [of "{}" Q k k' buf 17] calm_apart [of "{}" Q k k' buf 17] by (simp add: holds_text_def)

text \<open>Reading a file that begins with the text.\<close>

lemma test_read:
  assumes w: "at_work c t k" and fd: "fd < MAX_OPEN_FILES" "t ! fd = Some p" and op: "opens (abs_fs k) p = Some (nm, 0, md)"
    and mode: "md AND O_READ \<noteq> 0" and apart: "buffer_apart k buf 17"
    and holds: "disk (abs_fs k) nm = Some (overwrite bs 0 (map char_byte x))"
    and x: "length x = 17"
  shows "\<exists>k'. do_file_read d k c (of_nat fd) buf 17 = Inr (17, k') \<and> at_work c t k' \<and>
    calm (mem_range buf 17) {} k k' \<and> disk (abs_fs k') = disk (abs_fs k) \<and>
    opens (abs_fs k') = (opens (abs_fs k))(p \<mapsto> (nm, 17, md)) \<and> read_bytes (mem k') buf 17 = map char_byte x"
proof -
  have out: "map char_byte x = take 17 (drop 0 (the (disk (abs_fs k) nm)))" unfolding holds option.sel written_text [OF x] ..
  have n: "(17 :: nat) < 2 ^ 31" by simp
  from client_read [OF w fd op mode n apart out, of d] show ?thesis by (simp add: x)
qed


text \<open>The two ways the tests open a file: creating it for reading and writing, and reading what is there.\<close>

lemma test_create:
  assumes "at_work c t k" "free_fds t = fd # r" "page_source e (qs @ p # ps)"
    and "\<And>q. q \<in> set qs \<Longrightarrow> fheap k q \<noteq> None" and "fheap k p = None"
    and "fname \<in> set ns" "length fname < NAME_BYTES" "fname \<notin> {''stdin'', ''stdout'', ''stderr''}" and "room_for k ns"
  shows "\<exists>k' md. open_call e c fname (ucast (O_CREAT OR O_RDWR)) (ucast (O_READ OR O_WRITE)) k = Inr (int fd, k') \<and>
    at_work c (t[fd := Some p]) k' \<and> free_fds (t[fd := Some p]) = r \<and> calm {} {p} k k' \<and> room_for k' ns \<and>
    md AND O_WRITE \<noteq> 0 \<and> md AND O_READ \<noteq> 0 \<and> opens (abs_fs k') = (opens (abs_fs k))(p \<mapsto> (fname, 0, md))"
  using test_open [OF assms open_flags(1,3), of "ucast (O_READ OR O_WRITE)"] open_flags(4,5) by blast

lemma test_reopen:
  assumes "at_work c t k" "free_fds t = fd # r" "page_source e (qs @ p # ps)"
    and "\<And>q. q \<in> set qs \<Longrightarrow> fheap k q \<noteq> None" and "fheap k p = None"
    and "fname \<in> set ns" "length fname < NAME_BYTES" "fname \<notin> {''stdin'', ''stdout'', ''stderr''}" and "room_for k ns"
    and there: "disk (abs_fs k) fname = Some bs"
  shows "\<exists>k' md. open_call e c fname (ucast O_READ) r3 k = Inr (int fd, k') \<and> at_work c (t[fd := Some p]) k' \<and>
    calm {} {p} k k' \<and> disk (abs_fs k') = disk (abs_fs k) \<and> md AND O_READ \<noteq> 0 \<and> md AND O_WRITE = 0 \<and>
    opens (abs_fs k') = (opens (abs_fs k))(p \<mapsto> (fname, 0, md))"
proof -
  have "disk (abs_fs k) fname = None \<Longrightarrow> (ucast O_READ :: u64) AND ucast O_CREAT \<noteq> 0"
    "(if disk (abs_fs k) fname = None then d else disk (abs_fs k)) = disk (abs_fs k)" for d
    using there by simp_all
  from test_open [OF assms(1-9) open_flags(2) this(1), of r3] this(2) [of "(disk (abs_fs k))(fname \<mapsto> [])"] open_flags(6,7) show ?thesis by metis
qed


text \<open>The start the tests share: a file is created, and the text is written to it.\<close>

lemma test_start:
  assumes w: "at_work c t k" and fds: "free_fds t = fd # r" and src: "page_source e (p # ps)" and p: "fheap k p = None"
    and name: "fname \<in> set ns" "length fname < NAME_BYTES" "fname \<notin> {''stdin'', ''stdout'', ''stderr''}" and room: "room_for k ns"
    and buf: "holds_text x k buf"
  shows "\<exists>k1 k' md bs. open_call e c fname (ucast (O_CREAT OR O_RDWR)) (ucast (O_READ OR O_WRITE)) k = Inr (int fd, k1) \<and>
    do_file_write d k1 c (of_nat fd) buf 17 = Inr (17, k') \<and> at_work c (t[fd := Some p]) k' \<and> free_fds (t[fd := Some p]) = r \<and>
    calm {} {p} k k' \<and> room_for k' ns \<and> disk (abs_fs k') fname = Some (overwrite bs 0 (map char_byte x)) \<and>
    opens (abs_fs k') = (opens (abs_fs k))(p \<mapsto> (fname, 17, md))"
proof -
  have len: "length t = MAX_OPEN_FILES" using w by (simp add: at_work_def)
  note fd = free_fdsD(1) [OF fds len]
  from test_create [OF w fds _ _ p name room, of e "[]" ps] src
  obtain k1 md where k1: "open_call e c fname (ucast (O_CREAT OR O_RDWR)) (ucast (O_READ OR O_WRITE)) k = Inr (int fd, k1)"
    "at_work c (t[fd := Some p]) k1" "free_fds (t[fd := Some p]) = r" "calm {} {p} k k1" "room_for k1 ns" "md AND O_WRITE \<noteq> 0"
    "opens (abs_fs k1) = (opens (abs_fs k))(p \<mapsto> (fname, 0, md))" by auto
  have op: "opens (abs_fs k1) p = Some (fname, 0, md)" by (simp add: k1(7))
  from test_write [OF k1(2) fd nth_opened [OF len fd] op k1(6) calm_text [OF k1(4) buf] name(1) k1(5), of d]
  obtain k' where k': "do_file_write d k1 c (of_nat fd) buf 17 = Inr (17, k')" "at_work c (t[fd := Some p]) k'" "calm {} {} k1 k'"
    "room_for k' ns" "disk (abs_fs k') = (disk (abs_fs k1))(fname \<mapsto> overwrite (the (disk (abs_fs k1) fname)) 0 (map char_byte x))"
    "opens (abs_fs k') = (opens (abs_fs k1))(p \<mapsto> (fname, 17, md))" by blast
  have "calm {} {p} k k'" using calm_trans [OF k1(4) k'(3)] by simp
  moreover have "disk (abs_fs k') fname = Some (overwrite (the (disk (abs_fs k1) fname)) 0 (map char_byte x))" by (simp add: k'(5))
  moreover have "opens (abs_fs k') = (opens (abs_fs k))(p \<mapsto> (fname, 17, md))" by (simp add: k'(6) k1(7))
  ultimately show ?thesis using k1(1,3) k'(1,2,4) by blast
qed

lemma test_file: "''test.txt'' \<in> set [''test.txt'']" "length ''test.txt'' < NAME_BYTES"
  "''test.txt'' \<notin> {''stdin'', ''stdout'', ''stderr''}"
  by (simp_all add: fs_const)


lemma client_close_three:
  assumes w: "at_work c t k" and fds: "f1 < MAX_OPEN_FILES" "t ! f1 = Some p1" "f2 < MAX_OPEN_FILES" "t ! f2 = Some p2"
      "f3 < MAX_OPEN_FILES" "t ! f3 = Some p3" "f1 \<noteq> f2" "f1 \<noteq> f3" "f2 \<noteq> f3"
    and op: "opens (abs_fs k) p1 \<noteq> None" "opens (abs_fs k) p2 \<noteq> None" "opens (abs_fs k) p3 \<noteq> None"
  shows "\<exists>r1 k1 r2 k2 r3 k'. do_close k c (int f1) = Inr (r1, k1) \<and> do_close k1 c (int f2) = Inr (r2, k2) \<and>
    do_close k2 c (int f3) = Inr (r3, k') \<and> kernel_ok k'"
proof -
  have len: "length t = MAX_OPEN_FILES" using w by (simp add: at_work_def)
  obtain r1 k1 where k1: "do_close k c (int f1) = Inr (r1, k1)" "at_work c (t[f1 := None]) k1"
    "\<And>q. Some q \<in> set (t[f1 := None]) \<Longrightarrow> opens (abs_fs k1) q = opens (abs_fs k) q"
    using client_close [OF w fds(1,2) op(1)] by blast
  have "Some p2 \<in> set (t[f1 := None])" "Some p3 \<in> set (t[f1 := None])"
    using set_nth_update [of f2 f1 t "Some p2"] set_nth_update [of f3 f1 t "Some p3"] fds len by simp_all
  then have op1: "opens (abs_fs k1) p2 \<noteq> None" "opens (abs_fs k1) p3 \<noteq> None" using k1(3) op by simp_all
  have at: "t[f1 := None] ! f2 = Some p2" "t[f1 := None] ! f3 = Some p3" using fds len by simp_all
  from client_close_two [OF k1(2) fds(3) at(1) fds(5) at(2) fds(9) op1] k1(1) show ?thesis by blast
qed

text \<open>Going back to the start of a file.\<close>

lemma test_rewind:
  assumes w: "at_work c t k" and fd: "fd < MAX_OPEN_FILES" "t ! fd = Some p" and op: "opens (abs_fs k) p = Some (nm, off, md)"
  shows "\<exists>k'. do_lseek k c (int fd) 0 SEEK_SET = Inr (0, k') \<and> at_work c t k' \<and> calm {} {} k k' \<and>
    disk (abs_fs k') = disk (abs_fs k) \<and> opens (abs_fs k') = (opens (abs_fs k))(p \<mapsto> (nm, 0, md))"
  using client_seek [OF w fd op, where wh = SEEK_SET and offset = 0 and target = 0] by simp

text \<open>Sending the text from the start of one file to the start of another.\<close>

lemma test_send:
  assumes w: "at_work c t k" and fds: "fd < MAX_OPEN_FILES" "t ! fd = Some p" "gd < MAX_OPEN_FILES" "t ! gd = Some q" "p \<noteq> q"
    and op: "opens (abs_fs k) p = Some (nm, 0, md)" "opens (abs_fs k) q = Some (nm', 0, md')" "nm \<noteq> nm'"
    and mode: "md AND O_READ \<noteq> 0" "md' AND O_WRITE \<noteq> 0" and apart: "buffer_apart k buf 17"
    and holds: "disk (abs_fs k) nm = Some (overwrite bs 0 (map char_byte x))"
    and room: "nm' \<in> set ns" "room_for k ns"
    and x: "length x = 17"
  shows "\<exists>o' k' bs'. call_sendfile buf k c (of_nat gd) (of_nat fd) None 17 = Inr (17, o', k') \<and>
    at_work c t k' \<and> calm (mem_range buf 17) {} k k' \<and> room_for k' ns \<and>
    disk (abs_fs k') = (disk (abs_fs k))(nm' \<mapsto> overwrite bs' 0 (map char_byte x)) \<and>
    opens (abs_fs k') = (opens (abs_fs k))(p \<mapsto> (nm, 17, md), q \<mapsto> (nm', 17, md'))"
proof -
  have out: "map char_byte x = take 17 (drop 0 (the (disk (abs_fs k) nm)))" unfolding holds option.sel written_text [OF x] ..
  have fit: "0 + 17 \<le> FILE_SIZE" by (simp add: fs_const)
  from client_sendfile [OF w fds op mode fit apart out]
  obtain o' k' where k': "call_sendfile buf k c (of_nat gd) (of_nat fd) None 17 = Inr (17, o', k')"
    "at_work c t k'" "calm (mem_range buf 17) {} k k'"
    "disk (abs_fs k') = (disk (abs_fs k))(nm' \<mapsto> overwrite (the (disk (abs_fs k) nm')) 0 (map char_byte x))"
    "opens (abs_fs k') = (opens (abs_fs k))(p \<mapsto> (nm, 17, md), q \<mapsto> (nm', 17, md'))"
    by (auto simp: x)
  with room_written [OF room(2,1) k'(4)] show ?thesis by blast
qed


lemma send_files: "''test1.txt'' \<in> set [''test1.txt'', ''test2.txt'']" "length ''test1.txt'' < NAME_BYTES"
  "''test1.txt'' \<notin> {''stdin'', ''stdout'', ''stderr''}" "''test2.txt'' \<in> set [''test1.txt'', ''test2.txt'']"
  "length ''test2.txt'' < NAME_BYTES" "''test2.txt'' \<notin> {''stdin'', ''stdout'', ''stderr''}" "''test1.txt'' \<noteq> ''test2.txt''"
  by (simp_all add: fs_const)

text \<open>The first half of \<open>sendfile_test\<close>: both files are there, with the text at the start of each.\<close>

lemma sendfile_sent:
  assumes w: "at_work c t k" and fds: "free_fds t = a # b # r" and src: "page_source e (p0 # p1 # ps)" 
    and free: "fheap k p0 = None" "fheap k p1 = None" and room: "room_for k [''test1.txt'', ''test2.txt'']"
    and buf: "holds_text hello k buf" and page: "\<And>k. buffer_apart k0 (buff_page e k) 17" and k0: "store k0 = store k"
  shows "\<exists>k1 k2 k3 k4 o' k5 W md md' bs bs'.
    open_call e c ''test1.txt'' (ucast (O_CREAT OR O_RDWR)) (ucast (O_READ OR O_WRITE)) k = Inr (int a, k1) \<and>
    open_call e c ''test2.txt'' (ucast (O_CREAT OR O_RDWR)) (ucast (O_READ OR O_WRITE)) k1 = Inr (int b, k2) \<and>
    do_file_write (dev e) k2 c (of_nat a) buf 17 = Inr (17, k3) \<and> do_lseek k3 c (int a) 0 SEEK_SET = Inr (0, k4) \<and>
    call_sendfile (buff_page e k4) k4 c (of_nat b) (of_nat a) None 17 = Inr (17, o', k5) \<and>
    at_work c (t[a := Some p0, b := Some p1]) k5 \<and> free_fds (t[a := Some p0, b := Some p1]) = r \<and> calm W {p0, p1} k k5 \<and>
    room_for k5 [''test1.txt'', ''test2.txt''] \<and> md AND O_READ \<noteq> 0 \<and>
    disk (abs_fs k5) ''test1.txt'' = Some (overwrite bs 0 (map char_byte hello)) \<and>
    disk (abs_fs k5) ''test2.txt'' = Some (overwrite bs' 0 (map char_byte hello)) \<and>
    opens (abs_fs k5) p0 = Some (''test1.txt'', 17, md) \<and> opens (abs_fs k5) p1 = Some (''test2.txt'', 17, md')"
proof -
  let ?f = "''test1.txt''" and ?g = "''test2.txt''" let ?ns = "[?f, ?g]" let ?t1 = "t[a := Some p0]" let ?t2 = "?t1[b := Some p1]"
  have len: "length t = MAX_OPEN_FILES" "length ?t1 = MAX_OPEN_FILES" using w by (simp_all add: at_work_def)
  have a: "a < MAX_OPEN_FILES" and b: "b < MAX_OPEN_FILES" "a \<noteq> b" using free_fdsD(1,4) [OF fds len(1)] by auto
  have at: "?t2 ! a = Some p0" "?t2 ! b = Some p1" using len a b by simp_all
  have p: "p0 \<noteq> p1" using src by (simp add: page_source_def)
  from test_create [OF w fds _ _ free(1) send_files(1-3) room, of e "[]" "p1 # ps"] src
  obtain k1 md where k1: "open_call e c ?f (ucast (O_CREAT OR O_RDWR)) (ucast (O_READ OR O_WRITE)) k = Inr (int a, k1)"
    "at_work c ?t1 k1" "free_fds ?t1 = b # r" "calm {} {p0} k k1" "room_for k1 ?ns" "md AND O_WRITE \<noteq> 0" "md AND O_READ \<noteq> 0"
    "opens (abs_fs k1) = (opens (abs_fs k))(p0 \<mapsto> (?f, 0, md))" by auto
  have free1: "fheap k1 p1 = None" using calm_free [OF k1(4) _ free(2)] p by simp
  from test_create [OF k1(2,3) _ _ free1 send_files(4-6) k1(5), of e "[p0]" ps] src k1(8) opens_heap [of k1 p0]
  obtain k2 md' where k2: "open_call e c ?g (ucast (O_CREAT OR O_RDWR)) (ucast (O_READ OR O_WRITE)) k1 = Inr (int b, k2)"
    "at_work c ?t2 k2" "free_fds ?t2 = r" "calm {} {p1} k1 k2" "room_for k2 ?ns" "md' AND O_WRITE \<noteq> 0"
    "opens (abs_fs k2) = (opens (abs_fs k1))(p1 \<mapsto> (?g, 0, md'))" by auto
  note calm2 = calm_trans [OF k1(4) k2(4), simplified]
  have op2: "opens (abs_fs k2) p0 = Some (?f, 0, md)" using p by (simp add: k2(7) k1(8))
  from test_write [OF k2(2) a at(1) op2 k1(6) calm_text [OF calm2 buf] send_files(1) k2(5), of "dev e"]
  obtain k3 bs where k3: "do_file_write (dev e) k2 c (of_nat a) buf 17 = Inr (17, k3)" "at_work c ?t2 k3" "calm {} {} k2 k3"
    "room_for k3 ?ns" "disk (abs_fs k3) = (disk (abs_fs k2))(?f \<mapsto> overwrite bs 0 (map char_byte hello))"
    "opens (abs_fs k3) = (opens (abs_fs k2))(p0 \<mapsto> (?f, 17, md))" by blast
  have op3: "opens (abs_fs k3) p0 = Some (?f, 17, md)" by (simp add: k3(6))
  from test_rewind [OF k3(2) a at(1) op3]
  obtain k4 where k4: "do_lseek k3 c (int a) 0 SEEK_SET = Inr (0, k4)" "at_work c ?t2 k4" "calm {} {} k3 k4"
    "disk (abs_fs k4) = disk (abs_fs k3)" "opens (abs_fs k4) = (opens (abs_fs k3))(p0 \<mapsto> (?f, 0, md))" by blast
  note calm4 = calm_trans [OF calm_trans [OF calm2 k3(3)] k4(3), simplified]
  have room4: "room_for k4 ?ns" using k3(4) by (simp add: room_for_def k4(4))
  have op4: "opens (abs_fs k4) p0 = Some (?f, 0, md)" "opens (abs_fs k4) p1 = Some (?g, 0, md')"
    using p by (simp_all add: k4(5) k3(6) k2(7))
  have disk4: "disk (abs_fs k4) ?f = Some (overwrite bs 0 (map char_byte hello))" by (simp add: k4(4) k3(5))
  have "store k4 = store k0" using calm4 k0 by (simp add: calm_def)
  then have apart: "buffer_apart k4 (buff_page e k4) 17" using page by (simp add: apart_store)
  from test_send [OF k4(2) a at(1) b(1) at(2) p op4 send_files(7) k1(7) k2(6) apart disk4 send_files(4) room4 length_hello(1)]
  obtain o' k5 bs' where k5: "call_sendfile (buff_page e k4) k4 c (of_nat b) (of_nat a) None 17 = Inr (17, o', k5)"
    "at_work c ?t2 k5" "calm (mem_range (buff_page e k4) 17) {} k4 k5" "room_for k5 ?ns"
    "disk (abs_fs k5) = (disk (abs_fs k4))(?g \<mapsto> overwrite bs' 0 (map char_byte hello))"
    "opens (abs_fs k5) = (opens (abs_fs k4))(p0 \<mapsto> (?f, 17, md), p1 \<mapsto> (?g, 17, md'))" by blast
  have "calm (mem_range (buff_page e k4) 17) {p0, p1} k k5"
    using calm_trans [OF calm4 k5(3)] by (simp add: insert_commute)
  moreover have "disk (abs_fs k5) ?f = Some (overwrite bs 0 (map char_byte hello))"
    "disk (abs_fs k5) ?g = Some (overwrite bs' 0 (map char_byte hello))"
    using disk4 send_files(7) by (simp_all add: k5(5))
  moreover have "opens (abs_fs k5) p0 = Some (?f, 17, md)" "opens (abs_fs k5) p1 = Some (?g, 17, md')"
    using p by (simp_all add: k5(6))
  ultimately show ?thesis using k1(1,7) k2(1,3) k3(1) k4(1) k5(1,2,4) by blast
qed


lemma apart_arrays:
  assumes "mem_range buf1 18 \<inter> mem_range buf2 18 = {}"
  shows "buf1 + 17 \<notin> mem_range buf2 17" "buf2 + 17 \<notin> mem_range buf1 17" "mem_range buf2 17 \<inter> mem_range buf1 17 = {}"
proof -
  have sub: "mem_range b 17 \<subseteq> mem_range b 18" "b + 17 \<in> mem_range b 18" for b :: u64
    using mem_range_off [of 17 18 b] by (auto simp: mem_range_def)
  with assms show "buf1 + 17 \<notin> mem_range buf2 17" "buf2 + 17 \<notin> mem_range buf1 17" "mem_range buf2 17 \<inter> mem_range buf1 17 = {}"
    by blast+
qed

text \<open>The second half: the texts are read into the arrays and printed, and the descriptors closed.\<close>

lemma sendfile_shown:
  assumes w: "at_work c (t[a := Some p0, b := Some p1]) k"
    and fd: "a < MAX_OPEN_FILES" "b < MAX_OPEN_FILES" "d < MAX_OPEN_FILES" "a \<noteq> b" "d \<noteq> a" "d \<noteq> b"
    and len: "length t = MAX_OPEN_FILES" and fds: "free_fds (t[a := Some p0, b := Some p1]) = d # r"
    and src: "page_source e ([p0, p1] @ p2 # [])"
    and op: "opens (abs_fs k) p0 = Some (''test1.txt'', 17, md)" "opens (abs_fs k) p1 = Some (''test2.txt'', 17, md')"
    and holds: "disk (abs_fs k) ''test1.txt'' = Some (overwrite bs 0 (map char_byte hello))"
      "disk (abs_fs k) ''test2.txt'' = Some (overwrite bs' 0 (map char_byte hello))"
    and room: "room_for k [''test1.txt'', ''test2.txt'']" and mode: "md AND O_READ \<noteq> 0" and p: "p0 \<noteq> p1" "p2 \<noteq> p0" "p2 \<noteq> p1"
    and free: "fheap k p2 = None" and arrays: "buffer_apart k buf1 17" "buffer_apart k buf2 17"
      "mem_range buf1 18 \<inter> mem_range buf2 18 = {}"
  shows "\<exists>k6 k7 k8 k9 x k10 y k11 z k'. do_lseek k c (int a) 0 SEEK_SET = Inr (0, k6) \<and>
    open_call e c ''test2.txt'' (ucast O_READ) r3 k6 = Inr (int d, k7) \<and>
    do_file_read (dev e) k7 c (of_nat d) buf2 17 = Inr (17, k8) \<and> do_file_read (dev e) k8 c (of_nat a) buf1 17 = Inr (17, k9) \<and>
    print_array ''buf1 = '' buf1 (terminate buf1 (terminate buf2 k9)) = Inr (''buf1 = '' @ hello @ newline) \<and>
    print_array ''buf2 = '' buf2 (terminate buf1 (terminate buf2 k9)) = Inr (''buf2 = '' @ hello @ newline) \<and>
    do_close (terminate buf1 (terminate buf2 k9)) c (int d) = Inr (x, k10) \<and> do_close k10 c (int a) = Inr (y, k11) \<and>
    do_close k11 c (int b) = Inr (z, k') \<and> kernel_ok k'"
proof -
  let ?f = "''test1.txt''" and ?g = "''test2.txt''" let ?t2 = "t[a := Some p0, b := Some p1]" let ?t3 = "?t2[d := Some p2]"
  have at: "?t2 ! a = Some p0" "?t3 ! a = Some p0" "?t3 ! b = Some p1" "?t3 ! d = Some p2" using len fd by simp_all
  from test_rewind [OF w fd(1) at(1) op(1)]
  obtain k6 where k6: "do_lseek k c (int a) 0 SEEK_SET = Inr (0, k6)" "at_work c ?t2 k6" "calm {} {} k k6"
    "disk (abs_fs k6) = disk (abs_fs k)" "opens (abs_fs k6) = (opens (abs_fs k))(p0 \<mapsto> (?f, 0, md))" by blast
  have room6: "room_for k6 [?f, ?g]" using room by (simp add: room_for_def k6(4))
  have open6: "\<And>q. q \<in> set [p0, p1] \<Longrightarrow> fheap k6 q \<noteq> None"
    using op p opens_heap [of k6 p0] opens_heap [of k6 p1] by (auto simp: k6(5))
  have free6: "fheap k6 p2 = None" using calm_free [OF k6(3) _ free] by simp
  from test_reopen [OF k6(2) fds src open6 free6 send_files(4-6) room6 holds(2) [folded k6(4)], of r3]
  obtain k7 md2 where k7: "open_call e c ?g (ucast O_READ) r3 k6 = Inr (int d, k7)" "at_work c ?t3 k7" "calm {} {p2} k6 k7"
    "disk (abs_fs k7) = disk (abs_fs k6)" "md2 AND O_READ \<noteq> 0" "opens (abs_fs k7) = (opens (abs_fs k6))(p2 \<mapsto> (?g, 0, md2))" by blast
  note calm7 = calm_trans [OF k6(3) k7(3)]
  have op7: "opens (abs_fs k7) p2 = Some (?g, 0, md2)" "opens (abs_fs k7) p0 = Some (?f, 0, md)"
    "opens (abs_fs k7) p1 = Some (?g, 17, md')" using p op by (simp_all add: k7(6) k6(5))
  have disk7: "disk (abs_fs k7) ?f = Some (overwrite bs 0 (map char_byte hello))"
    "disk (abs_fs k7) ?g = Some (overwrite bs' 0 (map char_byte hello))" using holds by (simp_all add: k7(4) k6(4))
  have apart2: "buffer_apart k7 buf2 17" using arrays(2) calm_apart [OF calm7] by simp
  from test_read [OF k7(2) fd(3) at(4) op7(1) k7(5) apart2 disk7(2) length_hello(1), of "dev e"]
  obtain k8 where k8: "do_file_read (dev e) k7 c (of_nat d) buf2 17 = Inr (17, k8)" "at_work c ?t3 k8"
    "calm (mem_range buf2 17) {} k7 k8" "disk (abs_fs k8) = disk (abs_fs k7)"
    "opens (abs_fs k8) = (opens (abs_fs k7))(p2 \<mapsto> (?g, 17, md2))" "read_bytes (mem k8) buf2 17 = map char_byte hello" by blast
  note calm8 = calm_trans [OF calm7 k8(3)]
  have op8: "opens (abs_fs k8) p0 = Some (?f, 0, md)" using p op7(2) by (simp add: k8(5))
  have apart: "buffer_apart k8 buf1 17" "buffer_apart k8 buf2 17" using arrays(1,2) calm_apart [OF calm8] by simp_all
  from test_read [OF k8(2) fd(1) at(2) op8 mode apart(1) disk7(1) [folded k8(4)] length_hello(1), of "dev e"]
  obtain k9 where k9: "do_file_read (dev e) k8 c (of_nat a) buf1 17 = Inr (17, k9)" "at_work c ?t3 k9"
    "calm (mem_range buf1 17) {} k8 k9" "opens (abs_fs k9) = (opens (abs_fs k8))(p0 \<mapsto> (?f, 17, md))"
    "read_bytes (mem k9) buf1 17 = map char_byte hello" by blast
  note far = apart_arrays [OF arrays(3)]
  let ?k = "terminate buf1 (terminate buf2 k9)"
  have "read_bytes (mem k9) buf2 17 = map char_byte hello" using calm_bytes [OF k9(3) apart(2) far(3)] k8(6) by simp
  then have text2: "read_bytes (mem ?k) buf2 17 = map char_byte hello"
    unfolding terminated_bytes [OF far(1)] terminated_bytes [OF own_terminator] .
  have text1: "read_bytes (mem ?k) buf1 17 = map char_byte hello"
    unfolding terminated_bytes [OF far(2)] terminated_bytes [OF own_terminator] by (rule k9(5))
  have shown: "print_array ''buf1 = '' buf1 ?k = Inr (''buf1 = '' @ hello @ newline)"
    "print_array ''buf2 = '' buf2 ?k = Inr (''buf2 = '' @ hello @ newline)"
    by (rule print_terminated [OF text1 _ _ length_hello], simp, simp) (rule print_terminated [OF text2 _ _ length_hello], simp, simp)
  have op9: "opens (abs_fs ?k) p2 \<noteq> None" "opens (abs_fs ?k) p0 \<noteq> None" "opens (abs_fs ?k) p1 \<noteq> None"
    using op7(3) p by (simp_all add: k9(4) k8(5))
  from client_close_three [OF at_work_terminate [OF at_work_terminate [OF k9(2)]] fd(3) at(4) fd(1) at(2) fd(2) at(3) fd(5,6,4) op9]
  show ?thesis using k6(1) k7(1) k8(1) k9(1) shown by blast
qed


text \<open>The two halves of \<open>common_ops\<close>: the file is written by a descriptor that cannot read, and read by one that cannot write.\<close>

lemma free_update: "free_fds t = fd # r \<Longrightarrow> length t = MAX_OPEN_FILES \<Longrightarrow> t[fd := x, fd := None] = t"
  using find_Some_iff [of "\<lambda>fd. t ! fd = None" "[3..<MAX_OPEN_FILES]" fd] free_fdsD(2) [of t fd r]
  by (metis list_update_id list_update_overwrite)

lemma pick_page:
  assumes "page_source e ps" "q \<in> set ps" "fheap k q = None"
  shows "\<exists>qs p rs. page_source e (qs @ p # rs) \<and> (\<forall>q \<in> set qs. fheap k q \<noteq> None) \<and> fheap k p = None"
proof -
  have "\<exists>x \<in> set ps. fheap k x = None" using assms(2,3) by blast
  from split_list_first_prop [OF this] obtain qs p rs where "ps = qs @ p # rs" "fheap k p = None" "\<forall>y \<in> set qs. fheap k y \<noteq> None"
    by blast
  with assms(1) show ?thesis by blast
qed

lemma common_file: "''testFile'' \<in> set [''testFile'']" "length ''testFile'' < NAME_BYTES"
  "''testFile'' \<notin> {''stdin'', ''stdout'', ''stderr''}"
  by (simp_all add: fs_const)

lemma common_written:
  assumes w: "at_work c t k" and fds: "free_fds t = a # r" and src: "page_source e (p # ps)" and p: "fheap k p = None"
    and room: "room_for k [''testFile'']" and buf: "holds_text x k buf"
  shows "\<exists>k1 k2 k3 bs. open_call e c ''testFile'' (ucast (O_CREAT OR O_WRITE)) (ucast (O_READ OR O_WRITE)) k = Inr (int a, k1) \<and>
    do_file_write (dev e) k1 c (of_nat a) buf 17 = Inr (17, k2) \<and> do_file_read (dev e) k2 c (of_nat a) buf1 17 = Inr (-4, k2) \<and>
    do_close k2 c (int a) = Inr (None, k3) \<and> do_close k3 c (int a) = Inr (Some (-1), k3) \<and>
    at_work c t k3 \<and> calm {} {p} k k3 \<and> room_for k3 [''testFile''] \<and>
    disk (abs_fs k3) ''testFile'' = Some (overwrite bs 0 (map char_byte x))"
proof -
  let ?nm = "''testFile''" and ?md = "ucast ((ucast (O_CREAT OR O_WRITE) :: u64) XOR ucast O_CREAT) :: u32"
  have len: "length t = MAX_OPEN_FILES" using w by (simp add: at_work_def)
  note fd = free_fdsD(1) [OF fds len]
  have src': "page_source e ([] @ p # ps)" using src by simp
  from test_open [OF w fds src' _ p common_file room open_flags(8,9), of "ucast (O_READ OR O_WRITE)"]
  obtain k1 where k1: "open_call e c ?nm (ucast (O_CREAT OR O_WRITE)) (ucast (O_READ OR O_WRITE)) k = Inr (int a, k1)"
    "at_work c (t[a := Some p]) k1" "calm {} {p} k k1" "room_for k1 [?nm]"
    "opens (abs_fs k1) = (opens (abs_fs k))(p \<mapsto> (?nm, 0, ?md))" by auto
  have op1: "opens (abs_fs k1) p = Some (?nm, 0, ?md)" by (simp add: k1(5))
  note at = nth_opened [OF len fd]
  from test_write [OF k1(2) fd at op1 open_flags(10) calm_text [OF k1(3) buf] common_file(1) k1(4), of "dev e"]
  obtain k2 where k2: "do_file_write (dev e) k1 c (of_nat a) buf 17 = Inr (17, k2)" "at_work c (t[a := Some p]) k2" "calm {} {} k1 k2"
    "room_for k2 [?nm]" "disk (abs_fs k2) = (disk (abs_fs k1))(?nm \<mapsto> overwrite (the (disk (abs_fs k1) ?nm)) 0 (map char_byte x))"
    "opens (abs_fs k2) = (opens (abs_fs k1))(p \<mapsto> (?nm, 17, ?md))" by blast
  have op2: "opens (abs_fs k2) p = Some (?nm, 17, ?md)" by (simp add: k2(6))
  have refused: "do_file_read (dev e) k2 c (of_nat a) buf1 17 = Inr (-4, k2)"
    using access_refused(1) [OF k2(2) fd at op2 open_flags(11)] .
  from client_close [OF k2(2) fd at] op2 free_update [OF fds len, of "Some p"]
  obtain k3 where k3: "do_close k2 c (int a) = Inr (None, k3)" "at_work c t k3" "calm {} {} k2 k3" "disk (abs_fs k3) = disk (abs_fs k2)"
    by auto
  have "t ! a = None" using free_fdsD(2) [OF fds len] by (simp add: find_Some_iff) blast
  from close_refused [OF k3(2) fd this] have again: "do_close k3 c (int a) = Inr (Some (-1), k3)" .
  have "calm {} {p} k k3" using calm_trans [OF calm_trans [OF k1(3) k2(3)] k3(3)] by simp
  moreover have "room_for k3 [?nm]" using k2(4) by (simp add: room_for_def k3(4))
  moreover have "disk (abs_fs k3) ?nm = Some (overwrite (the (disk (abs_fs k1) ?nm)) 0 (map char_byte x))" by (simp add: k3(4) k2(5))
  ultimately show ?thesis using k1(1) k2(1) refused k3(1,2) again by blast
qed

lemma common_read:
  assumes w: "at_work c t k" and fds: "free_fds t = a # r" and src: "page_source e (qs @ p # ps)"
    and qs: "\<And>q. q \<in> set qs \<Longrightarrow> fheap k q \<noteq> None" and p: "fheap k p = None" and room: "room_for k [''testFile'']"
    and there: "disk (abs_fs k) ''testFile'' = Some (overwrite bs 0 (map char_byte x))"
    and apart: "buffer_apart k buf1 17" and x: "length x = 17" "CHR 0x00 \<notin> set x"
  shows "\<exists>k1 k2 k'. open_call e c ''testFile'' (ucast O_READ) r3 k = Inr (int a, k1) \<and>
    do_file_read (dev e) k1 c (of_nat a) buf1 17 = Inr (17, k2) \<and>
    print_array '''' buf1 (terminate buf1 k2) = Inr (x @ newline) \<and>
    do_file_write (dev e) (terminate buf1 k2) c (of_nat a) buf 17 = Inr (-4, terminate buf1 k2) \<and>
    do_close (terminate buf1 k2) c (int a) = Inr (None, k') \<and> do_close k' c (int a) = Inr (Some (-1), k') \<and> kernel_ok k'"
proof -
  let ?nm = "''testFile''"
  have len: "length t = MAX_OPEN_FILES" using w by (simp add: at_work_def)
  note fd = free_fdsD(1) [OF fds len] note at = nth_opened [OF len fd]
  from test_reopen [OF w fds src qs p common_file room there, of r3]
  obtain k1 md where k1: "open_call e c ?nm (ucast O_READ) r3 k = Inr (int a, k1)" "at_work c (t[a := Some p]) k1" "calm {} {p} k k1"
    "disk (abs_fs k1) = disk (abs_fs k)" "md AND O_READ \<noteq> 0" "md AND O_WRITE = 0"
    "opens (abs_fs k1) = (opens (abs_fs k))(p \<mapsto> (?nm, 0, md))" by blast
  have op1: "opens (abs_fs k1) p = Some (?nm, 0, md)" by (simp add: k1(7))
  have "buffer_apart k1 buf1 17" using apart calm_apart [OF k1(3)] by simp
  from test_read [OF k1(2) fd at op1 k1(5) this there [folded k1(4)] x(1), of "dev e"]
  obtain k2 where k2: "do_file_read (dev e) k1 c (of_nat a) buf1 17 = Inr (17, k2)" "at_work c (t[a := Some p]) k2"
    "opens (abs_fs k2) = (opens (abs_fs k1))(p \<mapsto> (?nm, 17, md))" "read_bytes (mem k2) buf1 17 = map char_byte x" by blast
  let ?k = "terminate buf1 k2"
  have "read_bytes (mem ?k) buf1 17 = map char_byte x" unfolding terminated_bytes [OF own_terminator] by (rule k2(4))
  then have shown: "print_array '''' buf1 ?k = Inr (x @ newline)" using print_terminated [of ?k buf1 x "''''"] x by simp
  have op: "opens (abs_fs ?k) p = Some (?nm, 17, md)" by (simp add: k2(3))
  note w2 = at_work_terminate [OF k2(2), of buf1]
  from client_close [OF w2 fd at] op free_update [OF fds len, of "Some p"]
  obtain k' where k': "do_close ?k c (int a) = Inr (None, k')" "at_work c t k'" by auto
  have "t ! a = None" using free_fdsD(2) [OF fds len] by (simp add: find_Some_iff) blast
  from close_refused [OF k'(2) fd this] have "do_close k' c (int a) = Inr (Some (-1), k')" .
  then show ?thesis using k1(1) k2(1) shown access_refused(2) [OF w2 fd at op k1(6)] k' by (auto simp: at_work_def)
qed

end
