(* ===== verification/FileTestProperties.thy ===== *)
theory FileTestProperties
  imports ProgramProperties FileTests
begin

text \<open>
  The test programs of the file calls print what their expected outputs say, on any kernel that is in order and has
  room for their descriptors and files.
\<close>

section \<open>The tests of the file calls\<close>

text \<open>
  C16: \<^verbatim>\<open>open_read_write.c\<close>, run by a process with two free descriptors on a kernel with room for its file: all
  its calls succeed and what it prints is the expected output of the test, the two counts and the text it wrote
  and read back, whatever a file of that name held before.
\<close>

theorem open_read_write_passes:
  assumes ready: "file_test_ready e c [a, b] [p0, p1] [''test.txt''] k"
    and buf: "holds_text hello k buf" and buf1: "buffer_apart k buf1 17"
  shows "\<exists>k'. open_read_write e c r3 buf buf1 k =
     Inr (''17'' @ newline @ ''17'' @ newline @ hello @ newline, k') \<and> kernel_ok k'"
proof -
  let ?nm = "''test.txt''"
  have src: "page_source e (p0 # [p1])" "page_source e ([p0] @ p1 # [])" and room: "room_for k [?nm]"
    and free: "fheap k p0 = None" "fheap k p1 = None" using ready by (simp_all add: file_test_ready_def)
  have p: "p0 \<noteq> p1" using src(1) by (simp add: page_source_def)
  obtain t r where w: "at_work c t k" and fds: "free_fds t = a # b # r" using ready by (auto simp: file_test_ready_def)
  have len: "length t = MAX_OPEN_FILES" using w by (simp add: at_work_def)
  note fd = free_fdsD [OF fds len]
  have b: "b \<noteq> a" "b < MAX_OPEN_FILES" using fd(4) by simp_all
  let ?t1 = "t[a := Some p0]" and ?t2 = "t[a := Some p0, b := Some p1]"
  from test_start [OF w fds src(1) free(1) test_file room buf, of "dev e"]
  obtain k1 k2 md old where k1: "open_call e c ?nm (ucast (O_CREAT OR O_RDWR)) (ucast (O_READ OR O_WRITE)) k = Inr (int a, k1)"
    and k2: "do_file_write (dev e) k1 c (of_nat a) buf 17 = Inr (17, k2)" "at_work c ?t1 k2" "free_fds ?t1 = b # r"
      "calm {} {p0} k k2" "room_for k2 [?nm]" and there: "disk (abs_fs k2) ?nm = Some (overwrite old 0 (map char_byte hello))"
    and op2: "opens (abs_fs k2) = (opens (abs_fs k))(p0 \<mapsto> (?nm, 17, md))" by blast
  have free2: "fheap k2 p1 = None" using calm_free [OF k2(4) _ free(2)] p by simp
  have open0: "\<And>q. q \<in> set [p0] \<Longrightarrow> fheap k2 q \<noteq> None" using opens_heap [of k2 p0] by (simp add: op2)
  from test_reopen [OF k2(2,3) src(2) open0 free2 test_file k2(5) there, of r3]
  obtain k3 md' where k3: "open_call e c ?nm (ucast O_READ) r3 k2 = Inr (int b, k3)" "at_work c ?t2 k3" "calm {} {p1} k2 k3"
    "disk (abs_fs k3) = disk (abs_fs k2)" "md' AND O_READ \<noteq> 0"
    "opens (abs_fs k3) = (opens (abs_fs k2))(p1 \<mapsto> (?nm, 0, md'))" by blast
  have op3: "opens (abs_fs k3) p1 = Some (?nm, 0, md')" "opens (abs_fs k3) p0 \<noteq> None" using p by (simp_all add: k3(6) op2)
  have len1: "length ?t1 = MAX_OPEN_FILES" using len by simp
  have apart: "buffer_apart k3 buf1 17" using buf1 calm_apart [OF calm_trans [OF k2(4) k3(3)]] by simp
  from test_read [OF k3(2) b(2) nth_opened [OF len1 b(2)] op3(1) k3(5) apart there [folded k3(4)] length_hello(1), of "dev e"]
  obtain k4 where k4: "do_file_read (dev e) k3 c (of_nat b) buf1 17 = Inr (17, k4)" "at_work c ?t2 k4"
    "opens (abs_fs k4) p1 \<noteq> None" "opens (abs_fs k4) p0 \<noteq> None" "read_bytes (mem k4) buf1 17 = map char_byte hello"
    using op3(2) p by auto
  let ?k5 = "terminate buf1 k4"
  have "read_bytes (mem ?k5) buf1 17 = map char_byte hello" unfolding terminated_bytes [OF own_terminator] by (rule k4(5))
  then have shown: "print_array '''' buf1 ?k5 = Inr (hello @ newline)" using print_terminated [of ?k5 buf1 hello "''''"] length_hello by simp
  have at: "?t2 ! b = Some p1" "?t2 ! a = Some p0" using len b fd(1) by simp_all
  have op5: "opens (abs_fs ?k5) p1 \<noteq> None" "opens (abs_fs ?k5) p0 \<noteq> None" using k4(3,4) by simp_all
  from client_close_two [OF at_work_terminate [OF k4(2)] b(2) at(1) fd(1) at(2) b(1) op5]
  obtain x k6 y k' where "do_close ?k5 c (int b) = Inr (x, k6)" "do_close k6 c (int a) = Inr (y, k')" "kernel_ok k'" by blast
  then show ?thesis
    by (simp add: open_read_write_def k1 k2(1) k3(1) k4(1) print_numbers shown)
qed

text \<open>
  \<^verbatim>\<open>dup2_lseek.c\<close>: duplicating the descriptor of the file to 15 prints 15, whatever was open there, and the
  position after the write, asked for with \<open>lseek\<close>, is printed as 17.
\<close>

theorem dup2_lseek_passes:
  assumes ready: "file_test_ready e c [a] [p0] [''test.txt''] k" and fifteen: "a \<noteq> 15" and buf: "holds_text hello k buf"
  shows "\<exists>k'. dup2_lseek e c buf k = Inr (''15'' @ newline @ ''17'' @ newline, k') \<and> kernel_ok k'"
proof -
  let ?nm = "''test.txt''"
  have src: "page_source e (p0 # [])" and room: "room_for k [?nm]"
    and free: "fheap k p0 = None" using ready by (simp_all add: file_test_ready_def)
  obtain t r where w: "at_work c t k" and fds: "free_fds t = a # r" using ready by (auto simp: file_test_ready_def)
  have len: "length t = MAX_OPEN_FILES" using w by (simp add: at_work_def)
  note a = free_fdsD(1) [OF fds len]
  have new: "15 < MAX_OPEN_FILES" "15 \<noteq> a" using fifteen by (simp_all add: k_const)
  let ?t1 = "t[a := Some p0]"
  from test_start [OF w fds src free test_file room buf, of "dev e"]
  obtain k1 k2 md old where k1: "open_call e c ?nm (ucast (O_CREAT OR O_RDWR)) (ucast (O_READ OR O_WRITE)) k = Inr (int a, k1)"
    and k2: "do_file_write (dev e) k1 c (of_nat a) buf 17 = Inr (17, k2)" "at_work c ?t1 k2"
    and there: "disk (abs_fs k2) ?nm = Some (overwrite old 0 (map char_byte hello))"
    and op2: "opens (abs_fs k2) = (opens (abs_fs k))(p0 \<mapsto> (?nm, 17, md))" by blast
  have op: "opens (abs_fs k2) p0 = Some (?nm, 17, md)" by (simp add: op2)
  from client_dup2 [OF k2(2) a nth_opened [OF len a] new op]
  obtain k3 where k3: "do_dup2 k2 c (int a) (int 15) = Inr (int 15, k3)" "at_work c (?t1[15 := Some p0]) k3"
    "disk (abs_fs k3) = disk (abs_fs k2)" "opens (abs_fs k3) p0 = Some (?nm, 17, md)" by blast
  have at: "?t1[15 := Some p0] ! a = Some p0" using a new len by simp
  have long: "int 17 + 0 \<le> int (length (the (disk (abs_fs k3) ?nm)))"
    using length_hello(1) by (simp add: k3(3) there overwrite_def)
  from client_seek [OF k3(2) a at k3(4), where wh = SEEK_CUR and offset = 0 and target = "int 17 + 0"] long
  obtain k' where "do_lseek k3 c (int a) 0 SEEK_CUR = Inr (17, k')" "at_work c (?t1[15 := Some p0]) k'" by auto
  then show ?thesis using k3(1) k2(1) by (simp add: dup2_lseek_def k1 print_numbers at_work_def)
qed

text \<open>
  C14: \<^verbatim>\<open>sendfile.c\<close>, run by a process with three free descriptors on a kernel with room for its two files: what
  was written to the first file is sent to the second, and both are read back and printed as the expected output
  says. Its arrays and the page \<open>sendfile\<close> copies through lie outside the file store.
\<close>

theorem sendfile_passes:
  assumes ready: "file_test_ready e c [a, b, d] [p0, p1, p2] [''test1.txt'', ''test2.txt''] k" and buf: "holds_text hello k buf"
    and page: "\<And>k'. buffer_apart k (buff_page e k') 17"
    and arrays: "buffer_apart k buf1 17" "buffer_apart k buf2 17" "mem_range buf1 18 \<inter> mem_range buf2 18 = {}"
  shows "\<exists>k'. sendfile_test e c r3 buf buf1 buf2 k =
    Inr (''buf1 = '' @ hello @ newline @ ''buf2 = '' @ hello @ newline, k') \<and> kernel_ok k'"
proof -
  let ?f = "''test1.txt''" and ?g = "''test2.txt''" let ?ns = "[?f, ?g]"
  have src: "page_source e (p0 # p1 # [p2])" "page_source e ([p0, p1] @ p2 # [])" and room: "room_for k ?ns"
    and free: "fheap k p0 = None" "fheap k p1 = None" "fheap k p2 = None" using ready by (simp_all add: file_test_ready_def)
  have p: "p0 \<noteq> p1" "p2 \<noteq> p0" "p2 \<noteq> p1" using src(1) by (auto simp: page_source_def)
  obtain t r where w: "at_work c t k" and fds: "free_fds t = a # b # d # r" using ready by (auto simp: file_test_ready_def)
  have len: "length t = MAX_OPEN_FILES" using w by (simp add: at_work_def)
  from sendfile_sent [OF w fds src(1) free(1,2) room buf page refl]
  obtain k1 k2 k3 k4 o' k5 W md md' bs bs' where
    k5: "open_call e c ?f (ucast (O_CREAT OR O_RDWR)) (ucast (O_READ OR O_WRITE)) k = Inr (int a, k1)"
      "open_call e c ?g (ucast (O_CREAT OR O_RDWR)) (ucast (O_READ OR O_WRITE)) k1 = Inr (int b, k2)"
      "do_file_write (dev e) k2 c (of_nat a) buf 17 = Inr (17, k3)" "do_lseek k3 c (int a) 0 SEEK_SET = Inr (0, k4)"
      "call_sendfile (buff_page e k4) k4 c (of_nat b) (of_nat a) None 17 = Inr (17, o', k5)"
    and w5: "at_work c (t[a := Some p0, b := Some p1]) k5" "free_fds (t[a := Some p0, b := Some p1]) = d # r"
      "calm W {p0, p1} k k5" "room_for k5 ?ns" "md AND O_READ \<noteq> 0"
    and disk5: "disk (abs_fs k5) ?f = Some (overwrite bs 0 (map char_byte hello))"
      "disk (abs_fs k5) ?g = Some (overwrite bs' 0 (map char_byte hello))"
    and op5: "opens (abs_fs k5) p0 = Some (?f, 17, md)" "opens (abs_fs k5) p1 = Some (?g, 17, md')" by blast
  have fd: "a < MAX_OPEN_FILES" "b < MAX_OPEN_FILES" "d < MAX_OPEN_FILES" "a \<noteq> b" "d \<noteq> a" "d \<noteq> b"
    using free_fdsD(1,4) [OF fds len] free_fdsD(4) [OF w5(2)] len
      free_fdsD(4) [of "t[a := Some p0]" b "d # r"] free_fdsD(3) [OF fds len, of p0] by auto
  note tail = sendfile_shown [OF w5(1) fd(1-6) len w5(2) src(2) op5 disk5 w5(4,5) p]
  have free5: "fheap k5 p2 = None" using calm_free [OF w5(3) _ free(3)] p by simp
  have apart: "buffer_apart k5 buf1 17" "buffer_apart k5 buf2 17" using arrays(1,2) calm_apart [OF w5(3)] by simp_all
  from tail [OF free5 apart arrays(3), of r3]
  obtain k6 k7 k8 k9 x k10 y k11 z k' where
    "do_lseek k5 c (int a) 0 SEEK_SET = Inr (0, k6)" "open_call e c ?g (ucast O_READ) r3 k6 = Inr (int d, k7)"
    "do_file_read (dev e) k7 c (of_nat d) buf2 17 = Inr (17, k8)" "do_file_read (dev e) k8 c (of_nat a) buf1 17 = Inr (17, k9)"
    "print_array ''buf1 = '' buf1 (terminate buf1 (terminate buf2 k9)) = Inr (''buf1 = '' @ hello @ newline)"
    "print_array ''buf2 = '' buf2 (terminate buf1 (terminate buf2 k9)) = Inr (''buf2 = '' @ hello @ newline)"
    "do_close (terminate buf1 (terminate buf2 k9)) c (int d) = Inr (x, k10)" "do_close k10 c (int a) = Inr (y, k11)"
    "do_close k11 c (int b) = Inr (z, k')" "kernel_ok k'" by blast
  then show ?thesis by (simp add: sendfile_test_def k5)
qed

text \<open>
  C15: \<^verbatim>\<open>common_ops.c\<close>: the calls answer as the comments of the test say, a descriptor that is not open for reading
  or writing with -4 and a closed one with -1, and both opens give the same descriptor. Only where a close succeeds
  the line printed is what the result register held (\<open>g 0\<close> and \<open>g 2\<close>): the expected 0 is printed when it held 0.
\<close>

theorem common_ops_passes:
  assumes ready: "file_test_ready e c [a] [p0, p1] [''testFile''] k"
    and buf: "holds_text ''#include<stdio.h>'' k buf" and buf1: "buffer_apart k buf1 17"
    and shown: "print_number (int a) = Inr fd_line" "print_number (g 0) = Inr line1" "print_number (g 2) = Inr line2"
  shows "\<exists>k'. common_ops e c r3 g buf buf1 k =
    Inr (fd_line @ ''17'' @ newline @ ''-4'' @ newline @ line1 @ ''-1'' @ newline @
      fd_line @ ''17'' @ newline @ ''#include<stdio.h>'' @ newline @ ''-4'' @ newline @ line2 @ ''-1'' @ newline, k') \<and> kernel_ok k'"
proof -
  let ?x = "''#include<stdio.h>''"
  have src: "page_source e (p0 # [p1])" and room: "room_for k [''testFile'']" and free: "fheap k p0 = None" "fheap k p1 = None"
    using ready by (simp_all add: file_test_ready_def)
  have p: "p0 \<noteq> p1" using src by (simp add: page_source_def)
  obtain t r where w: "at_work c t k" and fds: "free_fds t = a # r" using ready by (auto simp: file_test_ready_def)
  from common_written [OF w fds src free(1) room buf, of buf1]
  obtain k1 k2 k3 bs where k3: "open_call e c ''testFile'' (ucast (O_CREAT OR O_WRITE)) (ucast (O_READ OR O_WRITE)) k = Inr (int a, k1)"
      "do_file_write (dev e) k1 c (of_nat a) buf 17 = Inr (17, k2)" "do_file_read (dev e) k2 c (of_nat a) buf1 17 = Inr (-4, k2)"
      "do_close k2 c (int a) = Inr (None, k3)" "do_close k3 c (int a) = Inr (Some (-1), k3)"
    and w3: "at_work c t k3" "calm {} {p0} k k3" "room_for k3 [''testFile'']"
      "disk (abs_fs k3) ''testFile'' = Some (overwrite bs 0 (map char_byte ?x))" by blast
  have "fheap k3 p1 = None" using calm_free [OF w3(2) _ free(2)] p by simp
  from pick_page [OF src _ this] obtain qs q rs where q: "page_source e (qs @ q # rs)" "\<And>y. y \<in> set qs \<Longrightarrow> fheap k3 y \<noteq> None"
    "fheap k3 q = None" by auto
  have apart: "buffer_apart k3 buf1 17" using buf1 calm_apart [OF w3(2)] by simp
  have x: "length ?x = 17" "CHR 0x00 \<notin> set ?x" by simp_all
  from common_read [OF w3(1) fds q w3(3,4) apart x, of r3 buf]
  obtain k4 k5 k' where k5: "open_call e c ''testFile'' (ucast O_READ) r3 k3 = Inr (int a, k4)"
    "do_file_read (dev e) k4 c (of_nat a) buf1 17 = Inr (17, k5)" "print_array '''' buf1 (terminate buf1 k5) = Inr (?x @ newline)"
    "do_file_write (dev e) (terminate buf1 k5) c (of_nat a) buf 17 = Inr (-4, terminate buf1 k5)"
    "do_close (terminate buf1 k5) c (int a) = Inr (None, k')" "do_close k' c (int a) = Inr (Some (-1), k')" "kernel_ok k'" by blast
  show ?thesis unfolding common_ops_def using k5(7)
    by (simp add: k3 k5(1-6) print_numbers shown close_value_def)
qed

section \<open>A sample\<close>

text \<open>The sample kernel with the text in an array of the process, and an allocator of three pages for file objects.\<close>

definition text_kernel :: "string \<Rightarrow> kernel" where
  "text_kernel x = sample_kernel\<lparr>mem := (\<lambda>a. if unat (a - user_buf) < 17 then map char_byte x ! unat (a - user_buf) else 0)\<rparr>"

definition pages_env :: env where
  "pages_env = sample_env\<lparr>file_page := (\<lambda>k. (case find (\<lambda>p. fheap k p = None) [20, 21, 22] of Some p \<Rightarrow> p | None \<Rightarrow> 0, zero_page))\<rparr>"

lemma pages_source: "page_source pages_env [20]" "page_source pages_env [20, 21]" "page_source pages_env [20, 21, 22]"
  unfolding page_source_def pages_env_def by (simp_all split: option.splits)

lemma text_apart: "n \<le> 4096 \<Longrightarrow> buffer_apart (text_kernel x) user_buf n"
  using sample_apart [of n] by (simp add: buffer_apart_def text_kernel_def)

lemma text_arrays: "buffer_apart (text_kernel x) (user_buf + 512) 17" "buffer_apart (text_kernel x) (user_buf + 1024) 17"
  by (rule user_buffer_apart; simp add: text_kernel_def sample_fs_wf user_buf_def)+

lemma arrays_apart: "mem_range (user_buf + 512) 18 \<inter> mem_range (user_buf + 1024) 18 = {}"
proof -
  have "x \<notin> mem_range (user_buf + 1024) 18" if "x \<in> mem_range (user_buf + 512) 18" for x
    using that mem_range_interval [of "user_buf + 512" 18 x] mem_range_interval [of "user_buf + 1024" 18 x]
    by (simp add: user_buf_def)
  then show ?thesis by blast
qed

lemma text_held: "length x = 17 \<Longrightarrow> holds_text x (text_kernel x) user_buf"
proof -
  assume x: "length x = 17"
  have "read_bytes (mem (text_kernel x)) user_buf 17 = map char_byte x"
  proof (rule nth_equalityI)
    fix i assume "i < length (read_bytes (mem (text_kernel x)) user_buf 17)"
    then have i: "i < 17" by (simp add: read_bytes_def)
    then have "unat (of_nat i :: u64) = i" by (simp add: unat_of_nat)
    with i show "read_bytes (mem (text_kernel x)) user_buf 17 ! i = map char_byte x ! i"
      by (simp add: read_bytes_def text_kernel_def x)
  qed (simp add: read_bytes_def x)
  then show ?thesis by (simp add: holds_text_def text_apart)
qed

lemma text_room: "length ns \<le> 2 \<Longrightarrow> room_for (text_kernel x) ns"
proof -
  assume ns: "length ns \<le> 2"
  have "flat_lookup_inode (sb (text_kernel x)) n \<noteq> None \<longleftrightarrow> n = ''notes''" for n
    using sample_lookup [of n] by (simp add: lookup_inode_def text_kernel_def)
  then have "dom (disk (abs_fs (text_kernel x))) = {''notes''}" by (auto simp: abs_fs_def)
  then have "card (dom (disk (abs_fs (text_kernel x))) \<union> set ns) \<le> 1 + card (set ns)" using card_Un_le [of "{''notes''}" "set ns"] by simp
  also have "\<dots> \<le> 3" using ns card_length [of ns] by simp
  finally show ?thesis by (simp add: room_for_def fs_const)
qed

lemma text_at_work: "at_work 1 (files sample_ctx) (text_kernel x)"
proof -
  have "at_work 1 (files sample_ctx) sample_kernel"
    using sample_kernel_ok sample_ops tables_abs [OF sample_live] by (simp add: at_work_def sample_files)
  then show ?thesis unfolding text_kernel_def by (rule at_work_mem)
qed

lemma sample_free_fds: "free_fds (files sample_ctx) = [4..<MAX_OPEN_FILES]"
  by (simp add: free_fds_def sample_ctx_def k_const upt_conv_Cons)

lemma text_ready:
  "file_test_ready pages_env 1 [4] [20, 21] [''testFile''] (text_kernel x)"
  "file_test_ready pages_env 1 [4] [20] [''test.txt''] (text_kernel x)"
  "file_test_ready pages_env 1 [4, 5] [20, 21] [''test.txt''] (text_kernel x)"
  "file_test_ready pages_env 1 [4, 5, 6] [20, 21, 22] [''test1.txt'', ''test2.txt''] (text_kernel x)"
proof -
  have free: "fheap (text_kernel x) p = None" if "p \<noteq> 10" for p using that by (simp add: text_kernel_def)
  have fds: "free_fds (files sample_ctx) = [4] @ [5..<MAX_OPEN_FILES]" "free_fds (files sample_ctx) = [4, 5] @ [6..<MAX_OPEN_FILES]"
    "free_fds (files sample_ctx) = [4, 5, 6] @ [7..<MAX_OPEN_FILES]"
    unfolding sample_free_fds by (simp_all add: k_const upt_conv_Cons)
  show "file_test_ready pages_env 1 [4] [20, 21] [''testFile''] (text_kernel x)"
    unfolding file_test_ready_def using pages_source(2) text_room text_at_work fds(1) free by auto
  show "file_test_ready pages_env 1 [4] [20] [''test.txt''] (text_kernel x)"
    unfolding file_test_ready_def using pages_source(1) text_room text_at_work fds(1) free by auto
  show "file_test_ready pages_env 1 [4, 5] [20, 21] [''test.txt''] (text_kernel x)"
    unfolding file_test_ready_def using pages_source(2) text_room text_at_work fds(2) free by auto
  show "file_test_ready pages_env 1 [4, 5, 6] [20, 21, 22] [''test1.txt'', ''test2.txt''] (text_kernel x)"
    unfolding file_test_ready_def using pages_source(3) text_room text_at_work fds(3) free by auto
qed

theorem open_read_write_passes_witness:
  "\<exists>k'. open_read_write pages_env 1 0 user_buf (user_buf + 512) (text_kernel hello) =
     Inr (''17'' @ newline @ ''17'' @ newline @ ''Hello, I am file!'' @ newline, k')"
  using open_read_write_passes [OF text_ready(3) text_held [OF length_hello(1)] text_arrays(1), of 0] unfolding hello_def by blast

theorem dup2_lseek_passes_witness:
  "\<exists>k'. dup2_lseek pages_env 1 user_buf (text_kernel hello) = Inr (''15'' @ newline @ ''17'' @ newline, k')"
  using dup2_lseek_passes [OF text_ready(2) _ text_held [OF length_hello(1)]] by auto

theorem sendfile_passes_witness:
  "\<exists>k'. sendfile_test pages_env 1 0 user_buf (user_buf + 512) (user_buf + 1024) (text_kernel hello) =
     Inr (''buf1 = '' @ ''Hello, I am file!'' @ newline @ ''buf2 = '' @ ''Hello, I am file!'' @ newline, k')"
proof -
  have page: "buffer_apart (text_kernel hello) (buff_page pages_env k') 17" for k'
    using text_apart [of 17] by (simp add: pages_env_def sample_env_def)
  from sendfile_passes [OF text_ready(4) text_held [OF length_hello(1)] page text_arrays arrays_apart, of 0] show ?thesis
    unfolding hello_def by blast
qed

theorem common_ops_passes_witness:
  "\<exists>k'. common_ops pages_env 1 0 (\<lambda>_. 0) user_buf (user_buf + 512) (text_kernel ''#include<stdio.h>'') =
     Inr (''4'' @ newline @ ''17'' @ newline @ ''-4'' @ newline @ ''0'' @ newline @ ''-1'' @ newline @
       ''4'' @ newline @ ''17'' @ newline @ ''#include<stdio.h>'' @ newline @ ''-4'' @ newline @ ''0'' @ newline @ ''-1'' @ newline, k')"
proof -
  have lines: "print_number (int 4) = Inr (''4'' @ newline)" "print_number 0 = Inr (''0'' @ newline)" by code_simp+
  have "holds_text ''#include<stdio.h>'' (text_kernel ''#include<stdio.h>'') user_buf" by (rule text_held) simp
  from common_ops_passes [OF text_ready(1) this text_arrays(1) lines(1), of "\<lambda>_. 0", OF lines(2,2), of 0]
  show ?thesis unfolding append_assoc by blast
qed

end
